(* ===== verification/Prelude.thy ===== *)
theory Prelude
  imports Main "HOL-Library.AList" "HOL-Library.Sublist"
begin

text \<open>
  Shared vocabulary of the development: Python exceptions as values, programs that thread
  a state of the outside world and may raise, loops over lists of such programs, ordered
  dictionaries as association lists, and the generic list lemmas the components use.
\<close>

section \<open>Collections of facts\<close>

named_theorems prog_defs \<open>unfolding rules of the effect combinators\<close>
named_theorems py_eval \<open>definitions unfolded to evaluate a closed call\<close>

section \<open>Exceptions\<close>

text \<open>
  One constructor per exception class the sources raise or catch (\<open>JSONDecodeError\<close> and \<open>AdapterError\<close>, a class of one script, are
  apart because a handler names them); the string is the text
  \<open>str(e)\<close> shows. \<open>HTTPError\<close> carries the status code. The two flags of
  \<open>URLError\<close> record what the retry policy inspects: a certificate failure, and a
  resolver failure other than EAI_AGAIN. \<open>GeneratorExit\<close> closes a generator at a \<open>yield\<close>. \<open>OutOfFuel\<close> is not an exception of Python: a
  bounded model of an unbounded loop ends with it, and no handler of the models catches it.
\<close>

datatype exn =
    ValueError string
  | JSONDecodeError
  | RuntimeError string
  | KeyError string
  | TypeError string
  | IndexError string
  | AttributeError string
  | ZeroDivisionError
  | StopIteration
  | OSError string
  | AssertionError string
  | AdapterError string
  | SystemExit string
  | CalledProcessError int
  | TimeoutExpired
  | HTTPError int string
  | URLError bool bool string
  | TimeoutError string
  | ConnectionError string
  | IncompleteRead nat
  | RemoteDisconnected string
  | GeneratorExit
  | OutOfFuel

text \<open>What \<open>except Exception\<close> catches\<close>

definition is_exception :: "exn \<Rightarrow> bool" where
  "is_exception e = (case e of SystemExit _ \<Rightarrow> False | GeneratorExit \<Rightarrow> False | OutOfFuel \<Rightarrow> False | _ \<Rightarrow> True)"

text \<open>\<open>str(e)\<close>\<close>

definition exn_text :: "exn \<Rightarrow> string" where
  "exn_text e = (case e of RuntimeError m \<Rightarrow> m | ValueError m \<Rightarrow> m | KeyError m \<Rightarrow> m | OSError m \<Rightarrow> m
     | TypeError m \<Rightarrow> m | AttributeError m \<Rightarrow> m | AdapterError m \<Rightarrow> m | _ \<Rightarrow> [])"

section \<open>Programs: a threaded world, results or exceptions\<close>

type_synonym ('w, 'a) prog = "'w \<Rightarrow> (exn + 'a) \<times> 'w"

definition ret :: "'a \<Rightarrow> ('w, 'a) prog" where
  "ret x w = (Inr x, w)"

definition raise :: "exn \<Rightarrow> ('w, 'a) prog" where
  "raise e w = (Inl e, w)"

definition bnd :: "('w, 'a) prog \<Rightarrow> ('a \<Rightarrow> ('w, 'b) prog) \<Rightarrow> ('w, 'b) prog" where
  "bnd m f w = (case m w of (Inl e, w') \<Rightarrow> (Inl e, w') | (Inr x, w') \<Rightarrow> f x w')"

definition try_except :: "('w, 'a) prog \<Rightarrow> (exn \<Rightarrow> ('w, 'a) prog) \<Rightarrow> ('w, 'a) prog" where
  "try_except m h w = (case m w of (Inl e, w') \<Rightarrow> h e w' | (Inr x, w') \<Rightarrow> (Inr x, w'))"

definition try_finally :: "('w, 'a) prog \<Rightarrow> ('w \<Rightarrow> 'w) \<Rightarrow> ('w, 'a) prog" where
  "try_finally m c w = (case m w of (r, w') \<Rightarrow> (r, c w'))"

definition modify :: "('w \<Rightarrow> 'w) \<Rightarrow> ('w, unit) prog" where
  "modify f w = (Inr (), f w)"

definition gets :: "('w \<Rightarrow> 'a) \<Rightarrow> ('w, 'a) prog" where
  "gets f w = (Inr (f w), w)"

definition of_result :: "exn + 'a \<Rightarrow> ('w, 'a) prog" where
  "of_result r w = (r, w)"

text \<open>The outcome of a program as a value: \<open>try\<close> with a handler that looks at the exception\<close>

definition attempt :: "('w, 'a) prog \<Rightarrow> ('w, exn + 'a) prog" where
  "attempt m w = (case m w of (r, w') \<Rightarrow> (Inr r, w'))"

text \<open>A for loop over a list, with the loop's variables as an accumulator.\<close>

primrec for_each :: "'x list \<Rightarrow> ('x \<Rightarrow> 'a \<Rightarrow> ('w, 'a) prog) \<Rightarrow> 'a \<Rightarrow> ('w, 'a) prog" where
  "for_each [] f a = ret a"
| "for_each (x # xs) f a = bnd (f x a) (for_each xs f)"

lemmas prog_unfolds [prog_defs] =
  ret_def raise_def modify_def gets_def of_result_def

lemma bnd_ret [simp]: "bnd (ret x) f = f x"
  by (simp add: bnd_def ret_def fun_eq_iff)

lemma bnd_raise [simp]: "bnd (raise e) f = raise e"
  by (simp add: bnd_def raise_def fun_eq_iff)

lemma bnd_run:
  "m w = (Inr x, w1) \<Longrightarrow> bnd m f w = f x w1"
  "m w = (Inl e, w1) \<Longrightarrow> bnd m f w = (Inl e, w1)"
  by (simp_all add: bnd_def)

lemma bnd_assoc: "bnd (bnd m f) g = bnd m (\<lambda>x. bnd (f x) g)"
  by (auto simp: bnd_def fun_eq_iff split: prod.splits sum.splits)

lemma bnd_Inr_iff:
  "bnd m f w = (Inr y, w2) \<longleftrightarrow> (\<exists>x w1. m w = (Inr x, w1) \<and> f x w1 = (Inr y, w2))"
  by (auto simp: bnd_def split: prod.splits sum.splits)

lemma bnd_Inl_iff:
  "bnd m f w = (Inl e, w2) \<longleftrightarrow>
     m w = (Inl e, w2) \<or> (\<exists>x w1. m w = (Inr x, w1) \<and> f x w1 = (Inl e, w2))"
  by (auto simp: bnd_def split: prod.splits sum.splits)

lemma try_except_ret [simp]: "try_except (ret x) h = ret x"
  by (simp add: try_except_def ret_def fun_eq_iff)

text \<open>
  A relation between the states before and after that every step of a program keeps: the
  form of the frame and safety lemmas about effects.
\<close>

definition keeps :: "('w \<Rightarrow> 'w \<Rightarrow> bool) \<Rightarrow> ('w, 'a) prog \<Rightarrow> bool" where
  "keeps R m \<longleftrightarrow> (\<forall>w. R w (snd (m w)))"

lemma keepsI: "(\<And>w. R w (snd (m w))) \<Longrightarrow> keeps R m"
  by (simp add: keeps_def)

lemma keepsD: "keeps R m \<Longrightarrow> m w = (r, w') \<Longrightarrow> R w w'"
  unfolding keeps_def by (metis snd_conv)

lemma keeps_pure:
  assumes "reflp R"
  shows "keeps R (ret x)" "keeps R (raise e)" "keeps R (gets f)" "keeps R (of_result r)"
  using assms by (auto simp: keeps_def prog_defs reflp_def)

lemma keeps_bnd:
  assumes "transp R" "keeps R m" "\<And>x. keeps R (f x)"
  shows "keeps R (bnd m f)"
proof (rule keepsI)
  fix w
  show "R w (snd (bnd m f w))"
  proof (cases "m w")
    case (Pair r w1)
    then have "R w w1" using assms(2) by (metis keepsD)
    with Pair assms(1,3) show ?thesis
      by (cases r) (auto simp: bnd_def keeps_def elim: transpE)
  qed
qed

lemma keeps_try_except:
  assumes "transp R" "keeps R m" "\<And>e. keeps R (h e)"
  shows "keeps R (try_except m h)"
proof (rule keepsI)
  fix w
  show "R w (snd (try_except m h w))"
  proof (cases "m w")
    case (Pair r w1)
    then have "R w w1" using assms(2) by (metis keepsD)
    with Pair assms(1,3) show ?thesis
      by (cases r) (auto simp: try_except_def keeps_def elim: transpE)
  qed
qed

lemma keeps_attempt: "keeps R m \<Longrightarrow> keeps R (attempt m)"
  unfolding keeps_def attempt_def by (metis (mono_tags, lifting) case_prod_beta snd_conv)

lemma keeps_for_each:
  assumes "reflp R" "transp R" "\<And>x a. x \<in> set xs \<Longrightarrow> keeps R (f x a)"
  shows "keeps R (for_each xs f a)"
  using assms(3)
proof (induction xs arbitrary: a)
  case Nil
  then show ?case using assms(1) by (simp add: keeps_pure)
next
  case (Cons x xs)
  then show ?case using assms(2) by (simp add: keeps_bnd)
qed

lemma keeps_case:
  "(\<And>a b. keeps R (f a b)) \<Longrightarrow> keeps R (case p of (a, b) \<Rightarrow> f a b)"
  by (cases p) simp

text \<open>A relation that composes along the steps of a program\<close>

locale step_relation =
  fixes R :: "'w \<Rightarrow> 'w \<Rightarrow> bool"
  assumes refl: "R w w"
    and trans: "R a b \<Longrightarrow> R b c \<Longrightarrow> R a c"
begin

lemma rel: "reflp R" "transp R"
  using refl trans by (auto simp: reflp_def transp_def)

lemmas pure = keeps_pure [OF rel(1)]
lemmas seq = keeps_bnd [OF rel(2)]
lemmas handler = keeps_try_except [OF rel(2)]
lemmas loop = keeps_for_each [OF rel]

end

text \<open>A program that never runs out of fuel\<close>

definition ends :: "('w, 'a) prog \<Rightarrow> bool" where
  "ends m \<longleftrightarrow> (\<forall>w. fst (m w) \<noteq> Inl OutOfFuel)"

lemma ends_bnd: "ends m \<Longrightarrow> (\<And>x. ends (f x)) \<Longrightarrow> ends (bnd m f)"
  unfolding ends_def
proof
  fix w
  assume m: "\<forall>w. fst (m w) \<noteq> Inl OutOfFuel" and f: "\<And>x. \<forall>w. fst (f x w) \<noteq> Inl OutOfFuel"
  obtain r w1 where r: "m w = (r, w1)" by fastforce
  then have "r \<noteq> Inl OutOfFuel" using m by (metis fst_conv)
  then show "fst (bnd m f w) \<noteq> Inl OutOfFuel" using f by (cases r) (auto simp: bnd_def r)
qed

lemma ends_pure: "ends (ret x)" "ends (modify g)" "ends (gets h)" "e \<noteq> OutOfFuel \<Longrightarrow> ends (raise e)"
  "r \<noteq> Inl OutOfFuel \<Longrightarrow> ends (of_result r)"
  by (simp_all add: ends_def prog_defs)

lemma ends_for_each: "(\<And>x a. ends (f x a)) \<Longrightarrow> ends (for_each xs f a)"
  by (induction xs arbitrary: a) (simp_all add: ends_pure ends_bnd)

section \<open>Results without effects\<close>

definition rbnd :: "exn + 'a \<Rightarrow> ('a \<Rightarrow> exn + 'b) \<Rightarrow> exn + 'b" where
  "rbnd m f = (case m of Inl e \<Rightarrow> Inl e | Inr x \<Rightarrow> f x)"

lemma rbnd_simps [simp]: "rbnd (Inl e) f = Inl e" "rbnd (Inr x) f = f x"
  by (simp_all add: rbnd_def)

lemma rbnd_Inr_iff: "rbnd m f = Inr y \<longleftrightarrow> (\<exists>x. m = Inr x \<and> f x = Inr y)"
  by (cases m) auto

section \<open>Dictionaries\<close>

text \<open>
  A Python dict keeps insertion order: it is an association list with distinct keys.
  \<open>d[k] = v\<close> is \<open>AList.update\<close> (in place for a known key, else at the
  end), \<open>d.pop(k, None)\<close> is \<open>AList.delete\<close>, \<open>d.get(k)\<close> is \<open>map_of\<close>.
\<close>

lemma update_same: "map_of d k = Some v \<Longrightarrow> AList.update k v d = d"
  by (induction d) auto

lemma update_overwrite: "AList.update k v (AList.update k u d) = AList.update k v d"
  by (induction d) auto

lemma update_commute:
  "k \<noteq> j \<Longrightarrow> k \<in> fst ` set d \<Longrightarrow> AList.update k v (AList.update j u d) = AList.update j u (AList.update k v d)"
  by (induction d) auto

lemma delete_absent: "map_of d k = None \<Longrightarrow> AList.delete k d = d"
  by (rule delete_id) (simp add: map_of_eq_None_iff)

lemma delete_after_update: "AList.delete k (AList.update k v d) = AList.delete k d"
  by (induction d) auto

lemma delete_update_commute: "k \<noteq> j \<Longrightarrow> AList.delete k (AList.update j v d) = AList.update j v (AList.delete k d)"
  by (induction d) auto

definition bump_count :: "'k \<Rightarrow> ('k \<times> nat) list \<Rightarrow> ('k \<times> nat) list" where
  "bump_count k d = AList.update k (case map_of d k of None \<Rightarrow> 1 | Some n \<Rightarrow> Suc n) d"

definition count_of :: "('k \<times> nat) list \<Rightarrow> 'k \<Rightarrow> nat" where
  "count_of d k = (case map_of d k of None \<Rightarrow> 0 | Some n \<Rightarrow> n)"

lemma count_of_bump: "count_of (bump_count k d) j = (if j = k then Suc (count_of d k) else count_of d j)"
  by (simp add: count_of_def bump_count_def update_conv' split: option.splits)

section \<open>Insertion-ordered deduplication\<close>

text \<open>
  Keep the first element of each key, in order, dropping the elements the loop skips:
  the shape of every deduplicating loop of the scripts.
\<close>

fun dedup_on :: "('a \<Rightarrow> 'k) \<Rightarrow> 'k list \<Rightarrow> 'a list \<Rightarrow> 'a list" where
  "dedup_on key seen [] = []"
| "dedup_on key seen (x # xs) =
     (if key x \<in> set seen then dedup_on key seen xs
      else x # dedup_on key (key x # seen) xs)"

lemma set_dedup_on_keys: "key ` set (dedup_on key seen xs) = key ` set xs - set seen"
  by (induction key seen xs rule: dedup_on.induct) auto

lemma dedup_on_subset: "set (dedup_on key seen xs) \<subseteq> set xs"
  by (induction key seen xs rule: dedup_on.induct) auto

lemma distinct_dedup_on: "distinct (map key (dedup_on key seen xs))"
proof (induction key seen xs rule: dedup_on.induct)
  case (2 key seen x xs)
  then show ?case
    using set_dedup_on_keys [of key "key x # seen" xs] by auto
qed simp

lemma dedup_on_subseq: "subseq (dedup_on key seen xs) xs"
  by (induction key seen xs rule: dedup_on.induct) auto

lemma dedup_on_id:
  "distinct (map key xs) \<Longrightarrow> key ` set xs \<inter> set seen = {} \<Longrightarrow> dedup_on key seen xs = xs"
  by (induction key seen xs rule: dedup_on.induct) auto

lemma dedup_on_idem: "dedup_on key [] (dedup_on key [] xs) = dedup_on key [] xs"
  by (rule dedup_on_id) (simp_all add: distinct_dedup_on)

section \<open>Lists\<close>

fun enum_from :: "nat \<Rightarrow> 'a list \<Rightarrow> (nat \<times> 'a) list" where
  "enum_from i [] = []"
| "enum_from i (x # xs) = (i, x) # enum_from (Suc i) xs"

lemma length_enum_from [simp]: "length (enum_from i xs) = length xs"
  by (induction i xs rule: enum_from.induct) auto

lemma map_snd_enum_from [simp]: "map snd (enum_from i xs) = xs"
  by (induction i xs rule: enum_from.induct) auto

lemma enum_from_conv: "enum_from i xs = zip [i..<i + length xs] xs"
proof (induction i xs rule: enum_from.induct)
  case (2 i x xs)
  then show ?case by (simp add: upt_conv_Cons del: upt_Suc)
qed simp

definition last_n :: "nat \<Rightarrow> 'a list \<Rightarrow> 'a list" where
  "last_n n xs = drop (length xs - n) xs"

lemma length_last_n [simp]: "length (last_n n xs) = min n (length xs)"
  by (simp add: last_n_def)

lemma set_last_n: "set (last_n n xs) \<subseteq> set xs"
  by (simp add: last_n_def set_drop_subset)

end
