(* ===== verification/Py_Text.thy ===== *)
theory Py_Text
  imports Prelude "HOL-Library.Char_ord" "HOL-Library.List_Lexorder"
begin

text \<open>
  The part of Python's \<open>str\<close> and \<open>int\<close> the scripts use. A text is a list of
  bytes in UTF-8 (\<open>string\<close>); character classes and case mapping are those of the
  ASCII range, and \<open>len\<close> counts bytes. Lexicographic order of texts is the order
  Python's \<open>sorted\<close> uses.
\<close>

section \<open>Character classes\<close>

definition is_space :: "char \<Rightarrow> bool" where
  "is_space c \<longleftrightarrow> c \<in> set [CHR '' '', CHR 0x0A, CHR 0x09, CHR 0x0D, CHR 0x0B, CHR 0x0C,
                            CHR 0x1C, CHR 0x1D, CHR 0x1E, CHR 0x1F]"

definition is_digit :: "char \<Rightarrow> bool" where
  "is_digit c \<longleftrightarrow> c \<in> set ''0123456789''"

definition is_lower :: "char \<Rightarrow> bool" where
  "is_lower c \<longleftrightarrow> c \<in> set ''abcdefghijklmnopqrstuvwxyz''"

definition is_upper :: "char \<Rightarrow> bool" where
  "is_upper c \<longleftrightarrow> c \<in> set ''ABCDEFGHIJKLMNOPQRSTUVWXYZ''"

definition is_alpha :: "char \<Rightarrow> bool" where
  "is_alpha c \<longleftrightarrow> is_lower c \<or> is_upper c"

definition is_alnum :: "char \<Rightarrow> bool" where
  "is_alnum c \<longleftrightarrow> is_alpha c \<or> is_digit c"

text \<open>\<open>\w\<close>: letters, digits, underscore; bytes above 127 belong to letters of other scripts.\<close>

definition is_word :: "char \<Rightarrow> bool" where
  "is_word c \<longleftrightarrow> is_alnum c \<or> c = CHR ''_'' \<or> (case c of Char _ _ _ _ _ _ _ b7 \<Rightarrow> b7)"

text \<open>\<open>string.punctuation\<close>\<close>

definition is_punct :: "char \<Rightarrow> bool" where
  "is_punct c \<longleftrightarrow> c \<in> set (''!#$%&()*+,-./:;<=>?@[]^_`{|}~'' @ [CHR 0x22, CHR 0x27, CHR 0x5C])"

definition lower_char :: "char \<Rightarrow> char" where
  "lower_char c = (if is_upper c
     then (case c of Char b0 b1 b2 b3 b4 b5 b6 b7 \<Rightarrow> Char b0 b1 b2 b3 b4 True b6 b7) else c)"

definition upper_char :: "char \<Rightarrow> char" where
  "upper_char c = (if is_lower c
     then (case c of Char b0 b1 b2 b3 b4 b5 b6 b7 \<Rightarrow> Char b0 b1 b2 b3 b4 False b6 b7) else c)"

definition lower :: "string \<Rightarrow> string" where
  "lower s = map lower_char s"

definition upper :: "string \<Rightarrow> string" where
  "upper s = map upper_char s"

lemma is_upper_lower_char [simp]: "\<not> is_upper (lower_char c)"
  by (auto simp: lower_char_def is_upper_def)

lemma lower_char_idem [simp]: "lower_char (lower_char c) = lower_char c"
  using is_upper_lower_char [of c] by (simp add: lower_char_def [of "lower_char c"])

lemma lower_idem [simp]: "lower (lower s) = lower s"
  by (simp add: lower_def)

lemma length_lower [simp]: "length (lower s) = length s"
  by (simp add: lower_def)

lemma is_space_lower_char [simp]: "is_space (lower_char c) = is_space c"
  by (auto simp: lower_char_def is_upper_def is_space_def)

section \<open>Stripping and splitting\<close>

definition lstrip :: "string \<Rightarrow> string" where
  "lstrip s = dropWhile is_space s"

definition rstrip :: "string \<Rightarrow> string" where
  "rstrip s = rev (dropWhile is_space (rev s))"

definition strip :: "string \<Rightarrow> string" where
  "strip s = rstrip (lstrip s)"

text \<open>\<open>s.strip(chars)\<close>\<close>

definition strip_chars :: "string \<Rightarrow> string \<Rightarrow> string" where
  "strip_chars cs s = rev (dropWhile (\<lambda>c. c \<in> set cs) (rev (dropWhile (\<lambda>c. c \<in> set cs) s)))"

definition rstrip_chars :: "string \<Rightarrow> string \<Rightarrow> string" where
  "rstrip_chars cs s = rev (dropWhile (\<lambda>c. c \<in> set cs) (rev s))"

lemma rstrip_rstrip [simp]: "rstrip (rstrip s) = rstrip s"
  by (simp add: rstrip_def)

lemma rstrip_Nil [simp]: "rstrip [] = []"
  by (simp add: rstrip_def)

lemma strip_Nil [simp]: "strip [] = []"
  by (simp add: strip_def lstrip_def)

lemma rstrip_eq_Nil: "rstrip s = [] \<longleftrightarrow> (\<forall>c \<in> set s. is_space c)"
  by (simp add: rstrip_def)

lemma rstrip_split: "\<exists>t. s = rstrip s @ t \<and> (\<forall>c \<in> set t. is_space c)"
proof -
  have "s = rstrip s @ rev (takeWhile is_space (rev s))"
    unfolding rstrip_def by (metis rev_append rev_rev_ident takeWhile_dropWhile_id)
  then show ?thesis by (metis set_rev set_takeWhileD)
qed

lemma rstrip_last: "rstrip s \<noteq> [] \<Longrightarrow> \<not> is_space (last (rstrip s))"
  unfolding rstrip_def by (metis hd_dropWhile last_rev rev.simps(1) rev_rev_ident)

lemma rstrip_id: "s = [] \<or> \<not> is_space (last s) \<Longrightarrow> rstrip s = s"
  by (cases s rule: rev_cases) (auto simp: rstrip_def)

lemma lstrip_id: "s = [] \<or> \<not> is_space (hd s) \<Longrightarrow> lstrip s = s"
  by (cases s) (auto simp: lstrip_def)

lemma lstrip_first: "lstrip s \<noteq> [] \<Longrightarrow> \<not> is_space (hd (lstrip s))"
  unfolding lstrip_def by (rule hd_dropWhile)

lemma strip_first: "strip s \<noteq> [] \<Longrightarrow> \<not> is_space (hd (strip s))"
proof -
  assume ne: "strip s \<noteq> []"
  obtain t where "lstrip s = strip s @ t"
    unfolding strip_def using rstrip_split by blast
  with ne lstrip_first [of s] show ?thesis by auto
qed

lemma strip_last: "strip s \<noteq> [] \<Longrightarrow> \<not> is_space (last (strip s))"
  unfolding strip_def by (rule rstrip_last)

lemma strip_idem [simp]: "strip (strip s) = strip s"
proof -
  have "lstrip (strip s) = strip s"
    by (rule lstrip_id) (use strip_first in blast)
  then show ?thesis by (simp add: strip_def)
qed

lemma rstrip_append_space: "\<forall>c \<in> set t. is_space c \<Longrightarrow> rstrip (s @ t) = rstrip s"
  unfolding rstrip_def rev_append by (subst dropWhile_append2) auto

lemma set_strip: "set (strip s) \<subseteq> set s"
  by (auto simp: strip_def lstrip_def rstrip_def dest!: set_dropWhileD)

lemma length_strip_le: "length (strip s) \<le> length s"
proof -
  have "length (strip s) \<le> length (lstrip s)"
    by (simp add: strip_def rstrip_def length_dropWhile_le le_trans)
       (metis length_dropWhile_le length_rev)
  also have "\<dots> \<le> length s" by (simp add: lstrip_def length_dropWhile_le)
  finally show ?thesis .
qed

lemma lstrip_lower: "lstrip (lower s) = lower (lstrip s)"
  by (induction s) (auto simp: lstrip_def lower_def)

lemma rstrip_lower: "rstrip (lower s) = lower (rstrip s)"
proof -
  have "dropWhile is_space (map lower_char xs) = map lower_char (dropWhile is_space xs)" for xs
    by (induction xs) auto
  then show ?thesis by (simp add: rstrip_def lower_def rev_map)
qed

lemma strip_lower: "strip (lower s) = lower (strip s)"
  by (simp add: strip_def lstrip_lower rstrip_lower)

text \<open>\<open>s.split()\<close>\<close>

fun words_aux :: "string \<Rightarrow> string \<Rightarrow> string list" where
  "words_aux cur [] = (if cur = [] then [] else [rev cur])"
| "words_aux cur (c # cs) =
     (if is_space c then (if cur = [] then words_aux [] cs else rev cur # words_aux [] cs)
      else words_aux (c # cur) cs)"

definition split_ws :: "string \<Rightarrow> string list" where
  "split_ws s = words_aux [] s"

text \<open>\<open>s.split(c)\<close> for one character\<close>

fun split_on :: "char \<Rightarrow> string \<Rightarrow> string list" where
  "split_on c [] = [[]]"
| "split_on c (x # xs) =
     (case split_on c xs of
        [] \<Rightarrow> [[x]]
      | y # ys \<Rightarrow> if x = c then [] # y # ys else (x # y) # ys)"

fun join :: "string \<Rightarrow> string list \<Rightarrow> string" where
  "join sep [] = []"
| "join sep [x] = x"
| "join sep (x # y # ys) = x @ sep @ join sep (y # ys)"

lemma split_on_ne [simp]: "split_on c s \<noteq> []"
  by (cases s) (auto split: list.splits)

lemma join_split_on: "join [c] (split_on c s) = s"
proof (induction c s rule: split_on.induct)
  case (2 c x xs)
  obtain y ys where "split_on c xs = y # ys" by (cases "split_on c xs") auto
  with 2 show ?case by (cases ys) auto
qed simp

text \<open>\<open>s.splitlines()\<close> and \<open>s.splitlines(keepends=True)\<close>\<close>

definition is_line_break :: "char \<Rightarrow> bool" where
  "is_line_break c \<longleftrightarrow> c \<in> set [CHR 0x0A, CHR 0x0D, CHR 0x0B, CHR 0x0C, CHR 0x1C, CHR 0x1D, CHR 0x1E]"

fun lines_aux :: "bool \<Rightarrow> string \<Rightarrow> string \<Rightarrow> string list" where
  "lines_aux keep cur [] = (if cur = [] then [] else [rev cur])"
| "lines_aux keep cur (c # cs) =
     (if c = CHR 0x0D \<and> cs \<noteq> [] \<and> hd cs = CHR 0x0A
      then rev ((if keep then [CHR 0x0A, CHR 0x0D] else []) @ cur) # lines_aux keep [] (tl cs)
      else if is_line_break c
      then rev ((if keep then [c] else []) @ cur) # lines_aux keep [] cs
      else lines_aux keep (c # cur) cs)"

definition splitlines :: "string \<Rightarrow> string list" where
  "splitlines s = lines_aux False [] s"

definition splitlines_keep :: "string \<Rightarrow> string list" where
  "splitlines_keep s = lines_aux True [] s"

lemma concat_lines_aux: "concat (lines_aux True cur s) = rev cur @ s"
proof (induction True cur s rule: lines_aux.induct)
  case (2 cur c cs)
  then show ?case by (cases cs) auto
qed simp

lemma concat_splitlines_keep: "concat (splitlines_keep s) = s"
  by (simp add: splitlines_keep_def concat_lines_aux)

lemma lines_aux_no_break:
  "x \<in> set (lines_aux keep cur s) \<Longrightarrow> \<not> keep \<Longrightarrow> \<forall>c \<in> set cur. \<not> is_line_break c \<Longrightarrow>
   \<forall>c \<in> set x. \<not> is_line_break c"
proof (induction keep cur s rule: lines_aux.induct)
  case (2 keep cur c cs)
  have nk: "keep = False" using "2.prems"(2) by simp
  consider (crlf) "c = CHR 0x0D \<and> cs \<noteq> [] \<and> hd cs = CHR 0x0A"
    | (brk) "\<not> (c = CHR 0x0D \<and> cs \<noteq> [] \<and> hd cs = CHR 0x0A)" "is_line_break c"
    | (plain) "\<not> (c = CHR 0x0D \<and> cs \<noteq> [] \<and> hd cs = CHR 0x0A)" "\<not> is_line_break c"
    by blast
  then show ?case
  proof cases
    case crlf
    then have "x = rev cur \<or> x \<in> set (lines_aux keep [] (tl cs))"
      using "2.prems"(1) nk by (simp only: lines_aux.simps) simp
    with "2.IH"(1) [OF crlf] "2.prems"(2,3) show ?thesis by fastforce
  next
    case brk
    then have "x = rev cur \<or> x \<in> set (lines_aux keep [] cs)"
      using "2.prems"(1) nk by (simp only: lines_aux.simps if_not_P if_P) simp
    with "2.IH"(2) [OF brk] "2.prems"(2,3) show ?thesis by fastforce
  next
    case plain
    then have "x \<in> set (lines_aux keep (c # cur) cs)"
      using "2.prems"(1) by (simp only: lines_aux.simps if_not_P if_P) simp
    with "2.IH"(3) [OF plain] "2.prems"(2,3) plain show ?thesis by fastforce
  qed
qed (auto split: if_splits)

lemma splitlines_no_break: "x \<in> set (splitlines s) \<Longrightarrow> c \<in> set x \<Longrightarrow> \<not> is_line_break c"
  unfolding splitlines_def using lines_aux_no_break [of x False "[]" s] by simp

text \<open>What a text file reads as: universal newlines\<close>

fun universal :: "string \<Rightarrow> string" where
  "universal [] = []"
| "universal [c] = (if c = CHR 0x0D then [CHR 0x0A] else [c])"
| "universal (c # d # ds) =
     (if c = CHR 0x0D
      then (if d = CHR 0x0A then CHR 0x0A # universal ds else CHR 0x0A # universal (d # ds))
      else c # universal (d # ds))"

lemma universal_no_cr: "CHR 0x0D \<notin> set (universal s)"
  by (induction s rule: universal.induct) auto

lemma universal_id: "CHR 0x0D \<notin> set s \<Longrightarrow> universal s = s"
  by (induction s rule: universal.induct) auto

section \<open>Searching and replacing\<close>

definition starts_with :: "string \<Rightarrow> string \<Rightarrow> bool" where
  "starts_with s p \<longleftrightarrow> take (length p) s = p"

definition ends_with :: "string \<Rightarrow> string \<Rightarrow> bool" where
  "ends_with s p \<longleftrightarrow> starts_with (rev s) (rev p)"

lemma starts_with_append [simp]: "starts_with (p @ s) p"
  by (simp add: starts_with_def)

lemma starts_with_prefix: "starts_with s p \<longleftrightarrow> prefix p s"
  unfolding starts_with_def by (metis append_eq_conv_conj append_take_drop_id prefix_def)

lemma ends_with_suffix: "ends_with s p \<longleftrightarrow> (\<exists>t. s = t @ p)"
proof -
  have "ends_with s p \<longleftrightarrow> prefix (rev p) (rev s)" by (simp add: ends_with_def starts_with_prefix)
  then show ?thesis by (simp add: suffix_to_prefix [symmetric] suffix_def)
qed

text \<open>\<open>s.find(p)\<close>: the first position, or None for -1\<close>

fun find_from :: "nat \<Rightarrow> string \<Rightarrow> string \<Rightarrow> nat option" where
  "find_from i p [] = (if p = [] then Some i else None)"
| "find_from i p (c # cs) = (if starts_with (c # cs) p then Some i else find_from (Suc i) p cs)"

definition find_sub :: "string \<Rightarrow> string \<Rightarrow> nat option" where
  "find_sub s p = find_from 0 p s"

definition contains :: "string \<Rightarrow> string \<Rightarrow> bool" where
  "contains s p \<longleftrightarrow> find_sub s p \<noteq> None"

text \<open>\<open>s.replace(old, new)\<close> and \<open>s.count(old)\<close>: occurrences do not overlap\<close>

fun replace_aux :: "nat \<Rightarrow> string \<Rightarrow> string \<Rightarrow> string \<Rightarrow> string" where
  "replace_aux k old new [] = []"
| "replace_aux (Suc k) old new (c # cs) = replace_aux k old new cs"
| "replace_aux 0 old new (c # cs) =
     (if starts_with (c # cs) old then new @ replace_aux (length old - 1) old new cs
      else c # replace_aux 0 old new cs)"

definition replace_all :: "string \<Rightarrow> string \<Rightarrow> string \<Rightarrow> string" where
  "replace_all old new s = replace_aux 0 old new s"

fun count_aux :: "nat \<Rightarrow> string \<Rightarrow> string \<Rightarrow> nat" where
  "count_aux k p [] = 0"
| "count_aux (Suc k) p (c # cs) = count_aux k p cs"
| "count_aux 0 p (c # cs) =
     (if starts_with (c # cs) p then Suc (count_aux (length p - 1) p cs) else count_aux 0 p cs)"

definition count_sub :: "string \<Rightarrow> string \<Rightarrow> nat" where
  "count_sub s p = count_aux 0 p s"

text \<open>\<open>s.partition(c)\<close>: head, whether the separator was found, tail\<close>

definition partition_char :: "char \<Rightarrow> string \<Rightarrow> string \<times> bool \<times> string" where
  "partition_char c s =
     (let h = takeWhile (\<lambda>x. x \<noteq> c) s; t = dropWhile (\<lambda>x. x \<noteq> c) s
      in (h, t \<noteq> [], tl t))"

section \<open>Integers as text\<close>

definition digit_char :: "nat \<Rightarrow> char" where
  "digit_char d = ''0123456789'' ! d"

definition digit_val :: "char \<Rightarrow> nat" where
  "digit_val c = length (takeWhile (\<lambda>x. x \<noteq> c) ''0123456789'')"

fun show_nat :: "nat \<Rightarrow> string" where
  "show_nat n = (if n < 10 then [digit_char n] else show_nat (n div 10) @ [digit_char (n mod 10)])"

declare show_nat.simps [simp del]

definition show_int :: "int \<Rightarrow> string" where
  "show_int i = (if i < 0 then CHR ''-'' # show_nat (nat (- i)) else show_nat (nat i))"

definition read_nat :: "string \<Rightarrow> nat" where
  "read_nat s = foldl (\<lambda>a c. 10 * a + digit_val c) 0 s"

text \<open>\<open>int(s)\<close>: surrounding space, a sign, and single underscores between digits are allowed.\<close>

definition py_int_body :: "string \<Rightarrow> nat option" where
  "py_int_body s =
     (let parts = split_on (CHR ''_'') s
      in if list_all (\<lambda>p. p \<noteq> [] \<and> list_all is_digit p) parts then Some (read_nat (concat parts))
         else None)"

definition py_int :: "string \<Rightarrow> int option" where
  "py_int s =
     (case strip s of
        [] \<Rightarrow> None
      | c # cs \<Rightarrow>
          if c = CHR ''-'' then map_option (\<lambda>n. - int n) (py_int_body cs)
          else if c = CHR ''+'' then map_option int (py_int_body cs)
          else map_option int (py_int_body (c # cs)))"

text \<open>\<open>f"{i:0wd}"\<close>\<close>

definition zero_pad :: "nat \<Rightarrow> int \<Rightarrow> string" where
  "zero_pad w i =
     (let d = show_nat (nat \<bar>i\<bar>); sign = (if i < 0 then ''-'' else [])
      in sign @ replicate (w - length d - length sign) (CHR ''0'') @ d)"

lemma less_10_cases: "(d::nat) < 10 \<longleftrightarrow> d \<in> {0, 1, 2, 3, 4, 5, 6, 7, 8, 9}"
  by auto

lemma digit_val_char [simp]: "d < 10 \<Longrightarrow> digit_val (digit_char d) = d"
  by (auto simp: less_10_cases digit_char_def digit_val_def)

lemma is_digit_char [simp]: "d < 10 \<Longrightarrow> is_digit (digit_char d)"
  by (auto simp: less_10_cases digit_char_def is_digit_def)

lemma digit_val_less: "is_digit c \<Longrightarrow> digit_val c < 10"
  by (auto simp: is_digit_def digit_val_def)

lemma read_nat_snoc: "read_nat (s @ [c]) = 10 * read_nat s + digit_val c"
  by (simp add: read_nat_def)

lemma show_nat_ne [simp]: "show_nat n \<noteq> []"
  by (subst show_nat.simps) simp

lemma show_nat_digits: "c \<in> set (show_nat n) \<Longrightarrow> is_digit c"
proof (induction n rule: show_nat.induct)
  case (1 n)
  show ?case
  proof (cases "n < 10")
    case True
    with "1.prems" show ?thesis by (simp add: show_nat.simps [of n])
  next
    case False
    with "1.prems" have "c \<in> set (show_nat (n div 10)) \<or> c = digit_char (n mod 10)"
      by (auto simp: show_nat.simps [of n])
    with "1.IH" False show ?thesis by auto
  qed
qed

lemma read_show_nat [simp]: "read_nat (show_nat n) = n"
proof (induction n rule: show_nat.induct)
  case (1 n)
  show ?case
  proof (cases "n < 10")
    case True
    then show ?thesis by (simp add: show_nat.simps [of n] read_nat_def)
  next
    case False
    with 1 show ?thesis by (simp add: show_nat.simps [of n] read_nat_snoc)
  qed
qed

lemma is_digit_not_space: "is_digit c \<Longrightarrow> \<not> is_space c"
  by (auto simp: is_digit_def is_space_def)

lemma split_on_notin: "c \<notin> set s \<Longrightarrow> split_on c s = [s]"
  by (induction s) auto

lemma digits_no_underscore: "list_all is_digit s \<Longrightarrow> CHR ''_'' \<notin> set s"
  by (auto simp: list_all_iff is_digit_def)

lemma py_int_body_digits: "s \<noteq> [] \<Longrightarrow> list_all is_digit s \<Longrightarrow> py_int_body s = Some (read_nat s)"
  by (simp add: py_int_body_def split_on_notin digits_no_underscore)

lemma list_all_show_nat [simp]: "list_all is_digit (show_nat n)"
  by (simp add: list_all_iff show_nat_digits)

lemma strip_no_space: "\<forall>c \<in> set s. \<not> is_space c \<Longrightarrow> strip s = s"
proof -
  assume a: "\<forall>c \<in> set s. \<not> is_space c"
  then have "lstrip s = s" by (intro lstrip_id) (cases s, auto)
  moreover from a have "rstrip s = s" by (intro rstrip_id) (cases s rule: rev_cases, auto)
  ultimately show ?thesis by (simp add: strip_def)
qed

lemma digits_not_space: "\<forall>c \<in> set (show_nat n). \<not> is_space c"
  using show_nat_digits is_digit_not_space by blast

lemma py_int_show_int [simp]: "py_int (show_int i) = Some i"
proof (cases "i < 0")
  case True
  have "strip (CHR ''-'' # show_nat (nat (- i))) = CHR ''-'' # show_nat (nat (- i))"
  proof (rule strip_no_space)
    have "\<not> is_space (CHR ''-'')" by (simp add: is_space_def)
    then show "\<forall>c \<in> set (CHR ''-'' # show_nat (nat (- i))). \<not> is_space c"
      using digits_not_space by simp
  qed
  with True show ?thesis
    by (simp add: show_int_def py_int_def py_int_body_digits)
next
  case False
  have st: "strip (show_nat (nat i)) = show_nat (nat i)"
    by (rule strip_no_space) (rule digits_not_space)
  obtain c cs where c: "show_nat (nat i) = c # cs" by (cases "show_nat (nat i)") auto
  have "is_digit c" using show_nat_digits [of c "nat i"] c by simp
  then have "c \<noteq> CHR ''-''" "c \<noteq> CHR ''+''" by (auto simp: is_digit_def)
  then show ?thesis
    using False st c py_int_body_digits [of "c # cs"] list_all_show_nat [of "nat i"] read_show_nat [of "nat i"]
    by (simp add: show_int_def py_int_def)
qed

lemma show_nat_inj: "show_nat m = show_nat n \<Longrightarrow> m = n"
  by (metis read_show_nat)

lemma show_int_inj: "show_int i = show_int j \<Longrightarrow> i = j"
  by (metis py_int_show_int option.inject)

section \<open>Words\<close>

lemma words_aux_split: "is_space c \<Longrightarrow> words_aux cur (a @ c # b) = words_aux cur a @ words_aux [] b"
  by (induction cur a rule: words_aux.induct) auto

lemma split_ws_Nil [simp]: "split_ws [] = []"
  by (simp add: split_ws_def)

lemma split_ws_leading: "\<forall>c\<in>set w. is_space c \<Longrightarrow> split_ws (w @ s) = split_ws s"
  by (induction w) (auto simp: split_ws_def)

lemma split_ws_spaces: "\<forall>c\<in>set w. is_space c \<Longrightarrow> split_ws w = []"
  using split_ws_leading [of w "[]"] by simp

lemma split_ws_gap:
  assumes "w \<noteq> []" "\<forall>c\<in>set w. is_space c"
  shows "split_ws (a @ w @ b) = split_ws a @ split_ws b"
proof -
  obtain c v where w: "w = c # v" using assms(1) by (cases w) auto
  have "split_ws (a @ c # v @ b) = split_ws a @ split_ws (v @ b)"
    using assms(2) words_aux_split [of c "[]" a "v @ b"] by (simp add: split_ws_def w)
  then show ?thesis using split_ws_leading [of v b] assms(2) by (simp add: w)
qed

lemma split_ws_strip [simp]: "split_ws (strip s) = split_ws s"
proof -
  obtain t where t: "lstrip s = strip s @ t" "\<forall>c\<in>set t. is_space c"
    unfolding strip_def using rstrip_split by blast
  have "split_ws (lstrip s) = split_ws s"
    using split_ws_leading [of "takeWhile is_space s" "lstrip s"] by (simp add: lstrip_def) (metis set_takeWhileD)
  moreover have "split_ws (strip s @ t) = split_ws (strip s)"
    using split_ws_gap [of t "strip s" "[]"] t(2) by (cases "t = []") simp_all
  ultimately show ?thesis unfolding t(1) by simp
qed

definition words_in :: "string list \<Rightarrow> string list" where
  "words_in xs = concat (map split_ws xs)"

lemma words_in_simps [simp]:
  "words_in [] = []" "words_in (x # xs) = split_ws x @ words_in xs" "words_in (xs @ ys) = words_in xs @ words_in ys"
  by (simp_all add: words_in_def)

lemma split_ws_join:
  assumes "sep \<noteq> []" "\<forall>c\<in>set sep. is_space c"
  shows "split_ws (join sep xs) = words_in xs"
proof (induction xs rule: induct_list012)
  case (3 x y ys)
  then show ?case using split_ws_gap [OF assms, of x "join sep (y # ys)"] by simp
qed simp_all

lemma words_in_strip: "words_in (filter (\<lambda>s. s \<noteq> []) (map strip xs)) = words_in xs"
proof (induction xs)
  case (Cons x xs)
  show ?case
  proof (cases "strip x = []")
    case True
    then have "split_ws x = []" using split_ws_strip [of x] by simp
    with True Cons show ?thesis by simp
  qed (use Cons in simp)
qed simp

end
