(* ===== verification/Py_Json.thy ===== *)
theory Py_Json
  imports Py_Text
begin

text \<open>
  JSON documents as Python sees them after \<open>json.loads\<close>, the texts \<open>json.dumps\<close>
  writes for them (ensure_ascii=False) and the parser of \<open>json.loads\<close>, with the round
  trip between the two. A float is kept as its decimal \<open>m / 10^k\<close>; rounding to binary
  floating point, NaN and surrogate pairs are outside the model.
\<close>

section \<open>Documents\<close>

datatype json =
    JNull
  | JBool bool
  | JInt int
  | JDec int nat
  | JStr string
  | JArr "json list"
  | JObj "(string \<times> json) list"

definition jget :: "(string \<times> json) list \<Rightarrow> string \<Rightarrow> json" where
  "jget d k = (case map_of d k of None \<Rightarrow> JNull | Some v \<Rightarrow> v)"

fun truthy :: "json \<Rightarrow> bool" where
  "truthy JNull = False"
| "truthy (JBool b) = b"
| "truthy (JInt i) = (i \<noteq> 0)"
| "truthy (JDec m k) = (m \<noteq> 0)"
| "truthy (JStr s) = (s \<noteq> [])"
| "truthy (JArr xs) = (xs \<noteq> [])"
| "truthy (JObj d) = (d \<noteq> [])"

definition is_obj :: "json \<Rightarrow> bool" where
  "is_obj j = (case j of JObj _ \<Rightarrow> True | _ \<Rightarrow> False)"

definition is_arr :: "json \<Rightarrow> bool" where
  "is_arr j = (case j of JArr _ \<Rightarrow> True | _ \<Rightarrow> False)"

fun obj_of :: "json \<Rightarrow> (string \<times> json) list" where
  "obj_of (JObj d) = d"
| "obj_of _ = []"

fun arr_of :: "json \<Rightarrow> json list" where
  "arr_of (JArr xs) = xs"
| "arr_of _ = []"

text \<open>Pairs read left to right into a dict: a repeated key keeps its place, the last value wins.\<close>

definition dict_of_pairs :: "('k \<times> 'v) list \<Rightarrow> ('k \<times> 'v) list" where
  "dict_of_pairs ps = foldl (\<lambda>d (k, v). AList.update k v d) [] ps"

lemma update_fresh: "k \<notin> fst ` set d \<Longrightarrow> AList.update k v d = d @ [(k, v)]"
  by (induction d) auto

lemma foldl_update_fresh:
  "distinct (map fst (d @ ps)) \<Longrightarrow> foldl (\<lambda>d (k, v). AList.update k v d) d ps = d @ ps"
proof (induction ps arbitrary: d)
  case (Cons p ps)
  obtain k v where p: "p = (k, v)" by (cases p)
  with Cons.prems have "AList.update k v d = d @ [(k, v)]" by (intro update_fresh) auto
  with Cons.IH [of "d @ [(k, v)]"] Cons.prems p show ?case by simp
qed simp

lemma dict_of_pairs_distinct: "distinct (map fst ps) \<Longrightarrow> dict_of_pairs ps = ps"
  using foldl_update_fresh [of "[]" ps] by (simp add: dict_of_pairs_def)

section \<open>Printing\<close>

definition is_ctrl :: "char \<Rightarrow> bool" where
  "is_ctrl c = (case c of Char _ _ _ _ _ b5 b6 b7 \<Rightarrow> \<not> b5 \<and> \<not> b6 \<and> \<not> b7)"

definition hex_digits :: string where
  "hex_digits = ''0123456789abcdef''"

definition nibble :: "bool \<Rightarrow> bool \<Rightarrow> bool \<Rightarrow> bool \<Rightarrow> char" where
  "nibble b0 b1 b2 b3 =
     hex_digits ! ((if b0 then 1 else 0) + (if b1 then 2 else 0) + (if b2 then 4 else 0) + (if b3 then 8 else 0))"

definition esc_char :: "char \<Rightarrow> string" where
  "esc_char c =
     (if c = CHR 0x22 then [CHR 0x5C, CHR 0x22]
      else if c = CHR 0x5C then [CHR 0x5C, CHR 0x5C]
      else if c = CHR 0x0A then [CHR 0x5C, CHR ''n'']
      else if c = CHR 0x0D then [CHR 0x5C, CHR ''r'']
      else if c = CHR 0x09 then [CHR 0x5C, CHR ''t'']
      else if c = CHR 0x08 then [CHR 0x5C, CHR ''b'']
      else if c = CHR 0x0C then [CHR 0x5C, CHR ''f'']
      else if is_ctrl c then
        (case c of Char b0 b1 b2 b3 b4 b5 b6 b7 \<Rightarrow>
           [CHR 0x5C, CHR ''u'', CHR ''0'', CHR ''0'', nibble b4 b5 b6 b7, nibble b0 b1 b2 b3])
      else [c])"

definition quote :: "string \<Rightarrow> string" where
  "quote s = [CHR 0x22] @ concat (map esc_char s) @ [CHR 0x22]"

definition show_dec :: "int \<Rightarrow> nat \<Rightarrow> string" where
  "show_dec m k =
     (let a = nat \<bar>m\<bar>; f = show_nat (a mod 10 ^ k) in
      (if m < 0 then ''-'' else []) @
      (if k = 0 then show_nat a @ ''.0''
       else show_nat (a div 10 ^ k) @ ''.'' @ replicate (k - length f) (CHR ''0'') @ f))"

text \<open>The layout: item separator, key separator, and the indentation of a nesting depth.\<close>

record layout =
  isep :: string
  ksep :: string
  nl :: "nat \<Rightarrow> string"

definition default_layout :: layout where
  "default_layout = \<lparr>isep = '', '', ksep = '': '', nl = (\<lambda>_. [])\<rparr>"

definition compact_layout :: layout where
  "compact_layout = \<lparr>isep = '','', ksep = '':'', nl = (\<lambda>_. [])\<rparr>"

definition indent2_layout :: layout where
  "indent2_layout = \<lparr>isep = '','', ksep = '': '', nl = (\<lambda>d. CHR 0x0A # replicate (2 * d) (CHR '' ''))\<rparr>"

fun dumps_at :: "layout \<Rightarrow> nat \<Rightarrow> json \<Rightarrow> string"
  and dump_items :: "layout \<Rightarrow> nat \<Rightarrow> json list \<Rightarrow> string"
  and dump_members :: "layout \<Rightarrow> nat \<Rightarrow> (string \<times> json) list \<Rightarrow> string" where
  "dumps_at L d JNull = ''null''"
| "dumps_at L d (JBool b) = (if b then ''true'' else ''false'')"
| "dumps_at L d (JInt i) = show_int i"
| "dumps_at L d (JDec m k) = show_dec m k"
| "dumps_at L d (JStr s) = quote s"
| "dumps_at L d (JArr xs) =
     (if xs = [] then ''[]''
      else CHR ''['' # nl L (Suc d) @ dump_items L (Suc d) xs @ nl L d @ '']'')"
| "dumps_at L d (JObj kvs) =
     (if kvs = [] then ''{}''
      else CHR ''{'' # nl L (Suc d) @ dump_members L (Suc d) kvs @ nl L d @ ''}'')"
| "dump_items L d [] = []"
| "dump_items L d (x # xs) =
     dumps_at L d x @ (if xs = [] then [] else isep L @ nl L d @ dump_items L d xs)"
| "dump_members L d [] = []"
| "dump_members L d ((k, v) # kvs) =
     quote k @ ksep L @ dumps_at L d v @
     (if kvs = [] then [] else isep L @ nl L d @ dump_members L d kvs)"

definition json_dumps :: "layout \<Rightarrow> json \<Rightarrow> string" where
  "json_dumps L j = dumps_at L 0 j"

section \<open>The texts of \<open>repr\<close> and \<open>str\<close>\<close>

definition repr_char :: "char \<Rightarrow> char \<Rightarrow> string" where
  "repr_char q c =
     (if c = q \<or> c = CHR 0x5C then [CHR 0x5C, c]
      else if c = CHR 0x0A then [CHR 0x5C, CHR ''n'']
      else if c = CHR 0x0D then [CHR 0x5C, CHR ''r'']
      else if c = CHR 0x09 then [CHR 0x5C, CHR ''t'']
      else if is_ctrl c \<or> c = CHR 0x7F then
        (case c of Char b0 b1 b2 b3 b4 b5 b6 b7 \<Rightarrow>
           [CHR 0x5C, CHR ''x'', nibble b4 b5 b6 b7, nibble b0 b1 b2 b3])
      else [c])"

definition repr_str :: "string \<Rightarrow> string" where
  "repr_str s =
     (let q = (if CHR 0x27 \<in> set s \<and> CHR 0x22 \<notin> set s then CHR 0x22 else CHR 0x27)
      in [q] @ concat (map (repr_char q) s) @ [q])"

fun py_repr :: "json \<Rightarrow> string" where
  "py_repr JNull = ''None''"
| "py_repr (JBool b) = (if b then ''True'' else ''False'')"
| "py_repr (JInt i) = show_int i"
| "py_repr (JDec m k) = show_dec m k"
| "py_repr (JStr s) = repr_str s"
| "py_repr (JArr xs) = ''['' @ join '', '' (map py_repr xs) @ '']''"
| "py_repr (JObj kvs) = ''{'' @ join '', '' (map (\<lambda>p. repr_str (fst p) @ '': '' @ py_repr (snd p)) kvs) @ ''}''"

definition py_str :: "json \<Rightarrow> string" where
  "py_str j = (case j of JStr s \<Rightarrow> s | _ \<Rightarrow> py_repr j)"

section \<open>Parsing\<close>

definition is_ws :: "char \<Rightarrow> bool" where
  "is_ws c \<longleftrightarrow> c \<in> set [CHR '' '', CHR 0x09, CHR 0x0A, CHR 0x0D]"

definition skip_ws :: "string \<Rightarrow> string" where
  "skip_ws s = dropWhile is_ws s"

definition hex_val :: "char \<Rightarrow> nat option" where
  "hex_val c = map_of (zip hex_digits [0, 1, 2, 3, 4, 5, 6, 7, 8, 9, 10, 11, 12, 13, 14, 15]) (lower_char c)"

text \<open>UTF-8 of one code point of the basic plane\<close>

definition utf8 :: "nat \<Rightarrow> string" where
  "utf8 n =
     (if n < 0x80 then [char_of n]
      else if n < 0x800 then [char_of (0xC0 + n div 64), char_of (0x80 + n mod 64)]
      else [char_of (0xE0 + n div 4096), char_of (0x80 + (n div 64) mod 64), char_of (0x80 + n mod 64)])"

definition hex4 :: "string \<Rightarrow> nat option" where
  "hex4 s = (case map hex_val s of
       [Some a, Some b, Some c, Some d] \<Rightarrow> Some (((a * 16 + b) * 16 + c) * 16 + d)
     | _ \<Rightarrow> None)"

definition simple_escape :: "char \<Rightarrow> char option" where
  "simple_escape c =
     map_of [(CHR 0x22, CHR 0x22), (CHR 0x5C, CHR 0x5C), (CHR ''/'', CHR ''/''),
             (CHR ''n'', CHR 0x0A), (CHR ''r'', CHR 0x0D), (CHR ''t'', CHR 0x09),
             (CHR ''b'', CHR 0x08), (CHR ''f'', CHR 0x0C)] c"

text \<open>The text after an opening quote: the string read and the rest after the closing quote.\<close>

fun parse_str :: "string \<Rightarrow> (string \<times> string) option" where
  "parse_str [] = None"
| "parse_str (c # cs) =
     (if c = CHR 0x22 then Some ([], cs)
      else if c = CHR 0x5C then
        (case cs of
           [] \<Rightarrow> None
         | e # es \<Rightarrow>
             if e = CHR ''u'' then
               (case hex4 (take 4 es) of
                  None \<Rightarrow> None
                | Some n \<Rightarrow> map_option (\<lambda>(t, r). (utf8 n @ t, r)) (parse_str (drop 4 es)))
             else
               (case simple_escape e of
                  None \<Rightarrow> None
                | Some x \<Rightarrow> map_option (\<lambda>(t, r). (x # t, r)) (parse_str es)))
      else if is_ctrl c then None
      else map_option (\<lambda>(t, r). (c # t, r)) (parse_str cs))"

text \<open>
  A number: sign, integer part without leading zeros, optional fraction and exponent. A
  float keeps at least one decimal and no trailing zero after the first, as \<open>repr\<close> shows it.
\<close>

fun norm_dec :: "int \<Rightarrow> nat \<Rightarrow> json" where
  "norm_dec m 0 = JDec (10 * m) 1"
| "norm_dec m (Suc 0) = JDec m 1"
| "norm_dec m (Suc (Suc k)) = (if m mod 10 = 0 then norm_dec (m div 10) (Suc k) else JDec m (Suc (Suc k)))"

definition apply_exponent :: "int \<Rightarrow> nat \<Rightarrow> int \<Rightarrow> json" where
  "apply_exponent m k e =
     (if int k \<le> e then norm_dec (m * 10 ^ nat (e - int k)) 0 else norm_dec m (nat (int k - e)))"

definition parse_exponent :: "string \<Rightarrow> (int \<times> string) option" where
  "parse_exponent s =
     (case s of
        [] \<Rightarrow> None
      | e # t \<Rightarrow>
          if e = CHR ''e'' \<or> e = CHR ''E'' then
            (let neg = (t \<noteq> [] \<and> hd t = CHR ''-'');
                 u = (if t \<noteq> [] \<and> (hd t = CHR ''-'' \<or> hd t = CHR ''+'') then tl t else t);
                 ds = takeWhile is_digit u
             in if ds = [] then None
                else Some (if neg then - int (read_nat ds) else int (read_nat ds), dropWhile is_digit u))
          else None)"

definition parse_num :: "string \<Rightarrow> (json \<times> string) option" where
  "parse_num s =
     (let neg = (s \<noteq> [] \<and> hd s = CHR ''-'');
          t = (if neg then tl s else s);
          ds = (if t \<noteq> [] \<and> hd t = CHR ''0'' then [CHR ''0''] else takeWhile is_digit t);
          r = drop (length ds) t;
          sg = (\<lambda>n. if neg then - int n else int n)
      in if ds = [] then None
         else
           (let frac = (if r \<noteq> [] \<and> hd r = CHR ''.'' then takeWhile is_digit (tl r) else []);
                r2 = (if frac = [] then r else drop (Suc (length frac)) r)
            in case parse_exponent r2 of
                 Some (e, r3) \<Rightarrow> Some (apply_exponent (sg (read_nat (ds @ frac))) (length frac) e, r3)
               | None \<Rightarrow>
                   if frac = [] then Some (JInt (sg (read_nat ds)), r2)
                   else Some (norm_dec (sg (read_nat (ds @ frac))) (length frac), r2)))"

text \<open>
  Recursive descent; the fuel bounds the number of nested calls, and every call reads at
  least one byte, so the length of the text plus one is enough.
\<close>

fun parse_val :: "nat \<Rightarrow> string \<Rightarrow> (json \<times> string) option"
  and parse_items :: "nat \<Rightarrow> string \<Rightarrow> (json list \<times> string) option"
  and parse_members :: "nat \<Rightarrow> string \<Rightarrow> ((string \<times> json) list \<times> string) option" where
  "parse_val 0 s = None"
| "parse_val (Suc n) s =
     (case s of
        [] \<Rightarrow> None
      | c # cs \<Rightarrow>
          if c = CHR 0x22 then map_option (\<lambda>(t, r). (JStr t, r)) (parse_str cs)
          else if c = CHR ''['' then
            (let t = skip_ws cs in
             if t \<noteq> [] \<and> hd t = CHR '']'' then Some (JArr [], tl t)
             else map_option (\<lambda>(xs, r). (JArr xs, r)) (parse_items n t))
          else if c = CHR ''{'' then
            (let t = skip_ws cs in
             if t \<noteq> [] \<and> hd t = CHR ''}'' then Some (JObj [], tl t)
             else map_option (\<lambda>(kvs, r). (JObj (dict_of_pairs kvs), r)) (parse_members n t))
          else if starts_with s ''null'' then Some (JNull, drop 4 s)
          else if starts_with s ''true'' then Some (JBool True, drop 4 s)
          else if starts_with s ''false'' then Some (JBool False, drop 5 s)
          else parse_num s)"
| "parse_items 0 s = None"
| "parse_items (Suc n) s =
     (case parse_val n s of
        None \<Rightarrow> None
      | Some (x, r) \<Rightarrow>
          (case skip_ws r of
             [] \<Rightarrow> None
           | c # t \<Rightarrow>
               if c = CHR '']'' then Some ([x], t)
               else if c = CHR '','' then map_option (\<lambda>(xs, r). (x # xs, r)) (parse_items n (skip_ws t))
               else None))"
| "parse_members 0 s = None"
| "parse_members (Suc n) s =
     (case s of
        [] \<Rightarrow> None
      | q # s1 \<Rightarrow>
          if q \<noteq> CHR 0x22 then None
          else
            (case parse_str s1 of
               None \<Rightarrow> None
             | Some (k, s2) \<Rightarrow>
                 (case skip_ws s2 of
                    [] \<Rightarrow> None
                  | c # s3 \<Rightarrow>
                      if c \<noteq> CHR '':'' then None
                      else
                        (case parse_val n (skip_ws s3) of
                           None \<Rightarrow> None
                         | Some (v, r) \<Rightarrow>
                             (case skip_ws r of
                                [] \<Rightarrow> None
                              | e # t \<Rightarrow>
                                  if e = CHR ''}'' then Some ([(k, v)], t)
                                  else if e = CHR '','' then
                                    map_option (\<lambda>(kvs, r). ((k, v) # kvs, r)) (parse_members n (skip_ws t))
                                  else None)))))"

definition json_loads :: "string \<Rightarrow> json option" where
  "json_loads s =
     (case parse_val (Suc (length s)) (skip_ws s) of
        Some (j, r) \<Rightarrow> if skip_ws r = [] then Some j else None
      | None \<Rightarrow> None)"

section \<open>Round trip\<close>

text \<open>Documents \<open>json.dumps\<close> can print back, and layouts whose separators are JSON punctuation.\<close>

fun json_ok :: "json \<Rightarrow> bool" where
  "json_ok (JDec m k) = (0 < k \<and> (k = 1 \<or> m mod 10 \<noteq> 0))"
| "json_ok (JArr xs) = (\<forall>x \<in> set xs. json_ok x)"
| "json_ok (JObj kvs) = (distinct (map fst kvs) \<and> (\<forall>p \<in> set kvs. json_ok (snd p)))"
| "json_ok _ = True"

definition good_layout :: "layout \<Rightarrow> bool" where
  "good_layout L \<longleftrightarrow>
     (\<exists>w. isep L = CHR '','' # w \<and> list_all is_ws w) \<and>
     (\<exists>w. ksep L = CHR '':'' # w \<and> list_all is_ws w) \<and>
     (\<forall>d. list_all is_ws (nl L d))"

lemma good_layouts: "good_layout default_layout" "good_layout compact_layout" "good_layout indent2_layout"
  by (auto simp: good_layout_def default_layout_def compact_layout_def indent2_layout_def is_ws_def list_all_iff)

lemma hex_val_nibble [simp]:
  "hex_val (nibble b0 b1 b2 b3) =
     Some ((if b0 then 1 else 0) + (if b1 then 2 else 0) + (if b2 then 4 else 0) + (if b3 then 8 else 0))"
  by (cases b0; cases b1; cases b2; cases b3)
     (simp_all add: nibble_def hex_digits_def hex_val_def lower_char_def is_upper_def)

lemma hex_val_0 [simp]: "hex_val (CHR ''0'') = Some 0"
  by (simp add: hex_digits_def hex_val_def lower_char_def is_upper_def)

lemma char_of_ctrl:
  "char_of ((((0::nat) * 16 + 0) * 16 +
     ((if b4 then 1 else 0) + (if False then 2 else 0) + (if False then 4 else 0) + (if False then 8 else 0))) * 16 +
     ((if b0 then 1 else 0) + (if b1 then 2 else 0) + (if b2 then 4 else 0) + (if b3 then 8 else 0)))
   = Char b0 b1 b2 b3 b4 False False False"
  by (cases b0; cases b1; cases b2; cases b3; cases b4) (simp_all add: char_of_def bit_iff_odd)

lemma esc_char_hex:
  "is_ctrl c \<Longrightarrow> c \<notin> set [CHR 0x0A, CHR 0x0D, CHR 0x09, CHR 0x08, CHR 0x0C] \<Longrightarrow>
   esc_char c = (case c of Char b0 b1 b2 b3 b4 b5 b6 b7 \<Rightarrow>
     [CHR 0x5C, CHR ''u'', CHR ''0'', CHR ''0'', nibble b4 b5 b6 b7, nibble b0 b1 b2 b3])"
proof -
  assume a: "is_ctrl c" "c \<notin> set [CHR 0x0A, CHR 0x0D, CHR 0x09, CHR 0x08, CHR 0x0C]"
  have "c \<noteq> CHR 0x22" "c \<noteq> CHR 0x5C" using a(1) by (auto simp: is_ctrl_def)
  with a show ?thesis by (simp add: esc_char_def)
qed

lemma parse_str_hex:
  "parse_str ([CHR 0x5C, CHR ''u'', CHR ''0'', CHR ''0'', nibble b4 False False False, nibble b0 b1 b2 b3] @ t)
     = map_option (\<lambda>(x, r). (Char b0 b1 b2 b3 b4 False False False # x, r)) (parse_str t)"
proof -
  let ?n = "(((0::nat) * 16 + 0) * 16 +
     ((if b4 then 1 else 0) + (if False then 2 else 0) + (if False then 4 else 0) + (if False then 8 else 0))) * 16 +
     ((if b0 then 1 else 0) + (if b1 then 2 else 0) + (if b2 then 4 else 0) + (if b3 then 8 else 0))"
  have h4: "hex4 [CHR ''0'', CHR ''0'', nibble b4 False False False, nibble b0 b1 b2 b3] = Some ?n"
    by (simp only: hex4_def list.map hex_val_nibble hex_val_0 list.case option.case)
  have "?n < 0x80" by simp
  then have u: "utf8 ?n = [Char b0 b1 b2 b3 b4 False False False]"
    unfolding utf8_def using char_of_ctrl [of b4 b0 b1 b2 b3] by (simp only: if_True)
  have tk: "take 4 (CHR ''0'' # CHR ''0'' # x # y # t) = [CHR ''0'', CHR ''0'', x, y]"
    and dr: "drop 4 (CHR ''0'' # CHR ''0'' # x # y # t) = t" for x y
    by (simp_all add: numeral_eq_Suc)
  have "parse_str ([CHR 0x5C, CHR ''u'', CHR ''0'', CHR ''0'', nibble b4 False False False, nibble b0 b1 b2 b3] @ t)
      = (case hex4 (take 4 (CHR ''0'' # CHR ''0'' # nibble b4 False False False # nibble b0 b1 b2 b3 # t)) of
           None \<Rightarrow> None
         | Some n \<Rightarrow> map_option (\<lambda>(x, r). (utf8 n @ x, r))
             (parse_str (drop 4 (CHR ''0'' # CHR ''0'' # nibble b4 False False False # nibble b0 b1 b2 b3 # t))))"
    by simp
  then show ?thesis unfolding tk dr h4 option.case u by simp
qed

lemma parse_str_esc_char: "parse_str (esc_char c @ t) = map_option (\<lambda>(x, r). (c # x, r)) (parse_str t)"
proof -
  consider (plain) "\<not> is_ctrl c" | (named) "c \<in> set [CHR 0x0A, CHR 0x0D, CHR 0x09, CHR 0x08, CHR 0x0C]"
    | (hex) "is_ctrl c" "c \<notin> set [CHR 0x0A, CHR 0x0D, CHR 0x09, CHR 0x08, CHR 0x0C]"
    by blast
  then show ?thesis
  proof cases
    case plain
    then have "c \<notin> set [CHR 0x0A, CHR 0x0D, CHR 0x09, CHR 0x08, CHR 0x0C]" by (auto simp: is_ctrl_def)
    with plain show ?thesis by (simp add: esc_char_def simple_escape_def)
  next
    case named
    then show ?thesis by (auto simp: esc_char_def simple_escape_def)
  next
    case hex
    obtain b0 b1 b2 b3 b4 b5 b6 b7 where c: "c = Char b0 b1 b2 b3 b4 b5 b6 b7" by (cases c)
    with hex(1) have b: "b5 = False" "b6 = False" "b7 = False" by (auto simp: is_ctrl_def)
    show ?thesis
      unfolding esc_char_hex [OF hex] unfolding c char.case b by (rule parse_str_hex)
  qed
qed

lemma parse_str_quote: "parse_str (concat (map esc_char s) @ CHR 0x22 # r) = Some (s, r)"
  by (induction s) (simp_all add: parse_str_esc_char)

definition num_stop :: "string \<Rightarrow> bool" where
  "num_stop r \<longleftrightarrow> r = [] \<or> \<not> (is_digit (hd r) \<or> hd r = CHR ''.'' \<or> hd r = CHR ''e'' \<or> hd r = CHR ''E'')"

lemma show_nat_hd: "n \<noteq> 0 \<Longrightarrow> hd (show_nat n) \<noteq> CHR ''0''"
proof (induction n rule: show_nat.induct)
  case (1 n)
  show ?case
  proof (cases "n < 10")
    case True
    with "1.prems" show ?thesis
      by (auto simp: show_nat.simps [of n] less_10_cases digit_char_def)
  next
    case False
    then have "n div 10 \<noteq> 0" by auto
    with "1.IH" False show ?thesis by (simp add: show_nat.simps [of n])
  qed
qed

lemma show_nat_0 [simp]: "show_nat 0 = ''0''"
  by (simp add: show_nat.simps digit_char_def)

lemma takeWhile_digits: "list_all is_digit ds \<Longrightarrow> r = [] \<or> \<not> is_digit (hd r) \<Longrightarrow> takeWhile is_digit (ds @ r) = ds"
  by (cases r) (auto simp: takeWhile_append list_all_iff)

text \<open>the integer part the number parser reads\<close>

lemma int_part_show_nat:
  "r = [] \<or> \<not> is_digit (hd r) \<Longrightarrow>
   (if show_nat n @ r \<noteq> [] \<and> hd (show_nat n @ r) = CHR ''0'' then [CHR ''0''] else takeWhile is_digit (show_nat n @ r))
     = show_nat n"
  by (cases "n = 0") (auto simp: show_nat_hd takeWhile_digits)

lemma parse_exponent_stop: "num_stop r \<Longrightarrow> parse_exponent r = None"
  by (cases r) (auto simp: num_stop_def parse_exponent_def)

lemma show_nat_not_minus: "hd (show_nat n) \<noteq> CHR ''-''"
  using show_nat_digits [of "hd (show_nat n)" n] by (auto simp: is_digit_def)

lemma parse_num_show_int: "num_stop r \<Longrightarrow> parse_num (show_int i @ r) = Some (JInt i, r)"
proof -
  assume r: "num_stop r"
  define s where "s = show_nat (nat \<bar>i\<bar>)"
  have stop: "r = [] \<or> \<not> is_digit (hd r)" using r by (auto simp: num_stop_def)
  have dot: "\<not> (r \<noteq> [] \<and> hd r = CHR ''.'')" using r by (auto simp: num_stop_def)
  have neg: "(show_int i @ r \<noteq> [] \<and> hd (show_int i @ r) = CHR ''-'') = (i < 0)"
    using show_nat_not_minus by (auto simp: show_int_def)
  have tl: "(if i < 0 then tl (show_int i @ r) else show_int i @ r) = s @ r"
    by (simp add: show_int_def s_def)
  have ds: "(if s @ r \<noteq> [] \<and> hd (s @ r) = CHR ''0'' then [CHR ''0''] else takeWhile is_digit (s @ r)) = s"
    unfolding s_def by (rule int_part_show_nat [OF stop])
  have ne: "s \<noteq> []" by (simp add: s_def)
  show ?thesis
    unfolding parse_num_def neg Let_def tl ds
    using ne dot r by (auto simp: parse_exponent_stop s_def)
qed

lemma read_nat_append: "read_nat (xs @ ys) = read_nat xs * 10 ^ length ys + read_nat ys"
proof (induction ys rule: rev_induct)
  case (snoc y ys)
  then show ?case using read_nat_snoc [of "xs @ ys" y] read_nat_snoc [of ys y] by simp
qed (simp add: read_nat_def)

lemma read_nat_zeros [simp]: "read_nat (replicate n (CHR ''0'')) = 0"
proof (induction n)
  case (Suc n)
  then show ?case using read_nat_snoc [of "replicate n (CHR ''0'')" "CHR ''0''"]
    by (simp add: digit_val_def flip: replicate_append_same)
qed (simp add: read_nat_def)

lemma length_show_nat: "n < 10 ^ k \<Longrightarrow> 0 < k \<Longrightarrow> length (show_nat n) \<le> k"
proof (induction k arbitrary: n)
  case (Suc k)
  show ?case
  proof (cases "n < 10")
    case True
    then show ?thesis by (simp add: show_nat.simps [of n])
  next
    case False
    then have "0 < k" using Suc.prems(1) by (cases k) auto
    moreover have "n div 10 < 10 ^ k" using Suc.prems(1) by simp
    ultimately show ?thesis using Suc.IH False by (simp add: show_nat.simps [of n])
  qed
qed simp

lemma norm_dec_id: "0 < k \<Longrightarrow> k = 1 \<or> m mod 10 \<noteq> 0 \<Longrightarrow> norm_dec m k = JDec m k"
  by (induction m k rule: norm_dec.induct) auto

lemma json_ok_norm_dec: "json_ok (norm_dec m k)"
  by (induction m k rule: norm_dec.induct) auto

lemma parse_num_show_dec:
  assumes k: "0 < k" and k2: "k = 1 \<or> m mod 10 \<noteq> 0" and r: "num_stop r"
  shows "parse_num (show_dec m k @ r) = Some (JDec m k, r)"
proof -
  define a where "a = nat \<bar>m\<bar>"
  define f where "f = show_nat (a mod 10 ^ k)"
  define fr where "fr = replicate (k - length f) (CHR ''0'') @ f"
  define s where "s = show_nat (a div 10 ^ k)"
  have eq: "show_dec m k @ r = (if m < 0 then ''-'' else []) @ s @ CHR ''.'' # fr @ r"
    using k by (simp add: show_dec_def Let_def a_def f_def fr_def s_def)
  have len: "length fr = k"
    using k length_show_nat [of "a mod 10 ^ k" k] by (simp add: fr_def f_def)
  have stop: "r = [] \<or> \<not> is_digit (hd r)" using r by (auto simp: num_stop_def)
  have "is_digit (CHR ''0'')" by (simp add: is_digit_def)
  then have frd: "list_all is_digit fr"
    unfolding fr_def f_def list_all_append by (simp add: list_all_iff show_nat_digits)
  have tw: "takeWhile is_digit (fr @ r) = fr" by (rule takeWhile_digits [OF frd stop])
  have ne: "fr \<noteq> []" "s \<noteq> []" using len k by (auto simp: s_def)
  have neg: "(show_dec m k @ r \<noteq> [] \<and> hd (show_dec m k @ r) = CHR ''-'') = (m < 0)"
    unfolding eq using show_nat_not_minus [of "a div 10 ^ k"] ne by (auto simp: s_def)
  have tl: "(if m < 0 then tl (show_dec m k @ r) else show_dec m k @ r) = s @ CHR ''.'' # fr @ r"
    unfolding eq by simp
  have ds: "(if s @ CHR ''.'' # fr @ r \<noteq> [] \<and> hd (s @ CHR ''.'' # fr @ r) = CHR ''0'' then [CHR ''0'']
             else takeWhile is_digit (s @ CHR ''.'' # fr @ r)) = s"
    unfolding s_def by (rule int_part_show_nat) (simp add: is_digit_def)
  have "read_nat fr = a mod 10 ^ k" by (simp add: fr_def f_def read_nat_append)
  then have rd: "read_nat (s @ fr) = a"
    by (simp only: read_nat_append len s_def read_show_nat div_mult_mod_eq)
  have sg: "m < 0 \<Longrightarrow> - int a = m" "\<not> m < 0 \<Longrightarrow> int a = m" by (simp_all add: a_def)
  have dr: "drop (length s) (s @ CHR ''.'' # fr @ r) = CHR ''.'' # fr @ r"
    "drop (Suc (length fr)) (CHR ''.'' # fr @ r) = r" by simp_all
  show ?thesis
    unfolding parse_num_def neg Let_def tl ds dr
    by (simp add: ne tw rd len sg dr parse_exponent_stop [OF r] norm_dec_id [OF k k2])
qed


text \<open>the first byte of a printed document\<close>

lemma show_int_hd: "\<exists>c t. show_int i = c # t \<and> (is_digit c \<or> c = CHR ''-'')"
proof (cases "i < 0")
  case False
  obtain c t where "show_nat (nat i) = c # t" by (cases "show_nat (nat i)") auto
  with False show_nat_digits [of c "nat i"] show ?thesis by (simp add: show_int_def)
qed (simp add: show_int_def)

lemma show_dec_hd: "\<exists>c t. show_dec m k = c # t \<and> (is_digit c \<or> c = CHR ''-'')"
proof -
  have n: "\<exists>c t. show_nat a @ r = c # t \<and> is_digit c" for a r
  proof -
    obtain c t where "show_nat a = c # t" by (cases "show_nat a") auto
    with show_nat_digits [of c a] show ?thesis by simp
  qed
  show ?thesis
  proof (cases "k = 0")
    case True
    with n [of "nat \<bar>m\<bar>" "''.0''"] show ?thesis by (cases "m < 0") (auto simp: show_dec_def Let_def)
  next
    case False
    obtain r where "show_dec m k = (if m < 0 then ''-'' else []) @ show_nat (nat \<bar>m\<bar> div 10 ^ k) @ r"
      using False by (simp add: show_dec_def Let_def)
    with n [of "nat \<bar>m\<bar> div 10 ^ k" r] show ?thesis by (cases "m < 0") auto
  qed
qed

definition val_start :: "char \<Rightarrow> bool" where
  "val_start c \<longleftrightarrow> is_digit c \<or> c \<in> set (''-[{ntf'' @ [CHR 0x22])"

lemma val_startD: "val_start c \<Longrightarrow> \<not> is_ws c \<and> c \<noteq> CHR '']'' \<and> c \<noteq> CHR ''}''"
  by (auto simp: val_start_def is_ws_def is_digit_def)

lemma dumps_at_hd: "\<exists>c t. dumps_at L d j = c # t \<and> val_start c"
proof (cases j)
  case (JInt i)
  then show ?thesis using show_int_hd [of i] by (auto simp: val_start_def)
next
  case (JDec m k)
  then show ?thesis using show_dec_hd [of m k] by (auto simp: val_start_def)
qed (simp_all add: val_start_def quote_def)

lemma skip_ws_append: "list_all is_ws w \<Longrightarrow> skip_ws (w @ s) = skip_ws s"
  unfolding skip_ws_def list_all_iff by (subst dropWhile_append2) auto

lemma skip_ws_Cons [simp]: "\<not> is_ws c \<Longrightarrow> skip_ws (c # s) = c # s"
  by (simp add: skip_ws_def)

lemma skip_ws_dumps: "list_all is_ws w \<Longrightarrow> skip_ws (w @ dumps_at L d j @ r) = dumps_at L d j @ r"
  using dumps_at_hd [of L d j] by (auto simp: skip_ws_append dest: val_startD)

lemma num_stop_ws: "list_all is_ws w \<Longrightarrow> num_stop (c # s) \<Longrightarrow> num_stop (w @ c # s)"
  by (cases w) (auto simp: num_stop_def is_ws_def is_digit_def)

lemma num_stop_close [simp]:
  "num_stop (CHR '']'' # s)" "num_stop (CHR ''}'' # s)" "num_stop (CHR '','' # s)" "num_stop []"
  by (auto simp: num_stop_def is_digit_def)

lemma no_ws [simp]: "\<not> is_ws (CHR '','')" "\<not> is_ws (CHR '':'')" "\<not> is_ws (CHR '']'')" "\<not> is_ws (CHR ''}'')"
  "\<not> is_ws (CHR 0x22)"
  by (simp_all add: is_ws_def)

lemma good_layoutE:
  assumes "good_layout L"
  obtains wi wk where "isep L = CHR '','' # wi" "list_all is_ws wi"
    "ksep L = CHR '':'' # wk" "list_all is_ws wk" "\<And>d. list_all is_ws (nl L d)"
  using assms by (auto simp: good_layout_def)

lemma not_digit_start [simp]:
  "\<not> is_digit (CHR 0x22)" "\<not> is_digit (CHR ''['')" "\<not> is_digit (CHR ''{'')"
  by (simp_all add: is_digit_def)

lemma parse_val_number:
  assumes "s = c # t" "is_digit c \<or> c = CHR ''-''"
  shows "parse_val (Suc n) s = parse_num s"
  using assms by (auto simp: is_digit_def starts_with_def)

lemma dump_items_ne: "xs \<noteq> [] \<Longrightarrow> 0 < length (dump_items L d xs)"
  using dumps_at_hd [of L d "hd xs"] by (cases xs) auto

text \<open>
  The round trip by induction over the printer, with enough fuel for the printed text.
\<close>

lemma parse_dumps:
  shows "good_layout L \<Longrightarrow> json_ok j \<Longrightarrow> num_stop r \<Longrightarrow> length (dumps_at L d j) \<le> n \<Longrightarrow>
      parse_val (Suc n) (dumps_at L d j @ r) = Some (j, r)"
    and "good_layout L \<Longrightarrow> \<forall>x \<in> set xs. json_ok x \<Longrightarrow> xs \<noteq> [] \<Longrightarrow> length (dump_items L d xs) + 2 \<le> n \<Longrightarrow> list_all is_ws w \<Longrightarrow>
      parse_items n (dump_items L d xs @ w @ CHR '']'' # r) = Some (xs, r)"
    and "good_layout L \<Longrightarrow> \<forall>p \<in> set kvs. json_ok (snd p) \<Longrightarrow> kvs \<noteq> [] \<Longrightarrow> length (dump_members L d kvs) + 2 \<le> n \<Longrightarrow> list_all is_ws w \<Longrightarrow>
      parse_members n (dump_members L d kvs @ w @ CHR ''}'' # r) = Some (kvs, r)"
proof (induction L d j and L d xs and L d kvs arbitrary: n r and n r w and n r w
    rule: dumps_at_dump_items_dump_members.induct)
  case (3 L d i)
  obtain c t where "show_int i @ r = c # t" "is_digit c \<or> c = CHR ''-''"
    using show_int_hd [of i] by auto
  then have "parse_val (Suc n) (show_int i @ r) = parse_num (show_int i @ r)" by (rule parse_val_number)
  then show ?case using 3 by (simp add: parse_num_show_int del: parse_val.simps)
next
  case (4 L d m k)
  obtain c t where "show_dec m k @ r = c # t" "is_digit c \<or> c = CHR ''-''"
    using show_dec_hd [of m k] by auto
  then have "parse_val (Suc n) (show_dec m k @ r) = parse_num (show_dec m k @ r)" by (rule parse_val_number)
  then show ?case using 4 by (simp add: parse_num_show_dec del: parse_val.simps)
next
  case (5 L d s)
  then show ?case by (simp add: quote_def parse_str_quote)
next
  case (6 L d xs)
  note good = \<open>good_layout L\<close>
  show ?case
  proof (cases "xs = []")
    case False
    have w: "list_all is_ws (nl L d)" "list_all is_ws (nl L (Suc d))" using good by (simp_all add: good_layout_def)
    obtain x ys where xs: "xs = x # ys" using False by (cases xs) auto
    have sk: "skip_ws (nl L (Suc d) @ dump_items L (Suc d) xs @ t) = dump_items L (Suc d) xs @ t" for t
      using skip_ws_dumps [OF w(2)] by (simp add: xs)
    have "parse_items n (dump_items L (Suc d) xs @ nl L d @ CHR '']'' # r) = Some (xs, r)"
      using 6 False w by (intro "6.IH") auto
    moreover have "\<exists>c t. dump_items L (Suc d) xs = c # t \<and> c \<noteq> CHR '']''"
      using dumps_at_hd [of L "Suc d" x] by (auto simp: xs dest: val_startD)
    ultimately show ?thesis using False by (auto simp: sk Let_def)
  qed simp
next
  case (7 L d kvs)
  note good = \<open>good_layout L\<close>
  show ?case
  proof (cases "kvs = []")
    case False
    have w: "list_all is_ws (nl L d)" "list_all is_ws (nl L (Suc d))" using good by (simp_all add: good_layout_def)
    obtain k v ys where kvs: "kvs = (k, v) # ys" using False by (cases kvs) auto
    have sk: "skip_ws (nl L (Suc d) @ dump_members L (Suc d) kvs @ t) = dump_members L (Suc d) kvs @ t" for t
      using w(2) by (simp add: kvs skip_ws_append quote_def)
    have "parse_members n (dump_members L (Suc d) kvs @ nl L d @ CHR ''}'' # r) = Some (kvs, r)"
      using 7 False w by (intro "7.IH") auto
    moreover have "\<exists>c t. dump_members L (Suc d) kvs = c # t \<and> c \<noteq> CHR ''}''"
      by (auto simp: kvs quote_def)
    ultimately show ?thesis using False 7 by (auto simp: sk Let_def dict_of_pairs_distinct)
  qed simp
next
  case (9 L d x xs)
  note good = \<open>good_layout L\<close>
  obtain wi where wi: "isep L = CHR '','' # wi" "list_all is_ws wi" and nls: "list_all is_ws (nl L d)"
    using good by (auto elim: good_layoutE)
  obtain n2 where n: "n = Suc (Suc n2)" using 9 by (cases n; cases "n - 1") auto
  show ?case
  proof (cases "xs = []")
    case True
    have "parse_val (Suc n2) (dumps_at L d x @ w @ CHR '']'' # r) = Some (x, w @ CHR '']'' # r)"
      using 9 n True by (intro "9.IH"(1)) (auto intro: num_stop_ws)
    with True n 9 show ?thesis by (simp add: skip_ws_append del: parse_val.simps)
  next
    case False
    let ?tl = "dump_items L d xs @ w @ CHR '']'' # r"
    have v: "parse_val (Suc n2) (dumps_at L d x @ isep L @ nl L d @ ?tl) = Some (x, isep L @ nl L d @ ?tl)"
      using 9 n False wi by (intro "9.IH"(1)) auto
    have it: "parse_items (Suc n2) ?tl = Some (xs, r)"
      using 9 n False wi dumps_at_hd [of L d x] by (intro "9.IH"(2)) auto
    have "skip_ws (wi @ nl L d @ ?tl) = ?tl"
      using False wi nls skip_ws_dumps [of "wi @ nl L d" L d "hd xs"]
      by (cases xs) (auto simp: skip_ws_append)
    with v it n False wi show ?thesis by (simp add: skip_ws_append del: parse_val.simps)
  qed
next
  case (11 L d k v kvs)
  note good = \<open>good_layout L\<close>
  obtain wi wk where wi: "isep L = CHR '','' # wi" "list_all is_ws wi" and nls: "list_all is_ws (nl L d)"
    and wk: "ksep L = CHR '':'' # wk" "list_all is_ws wk"
    using good by (auto elim: good_layoutE)
  obtain n2 where n: "n = Suc (Suc n2)" using 11 by (cases n; cases "n - 1") auto
  have key: "parse_str (concat (map esc_char k) @ CHR 0x22 # t) = Some (k, t)" for t
    by (rule parse_str_quote)
  show ?case
  proof (cases "kvs = []")
    case True
    let ?tl = "w @ CHR ''}'' # r"
    have "parse_val (Suc n2) (dumps_at L d v @ ?tl) = Some (v, ?tl)"
      using 11 n True by (intro "11.IH"(1)) (auto intro: num_stop_ws)
    moreover have "skip_ws (wk @ dumps_at L d v @ ?tl) = dumps_at L d v @ ?tl"
      using wk by (simp add: skip_ws_dumps)
    ultimately show ?thesis using True n 11 wk
      by (simp add: quote_def key skip_ws_append del: parse_val.simps)
  next
    case False
    let ?tl = "dump_members L d kvs @ w @ CHR ''}'' # r"
    have "parse_val (Suc n2) (dumps_at L d v @ isep L @ nl L d @ ?tl) = Some (v, isep L @ nl L d @ ?tl)"
      using 11 n False wi by (intro "11.IH"(1)) auto
    moreover have "parse_members (Suc n2) ?tl = Some (kvs, r)"
      using 11 n False wi by (intro "11.IH"(2)) (auto simp: quote_def)
    moreover have "skip_ws (wk @ dumps_at L d v @ t) = dumps_at L d v @ t" for t
      using wk by (simp add: skip_ws_dumps)
    moreover have "skip_ws (wi @ nl L d @ ?tl) = ?tl"
      using False wi nls by (cases kvs) (auto simp: skip_ws_append quote_def)
    ultimately show ?thesis using False n wi wk
      by (simp add: quote_def key skip_ws_append del: parse_val.simps)
  qed
qed (auto simp: starts_with_def)

theorem json_loads_dumps:
  assumes "good_layout L" "json_ok j"
  shows "json_loads (json_dumps L j) = Some j"
proof -
  have "parse_val (Suc (length (dumps_at L 0 j))) (dumps_at L 0 j @ []) = Some (j, [])"
    by (rule parse_dumps(1)) (use assms in auto)
  moreover have "skip_ws (dumps_at L 0 j) = dumps_at L 0 j"
    using skip_ws_dumps [of "[]" L 0 j "[]"] by simp
  ultimately show ?thesis
    by (simp add: json_loads_def json_dumps_def skip_ws_def del: parse_val.simps)
qed

lemma json_loads_dumps_ws:
  assumes "good_layout L" "json_ok j" "list_all is_ws w"
  shows "json_loads (json_dumps L j @ w) = Some j"
proof -
  have "num_stop w" using assms(3) by (cases w) (auto simp: num_stop_def is_ws_def is_digit_def)
  then have "parse_val (Suc (length (dumps_at L 0 j @ w))) (dumps_at L 0 j @ w) = Some (j, w)"
    by (intro parse_dumps(1)) (use assms in auto)
  moreover have "skip_ws (dumps_at L 0 j @ w) = dumps_at L 0 j @ w"
    using skip_ws_dumps [of "[]" L 0 j w] by simp
  moreover have "skip_ws w = []" using skip_ws_append [OF assms(3), of "[]"] by (simp add: skip_ws_def)
  ultimately show ?thesis
    by (simp add: json_loads_def json_dumps_def del: parse_val.simps)
qed

text \<open>Every document the parser accepts can be printed and read back.\<close>

lemma distinct_foldl_update:
  "distinct (map fst d) \<Longrightarrow> distinct (map fst (foldl (\<lambda>d (k, v). AList.update k v d) d ps))"
  by (induction ps arbitrary: d) (auto simp: distinct_update)

lemma set_foldl_update:
  "p \<in> set (foldl (\<lambda>d (k, v). AList.update k v d) d ps) \<Longrightarrow> p \<in> set d \<union> set ps"
proof (induction ps arbitrary: d)
  case (Cons q ps)
  obtain k v where q: "q = (k, v)" by (cases q)
  have "set (AList.update k v d) \<subseteq> insert (k, v) (set d)"
    by (induction d) auto
  with Cons.IH [of "AList.update k v d"] Cons.prems q show ?case by auto
qed simp

lemma json_ok_dict_of_pairs:
  "\<forall>p \<in> set kvs. json_ok (snd p) \<Longrightarrow> json_ok (JObj (dict_of_pairs kvs))"
  using set_foldl_update [of _ "[]" kvs] distinct_foldl_update [of "[]" kvs]
  by (fastforce simp: dict_of_pairs_def)

lemma number_result_ok:
  "(if b then None
    else case x of
        Some (e, r3) \<Rightarrow> Some (apply_exponent m l e, r3)
      | None \<Rightarrow> if c then Some (JInt i, q) else Some (norm_dec m l, q)) = Some (j, r) \<Longrightarrow> json_ok j"
  by (auto simp: apply_exponent_def json_ok_norm_dec split: option.splits if_splits)

lemma json_ok_parse_num: "parse_num s = Some (j, r) \<Longrightarrow> json_ok j"
  unfolding parse_num_def Let_def by (rule number_result_ok)

definition parsers_ok :: "nat \<Rightarrow> bool" where
  "parsers_ok n \<longleftrightarrow>
     (\<forall>s j r. parse_val n s = Some (j, r) \<longrightarrow> json_ok j) \<and>
     (\<forall>s xs r. parse_items n s = Some (xs, r) \<longrightarrow> (\<forall>x \<in> set xs. json_ok x)) \<and>
     (\<forall>s kvs r. parse_members n s = Some (kvs, r) \<longrightarrow> (\<forall>p \<in> set kvs. json_ok (snd p)))"

lemma parse_val_ok:
  assumes "parsers_ok n" "parse_val (Suc n) s = Some (j, r)"
  shows "json_ok j"
proof -
  obtain c cs where s: "s = c # cs" using assms(2) by (cases s) auto
  consider (easy) "j \<in> {JNull, JBool True, JBool False, JArr [], JObj []} \<or> (\<exists>t. j = JStr t)"
    | (arr) xs where "j = JArr xs" "parse_items n (skip_ws cs) = Some (xs, r)"
    | (obj) kvs where "j = JObj (dict_of_pairs kvs)" "parse_members n (skip_ws cs) = Some (kvs, r)"
    | (num) "parse_num s = Some (j, r)"
    using assms(2) unfolding s parse_val.simps list.case Let_def
    by (cases "c = CHR 0x22"; cases "c = CHR ''[''"; cases "c = CHR ''{''"; simp split: if_splits; auto)
  then show ?thesis
  proof cases
    case obj
    with assms(1) have "\<forall>p \<in> set kvs. json_ok (snd p)" unfolding parsers_ok_def by blast
    then show ?thesis unfolding obj(1) by (rule json_ok_dict_of_pairs)
  next
    case arr
    with assms(1) have "\<forall>x \<in> set xs. json_ok x" unfolding parsers_ok_def by blast
    then show ?thesis unfolding arr(1) by simp
  qed (auto simp: json_ok_parse_num)
qed

lemma parse_items_ok:
  assumes "parsers_ok n" "parse_items (Suc n) s = Some (xs, r)"
  shows "\<forall>x \<in> set xs. json_ok x"
proof -
  obtain x q where v: "parse_val n s = Some (x, q)" using assms(2) by (auto split: option.splits)
  obtain c t where sk: "skip_ws q = c # t" using assms(2) v by (auto split: list.splits)
  have x: "json_ok x" using assms(1) v unfolding parsers_ok_def by blast
  consider "xs = [x]" | ys where "xs = x # ys" "parse_items n (skip_ws t) = Some (ys, r)"
    using assms(2) v sk by (auto split: if_splits)
  then show ?thesis using x assms(1) unfolding parsers_ok_def by cases (auto, blast)
qed

lemma parse_members_ok:
  assumes "parsers_ok n" "parse_members (Suc n) s = Some (kvs, r)"
  shows "\<forall>p \<in> set kvs. json_ok (snd p)"
proof -
  obtain s1 where s: "s = CHR 0x22 # s1" using assms(2) by (auto split: list.splits if_splits)
  obtain k s2 where k: "parse_str s1 = Some (k, s2)" using assms(2) s by (auto split: option.splits)
  obtain s3 where s3: "skip_ws s2 = CHR '':'' # s3"
    using assms(2) s k by (auto split: list.splits if_splits)
  obtain v q where v: "parse_val n (skip_ws s3) = Some (v, q)"
    using assms(2) s k s3 by (auto split: option.splits)
  obtain c t where sk: "skip_ws q = c # t" using assms(2) s k s3 v by (auto split: list.splits)
  have x: "json_ok v" using assms(1) v unfolding parsers_ok_def by blast
  consider (last) "kvs = [(k, v)]"
    | (more) ys where "kvs = (k, v) # ys" "parse_members n (skip_ws t) = Some (ys, r)"
    using assms(2) s k s3 v sk by (auto split: if_splits)
  then show ?thesis
  proof cases
    case more
    then have "\<forall>p \<in> set ys. json_ok (snd p)" using assms(1) unfolding parsers_ok_def by blast
    with x more show ?thesis by simp
  qed (simp add: x)
qed

lemma parsers_ok: "parsers_ok n"
proof (induction n)
  case 0
  show ?case by (simp add: parsers_ok_def)
next
  case (Suc n)
  show ?case
    unfolding parsers_ok_def [of "Suc n"]
    using parse_val_ok [OF Suc] parse_items_ok [OF Suc] parse_members_ok [OF Suc] by blast
qed

lemma json_ok_parse: "parse_val n s = Some (j, r) \<Longrightarrow> json_ok j"
  using parsers_ok [of n] unfolding parsers_ok_def by blast

theorem json_loads_ok: "json_loads s = Some j \<Longrightarrow> json_ok j"
  by (auto simp: json_loads_def json_ok_parse simp del: parse_val.simps
      split: option.splits prod.splits if_splits)

end
