(* ===== verification/Py_Path.thy ===== *)
theory Py_Path
  imports Py_Text
begin

text \<open>
  \<open>pathlib.Path\<close> as the list of its parts and the file tree the scripts read and
  write: an association list from paths to files (with their bytes), directories and
  symbolic links. Permissions and missing parents of a written file are not modelled.
\<close>

section \<open>Paths\<close>

type_synonym path = "string list"

definition path_parts :: "string \<Rightarrow> string list" where
  "path_parts s = filter (\<lambda>x. x \<noteq> [] \<and> x \<noteq> ''.'') (split_on (CHR ''/'') s)"

definition to_path :: "string \<Rightarrow> path" where
  "to_path s = (if starts_with s ''/'' then ''/'' # path_parts s else path_parts s)"

fun path_str :: "path \<Rightarrow> string" where
  "path_str [] = ''.''"
| "path_str (r # ps) = (if r = ''/'' then ''/'' @ join ''/'' ps else join ''/'' (r # ps))"

definition path_name :: "path \<Rightarrow> string" where
  "path_name p = (if p = [] \<or> p = [''/''] then [] else last p)"

definition path_parent :: "path \<Rightarrow> path" where
  "path_parent p = (if p = [''/''] then p else butlast p)"

text \<open>The suffix starts at the last dot, unless that dot is the first or the last byte.\<close>

definition name_suffix :: "string \<Rightarrow> string" where
  "name_suffix n =
     (let e = takeWhile (\<lambda>c. c \<noteq> CHR ''.'') (rev n); r = dropWhile (\<lambda>c. c \<noteq> CHR ''.'') (rev n)
      in if e = [] \<or> length r \<le> 1 then [] else CHR ''.'' # rev e)"

definition name_stem :: "string \<Rightarrow> string" where
  "name_stem n = take (length n - length (name_suffix n)) n"

definition path_suffix :: "path \<Rightarrow> string" where
  "path_suffix p = name_suffix (path_name p)"

definition path_stem :: "path \<Rightarrow> string" where
  "path_stem p = name_stem (path_name p)"

definition with_name :: "path \<Rightarrow> string \<Rightarrow> path" where
  "with_name p n = butlast p @ [n]"

definition with_suffix :: "path \<Rightarrow> string \<Rightarrow> path" where
  "with_suffix p sfx = butlast p @ [path_stem p @ sfx]"

text \<open>\<open>p / s\<close>: an absolute right operand replaces the left one\<close>

definition path_join :: "path \<Rightarrow> string \<Rightarrow> path" where
  "path_join p s = (if starts_with s ''/'' then to_path s else p @ path_parts s)"

definition is_relative_to :: "path \<Rightarrow> path \<Rightarrow> bool" where
  "is_relative_to p root \<longleftrightarrow> take (length root) p = root"

lemma is_relative_to_prefix: "is_relative_to p root \<longleftrightarrow> prefix root p"
  unfolding is_relative_to_def by (metis append_eq_conv_conj append_take_drop_id prefix_def)

definition separate :: "path \<Rightarrow> path \<Rightarrow> bool" where
  "separate a b \<longleftrightarrow> \<not> is_relative_to a b \<and> \<not> is_relative_to b a"

lemma separate_below: "separate base tmp \<Longrightarrow> is_relative_to p base \<Longrightarrow> \<not> is_relative_to p tmp"
  unfolding separate_def is_relative_to_prefix using prefix_same_cases by blast

lemma name_stem_suffix: "name_stem n @ name_suffix n = n"
proof -
  let ?e = "takeWhile (\<lambda>c. c \<noteq> CHR ''.'') (rev n)" and ?r = "dropWhile (\<lambda>c. c \<noteq> CHR ''.'') (rev n)"
  have n: "n = rev ?r @ rev ?e" by (metis rev_append rev_rev_ident takeWhile_dropWhile_id)
  show ?thesis
  proof (cases "?e = [] \<or> length ?r \<le> 1")
    case True
    then show ?thesis by (simp add: name_stem_def name_suffix_def Let_def)
  next
    case False
    have ne: "?r \<noteq> []"
    proof
      assume "?r = []"
      then have "length ?r \<le> 1" by (simp only: list.size)
      with False show False by blast
    qed
    then have "hd ?r = CHR ''.''" using hd_dropWhile [OF ne] by simp
    then obtain r where r: "?r = CHR ''.'' # r" using ne by (cases ?r) auto
    with False have sx: "name_suffix n = CHR ''.'' # rev ?e" by (simp add: name_suffix_def)
    have "n = rev r @ name_suffix n" using n r sx by simp
    then show ?thesis unfolding name_stem_def by (metis append_take_drop_id append_eq_conv_conj length_append add_diff_cancel_right')
  qed
qed

lemma with_name_parent [simp]: "butlast (with_name p n) = butlast p"
  by (simp add: with_name_def)

lemma with_name_last [simp]: "last (with_name p n) = n"
  by (simp add: with_name_def)

lemma with_name_ne [simp]: "with_name p n \<noteq> []"
  by (simp add: with_name_def)

section \<open>File trees\<close>

datatype node = NFile string | NDir | NLink path

type_synonym fs = "(path \<times> node) list"

definition fs_exists :: "fs \<Rightarrow> path \<Rightarrow> bool" where
  "fs_exists t p \<longleftrightarrow> map_of t p \<noteq> None"

definition fs_is_file :: "fs \<Rightarrow> path \<Rightarrow> bool" where
  "fs_is_file t p = (case map_of t p of Some (NFile _) \<Rightarrow> True | _ \<Rightarrow> False)"

definition fs_is_dir :: "fs \<Rightarrow> path \<Rightarrow> bool" where
  "fs_is_dir t p = (map_of t p = Some NDir)"

definition fs_is_link :: "fs \<Rightarrow> path \<Rightarrow> bool" where
  "fs_is_link t p = (case map_of t p of Some (NLink _) \<Rightarrow> True | _ \<Rightarrow> False)"

definition fs_read :: "fs \<Rightarrow> path \<Rightarrow> string option" where
  "fs_read t p = (case map_of t p of Some (NFile c) \<Rightarrow> Some c | _ \<Rightarrow> None)"

definition fs_write :: "path \<Rightarrow> string \<Rightarrow> fs \<Rightarrow> fs" where
  "fs_write p c t = AList.update p (NFile c) t"

text \<open>Opening in append mode creates a missing file.\<close>

definition fs_append :: "path \<Rightarrow> string \<Rightarrow> fs \<Rightarrow> fs" where
  "fs_append p s t = fs_write p ((case fs_read t p of None \<Rightarrow> [] | Some c \<Rightarrow> c) @ s) t"

definition fs_unlink :: "path \<Rightarrow> fs \<Rightarrow> fs" where
  "fs_unlink p t = AList.delete p t"

text \<open>\<open>os.replace\<close> and \<open>Path.rename\<close> within one file system: the target is overwritten.\<close>

definition fs_rename :: "path \<Rightarrow> path \<Rightarrow> fs \<Rightarrow> fs" where
  "fs_rename a b t = (case map_of t a of None \<Rightarrow> t | Some n \<Rightarrow> AList.update b n (AList.delete a t))"

definition fs_mkdirs :: "path \<Rightarrow> fs \<Rightarrow> fs" where
  "fs_mkdirs p t = fold (\<lambda>d t. if fs_exists t d then t else AList.update d NDir t) (tl (prefixes p)) t"

text \<open>\<open>shutil.rmtree\<close>\<close>

definition fs_rmtree :: "path \<Rightarrow> fs \<Rightarrow> fs" where
  "fs_rmtree d t = filter (\<lambda>(p, _). \<not> is_relative_to p d) t"

definition fs_children :: "fs \<Rightarrow> path \<Rightarrow> path list" where
  "fs_children t d = filter (\<lambda>p. p \<noteq> [] \<and> p \<noteq> d \<and> butlast p = d) (map fst t)"

definition fs_below :: "fs \<Rightarrow> path \<Rightarrow> path list" where
  "fs_below t d = filter (\<lambda>p. p \<noteq> d \<and> is_relative_to p d) (map fst t)"

text \<open>The files and directories \<open>os.walk\<close> visits below a directory; links are not followed.\<close>

definition walk_files :: "fs \<Rightarrow> path \<Rightarrow> path list" where
  "walk_files t d = filter (fs_is_file t) (fs_below t d)"

definition walk_dirs :: "fs \<Rightarrow> path \<Rightarrow> path list" where
  "walk_dirs t d = filter (fs_is_dir t) (fs_below t d)"

lemma map_of_fs_write [simp]: "map_of (fs_write p c t) q = (if q = p then Some (NFile c) else map_of t q)"
  by (simp add: fs_write_def update_conv')

lemma map_of_fs_append: "q \<noteq> p \<Longrightarrow> map_of (fs_append p s t) q = map_of t q"
  by (simp add: fs_append_def)

lemma map_of_fs_unlink [simp]: "map_of (fs_unlink p t) q = (if q = p then None else map_of t q)"
  by (simp add: fs_unlink_def delete_conv')

lemma map_of_fs_rename:
  "map_of (fs_rename a b t) q =
     (case map_of t a of None \<Rightarrow> map_of t q
      | Some n \<Rightarrow> if q = b then Some n else if q = a then None else map_of t q)"
  by (auto simp: fs_rename_def update_conv' delete_conv' split: option.splits)

lemma map_of_fs_rmtree:
  "map_of (fs_rmtree d t) q = (if is_relative_to q d then None else map_of t q)"
  by (induction t) (auto simp: fs_rmtree_def)

lemma map_of_fold_mkdir:
  "map_of (fold (\<lambda>d t. if fs_exists t d then t else AList.update d NDir t) ds t) q =
     (if map_of t q = None \<and> q \<in> set ds then Some NDir else map_of t q)"
  by (induction ds arbitrary: t) (auto simp: fs_exists_def update_conv' split: if_splits)

lemma map_of_fs_mkdirs:
  "map_of (fs_mkdirs p t) q =
     (if map_of t q = None \<and> q \<in> set (tl (prefixes p)) then Some NDir else map_of t q)"
  by (simp add: fs_mkdirs_def map_of_fold_mkdir)

lemma fs_read_write [simp]: "fs_read (fs_write p c t) q = (if q = p then Some c else fs_read t q)"
  by (simp add: fs_read_def)

lemma fs_read_unlink [simp]: "fs_read (fs_unlink p t) q = (if q = p then None else fs_read t q)"
  by (simp add: fs_read_def)

lemma fs_read_rename:
  "fs_read t a = Some c \<Longrightarrow> fs_read (fs_rename a b t) q = (if q = b then Some c else if q = a then None else fs_read t q)"
  by (auto simp: fs_read_def map_of_fs_rename split: option.splits node.splits)

lemma fs_read_rmtree: "fs_read (fs_rmtree d t) q = (if is_relative_to q d then None else fs_read t q)"
  by (simp add: fs_read_def map_of_fs_rmtree)

lemma fs_read_mkdirs [simp]: "fs_read (fs_mkdirs p t) q = fs_read t q"
  by (auto simp: fs_read_def map_of_fs_mkdirs split: option.splits)

lemma fs_exists_read: "fs_read t p = Some c \<Longrightarrow> fs_exists t p"
  by (auto simp: fs_read_def fs_exists_def split: option.splits)

lemma fs_is_file_read: "fs_is_file t p \<longleftrightarrow> fs_read t p \<noteq> None"
  by (auto simp: fs_is_file_def fs_read_def split: option.splits node.splits)

lemma fs_children_parent: "p \<in> set (fs_children t d) \<Longrightarrow> butlast p = d \<and> fs_exists t p"
  by (auto simp: fs_children_def fs_exists_def dest: weak_map_of_SomeI)

lemma fs_children_iff: "p \<in> set (fs_children t d) \<longleftrightarrow> fs_exists t p \<and> p \<noteq> [] \<and> p \<noteq> d \<and> butlast p = d"
  by (auto simp: fs_children_def fs_exists_def map_of_eq_None_iff image_iff)

lemma fs_below_relative: "p \<in> set (fs_below t d) \<Longrightarrow> is_relative_to p d \<and> fs_exists t p"
  by (auto simp: fs_below_def fs_exists_def dest: weak_map_of_SomeI)

end
