(* ===== verification/Py_Regex.thy ===== *)
theory Py_Regex
  imports Py_Text
begin

text \<open>
  A backtracking matcher for the regular expressions of the scripts (Python's \<open>re\<close>).
  A pattern maps a position (the byte before it, the rest of the text, the groups captured
  so far) to the list of positions it can end at, in the order the backtracking search
  tries them; the first one is Python's match. An iteration of a repetition that consumes
  nothing is not taken.
\<close>

section \<open>Patterns\<close>

datatype rx =
    REps
  | RSet "char \<Rightarrow> bool"
  | RLit string
  | RLitI string
  | RSeq rx rx
  | RAlt rx rx
  | RStar rx
  | RStarLazy rx
  | RGroup nat rx
  | RTextStart
  | RTextEnd
  | RDollar
  | RLineStart
  | RLineEnd
  | RWordB
  | RBehind "char \<Rightarrow> bool"

type_synonym rpos = "char option \<times> string \<times> (nat \<times> string) list"

definition rest_of :: "rpos \<Rightarrow> string" where
  "rest_of p = fst (snd p)"

primrec rx_iter :: "(rpos \<Rightarrow> rpos list) \<Rightarrow> nat \<Rightarrow> rpos \<Rightarrow> rpos list" where
  "rx_iter f 0 p = []"
| "rx_iter f (Suc n) p =
     concat (map (\<lambda>q. rx_iter f n q @ [q])
       (filter (\<lambda>q. length (rest_of q) < length (rest_of p)) (f p)))"

primrec rx_iter_lazy :: "(rpos \<Rightarrow> rpos list) \<Rightarrow> nat \<Rightarrow> rpos \<Rightarrow> rpos list" where
  "rx_iter_lazy f 0 p = []"
| "rx_iter_lazy f (Suc n) p =
     concat (map (\<lambda>q. q # rx_iter_lazy f n q)
       (filter (\<lambda>q. length (rest_of q) < length (rest_of p)) (f p)))"

definition word_at :: "string \<Rightarrow> bool" where
  "word_at s = (case s of [] \<Rightarrow> False | c # _ \<Rightarrow> is_word c)"

definition word_before :: "char option \<Rightarrow> bool" where
  "word_before p = (case p of None \<Rightarrow> False | Some c \<Rightarrow> is_word c)"

definition advance :: "nat \<Rightarrow> rpos \<Rightarrow> rpos" where
  "advance n p =
     (case p of (prv, s, g) \<Rightarrow> ((if n = 0 then prv else Some (s ! (n - 1))), drop n s, g))"

primrec rx_match :: "rx \<Rightarrow> rpos \<Rightarrow> rpos list" where
  "rx_match REps p = [p]"
| "rx_match (RSet P) p =
     (case rest_of p of [] \<Rightarrow> [] | c # _ \<Rightarrow> if P c then [advance 1 p] else [])"
| "rx_match (RLit w) p = (if starts_with (rest_of p) w then [advance (length w) p] else [])"
| "rx_match (RLitI w) p =
     (if starts_with (lower (rest_of p)) (lower w) then [advance (length w) p] else [])"
| "rx_match (RSeq a b) p = concat (map (rx_match b) (rx_match a p))"
| "rx_match (RAlt a b) p = rx_match a p @ rx_match b p"
| "rx_match (RStar a) p = rx_iter (rx_match a) (length (rest_of p)) p @ [p]"
| "rx_match (RStarLazy a) p = p # rx_iter_lazy (rx_match a) (length (rest_of p)) p"
| "rx_match (RGroup i a) p =
     map (\<lambda>(prv, s, g). (prv, s, (i, take (length (rest_of p) - length s) (rest_of p)) # g)) (rx_match a p)"
| "rx_match RTextStart p = (if fst p = None then [p] else [])"
| "rx_match RTextEnd p = (if rest_of p = [] then [p] else [])"
| "rx_match RDollar p = (if rest_of p = [] \<or> rest_of p = [CHR 0x0A] then [p] else [])"
| "rx_match RLineStart p = (if fst p = None \<or> fst p = Some (CHR 0x0A) then [p] else [])"
| "rx_match RLineEnd p = (if rest_of p = [] \<or> hd (rest_of p) = CHR 0x0A then [p] else [])"
| "rx_match RWordB p = (if word_before (fst p) \<noteq> word_at (rest_of p) then [p] else [])"
| "rx_match (RBehind P) p = (case fst p of None \<Rightarrow> [] | Some c \<Rightarrow> if P c then [p] else [])"

definition rplus :: "rx \<Rightarrow> rx" where "rplus r = RSeq r (RStar r)"
definition rplus_lazy :: "rx \<Rightarrow> rx" where "rplus_lazy r = RSeq r (RStarLazy r)"
definition ropt :: "rx \<Rightarrow> rx" where "ropt r = RAlt r REps"
definition rspaces :: rx where "rspaces = RStar (RSet is_space)"
definition rspaces1 :: rx where "rspaces1 = rplus (RSet is_space)"
definition rdigits :: rx where "rdigits = rplus (RSet is_digit)"

primrec rseq :: "rx list \<Rightarrow> rx" where
  "rseq [] = REps"
| "rseq (r # rs) = RSeq r (rseq rs)"

primrec ralts :: "rx \<Rightarrow> rx list \<Rightarrow> rx" where
  "ralts r [] = r"
| "ralts r (q # qs) = RAlt r (ralts q qs)"

primrec rrep :: "nat \<Rightarrow> rx \<Rightarrow> rx" where
  "rrep 0 r = REps"
| "rrep (Suc n) r = RSeq r (rrep n r)"

definition none_of :: "string \<Rightarrow> rx" where "none_of s = RSet (\<lambda>c. c \<notin> set s)"
definition one_of :: "string \<Rightarrow> rx" where "one_of s = RSet (\<lambda>c. c \<in> set s)"
definition dot :: rx where "dot = RSet (\<lambda>c. c \<noteq> CHR 0x0A)"
definition any_char :: rx where "any_char = RSet (\<lambda>c. True)"

lemmas rx_sugar [py_eval] =
  rplus_def rplus_lazy_def ropt_def rspaces_def rspaces1_def rdigits_def none_of_def one_of_def
  dot_def any_char_def

section \<open>Searching\<close>

record rmatch =
  m_pre :: string
  m_text :: string
  m_groups :: "(nat \<times> string) list"
  m_post :: string

definition group :: "rmatch \<Rightarrow> nat \<Rightarrow> string option" where
  "group m i = map_of (m_groups m) i"

definition group_text :: "rmatch \<Rightarrow> nat \<Rightarrow> string" where
  "group_text m i = (case group m i of None \<Rightarrow> [] | Some s \<Rightarrow> s)"

definition mk_match :: "string \<Rightarrow> string \<Rightarrow> rpos \<Rightarrow> rmatch" where
  "mk_match pre s q =
     \<lparr>m_pre = pre, m_text = take (length s - length (rest_of q)) s, m_groups = snd (snd q), m_post = rest_of q\<rparr>"

text \<open>\<open>re.match\<close>, \<open>re.fullmatch\<close> and \<open>re.search\<close>\<close>

definition re_match :: "rx \<Rightarrow> string \<Rightarrow> rmatch option" where
  "re_match r s = (case rx_match r (None, s, []) of [] \<Rightarrow> None | q # _ \<Rightarrow> Some (mk_match [] s q))"

definition re_fullmatch :: "rx \<Rightarrow> string \<Rightarrow> rmatch option" where
  "re_fullmatch r s =
     (case filter (\<lambda>q. rest_of q = []) (rx_match r (None, s, [])) of
        [] \<Rightarrow> None | q # _ \<Rightarrow> Some (mk_match [] s q))"

fun search_from :: "rx \<Rightarrow> char option \<Rightarrow> string \<Rightarrow> string \<Rightarrow> rmatch option" where
  "search_from r prv pre s =
     (case rx_match r (prv, s, []) of
        q # _ \<Rightarrow> Some (mk_match (rev pre) s q)
      | [] \<Rightarrow> (case s of [] \<Rightarrow> None | c # cs \<Rightarrow> search_from r (Some c) (c # pre) cs))"

declare search_from.simps [simp del]

definition re_search :: "rx \<Rightarrow> string \<Rightarrow> rmatch option" where
  "re_search r s = search_from r None [] s"

text \<open>
  \<open>re.finditer\<close>: each next search starts where the last match ended, one byte later
  after an empty match. The fuel is the number of bytes left plus one. The result also
  keeps the text after the last match.
\<close>

primrec find_all :: "nat \<Rightarrow> rx \<Rightarrow> char option \<Rightarrow> string \<Rightarrow> rmatch list \<times> string" where
  "find_all 0 r prv s = ([], s)"
| "find_all (Suc n) r prv s =
     (case search_from r prv [] s of
        None \<Rightarrow> ([], s)
      | Some m \<Rightarrow>
          if m_text m \<noteq> [] then
            (case find_all n r (Some (last (m_text m))) (m_post m) of (ms, t) \<Rightarrow> (m # ms, t))
          else
            (case m_post m of
               [] \<Rightarrow> ([m], [])
             | c # cs \<Rightarrow>
                 (case find_all n r (Some c) cs of
                    ([], t) \<Rightarrow> ([m], c # t)
                  | (m2 # ms, t) \<Rightarrow> (m # m2\<lparr>m_pre := c # m_pre m2\<rparr> # ms, t))))"

definition re_finditer :: "rx \<Rightarrow> string \<Rightarrow> rmatch list" where
  "re_finditer r s = fst (find_all (Suc (length s)) r None s)"

text \<open>\<open>re.sub\<close> with a replacement computed from the match, and \<open>re.split\<close> without groups\<close>

definition re_sub :: "rx \<Rightarrow> (rmatch \<Rightarrow> string) \<Rightarrow> string \<Rightarrow> string" where
  "re_sub r f s =
     (case find_all (Suc (length s)) r None s of
        (ms, t) \<Rightarrow> concat (map (\<lambda>m. m_pre m @ f m) ms) @ t)"

definition re_split :: "rx \<Rightarrow> string \<Rightarrow> string list" where
  "re_split r s =
     (case find_all (Suc (length s)) r None s of (ms, t) \<Rightarrow> map m_pre ms @ [t])"

section \<open>Facts about matches\<close>

lemma rest_advance [simp]: "rest_of (advance n p) = drop n (rest_of p)"
  by (cases p) (auto simp: advance_def rest_of_def)

lemma rx_iter_suffix:
  assumes "\<And>p q. q \<in> set (f p) \<Longrightarrow> suffix (rest_of q) (rest_of p)"
  shows "q \<in> set (rx_iter f n p) \<Longrightarrow> suffix (rest_of q) (rest_of p)"
    and "q \<in> set (rx_iter_lazy f n p) \<Longrightarrow> suffix (rest_of q) (rest_of p)"
  by (induction n arbitrary: p; fastforce dest: assms intro: suffix_order.trans)+

lemma rx_match_suffix: "q \<in> set (rx_match r p) \<Longrightarrow> suffix (rest_of q) (rest_of p)"
proof (induction r arbitrary: p q)
  case (RSeq a b)
  then obtain x where "x \<in> set (rx_match a p)" "q \<in> set (rx_match b x)" by auto
  then show ?case using RSeq.IH suffix_order.trans by blast
next
  case (RStar a)
  then have "q \<in> set (rx_iter (rx_match a) (length (rest_of p)) p) \<or> q = p" by auto
  then show ?case using rx_iter_suffix(1) [OF RStar.IH] by blast
next
  case (RStarLazy a)
  then have "q \<in> set (rx_iter_lazy (rx_match a) (length (rest_of p)) p) \<or> q = p" by auto
  then show ?case using rx_iter_suffix(2) [OF RStarLazy.IH] by blast
next
  case (RGroup i a)
  then obtain x where x: "x \<in> set (rx_match a p)" "rest_of q = rest_of x"
    by (auto simp: rest_of_def)
  with RGroup.IH [OF x(1)] show ?case by simp
qed (auto simp: suffix_drop split: list.splits if_splits option.splits)

lemma mk_match_text:
  assumes "suffix (rest_of q) s"
  shows "s = m_text (mk_match pre s q) @ m_post (mk_match pre s q)"
proof -
  obtain t where "s = t @ rest_of q" using assms by (auto simp: suffix_def)
  then show ?thesis by (simp add: mk_match_def)
qed

text \<open>A match splits the text it was found in.\<close>

lemma search_from_split:
  "search_from r prv pre s = Some m \<Longrightarrow> rev pre @ s = m_pre m @ m_text m @ m_post m"
proof (induction r prv pre s rule: search_from.induct)
  case (1 r prv pre s)
  show ?case
  proof (cases "rx_match r (prv, s, [])")
    case (Cons q qs)
    then have "m = mk_match (rev pre) s q" using "1.prems" by (simp add: search_from.simps [of r prv])
    moreover have "suffix (rest_of q) s"
      using rx_match_suffix [of q r "(prv, s, [])"] Cons by (simp add: rest_of_def)
    ultimately show ?thesis using mk_match_text [of q s "rev pre"] by (simp add: mk_match_def)
  next
    case Nil
    then show ?thesis using 1 by (cases s) (auto simp: search_from.simps [of r prv])
  qed
qed

lemma re_search_split: "re_search r s = Some m \<Longrightarrow> s = m_pre m @ m_text m @ m_post m"
  unfolding re_search_def using search_from_split by fastforce

lemma re_match_split: "re_match r s = Some m \<Longrightarrow> s = m_text m @ m_post m"
proof -
  assume m: "re_match r s = Some m"
  then obtain q qs where q: "rx_match r (None, s, []) = q # qs" "m = mk_match [] s q"
    by (cases "rx_match r (None, s, [])") (simp_all add: re_match_def)
  have "suffix (rest_of q) (rest_of (None, s, []))" by (rule rx_match_suffix [of q r]) (simp add: q)
  then show ?thesis unfolding q(2) by (intro mk_match_text) (simp add: rest_of_def)
qed

lemma find_all_split:
  "find_all n r prv s = (ms, t) \<Longrightarrow> s = concat (map (\<lambda>m. m_pre m @ m_text m) ms) @ t"
proof (induction n arbitrary: prv s ms t)
  case (Suc n)
  show ?case
  proof (cases "search_from r prv [] s")
    case None
    with Suc.prems show ?thesis by simp
  next
    case (Some m)
    then have s: "s = m_pre m @ m_text m @ m_post m" using search_from_split by fastforce
    show ?thesis
    proof (cases "m_text m = []")
      case False
      obtain ms2 t2 where e: "find_all n r (Some (last (m_text m))) (m_post m) = (ms2, t2)" by fastforce
      with Suc.prems Some False have "ms = m # ms2" "t = t2" by auto
      with Suc.IH [OF e] s show ?thesis by simp
    next
      case True
      show ?thesis
      proof (cases "m_post m")
        case Nil
        with Suc.prems Some True s show ?thesis by auto
      next
        case (Cons c cs)
        obtain ms2 t2 where e: "find_all n r (Some c) cs = (ms2, t2)" by fastforce
        from Suc.IH [OF e] Suc.prems Some True s Cons e show ?thesis by (cases ms2) auto
      qed
    qed
  qed
qed simp

text \<open>Replacing every match by itself changes nothing.\<close>

lemma re_sub_id: "re_sub r m_text s = s"
proof -
  obtain ms t where "find_all (Suc (length s)) r None s = (ms, t)" by fastforce
  from find_all_split [OF this] this show ?thesis by (simp only: re_sub_def prod.case)
qed

text \<open>Every match of a scan comes from the matcher, at the place it was found.\<close>

lemma search_from_found:
  "search_from r prv pre s = Some m \<Longrightarrow>
     \<exists>prv' s' q. q \<in> set (rx_match r (prv', s', [])) \<and> s' = m_text m @ rest_of q \<and> m_groups m = snd (snd q)"
proof (induction r prv pre s rule: search_from.induct)
  case (1 r prv pre s)
  show ?case
  proof (cases "rx_match r (prv, s, [])")
    case (Cons q qs)
    then have m: "m = mk_match (rev pre) s q" using "1.prems" by (simp add: search_from.simps [of r prv])
    have "suffix (rest_of q) s"
      using rx_match_suffix [of q r "(prv, s, [])"] Cons by (simp add: rest_of_def)
    then have "s = m_text m @ rest_of q" unfolding m using mk_match_text [of q s "rev pre"]
      by (simp add: mk_match_def)
    moreover have "m_groups m = snd (snd q)" by (simp add: m mk_match_def)
    ultimately show ?thesis using Cons by (metis list.set_intros(1))
  next
    case Nil
    then show ?thesis using 1 by (cases s) (auto simp: search_from.simps [of r prv])
  qed
qed

lemma find_all_found:
  "find_all n r prv s = (ms, t) \<Longrightarrow> m \<in> set ms \<Longrightarrow>
     \<exists>prv' s' q. q \<in> set (rx_match r (prv', s', [])) \<and> s' = m_text m @ rest_of q \<and> m_groups m = snd (snd q)"
proof (induction n arbitrary: prv s ms t m)
  case (Suc n)
  show ?case
  proof (cases "search_from r prv [] s")
    case None
    with Suc.prems show ?thesis by simp
  next
    case (Some m0)
    note m0 = search_from_found [OF Some]
    show ?thesis
    proof (cases "m_text m0 = []")
      case False
      obtain ms2 t2 where e: "find_all n r (Some (last (m_text m0))) (m_post m0) = (ms2, t2)" by fastforce
      with Suc.prems Some False have "ms = m0 # ms2" by auto
      then show ?thesis using Suc.IH [OF e, of m] Suc.prems(2) m0 by auto
    next
      case True
      show ?thesis
      proof (cases "m_post m0")
        case Nil
        with Suc.prems Some True have "m = m0" by auto
        then show ?thesis using m0 by simp
      next
        case (Cons c cs)
        obtain ms2 t2 where e: "find_all n r (Some c) cs = (ms2, t2)" by fastforce
        show ?thesis
        proof (cases ms2)
          case Nil
          with Suc.prems Some True Cons e have "m = m0" by auto
          then show ?thesis using m0 by simp
        next
          case (Cons m2 ms3)
          then have "ms = m0 # m2\<lparr>m_pre := c # m_pre m2\<rparr> # ms3"
            using Suc.prems(1) Some True \<open>m_post m0 = c # cs\<close> e by auto
          with Suc.prems(2) consider "m = m0" | "m_text m = m_text m2 \<and> m_groups m = m_groups m2" | "m \<in> set ms3" by auto
          then show ?thesis
          proof cases
            case 2
            with Suc.IH [OF e, of m2] Cons show ?thesis by auto
          next
            case 3
            with Suc.IH [OF e, of m] Cons show ?thesis by auto
          qed (use m0 in simp)
        qed
      qed
    qed
  qed
qed simp

lemma find_all_match:
  "find_all n r prv s = (ms, t) \<Longrightarrow> m \<in> set ms \<Longrightarrow>
     \<exists>prv' s' q. q \<in> set (rx_match r (prv', s', [])) \<and> s' = m_text m @ rest_of q"
  using find_all_found by blast

lemma rx_seqD: "q \<in> set (rx_match (RSeq a b) p) \<Longrightarrow> \<exists>x. x \<in> set (rx_match a p) \<and> q \<in> set (rx_match b x)"
  by auto

lemma rx_litD: "q \<in> set (rx_match (RLit w) p) \<Longrightarrow> rest_of p = w @ rest_of q"
proof -
  assume "q \<in> set (rx_match (RLit w) p)"
  then have "starts_with (rest_of p) w" "q = advance (length w) p" by (simp_all split: if_splits)
  then show ?thesis by (simp add: starts_with_prefix) (metis append_eq_conv_conj prefix_def)
qed

section \<open>What a pattern accepts, piece by piece\<close>

lemma advance_Suc: "rest_of p \<noteq> [] \<Longrightarrow> advance k (advance 1 p) = advance (Suc k) p"
  by (cases p) (auto simp: advance_def rest_of_def nth_drop Suc_le_eq nth_Cons' neq_Nil_conv)

lemma star_iter_set:
  "set (rx_iter (rx_match (RSet P)) n p) = (\<lambda>k. advance k p) ` {1..min n (length (takeWhile P (rest_of p)))}"
proof (induction n arbitrary: p)
  case (Suc n)
  show ?case
  proof (cases "rest_of p")
    case (Cons c cs)
    show ?thesis
    proof (cases "P c")
      case True
      have ne: "rest_of p \<noteq> []" using Cons by simp
      have drop: "drop (Suc 0) (rest_of p) = cs" using Cons by simp
      have "set (rx_iter (rx_match (RSet P)) (Suc n) p) = insert (advance 1 p) (set (rx_iter (rx_match (RSet P)) n (advance 1 p)))"
        using Cons True by simp
      also have "\<dots> = insert (advance (Suc 0) p) ((\<lambda>k. advance (Suc k) p) ` {1..min n (length (takeWhile P cs))})"
        unfolding Suc.IH using advance_Suc [OF ne] drop by simp
      also have "\<dots> = (\<lambda>k. advance k p) ` (insert (Suc 0) (Suc ` {1..min n (length (takeWhile P cs))}))"
        by (simp only: image_insert image_image)
      also have "insert (Suc 0) (Suc ` {1..min n (length (takeWhile P cs))}) = {1..min (Suc n) (length (takeWhile P (rest_of p)))}"
        using Cons True by (simp add: image_Suc_atLeastAtMost) auto
      finally show ?thesis .
    qed (use Cons in simp)
  qed simp
qed simp

lemma star_set:
  "set (rx_match (RStar (RSet P)) p) = (\<lambda>k. advance k p) ` {0..length (takeWhile P (rest_of p))}"
proof -
  have le: "length (takeWhile P (rest_of p)) \<le> length (rest_of p)" by (rule length_takeWhile_le)
  have "p = advance 0 p" by (cases p) (simp add: advance_def)
  then have "set (rx_match (RStar (RSet P)) p) = (\<lambda>k. advance k p) ` (insert 0 {1..length (takeWhile P (rest_of p))})"
    using le by (simp add: star_iter_set min_absorb2)
  also have "insert 0 {1..length (takeWhile P (rest_of p))} = {0..length (takeWhile P (rest_of p))}" by auto
  finally show ?thesis .
qed

definition groups_of :: "rpos \<Rightarrow> (nat \<times> string) list" where
  "groups_of p = snd (snd p)"

lemma groups_advance [simp]: "groups_of (advance n p) = groups_of p"
  by (cases p) (simp add: groups_of_def advance_def)

lemma starD:
  "q \<in> set (rx_match (RStar (RSet P)) p) \<Longrightarrow> \<exists>w. rest_of p = w @ rest_of q \<and> list_all P w \<and> groups_of q = groups_of p"
proof -
  assume "q \<in> set (rx_match (RStar (RSet P)) p)"
  then obtain k where k: "k \<le> length (takeWhile P (rest_of p))" "q = advance k p" unfolding star_set by auto
  then have "take k (rest_of p) = take k (takeWhile P (rest_of p))"
    by (metis takeWhile_dropWhile_id take_append diff_is_0_eq take0 append_Nil2)
  then have "list_all P (take k (rest_of p))" by (auto simp: list_all_iff dest: in_set_takeD set_takeWhileD)
  with k show ?thesis by (metis append_take_drop_id rest_advance groups_advance)
qed

lemma starI:
  assumes "rest_of p = w @ s" "list_all P w"
  shows "\<exists>q \<in> set (rx_match (RStar (RSet P)) p). rest_of q = s \<and> groups_of q = groups_of p"
proof (intro bexI conjI)
  show "rest_of (advance (length w) p) = s" using assms(1) by simp
  have "length w \<le> length (takeWhile P (rest_of p))"
    using assms by (simp add: takeWhile_append2 list_all_iff)
  then show "advance (length w) p \<in> set (rx_match (RStar (RSet P)) p)" unfolding star_set by auto
qed simp

lemma litD: "q \<in> set (rx_match (RLit w) p) \<Longrightarrow> rest_of p = w @ rest_of q \<and> groups_of q = groups_of p"
proof (rule conjI)
  assume q: "q \<in> set (rx_match (RLit w) p)"
  then show "rest_of p = w @ rest_of q" by (rule rx_litD)
  from q have "q = advance (length w) p" by (simp split: if_splits)
  then show "groups_of q = groups_of p" by simp
qed

lemma litI:
  assumes "rest_of p = w @ s"
  shows "\<exists>q \<in> set (rx_match (RLit w) p). rest_of q = s \<and> groups_of q = groups_of p"
proof (rule bexI)
  show "rest_of (advance (length w) p) = s \<and> groups_of (advance (length w) p) = groups_of p" using assms by simp
  have "starts_with (rest_of p) w" unfolding assms by (rule starts_with_append)
  then show "advance (length w) p \<in> set (rx_match (RLit w) p)" by simp
qed

lemma seqI: "x \<in> set (rx_match a p) \<Longrightarrow> q \<in> set (rx_match b x) \<Longrightarrow> q \<in> set (rx_match (RSeq a b) p)"
  by auto

lemma rseqD:
  "q \<in> set (rx_match (rseq (r # rs)) p) \<Longrightarrow> \<exists>x. x \<in> set (rx_match r p) \<and> q \<in> set (rx_match (rseq rs) x)"
  unfolding rseq.simps by (rule rx_seqD)

lemma rseq_nilD: "q \<in> set (rx_match (rseq []) p) \<Longrightarrow> q = p"
  by simp

lemma startD: "q \<in> set (rx_match RTextStart p) \<Longrightarrow> q = p"
  by (simp split: if_splits)

lemma rseqI: "x \<in> set (rx_match r p) \<Longrightarrow> q \<in> set (rx_match (rseq rs) x) \<Longrightarrow> q \<in> set (rx_match (rseq (r # rs)) p)"
  unfolding rseq.simps by (rule seqI)

lemma rseq_nilI: "p \<in> set (rx_match (rseq []) p)"
  by simp

lemma setD: "q \<in> set (rx_match (RSet P) p) \<Longrightarrow> \<exists>c. rest_of p = c # rest_of q \<and> P c \<and> groups_of q = groups_of p"
proof -
  assume q: "q \<in> set (rx_match (RSet P) p)"
  then obtain c cs where c: "rest_of p = c # cs" "P c" "q = advance 1 p"
    by (cases "rest_of p") (simp_all split: if_splits)
  have "rest_of q = cs" unfolding c(3) rest_advance c(1) by simp
  then show ?thesis using c by simp
qed

lemma plusD:
  "q \<in> set (rx_match (rplus (RSet P)) p) \<Longrightarrow>
     \<exists>w. rest_of p = w @ rest_of q \<and> w \<noteq> [] \<and> list_all P w \<and> groups_of q = groups_of p"
proof -
  assume "q \<in> set (rx_match (rplus (RSet P)) p)"
  then obtain x where x: "x \<in> set (rx_match (RSet P) p)" "q \<in> set (rx_match (RStar (RSet P)) x)"
    unfolding rplus_def by (blast dest: rx_seqD)
  from setD [OF x(1)] obtain c where c: "rest_of p = c # rest_of x" "P c" "groups_of x = groups_of p" by blast
  from starD [OF x(2)] obtain w where w: "rest_of x = w @ rest_of q" "list_all P w" "groups_of q = groups_of x" by blast
  have "rest_of p = (c # w) @ rest_of q" using c(1) w(1) by simp
  then show ?thesis using c(2,3) w(2,3) by (intro exI [of _ "c # w"]) simp
qed

lemma plusI:
  assumes "rest_of p = (c # w) @ s" "P c" "list_all P w"
  shows "\<exists>q \<in> set (rx_match (rplus (RSet P)) p). rest_of q = s \<and> groups_of q = groups_of p"
proof -
  have x: "advance 1 p \<in> set (rx_match (RSet P) p)" using assms(1,2) by simp
  have r: "rest_of (advance 1 p) = w @ s" using assms(1) by simp
  from starI [OF r assms(3)] obtain q where q: "q \<in> set (rx_match (RStar (RSet P)) (advance 1 p))"
    "rest_of q = s" "groups_of q = groups_of (advance 1 p)" by blast
  have "q \<in> set (rx_match (rplus (RSet P)) p)" unfolding rplus_def by (rule seqI [OF x q(1)])
  with q(2,3) show ?thesis by auto
qed

lemma groupD:
  "q \<in> set (rx_match (RGroup i a) p) \<Longrightarrow> \<exists>x. x \<in> set (rx_match a p) \<and> rest_of q = rest_of x \<and>
     groups_of q = (i, take (length (rest_of p) - length (rest_of x)) (rest_of p)) # groups_of x"
  by (auto simp: rest_of_def groups_of_def)

lemma groupI:
  assumes "x \<in> set (rx_match a p)"
  shows "\<exists>q \<in> set (rx_match (RGroup i a) p). rest_of q = rest_of x"
proof (rule bexI)
  let ?q = "(\<lambda>(prv, s, g). (prv, s, (i, take (length (rest_of p) - length s) (rest_of p)) # g)) x"
  show "rest_of ?q = rest_of x" by (cases x) (simp add: rest_of_def)
  show "?q \<in> set (rx_match (RGroup i a) p)" using assms by simp
qed

lemma optD: "q \<in> set (rx_match (ropt r) p) \<Longrightarrow> q \<in> set (rx_match r p) \<or> q = p"
  by (auto simp: ropt_def)

lemma opt_noneI: "p \<in> set (rx_match (ropt r) p)"
  by (simp add: ropt_def)

text \<open>A split at white space loses no word.\<close>

lemma split_ws_matches:
  assumes "\<forall>m\<in>set ms. m_text m \<noteq> [] \<and> (\<forall>c\<in>set (m_text m). is_space c)"
  shows "split_ws (concat (map (\<lambda>m. m_pre m @ m_text m) ms) @ t) = words_in (map m_pre ms @ [t])"
  using assms
proof (induction ms)
  case (Cons m ms)
  then show ?case
    using split_ws_gap [of "m_text m" "m_pre m" "concat (map (\<lambda>m. m_pre m @ m_text m) ms) @ t"] by simp
qed simp

lemma re_split_words:
  assumes "\<And>p q. q \<in> set (rx_match r p) \<Longrightarrow> \<exists>w. rest_of p = w @ rest_of q \<and> w \<noteq> [] \<and> list_all is_space w"
  shows "words_in (re_split r s) = split_ws s"
proof -
  obtain ms t where f: "find_all (Suc (length s)) r None s = (ms, t)" by fastforce
  have "\<forall>m\<in>set ms. m_text m \<noteq> [] \<and> (\<forall>c\<in>set (m_text m). is_space c)"
  proof
    fix m assume "m \<in> set ms"
    with find_all_match [OF f] obtain prv s' q where q: "q \<in> set (rx_match r (prv, s', []))" "s' = m_text m @ rest_of q"
      by blast
    from assms [OF q(1)] obtain w where "s' = w @ rest_of q" "w \<noteq> []" "list_all is_space w" by (auto simp: rest_of_def)
    with q(2) show "m_text m \<noteq> [] \<and> (\<forall>c\<in>set (m_text m). is_space c)" by (auto simp: list_all_iff)
  qed
  from split_ws_matches [OF this, of t] have "words_in (map m_pre ms @ [t]) = split_ws s"
    unfolding find_all_split [OF f, symmetric] by simp
  then show ?thesis by (simp only: re_split_def f prod.case)
qed

text \<open>A replacement that agrees with each match in a view of texts agrees with the whole text.\<close>

lemma re_sub_view:
  assumes "\<And>p q. q \<in> set (rx_match r p) \<Longrightarrow> groups_of p = [] \<Longrightarrow>
      map h (f \<lparr>m_pre = pre, m_text = take (length (rest_of p) - length (rest_of q)) (rest_of p), m_groups = groups_of q, m_post = post\<rparr>) =
      map h (take (length (rest_of p) - length (rest_of q)) (rest_of p))"
    and f: "\<And>m pre post. f (m\<lparr>m_pre := pre, m_post := post\<rparr>) = f m"
  shows "map h (re_sub r f s) = map h s"
proof -
  obtain ms t where e: "find_all (Suc (length s)) r None s = (ms, t)" by fastforce
  have "map h (f m) = map h (m_text m)" if "m \<in> set ms" for m
  proof -
    from find_all_found [OF e that] obtain prv' s' q where
      q: "q \<in> set (rx_match r (prv', s', []))" "s' = m_text m @ rest_of q" "m_groups m = snd (snd q)" by blast
    have "map h (f (m\<lparr>m_pre := pre, m_post := post\<rparr>)) = map h (m_text m)"
      using assms(1) [OF q(1)] q(2,3) by (cases m) (simp add: rest_of_def groups_of_def)
    then show ?thesis unfolding f .
  qed
  then have "map h (concat (map (\<lambda>m. m_pre m @ f m) ms)) = map h (concat (map (\<lambda>m. m_pre m @ m_text m) ms))"
    by (induction ms) simp_all
  moreover have "s = concat (map (\<lambda>m. m_pre m @ m_text m) ms) @ t" by (rule find_all_split [OF e])
  then have "map h s = map h (concat (map (\<lambda>m. m_pre m @ m_text m) ms)) @ map h t" by (metis map_append)
  ultimately show ?thesis by (simp only: re_sub_def e prod.case map_append)
qed

end
