(* ===== verification/Agent_Config.thy ===== *)
theory Agent_Config
  imports Py_Json Py_Path Py_Regex
begin

text \<open>
  The activation scripts that merge managed settings into files other programs own:
  the Codex and Claude notification hooks (merge-codex-notification-hooks.py,
  merge-claude-notification-hooks.py) and the managed Markdown block
  (merge-markdown-block.py), with the publication protocol their \<open>merge_file\<close> shares.
\<close>

section \<open>shlex.split\<close>

datatype shlex_state = ShWs | ShWord | ShQuote char | ShEsc "char option"

definition shlex_token :: "string option \<Rightarrow> string list" where
  "shlex_token cur = (case cur of None \<Rightarrow> [] | Some t \<Rightarrow> [rev t])"

definition shlex_push :: "char \<Rightarrow> string option \<Rightarrow> string option" where
  "shlex_push c cur = Some (c # (case cur of None \<Rightarrow> [] | Some t \<Rightarrow> t))"

definition is_shlex_space :: "char \<Rightarrow> bool" where
  "is_shlex_space c \<longleftrightarrow> c \<in> set [CHR '' '', CHR 0x09, CHR 0x0D, CHR 0x0A]"

definition is_quote :: "char \<Rightarrow> bool" where
  "is_quote c \<longleftrightarrow> c = CHR 0x22 \<or> c = CHR 0x27"

fun shlex_go :: "shlex_state \<Rightarrow> string option \<Rightarrow> string \<Rightarrow> string list option" where
  "shlex_go st cur [] =
     (case st of ShQuote _ \<Rightarrow> None | ShEsc _ \<Rightarrow> None | _ \<Rightarrow> Some (shlex_token cur))"
| "shlex_go (ShQuote q) cur (c # cs) =
     (if c = q then shlex_go ShWord cur cs
      else if c = CHR 0x5C \<and> q = CHR 0x22 then shlex_go (ShEsc (Some q)) cur cs
      else shlex_go (ShQuote q) (shlex_push c cur) cs)"
| "shlex_go (ShEsc r) cur (c # cs) =
     (case r of
        None \<Rightarrow> shlex_go ShWord (shlex_push c cur) cs
      | Some q \<Rightarrow>
          shlex_go (ShQuote q)
            (shlex_push c (if c \<noteq> CHR 0x5C \<and> c \<noteq> q then shlex_push (CHR 0x5C) cur else cur)) cs)"
| "shlex_go st cur (c # cs) =
     (if is_shlex_space c then map_option (\<lambda>ts. shlex_token cur @ ts) (shlex_go ShWs None cs)
      else if is_quote c then shlex_go (ShQuote c) (Some (case cur of None \<Rightarrow> [] | Some t \<Rightarrow> t)) cs
      else if c = CHR 0x5C then shlex_go (ShEsc None) (Some (case cur of None \<Rightarrow> [] | Some t \<Rightarrow> t)) cs
      else shlex_go ShWord (shlex_push c cur) cs)"

definition shlex_split :: "string \<Rightarrow> string list option" where
  "shlex_split s = shlex_go ShWs None s"

section \<open>Hook groups\<close>

type_synonym dict = "(string \<times> json) list"

definition handler_command :: "dict \<Rightarrow> string" where
  "handler_command h = (case map_of h ''command'' of None \<Rightarrow> [] | Some v \<Rightarrow> py_str v)"

text \<open>Whether a handler runs a program with one of the given arguments.\<close>

definition runs :: "string \<Rightarrow> string list \<Rightarrow> dict \<Rightarrow> bool" where
  "runs program arguments h =
     (case shlex_split (handler_command h) of
        Some [prog, arg] \<Rightarrow> ends_with prog program \<and> arg \<in> set arguments
      | _ \<Rightarrow> False)"

definition codex_is_managed :: "dict \<Rightarrow> bool" where
  "codex_is_managed = runs ''/bin/ai-gotify-notify'' [''codex-permission'']"

definition claude_is_legacy :: "dict \<Rightarrow> bool" where
  "claude_is_legacy = runs ''/.claude/hooks/gotify-turn-ping.sh'' [''start'', ''stop'']"

definition claude_is_managed :: "dict \<Rightarrow> bool" where
  "claude_is_managed = runs ''/bin/ai-gotify-notify'' [''claude-notification'', ''claude-request'']"

text \<open>One group: its handlers without the removed ones, or nothing when none is left.\<close>

definition filter_group :: "string \<Rightarrow> (dict \<Rightarrow> bool) \<Rightarrow> json \<Rightarrow> exn + json option" where
  "filter_group tool remove g =
     (case g of
        JObj grp \<Rightarrow>
          (case map_of grp ''hooks'' of
             None \<Rightarrow> Inl (ValueError (tool @ '' hook group is missing its hooks list''))
           | Some (JArr handlers) \<Rightarrow>
               if list_all is_obj handlers then
                 (let kept = filter (\<lambda>h. \<not> remove (obj_of h)) handlers
                  in Inr (if kept = [] then None else Some (JObj (AList.update ''hooks'' (JArr kept) grp))))
               else Inl (ValueError (tool @ '' hook handler must be a JSON object''))
           | Some _ \<Rightarrow> Inl (ValueError (tool @ '' hook group must contain a hooks list'')))
      | _ \<Rightarrow> Inl (ValueError (tool @ '' hook group must be a JSON object'')))"

primrec filter_groups :: "string \<Rightarrow> (dict \<Rightarrow> bool) \<Rightarrow> json list \<Rightarrow> exn + json list" where
  "filter_groups tool remove [] = Inr []"
| "filter_groups tool remove (g # gs) =
     rbnd (filter_group tool remove g) (\<lambda>k.
     rbnd (filter_groups tool remove gs) (\<lambda>ks.
     Inr (case k of None \<Rightarrow> ks | Some x \<Rightarrow> x # ks)))"

text \<open>\<open>filter_handlers\<close> of the Claude script\<close>

definition filter_handlers :: "json \<Rightarrow> (dict \<Rightarrow> bool) \<Rightarrow> exn + json list" where
  "filter_handlers groups remove =
     (case groups of
        JArr gs \<Rightarrow> filter_groups ''Claude'' remove gs
      | _ \<Rightarrow> Inl (ValueError ''Claude hook event must contain a list of groups''))"

section \<open>The merges\<close>

definition dict_get :: "dict \<Rightarrow> string \<Rightarrow> json \<Rightarrow> json" where
  "dict_get d k v = (case map_of d k of None \<Rightarrow> v | Some x \<Rightarrow> x)"

definition codex_handler :: "string \<Rightarrow> json" where
  "codex_handler command =
     JObj [(''type'', JStr ''command''), (''command'', JStr command), (''timeout'', JInt 5)]"

definition codex_group :: "string \<Rightarrow> json" where
  "codex_group command = JObj [(''hooks'', JArr [codex_handler command])]"

definition merge_hooks :: "string \<Rightarrow> dict \<Rightarrow> exn + dict" where
  "merge_hooks command document =
     (case dict_get document ''hooks'' (JObj []) of
        JObj hooks \<Rightarrow>
          (case dict_get hooks ''PermissionRequest'' (JArr []) of
             JArr groups \<Rightarrow>
               rbnd (filter_groups ''Codex'' codex_is_managed groups) (\<lambda>kept.
               Inr (AList.update ''hooks''
                 (JObj (AList.update ''PermissionRequest'' (JArr (kept @ [codex_group command])) hooks))
                 document))
           | _ \<Rightarrow> Inl (ValueError ''Codex PermissionRequest must be a list''))
      | _ \<Rightarrow> Inl (ValueError ''Codex hooks must be a JSON object''))"

definition claude_event :: "(dict \<Rightarrow> bool) \<Rightarrow> string \<Rightarrow> dict \<Rightarrow> exn + dict" where
  "claude_event remove event hooks =
     rbnd (filter_handlers (dict_get hooks event (JArr [])) remove) (\<lambda>groups.
     Inr (if groups = [] then AList.delete event hooks else AList.update event (JArr groups) hooks))"

primrec claude_events :: "(dict \<Rightarrow> bool) \<Rightarrow> string list \<Rightarrow> dict \<Rightarrow> exn + dict" where
  "claude_events remove [] hooks = Inr hooks"
| "claude_events remove (e # es) hooks = rbnd (claude_event remove e hooks) (claude_events remove es)"

definition claude_handler :: "string \<Rightarrow> json" where
  "claude_handler command =
     JObj [(''type'', JStr ''command''), (''command'', JStr command), (''timeout'', JInt 15),
           (''async'', JBool True)]"

definition add_group :: "string \<Rightarrow> json \<Rightarrow> dict \<Rightarrow> dict" where
  "add_group event g hooks =
     AList.update event (JArr (arr_of (dict_get hooks event (JArr [])) @ [g])) hooks"

definition claude_group :: "string \<Rightarrow> json" where
  "claude_group command = JObj [(''hooks'', JArr [claude_handler command])]"

definition claude_notification_group :: "string \<Rightarrow> json" where
  "claude_notification_group command =
     JObj [(''matcher'', JStr ''agent_needs_input''), (''hooks'', JArr [claude_handler command])]"

definition claude_add :: "string \<Rightarrow> dict \<Rightarrow> dict" where
  "claude_add command hooks =
     add_group ''Notification'' (claude_notification_group command)
       (add_group ''Elicitation'' (claude_group command)
         (add_group ''PermissionRequest'' (claude_group command) hooks))"

definition merge_settings :: "string \<Rightarrow> dict \<Rightarrow> exn + dict" where
  "merge_settings command settings =
     (case dict_get settings ''hooks'' (JObj []) of
        JObj hooks \<Rightarrow>
          rbnd (claude_events claude_is_legacy [''UserPromptSubmit'', ''Stop''] hooks) (\<lambda>hooks.
          rbnd (claude_events claude_is_managed [''Notification'', ''PermissionRequest'', ''Elicitation''] hooks) (\<lambda>hooks.
          Inr (AList.update ''hooks'' (JObj (claude_add command hooks)) settings)))
      | _ \<Rightarrow> Inl (ValueError ''Claude settings hooks must be a JSON object''))"

text \<open>The managed Markdown block\<close>

definition begin_marker :: "string \<Rightarrow> string" where
  "begin_marker name = ''<!-- BEGIN '' @ name @ '' -->''"

definition end_marker :: "string \<Rightarrow> string" where
  "end_marker name = ''<!-- END '' @ name @ '' -->''"

definition md_block :: "string \<Rightarrow> string \<Rightarrow> string" where
  "md_block name body = begin_marker name @ [CHR 0x0A] @ strip body @ [CHR 0x0A] @ end_marker name"

definition block_rx :: "string \<Rightarrow> rx" where
  "block_rx name =
     rseq [RLit (begin_marker name), RStarLazy any_char, RLit (end_marker name), ropt (RLit [CHR 0x0A])]"

text \<open>Every matched block is cut out; the first one leaves the new block in its place.\<close>

definition replace_blocks :: "string \<Rightarrow> rmatch list \<Rightarrow> string \<Rightarrow> string" where
  "replace_blocks block ms tail =
     concat (map (\<lambda>(i, m). m_pre m @ (if i = 0 then block @ [CHR 0x0A] else [])) (enum_from 0 ms)) @ tail"

definition md_merge_text :: "string \<Rightarrow> string \<Rightarrow> string \<Rightarrow> exn + string" where
  "md_merge_text name body original =
     (let block = md_block name body;
          begin_count = count_sub original (begin_marker name);
          end_count = count_sub original (end_marker name)
      in if begin_count \<noteq> end_count then
           Inl (ValueError (''unbalanced managed-block markers for '' @ name))
         else if begin_count \<noteq> 0 then
           (case find_all (Suc (length original)) (block_rx name) None original of
              (ms, tail) \<Rightarrow>
                if length ms \<noteq> begin_count then
                  Inl (ValueError (''nested or out-of-order managed-block markers for '' @ name))
                else Inr (rstrip (replace_blocks block ms tail) @ [CHR 0x0A]))
         else
           (let kept = rstrip original
            in Inr (rstrip ((if kept = [] then [] else kept @ [CHR 0x0A, CHR 0x0A]) @ block) @ [CHR 0x0A])))"

section \<open>The publication protocol\<close>

text \<open>
  The file tree with the permission bits of files. Other programs run at any time; two
  windows matter: \<open>before\<close> is what they do between the script's read and its last
  comparison, \<open>late\<close> what they do between that comparison and \<open>os.replace\<close>.
  \<open>tmp\<close> is the name mkstemp returns. \<open>view\<close> is how the script compares contents: the
  JSON scripts tell a missing file from an empty one, the Markdown script does not.
\<close>

record cfg_world =
  tree :: fs
  modes :: "(path \<times> int) list"

record interference =
  before :: "cfg_world \<Rightarrow> cfg_world"
  late :: "cfg_world \<Rightarrow> cfg_world"

definition mode_bits :: "cfg_world \<Rightarrow> path \<Rightarrow> int" where
  "mode_bits w p = (case map_of (modes w) p of None \<Rightarrow> 384 | Some m \<Rightarrow> m)"

definition target_mode :: "cfg_world \<Rightarrow> path \<Rightarrow> int" where
  "target_mode w p = (if fs_exists (tree w) p then mode_bits w p else 384)"

definition read_opt :: "fs \<Rightarrow> path \<Rightarrow> exn + string option" where
  "read_opt t p =
     (case map_of t p of
        None \<Rightarrow> Inr None
      | Some (NFile c) \<Rightarrow> Inr (Some c)
      | Some _ \<Rightarrow> Inl (OSError ''Is a directory''))"

definition drop_tmp :: "path \<Rightarrow> cfg_world \<Rightarrow> cfg_world" where
  "drop_tmp tmp w = (if fs_exists (tree w) tmp then w\<lparr>tree := fs_unlink tmp (tree w)\<rparr> else w)"

definition os_replace :: "path \<Rightarrow> path \<Rightarrow> (cfg_world, bool) prog" where
  "os_replace tmp p w =
     (if \<not> fs_exists (tree w) tmp then (Inl (OSError ''No such file or directory''), w)
      else if fs_is_dir (tree w) p then (Inl (OSError ''Is a directory''), w)
      else (Inr True, w\<lparr>tree := fs_rename tmp p (tree w), modes := AList.update p (mode_bits w tmp) (modes w)\<rparr>))"

definition conflict :: "path \<Rightarrow> exn" where
  "conflict p = RuntimeError (''concurrent update detected for '' @ path_str p)"

definition replace_checked ::
  "(string option \<Rightarrow> string) \<Rightarrow> path \<Rightarrow> path \<Rightarrow> (cfg_world \<Rightarrow> cfg_world) \<Rightarrow> string option \<Rightarrow>
     (cfg_world, bool) prog" where
  "replace_checked view p tmp late_write original w =
     (if fs_is_link (tree w) p then (Inl (conflict p), w)
      else
        case read_opt (tree w) p of
          Inl e \<Rightarrow> (Inl e, w)
        | Inr current \<Rightarrow>
            if view current \<noteq> view original then (Inl (conflict p), w)
            else os_replace tmp p (late_write w))"

definition stage :: "path \<Rightarrow> path \<Rightarrow> string \<Rightarrow> cfg_world \<Rightarrow> cfg_world" where
  "stage p tmp merged w =
     w\<lparr>tree := fs_write tmp merged (tree w), modes := AList.update tmp (target_mode w p) (modes w)\<rparr>"

definition publish ::
  "(string option \<Rightarrow> string) \<Rightarrow> path \<Rightarrow> path \<Rightarrow> interference \<Rightarrow> string option \<Rightarrow> string \<Rightarrow>
     (cfg_world, bool) prog" where
  "publish view p tmp i original merged w =
     try_finally (replace_checked view p tmp (late i) original) (drop_tmp tmp) (before i (stage p tmp merged w))"

text \<open>The suffix of the lock file; another merge of this kind has its own.\<close>

definition notify_lock :: string where
  "notify_lock = ''.homelab-ai-notifications.lock''"

definition lock_file :: "string \<Rightarrow> path \<Rightarrow> path" where
  "lock_file lk p = with_name p (''.'' @ path_name p @ lk)"

definition take_lock :: "string \<Rightarrow> path \<Rightarrow> cfg_world \<Rightarrow> cfg_world" where
  "take_lock lk p w =
     w\<lparr>tree := (let t = fs_mkdirs (butlast p) (tree w)
               in if fs_exists t (lock_file lk p) then t else fs_write (lock_file lk p) [] t)\<rparr>"

definition managed_update ::
  "string \<Rightarrow> (string option \<Rightarrow> string) \<Rightarrow> (string option \<Rightarrow> exn + string) \<Rightarrow> string \<Rightarrow> path \<Rightarrow> path \<Rightarrow>
     interference \<Rightarrow> (cfg_world, bool) prog" where
  "managed_update lk view transform what p tmp i w0 =
     (let w = take_lock lk p w0 in
      if fs_is_link (tree w) p then (Inl (ValueError (''refusing to replace symlinked '' @ what @ path_str p)), w)
      else
        case read_opt (tree w) p of
          Inl e \<Rightarrow> (Inl e, w)
        | Inr original \<Rightarrow>
            (case transform original of
               Inl e \<Rightarrow> (Inl e, w)
             | Inr merged \<Rightarrow>
                 if view (Some merged) = view original then (Inr False, w)
                 else publish view p tmp i original merged w))"

text \<open>JSON contents are compared exactly, with a missing file apart; Markdown reads it as empty.\<close>

definition exact_view :: "string option \<Rightarrow> string" where
  "exact_view c = (case c of None \<Rightarrow> [] | Some s \<Rightarrow> CHR ''x'' # s)"

definition empty_view :: "string option \<Rightarrow> string" where
  "empty_view c = (case c of None \<Rightarrow> [] | Some s \<Rightarrow> s)"

definition json_transform :: "string \<Rightarrow> (dict \<Rightarrow> exn + dict) \<Rightarrow> string option \<Rightarrow> exn + string" where
  "json_transform err merge original =
     (case json_loads (case original of None \<Rightarrow> ''{}'' @ [CHR 0x0A] | Some s \<Rightarrow> s) of
        None \<Rightarrow> Inl (ValueError ''Expecting value'')
      | Some (JObj d) \<Rightarrow>
          rbnd (merge d) (\<lambda>d'. Inr (json_dumps indent2_layout (JObj d') @ [CHR 0x0A]))
      | Some _ \<Rightarrow> Inl (ValueError err))"

definition codex_merge_file :: "path \<Rightarrow> string \<Rightarrow> path \<Rightarrow> interference \<Rightarrow> (cfg_world, bool) prog" where
  "codex_merge_file p command =
     managed_update notify_lock exact_view
       (json_transform ''Codex hooks file must contain a JSON object'' (merge_hooks command)) ''hooks: '' p"

definition claude_merge_file :: "path \<Rightarrow> string \<Rightarrow> path \<Rightarrow> interference \<Rightarrow> (cfg_world, bool) prog" where
  "claude_merge_file p command =
     managed_update notify_lock exact_view
       (json_transform ''Claude settings must contain a JSON object'' (merge_settings command)) ''settings: '' p"

definition md_transform :: "string \<Rightarrow> string \<Rightarrow> string option \<Rightarrow> exn + string" where
  "md_transform name body original = md_merge_text name body (empty_view original)"

definition md_merge_file ::
  "path \<Rightarrow> string \<Rightarrow> string \<Rightarrow> path \<Rightarrow> interference \<Rightarrow> (cfg_world, bool) prog" where
  "md_merge_file p name body = managed_update notify_lock empty_view (md_transform name body) ''file: '' p"

section \<open>Filtering is stable\<close>

lemma filter_group_idem:
  "filter_group tool rm g = Inr (Some x) \<Longrightarrow> filter_group tool rm x = Inr (Some x)"
  by (auto simp: filter_group_def Let_def update_conv' update_overwrite list_all_iff
      split: json.splits option.splits if_splits)

lemma filter_groups_idem:
  "filter_groups tool rm gs = Inr ks \<Longrightarrow> filter_groups tool rm ks = Inr ks"
  by (induction gs arbitrary: ks)
    (auto simp: rbnd_Inr_iff split: option.splits dest: filter_group_idem)

lemma filter_groups_append:
  "filter_groups tool rm (xs @ ys) =
     rbnd (filter_groups tool rm xs) (\<lambda>a. rbnd (filter_groups tool rm ys) (\<lambda>b. Inr (a @ b)))"
proof (induction xs)
  case Nil
  then show ?case by (cases "filter_groups tool rm ys") auto
next
  case (Cons g gs)
  then show ?case
    by (cases "filter_group tool rm g"; cases "filter_groups tool rm gs"; cases "filter_groups tool rm ys")
      (auto split: option.splits)
qed

lemma filter_groups_drop_last:
  "filter_groups tool rm ks = Inr ks \<Longrightarrow> filter_group tool rm g = Inr None \<Longrightarrow>
   filter_groups tool rm (ks @ [g]) = Inr ks"
  by (simp add: filter_groups_append)

text \<open>The command names the managed program with the argument the script looks for.\<close>

definition names_program :: "string \<Rightarrow> string list \<Rightarrow> string \<Rightarrow> bool" where
  "names_program program arguments command =
     (case shlex_split command of
        Some [prog, arg] \<Rightarrow> ends_with prog program \<and> arg \<in> set arguments
      | _ \<Rightarrow> False)"

abbreviation codex_command :: "string \<Rightarrow> bool" where
  "codex_command \<equiv> names_program ''/bin/ai-gotify-notify'' [''codex-permission'']"

abbreviation claude_command :: "string \<Rightarrow> bool" where
  "claude_command \<equiv> names_program ''/bin/ai-gotify-notify'' [''claude-notification'', ''claude-request'']"

lemma codex_group_removed:
  "codex_command c \<Longrightarrow> filter_group tool codex_is_managed (codex_group c) = Inr None"
  by (simp add: filter_group_def codex_group_def codex_handler_def codex_is_managed_def runs_def
      handler_command_def py_str_def names_program_def is_obj_def)

lemma claude_groups_removed:
  assumes "claude_command c"
  shows "filter_group tool claude_is_managed (claude_group c) = Inr None"
    and "filter_group tool claude_is_managed (claude_notification_group c) = Inr None"
  using assms
  by (simp_all add: filter_group_def claude_group_def claude_notification_group_def claude_handler_def
      claude_is_managed_def runs_def handler_command_def py_str_def names_program_def is_obj_def)

section \<open>The Codex merge\<close>

lemma merge_hooks_idem:
  assumes c: "codex_command command" and m: "merge_hooks command d = Inr d'"
  shows "merge_hooks command d' = Inr d'"
proof -
  obtain hooks groups kept where
    h: "dict_get d ''hooks'' (JObj []) = JObj hooks" and
    g: "dict_get hooks ''PermissionRequest'' (JArr []) = JArr groups" and
    k: "filter_groups ''Codex'' codex_is_managed groups = Inr kept" and
    d': "d' = AList.update ''hooks''
           (JObj (AList.update ''PermissionRequest'' (JArr (kept @ [codex_group command])) hooks)) d"
    using m by (auto simp: merge_hooks_def rbnd_Inr_iff split: json.splits)
  have "filter_groups ''Codex'' codex_is_managed (kept @ [codex_group command]) = Inr kept"
    by (rule filter_groups_drop_last [OF filter_groups_idem [OF k] codex_group_removed [OF c]])
  then show ?thesis
    by (simp add: merge_hooks_def d' dict_get_def update_conv' update_overwrite)
qed

section \<open>The Claude merge\<close>

definition stable_at :: "(dict \<Rightarrow> bool) \<Rightarrow> json option \<Rightarrow> bool" where
  "stable_at rm v \<longleftrightarrow> (v = None \<or> (\<exists>gs. v = Some (JArr gs) \<and> gs \<noteq> [] \<and> filter_groups ''Claude'' rm gs = Inr gs))"

lemma claude_event_stable: "stable_at rm (map_of h e) \<Longrightarrow> claude_event rm e h = Inr h"
  by (auto simp: stable_at_def claude_event_def filter_handlers_def dict_get_def delete_absent update_same)

lemma claude_event_makes_stable: "claude_event rm e h = Inr h' \<Longrightarrow> stable_at rm (map_of h' e)"
proof -
  assume "claude_event rm e h = Inr h'"
  then obtain gs ks where f: "filter_groups ''Claude'' rm gs = Inr ks" and
    h': "h' = (if ks = [] then AList.delete e h else AList.update e (JArr ks) h)"
    by (auto simp: claude_event_def filter_handlers_def rbnd_Inr_iff split: json.splits)
  show ?thesis
    using filter_groups_idem [OF f] by (simp add: h' stable_at_def update_conv' delete_conv')
qed

lemma claude_event_other: "claude_event rm e h = Inr h' \<Longrightarrow> k \<noteq> e \<Longrightarrow> map_of h' k = map_of h k"
  by (auto simp: claude_event_def rbnd_Inr_iff update_conv' delete_conv' split: if_splits)

lemma add_group_other: "k \<noteq> e \<Longrightarrow> map_of (add_group e g h) k = map_of h k"
  by (simp add: add_group_def update_conv')

text \<open>Filtering an event undoes the group added to it.\<close>

lemma claude_event_undo:
  assumes "stable_at rm (map_of h e)" "filter_group ''Claude'' rm g = Inr None"
  shows "claude_event rm e (add_group e g h) = Inr h"
proof (cases "map_of h e")
  case None
  then show ?thesis
    using assms by (simp add: claude_event_def filter_handlers_def add_group_def dict_get_def update_conv'
        delete_after_update delete_absent)
next
  case (Some v)
  then obtain gs where "v = JArr gs" "gs \<noteq> []" "filter_groups ''Claude'' rm gs = Inr gs"
    using assms(1) by (auto simp: stable_at_def)
  with Some show ?thesis
    using assms(2) by (simp add: claude_event_def filter_handlers_def add_group_def dict_get_def update_conv'
        filter_groups_drop_last update_overwrite update_same)
qed

lemma claude_event_under_add:
  assumes "claude_event rm e h = Inr h'" "j \<noteq> e" "map_of h e \<noteq> None"
  shows "claude_event rm e (add_group j g h) = Inr (add_group j g h')"
proof -
  have o: "map_of h' j = map_of h j" by (rule claude_event_other [OF assms(1,2)])
  have m: "map_of (add_group j g h) e = map_of h e" using assms(2) by (simp add: add_group_other)
  have e: "e \<in> fst ` set h" using assms(3) by (metis map_of_eq_None_iff)
  obtain ks where ks: "filter_handlers (dict_get h e (JArr [])) rm = Inr ks" and
    h': "h' = (if ks = [] then AList.delete e h else AList.update e (JArr ks) h)"
    using assms(1) by (auto simp: claude_event_def rbnd_Inr_iff)
  have "dict_get (add_group j g h) e (JArr []) = dict_get h e (JArr [])" by (simp add: dict_get_def m)
  moreover have "add_group j g h' = (if ks = [] then AList.delete e (add_group j g h) else AList.update e (JArr ks) (add_group j g h))"
    using assms(2) e by (simp add: add_group_def dict_get_def o h' [symmetric])
      (simp add: h' delete_update_commute update_commute [OF assms(2) [symmetric] e])
  ultimately show ?thesis by (simp add: claude_event_def ks)
qed

lemma claude_add_undo:
  assumes c: "claude_command c"
    and st: "\<And>e. e \<in> {''Notification'', ''PermissionRequest'', ''Elicitation''} \<Longrightarrow>
               stable_at claude_is_managed (map_of h e)"
  shows "claude_events claude_is_managed [''Notification'', ''PermissionRequest'', ''Elicitation''] (claude_add c h) = Inr h"
proof -
  let ?g = "claude_group c" and ?n = "claude_notification_group c"
  define hp where "hp = add_group ''PermissionRequest'' ?g h"
  define he where "he = add_group ''Elicitation'' ?g hp"
  have r: "filter_group ''Claude'' claude_is_managed ?g = Inr None"
    "filter_group ''Claude'' claude_is_managed ?n = Inr None"
    using claude_groups_removed [OF c] by auto
  have "claude_event claude_is_managed ''Notification'' (add_group ''Notification'' ?n he) = Inr he"
    by (rule claude_event_undo [OF _ r(2)]) (use st in \<open>simp add: he_def hp_def add_group_other\<close>)
  moreover have "claude_event claude_is_managed ''PermissionRequest'' hp = Inr h"
    unfolding hp_def by (rule claude_event_undo [OF _ r(1)]) (use st in simp)
  then have "claude_event claude_is_managed ''PermissionRequest'' he = Inr (add_group ''Elicitation'' ?g h)"
    unfolding he_def by (rule claude_event_under_add) (simp_all add: hp_def add_group_def update_conv')
  moreover have "claude_event claude_is_managed ''Elicitation'' (add_group ''Elicitation'' ?g h) = Inr h"
    by (rule claude_event_undo [OF _ r(1)]) (use st in simp)
  ultimately show ?thesis by (simp add: claude_add_def he_def hp_def)
qed

lemma merge_settings_idem:
  assumes c: "claude_command command" and m: "merge_settings command d = Inr d'"
  shows "merge_settings command d' = Inr d'"
proof -
  obtain h0 h1 h2 h3 h4 h5 where
    h0: "dict_get d ''hooks'' (JObj []) = JObj h0" and
    u: "claude_event claude_is_legacy ''UserPromptSubmit'' h0 = Inr h1" and
    s: "claude_event claude_is_legacy ''Stop'' h1 = Inr h2" and
    n: "claude_event claude_is_managed ''Notification'' h2 = Inr h3" and
    p: "claude_event claude_is_managed ''PermissionRequest'' h3 = Inr h4" and
    e: "claude_event claude_is_managed ''Elicitation'' h4 = Inr h5" and
    d': "d' = AList.update ''hooks'' (JObj (claude_add command h5)) d"
    using m by (auto simp: merge_settings_def rbnd_Inr_iff split: json.splits)
  note other = claude_event_other [OF s] claude_event_other [OF n] claude_event_other [OF p] claude_event_other [OF e]
  have "stable_at claude_is_managed (map_of h5 ''Notification'')"
    using claude_event_makes_stable [OF n] by (simp add: other)
  moreover have "stable_at claude_is_managed (map_of h5 ''PermissionRequest'')"
    using claude_event_makes_stable [OF p] by (simp add: other)
  moreover have "stable_at claude_is_managed (map_of h5 ''Elicitation'')"
    by (rule claude_event_makes_stable [OF e])
  ultimately have undo: "claude_events claude_is_managed [''Notification'', ''PermissionRequest'', ''Elicitation'']
      (claude_add command h5) = Inr h5"
    by (intro claude_add_undo [OF c]) auto
  have "claude_event claude_is_legacy ''UserPromptSubmit'' (claude_add command h5) = Inr (claude_add command h5)"
    using claude_event_makes_stable [OF u]
    by (intro claude_event_stable) (simp add: other claude_add_def add_group_other)
  moreover have "claude_event claude_is_legacy ''Stop'' (claude_add command h5) = Inr (claude_add command h5)"
    using claude_event_makes_stable [OF s]
    by (intro claude_event_stable) (simp add: other claude_add_def add_group_other)
  ultimately have legacy: "claude_events claude_is_legacy [''UserPromptSubmit'', ''Stop''] (claude_add command h5) =
      Inr (claude_add command h5)" by simp
  have "dict_get d' ''hooks'' (JObj []) = JObj (claude_add command h5)"
    by (simp add: d' dict_get_def update_conv')
  moreover have "AList.update ''hooks'' (JObj (claude_add command h5)) d' = d'"
    by (simp add: d' update_overwrite)
  ultimately show ?thesis
    by (simp only: merge_settings_def json.case legacy undo rbnd_simps)
qed

section \<open>Contents\<close>

lemma json_ok_obj_update: "json_ok (JObj d) \<Longrightarrow> json_ok v \<Longrightarrow> json_ok (JObj (AList.update k v d))"
proof -
  assume d: "json_ok (JObj d)" and v: "json_ok v"
  have "\<forall>p \<in> set (AList.update k v d). json_ok (snd p)"
    using d v by (induction d) auto
  then show ?thesis using d distinct_update [of d k v] by simp
qed

lemma json_ok_obj_delete: "json_ok (JObj d) \<Longrightarrow> json_ok (JObj (AList.delete k d))"
  using distinct_delete [of d k] by (auto simp: AList.delete_eq)

lemma json_ok_dict_get: "json_ok (JObj d) \<Longrightarrow> json_ok v \<Longrightarrow> json_ok (dict_get d k v)"
  by (auto simp: dict_get_def split: option.splits dest: map_of_SomeD)

lemma json_ok_JObjE: "json_ok (JObj d) \<Longrightarrow> dict_get d k (JObj []) = JObj h \<Longrightarrow> json_ok (JObj h)"
  by (metis json_ok_dict_get json_ok.simps(3) distinct.simps(1) empty_iff list.set(1) list.simps(8))

lemma filter_group_json_ok: "json_ok g \<Longrightarrow> filter_group tool rm g = Inr (Some x) \<Longrightarrow> json_ok x"
proof -
  assume g: "json_ok g" and f: "filter_group tool rm g = Inr (Some x)"
  then obtain d hs where d: "g = JObj d" "map_of d ''hooks'' = Some (JArr hs)"
    and x: "x = JObj (AList.update ''hooks'' (JArr (filter (\<lambda>h. \<not> rm (obj_of h)) hs)) d)"
    by (auto simp: filter_group_def Let_def split: json.splits option.splits if_splits)
  have "json_ok (JArr hs)" using g d map_of_SomeD by fastforce
  then have "json_ok (JArr (filter (\<lambda>h. \<not> rm (obj_of h)) hs))" by auto
  then show ?thesis unfolding x using g d(1) by (blast intro: json_ok_obj_update)
qed

lemma filter_groups_json_ok: "\<forall>g \<in> set gs. json_ok g \<Longrightarrow> filter_groups tool rm gs = Inr ks \<Longrightarrow> \<forall>k \<in> set ks. json_ok k"
  by (induction gs arbitrary: ks)
    (auto simp: rbnd_Inr_iff split: option.splits dest: filter_group_json_ok)

lemma merge_hooks_json_ok:
  assumes "json_ok (JObj d)" "merge_hooks command d = Inr d'"
  shows "json_ok (JObj d')"
proof -
  obtain hooks groups kept where
    h: "dict_get d ''hooks'' (JObj []) = JObj hooks" and
    g: "dict_get hooks ''PermissionRequest'' (JArr []) = JArr groups" and
    k: "filter_groups ''Codex'' codex_is_managed groups = Inr kept" and
    d': "d' = AList.update ''hooks''
           (JObj (AList.update ''PermissionRequest'' (JArr (kept @ [codex_group command])) hooks)) d"
    using assms(2) by (auto simp: merge_hooks_def rbnd_Inr_iff split: json.splits)
  have ho: "json_ok (JObj hooks)" by (rule json_ok_JObjE [OF assms(1) h])
  then have "json_ok (JArr groups)" using json_ok_dict_get [of hooks "JArr []" "''PermissionRequest''"] g by simp
  then have "json_ok (JArr (kept @ [codex_group command]))"
    using filter_groups_json_ok [OF _ k] by (auto simp: codex_group_def codex_handler_def)
  then show ?thesis unfolding d' by (intro json_ok_obj_update assms(1) ho)
qed

lemma claude_event_json_ok: "json_ok (JObj h) \<Longrightarrow> claude_event rm e h = Inr h' \<Longrightarrow> json_ok (JObj h')"
proof -
  assume h: "json_ok (JObj h)" and "claude_event rm e h = Inr h'"
  then obtain gs ks where g: "dict_get h e (JArr []) = JArr gs" and f: "filter_groups ''Claude'' rm gs = Inr ks" and
    h': "h' = (if ks = [] then AList.delete e h else AList.update e (JArr ks) h)"
    by (auto simp: claude_event_def filter_handlers_def rbnd_Inr_iff split: json.splits)
  have "json_ok (JArr gs)" using json_ok_dict_get [OF h, of "JArr []" e] g by simp
  then have "json_ok (JArr ks)" using filter_groups_json_ok [OF _ f] by simp
  then show ?thesis using h by (simp only: h' json_ok_obj_update json_ok_obj_delete split: if_split) simp
qed

lemma claude_events_json_ok: "json_ok (JObj h) \<Longrightarrow> claude_events rm es h = Inr h' \<Longrightarrow> json_ok (JObj h')"
  by (induction es arbitrary: h) (auto simp: rbnd_Inr_iff simp del: json_ok.simps dest: claude_event_json_ok)

lemma add_group_json_ok: "json_ok (JObj h) \<Longrightarrow> json_ok g \<Longrightarrow> json_ok (JObj (add_group e g h))"
proof -
  assume h: "json_ok (JObj h)" and g: "json_ok g"
  have "json_ok (dict_get h e (JArr []))" by (rule json_ok_dict_get [OF h]) simp
  then have "json_ok (JArr (arr_of (dict_get h e (JArr [])) @ [g]))"
    using g by (cases "dict_get h e (JArr [])") auto
  then show ?thesis unfolding add_group_def by (intro json_ok_obj_update h)
qed

lemma merge_settings_json_ok:
  assumes "json_ok (JObj d)" "merge_settings command d = Inr d'"
  shows "json_ok (JObj d')"
proof -
  obtain h0 h1 h2 where
    h0: "dict_get d ''hooks'' (JObj []) = JObj h0" and
    h1: "claude_events claude_is_legacy [''UserPromptSubmit'', ''Stop''] h0 = Inr h1" and
    h2: "claude_events claude_is_managed [''Notification'', ''PermissionRequest'', ''Elicitation''] h1 = Inr h2" and
    d': "d' = AList.update ''hooks'' (JObj (claude_add command h2)) d"
    using assms(2) by (auto simp: merge_settings_def rbnd_Inr_iff simp del: claude_events.simps split: json.splits)
  have "json_ok (JObj h2)"
    by (rule claude_events_json_ok [OF claude_events_json_ok [OF json_ok_JObjE [OF assms(1) h0] h1] h2])
  moreover have "json_ok (claude_group command)" "json_ok (claude_notification_group command)"
    by (simp_all add: claude_group_def claude_notification_group_def claude_handler_def)
  ultimately show ?thesis unfolding d' claude_add_def
    by (intro json_ok_obj_update add_group_json_ok assms(1))
qed

lemma json_transform_settles:
  assumes idem: "\<And>d d'. merge d = Inr d' \<Longrightarrow> merge d' = Inr d'"
    and ok: "\<And>d d'. json_ok (JObj d) \<Longrightarrow> merge d = Inr d' \<Longrightarrow> json_ok (JObj d')"
    and t: "json_transform err merge c = Inr y"
  shows "json_transform err merge (Some y) = Inr y"
proof -
  obtain d d' where d: "json_loads (case c of None \<Rightarrow> ''{}'' @ [CHR 0x0A] | Some s \<Rightarrow> s) = Some (JObj d)"
    and m: "merge d = Inr d'" and y: "y = json_dumps indent2_layout (JObj d') @ [CHR 0x0A]"
    using t unfolding json_transform_def
    by (auto simp: rbnd_Inr_iff split: option.splits json.splits)
  have "json_ok (JObj d')" by (rule ok [OF json_loads_ok [OF d] m])
  then have "json_loads y = Some (JObj d')"
    unfolding y by (intro json_loads_dumps_ws good_layouts) (simp_all add: is_ws_def)
  then show ?thesis by (simp add: json_transform_def idem [OF m] y)
qed

section \<open>What a merge run does\<close>

definition leaves :: "(cfg_world \<Rightarrow> cfg_world) \<Rightarrow> path \<Rightarrow> bool" where
  "leaves f q \<longleftrightarrow>
     (\<forall>w. map_of (tree (f w)) q = map_of (tree w) q \<and> map_of (modes (f w)) q = map_of (modes w) q)"

lemma leavesD:
  "leaves f q \<Longrightarrow> map_of (tree (f w)) q = map_of (tree w) q"
  "leaves f q \<Longrightarrow> mode_bits (f w) q = mode_bits w q"
  by (simp_all add: leaves_def mode_bits_def)

lemma managed_update_cases:
  assumes "managed_update lk view transform what p tmp i w0 = (r, w')"
  obtains (failed) e where "r = Inl e" "w' = take_lock lk p w0"
  | (current) original merged where "r = Inr False" "w' = take_lock lk p w0"
      "\<not> fs_is_link (tree w') p" "read_opt (tree w') p = Inr original" "transform original = Inr merged"
      "view (Some merged) = view original"
  | (published) original merged where "(r, w') = publish view p tmp i original merged (take_lock lk p w0)"
      "\<not> fs_is_link (tree (take_lock lk p w0)) p" "read_opt (tree (take_lock lk p w0)) p = Inr original"
      "transform original = Inr merged" "view (Some merged) \<noteq> view original"
proof (cases "fs_is_link (tree (take_lock lk p w0)) p")
  case True
  with assms failed show ?thesis by (auto simp: managed_update_def)
next
  case nl: False
  show ?thesis
  proof (cases "read_opt (tree (take_lock lk p w0)) p")
    case (Inl e)
    with assms nl failed [of e] show ?thesis by (simp add: managed_update_def)
  next
    case rd: (Inr original)
    show ?thesis
    proof (cases "transform original")
      case (Inl e)
      with assms nl rd failed [of e] show ?thesis by (simp add: managed_update_def)
    next
      case t: (Inr merged)
      show ?thesis
        using assms nl rd t current [of original merged] published [of original merged]
        by (cases "view (Some merged) = view original") (auto simp: managed_update_def)
    qed
  qed
qed

lemma publish_True:
  assumes "publish view p tmp i original merged w = (Inr True, w')" and ne: "tmp \<noteq> p"
    and lv: "leaves (before i) tmp" "leaves (late i) tmp"
  shows "fs_read (tree w') p = Some merged" "mode_bits w' p = target_mode w p" "\<not> fs_exists (tree w') tmp"
    "\<not> fs_is_link (tree w') p"
    "\<exists>current. read_opt (tree (before i (stage p tmp merged w))) p = Inr current \<and> view current = view original"
proof -
  define w1 where "w1 = before i (stage p tmp merged w)"
  define w2 where "w2 = late i w1"
  have t: "map_of (tree w2) tmp = Some (NFile merged)" "mode_bits w2 tmp = target_mode w p"
    by (simp_all add: w2_def w1_def leavesD lv stage_def) (simp add: mode_bits_def update_conv')
  obtain w3 where rc: "replace_checked view p tmp (late i) original w1 = (Inr True, w3)" and w': "w' = drop_tmp tmp w3"
    using assms(1) by (cases "replace_checked view p tmp (late i) original w1")
      (simp add: publish_def try_finally_def w1_def)
  then obtain current where c: "read_opt (tree w1) p = Inr current" "view current = view original"
    and o: "os_replace tmp p w2 = (Inr True, w3)"
    unfolding replace_checked_def w2_def by (cases "read_opt (tree w1) p") (auto split: if_splits)
  then have w3: "w3 = w2\<lparr>tree := fs_rename tmp p (tree w2), modes := AList.update p (mode_bits w2 tmp) (modes w2)\<rparr>"
    by (simp add: os_replace_def split: if_splits)
  show "fs_read (tree w') p = Some merged" "\<not> fs_exists (tree w') tmp" "\<not> fs_is_link (tree w') p"
    using ne by (simp_all add: w' w3 drop_tmp_def fs_read_def fs_exists_def fs_is_link_def map_of_fs_rename t)
  show "mode_bits w' p = target_mode w p"
    using t by (simp add: w' w3 drop_tmp_def) (simp add: mode_bits_def update_conv')
  show "\<exists>current. read_opt (tree (before i (stage p tmp merged w))) p = Inr current \<and> view current = view original"
    using c by (auto simp: w1_def)
qed

lemma drop_tmp_other: "q \<noteq> tmp \<Longrightarrow> map_of (tree (drop_tmp tmp w)) q = map_of (tree w) q"
  by (simp add: drop_tmp_def)

lemma drop_tmp_gone: "\<not> fs_exists (tree (drop_tmp tmp w)) tmp"
  by (simp add: drop_tmp_def fs_exists_def)

lemma os_replace_False: "os_replace tmp p w \<noteq> (Inr False, w')"
  by (simp add: os_replace_def)

lemma publish_Inl:
  assumes "publish view p tmp i original merged w = (Inl e, w')" and ne: "tmp \<noteq> p" and lv: "leaves (late i) p"
  shows "map_of (tree w') p = map_of (tree (before i (stage p tmp merged w))) p"
proof -
  define w1 where "w1 = before i (stage p tmp merged w)"
  obtain w2 where w2: "w2 = w1 \<or> w2 = late i w1" and w': "w' = drop_tmp tmp w2"
    using assms(1)
    by (auto simp: publish_def try_finally_def replace_checked_def os_replace_def w1_def
        split: if_splits sum.splits prod.splits)
  show ?thesis
    using w2 ne leavesD(1) [OF lv] by (auto simp: w' drop_tmp_other w1_def)
qed

lemma publish_tmp_gone: "publish view p tmp i original merged w = (r, w') \<Longrightarrow> \<not> fs_exists (tree w') tmp"
  by (auto simp: publish_def try_finally_def drop_tmp_gone split: prod.splits)

lemma publish_not_False: "publish view p tmp i original merged w \<noteq> (Inr False, w')"
  by (auto simp: publish_def try_finally_def replace_checked_def os_replace_False
      split: prod.splits sum.splits)

lemma lock_file_ne: "p \<noteq> [] \<Longrightarrow> lock_file lk p \<noteq> p"
proof
  assume p: "p \<noteq> []" and eq: "lock_file lk p = p"
  have "last (lock_file lk p) = ''.'' @ path_name p @ lk"
    unfolding lock_file_def by (rule with_name_last)
  then have l: "last p = ''.'' @ path_name p @ lk" unfolding eq .
  then have "length (last p) = length (''.'' @ path_name p @ lk)" by (rule arg_cong)
  with l p show False by (auto simp: path_name_def split: if_splits)
qed

lemma take_lock_target:
  assumes "p \<noteq> []"
  shows "map_of (tree (take_lock lk p w)) p = map_of (tree w) p" "mode_bits (take_lock lk p w) p = mode_bits w p"
proof -
  have "p \<notin> set (tl (prefixes (butlast p)))"
  proof
    assume "p \<in> set (tl (prefixes (butlast p)))"
    then have "p \<in> set (prefixes (butlast p))" by (cases "prefixes (butlast p)") auto
    then have "prefix p (butlast p)" by simp
    then show False using assms prefix_length_le [of p "butlast p"] by (cases p rule: rev_cases) auto
  qed
  then show "map_of (tree (take_lock lk p w)) p = map_of (tree w) p"
    using lock_file_ne [OF assms, of lk] by (auto simp: take_lock_def Let_def map_of_fs_mkdirs)
  show "mode_bits (take_lock lk p w) p = mode_bits w p"
    by (simp add: take_lock_def mode_bits_def)
qed

section \<open>The contract of a managed file\<close>

text \<open>
  What \<open>merge_file\<close> relies on: how it compares contents tells two texts apart, and the
  merge of an acceptable configuration is a fixed point of itself.
\<close>

locale managed_file =
  fixes view :: "string option \<Rightarrow> string"
    and transform :: "'c \<Rightarrow> string option \<Rightarrow> exn + string"
    and acceptable :: "'c \<Rightarrow> bool"
  assumes view_inj: "view (Some a) = view (Some b) \<Longrightarrow> a = b"
    and settles: "acceptable c \<Longrightarrow> transform c x = Inr y \<Longrightarrow> transform c (Some y) = Inr y"
begin

lemma rerun_current:
  assumes "p \<noteq> []" "read_opt (tree w) p = Inr original" "\<not> fs_is_link (tree w) p"
    "transform c original = Inr merged" "view (Some merged) = view original"
  shows "managed_update lk view (transform c) what p tmp i w = (Inr False, take_lock lk p w)"
  using assms take_lock_target(1) [OF assms(1), of lk w]
  by (simp add: managed_update_def read_opt_def fs_is_link_def)

lemma second_run:
  assumes run: "managed_update lk view (transform c) what p tmp i w0 = (Inr b, w1)"
    and c: "acceptable c" and p: "p \<noteq> []" "tmp \<noteq> p"
    and lv: "leaves (before i) tmp" "leaves (late i) tmp"
  shows "managed_update lk view (transform c) what p tmp' j w1 = (Inr False, take_lock lk p w1)"
  using run
proof (cases rule: managed_update_cases)
  case (current original merged)
  then show ?thesis by (intro rerun_current [OF p(1), of _ original _ merged]) simp_all
next
  case (published original merged)
  show ?thesis
  proof (cases b)
    case True
    have pub: "publish view p tmp i original merged (take_lock lk p w0) = (Inr True, w1)"
      using published(1) True by simp
    have "read_opt (tree w1) p = Inr (Some merged)"
      using publish_True(1) [OF pub p(2) lv]
      by (auto simp: read_opt_def fs_read_def split: option.splits node.splits)
    then show ?thesis
      using settles [OF c published(4)] publish_True(4) [OF pub p(2) lv] by (intro rerun_current p(1)) simp_all
  next
    case False
    then show ?thesis using published(1) publish_not_False by metis
  qed
qed simp

end

interpretation codex: managed_file exact_view
  "\<lambda>command. json_transform ''Codex hooks file must contain a JSON object'' (merge_hooks command)" codex_command
proof
  show "exact_view (Some a) = exact_view (Some b) \<Longrightarrow> a = b" for a b by (simp add: exact_view_def)
next
  fix c x y
  assume "codex_command c" "json_transform ''Codex hooks file must contain a JSON object'' (merge_hooks c) x = Inr y"
  then show "json_transform ''Codex hooks file must contain a JSON object'' (merge_hooks c) (Some y) = Inr y"
    using merge_hooks_idem merge_hooks_json_ok by (intro json_transform_settles) blast+
qed

interpretation claude: managed_file exact_view
  "\<lambda>command. json_transform ''Claude settings must contain a JSON object'' (merge_settings command)" claude_command
proof
  show "exact_view (Some a) = exact_view (Some b) \<Longrightarrow> a = b" for a b by (simp add: exact_view_def)
next
  fix c x y
  assume "claude_command c" "json_transform ''Claude settings must contain a JSON object'' (merge_settings c) x = Inr y"
  then show "json_transform ''Claude settings must contain a JSON object'' (merge_settings c) (Some y) = Inr y"
    using merge_settings_idem merge_settings_json_ok by (intro json_transform_settles) blast+
qed

section \<open>The Markdown merge\<close>

lemma block_rx_cut:
  assumes "q \<in> set (rx_match (block_rx name) (prv, piece @ rest_of q, []))"
  shows "\<exists>mid nl. piece = begin_marker name @ mid @ end_marker name @ nl \<and> nl \<in> {[], [CHR 0x0A]}"
proof -
  let ?b = "begin_marker name" and ?e = "end_marker name" and ?nl = "RLit [CHR 0x0A]"
  define p0 :: rpos where "p0 = (prv, piece @ rest_of q, [])"
  have m: "q \<in> set (rx_match (RSeq (RLit ?b) (RSeq (RStarLazy any_char) (RSeq (RLit ?e) (RSeq (ropt ?nl) REps)))) p0)"
    using assms by (simp only: block_rx_def rseq.simps p0_def)
  obtain p1 where p1: "p1 \<in> set (rx_match (RLit ?b) p0)"
    and m1: "q \<in> set (rx_match (RSeq (RStarLazy any_char) (RSeq (RLit ?e) (RSeq (ropt ?nl) REps))) p1)"
    using rx_seqD [OF m] by blast
  obtain p2 where p2: "p2 \<in> set (rx_match (RStarLazy any_char) p1)"
    and m2: "q \<in> set (rx_match (RSeq (RLit ?e) (RSeq (ropt ?nl) REps)) p2)"
    using rx_seqD [OF m1] by blast
  obtain p3 where p3: "p3 \<in> set (rx_match (RLit ?e) p2)"
    and m3: "q \<in> set (rx_match (RSeq (ropt ?nl) REps) p3)"
    using rx_seqD [OF m2] by blast
  have "q \<in> set (rx_match ?nl p3) \<or> q = p3" using rx_seqD [OF m3] by (auto simp: ropt_def)
  then obtain nl where nl: "nl \<in> {[], [CHR 0x0A]}" "rest_of p3 = nl @ rest_of q"
    using rx_litD by (metis append_Nil insert_iff)
  obtain mid where mid: "rest_of p1 = mid @ rest_of p2"
    using rx_match_suffix [OF p2] by (auto simp: suffix_def)
  have "piece @ rest_of q = ?b @ mid @ ?e @ nl @ rest_of q"
    using rx_litD [OF p1] mid rx_litD [OF p3] nl(2) by (simp add: p0_def rest_of_def)
  then have "piece = ?b @ mid @ ?e @ nl" by simp
  with nl(1) show ?thesis by blast
qed

section \<open>The handlers of an event\<close>

definition group_handlers :: "json list \<Rightarrow> json list" where
  "group_handlers gs = concat (map (\<lambda>g. arr_of (dict_get (obj_of g) ''hooks'' (JArr []))) gs)"

text \<open>The handlers a settings document installs for an event, in the order they run\<close>

definition handlers_of :: "dict \<Rightarrow> string \<Rightarrow> json list" where
  "handlers_of d event =
     group_handlers (arr_of (dict_get (obj_of (dict_get d ''hooks'' (JObj []))) event (JArr [])))"

lemma filter_group_handlers:
  "filter_group tool rm g = Inr k \<Longrightarrow>
     group_handlers (case k of None \<Rightarrow> [] | Some x \<Rightarrow> [x]) = filter (\<lambda>h. \<not> rm (obj_of h)) (group_handlers [g])"
  by (auto simp: filter_group_def Let_def group_handlers_def dict_get_def update_conv'
      split: json.splits option.splits if_splits)

lemma filter_groups_handlers:
  "filter_groups tool rm gs = Inr ks \<Longrightarrow> group_handlers ks = filter (\<lambda>h. \<not> rm (obj_of h)) (group_handlers gs)"
proof (induction gs arbitrary: ks)
  case (Cons g gs)
  then obtain k ks' where k: "filter_group tool rm g = Inr k" and ks': "filter_groups tool rm gs = Inr ks'"
    and ks: "ks = (case k of None \<Rightarrow> ks' | Some x \<Rightarrow> x # ks')"
    by (auto simp: rbnd_Inr_iff)
  show ?case
    using filter_group_handlers [OF k] Cons.IH [OF ks']
    by (cases k) (auto simp: ks group_handlers_def)
qed (simp add: group_handlers_def)

lemma group_handlers_append: "group_handlers (xs @ ys) = group_handlers xs @ group_handlers ys"
  by (simp add: group_handlers_def)

lemma claude_event_handlers:
  assumes "claude_event rm e h = Inr h'"
  shows "group_handlers (arr_of (dict_get h' e (JArr []))) =
    filter (\<lambda>x. \<not> rm (obj_of x)) (group_handlers (arr_of (dict_get h e (JArr []))))"
proof -
  obtain gs ks where g: "dict_get h e (JArr []) = JArr gs" and f: "filter_groups ''Claude'' rm gs = Inr ks" and
    h': "h' = (if ks = [] then AList.delete e h else AList.update e (JArr ks) h)"
    using assms by (auto simp: claude_event_def filter_handlers_def rbnd_Inr_iff split: json.splits)
  have "group_handlers (arr_of (dict_get h' e (JArr []))) = group_handlers ks"
    by (simp add: h' dict_get_def update_conv' delete_conv')
  then show ?thesis using filter_groups_handlers [OF f] g by simp
qed

lemma add_group_handlers:
  "group_handlers (arr_of (dict_get (add_group e g h) e (JArr []))) =
     group_handlers (arr_of (dict_get h e (JArr []))) @ group_handlers [g]"
  by (simp add: add_group_def dict_get_def update_conv' group_handlers_append)

text \<open>What the Claude merge removes from an event and what it adds to it\<close>

definition claude_removes :: "string \<Rightarrow> dict \<Rightarrow> bool" where
  "claude_removes event =
     (if event \<in> {''UserPromptSubmit'', ''Stop''} then claude_is_legacy
      else if event \<in> {''Notification'', ''PermissionRequest'', ''Elicitation''} then claude_is_managed
      else (\<lambda>h. False))"

definition claude_adds :: "string \<Rightarrow> string \<Rightarrow> json list" where
  "claude_adds command event =
     (if event \<in> {''Notification'', ''PermissionRequest'', ''Elicitation''} then [claude_handler command] else [])"

lemma dict_get_cong: "map_of h k = map_of h' k \<Longrightarrow> dict_get h k v = dict_get h' k v"
  by (simp add: dict_get_def)

lemma claude_added:
  "group_handlers (arr_of (dict_get (claude_add command h) event (JArr []))) =
     group_handlers (arr_of (dict_get h event (JArr []))) @ claude_adds command event"
proof -
  have o: "k \<noteq> e \<Longrightarrow> dict_get (add_group e g h) k v = dict_get h k v" for k e g v h
    by (rule dict_get_cong) (rule add_group_other)
  show ?thesis
    by (auto simp: claude_add_def add_group_handlers o claude_adds_def)
      (simp_all add: group_handlers_def claude_group_def claude_notification_group_def dict_get_def)
qed

section \<open>Properties\<close>

text \<open>
  The Codex merge settles: after any run that did not fail, whatever other programs
  did, a second run finds the file current, writes nothing and leaves every file as it is.
  The only conditions are that the command is one the script recognises as its own and
  that nobody touches its temporary file.
\<close>

theorem codex_merge_settles:
  assumes "codex_merge_file p command tmp i w0 = (Inr b, w1)"
    and "codex_command command" "p \<noteq> []" "tmp \<noteq> p" "leaves (before i) tmp" "leaves (late i) tmp"
  shows "codex_merge_file p command tmp' j w1 = (Inr False, take_lock notify_lock p w1)"
  using assms unfolding codex_merge_file_def by (intro codex.second_run) auto

text \<open>
  C1. The Claude merge settles in the same way, although it removes its earlier handlers
  from one set of events and adds new ones to another.
\<close>

theorem claude_merge_settles:
  assumes "claude_merge_file p command tmp i w0 = (Inr b, w1)"
    and "claude_command command" "p \<noteq> []" "tmp \<noteq> p" "leaves (before i) tmp" "leaves (late i) tmp"
  shows "claude_merge_file p command tmp' j w1 = (Inr False, take_lock notify_lock p w1)"
  using assms unfolding claude_merge_file_def by (intro claude.second_run) auto

definition quiet :: interference where
  "quiet = \<lparr>before = id, late = id\<rparr>"

lemma leaves_id: "leaves id q" by (simp add: leaves_def)

definition cfg0 :: cfg_world where
  "cfg0 = \<lparr>tree = [([''h''], NDir)], modes = []\<rparr>"

lemma codex_run0: "fst (codex_merge_file [''h'', ''hooks.json''] ''/b/bin/ai-gotify-notify codex-permission''
    [''h'', ''t''] quiet cfg0) = Inr True"
  by code_simp

lemma claude_run0: "fst (claude_merge_file [''h'', ''s.json''] ''/b/bin/ai-gotify-notify claude-request''
    [''h'', ''t''] quiet cfg0) = Inr True"
  by code_simp

text \<open>
  C2. The Claude merge changes nothing but its own handlers: every other setting keeps
  its value, and the handlers of every event are the earlier ones in their order, less
  the legacy turn-ping handlers (UserPromptSubmit, Stop) and the earlier versions of the
  managed handler (Notification, PermissionRequest, Elicitation), to which exactly one
  managed handler is appended.
\<close>

theorem claude_merge_keeps_others:
  assumes "merge_settings command d = Inr d'"
  shows "(\<forall>k. k \<noteq> ''hooks'' \<longrightarrow> map_of d' k = map_of d k) \<and>
    (\<forall>event. handlers_of d' event =
       filter (\<lambda>h. \<not> claude_removes event (obj_of h)) (handlers_of d event) @ claude_adds command event)"
proof -
  obtain h0 h1 h2 h3 h4 h5 where
    h0: "dict_get d ''hooks'' (JObj []) = JObj h0" and
    u: "claude_event claude_is_legacy ''UserPromptSubmit'' h0 = Inr h1" and
    s: "claude_event claude_is_legacy ''Stop'' h1 = Inr h2" and
    n: "claude_event claude_is_managed ''Notification'' h2 = Inr h3" and
    p: "claude_event claude_is_managed ''PermissionRequest'' h3 = Inr h4" and
    e: "claude_event claude_is_managed ''Elicitation'' h4 = Inr h5" and
    d': "d' = AList.update ''hooks'' (JObj (claude_add command h5)) d"
    using assms by (auto simp: merge_settings_def rbnd_Inr_iff split: json.splits)
  let ?H = "\<lambda>h ev. group_handlers (arr_of (dict_get h ev (JArr [])))"
  note o = dict_get_cong [OF claude_event_other]
  note other = o [OF u] o [OF s] o [OF n] o [OF p] o [OF e]
  note steps = claude_event_handlers [OF u] claude_event_handlers [OF s] claude_event_handlers [OF n]
    claude_event_handlers [OF p] claude_event_handlers [OF e]
  have "?H h5 ev = filter (\<lambda>h. \<not> claude_removes ev (obj_of h)) (?H h0 ev)" for ev
    by (auto simp: other steps claude_removes_def)
  then show ?thesis
    by (simp add: handlers_of_def h0 d' dict_get_def [of "AList.update _ _ _"] update_conv' claude_added)
qed

text \<open>
  The Codex merge likewise keeps every other setting, every other event, and the
  handlers of PermissionRequest that are not its own, and appends exactly one handler.
\<close>

theorem codex_merge_keeps_others:
  assumes "merge_hooks command d = Inr d'"
  shows "(\<forall>k. k \<noteq> ''hooks'' \<longrightarrow> map_of d' k = map_of d k) \<and>
    (\<forall>event. handlers_of d' event =
       (if event = ''PermissionRequest''
        then filter (\<lambda>h. \<not> codex_is_managed (obj_of h)) (handlers_of d event) @ [codex_handler command]
        else handlers_of d event))"
proof -
  obtain hooks groups kept where
    h: "dict_get d ''hooks'' (JObj []) = JObj hooks" and
    g: "dict_get hooks ''PermissionRequest'' (JArr []) = JArr groups" and
    k: "filter_groups ''Codex'' codex_is_managed groups = Inr kept" and
    d': "d' = AList.update ''hooks''
           (JObj (AList.update ''PermissionRequest'' (JArr (kept @ [codex_group command])) hooks)) d"
    using assms by (auto simp: merge_hooks_def rbnd_Inr_iff split: json.splits)
  have "group_handlers [codex_group command] = [codex_handler command]"
    by (simp add: group_handlers_def codex_group_def dict_get_def)
  then show ?thesis
    using filter_groups_handlers [OF k]
    by (simp add: handlers_of_def h g d' dict_get_def [of "AList.update _ _ _"] update_conv' group_handlers_append)
      (simp add: dict_get_def)
qed

text \<open>
  C3. What any run of the publication protocol does to the target, whoever else writes:
  True means the target now holds the merge of what was read, with the permission bits
  it had, and that the content found at the last comparison was the content merged; False
  means nothing changed; an exception leaves the target as the other programs left it.
  The temporary file never stays behind. The one assumption about the others is that
  they do not write between the comparison and the rename.
\<close>

theorem managed_update_safe:
  assumes "managed_update lk view transform what p tmp i w0 = (r, w')"
    and "p \<noteq> []" "tmp \<noteq> p" "leaves (before i) tmp" "leaves (late i) tmp" "leaves (late i) p"
    and "\<not> fs_exists (tree (take_lock lk p w0)) tmp"
  shows "\<not> fs_exists (tree w') tmp \<and>
    (case r of
       Inr True \<Rightarrow>
         \<exists>original merged current. read_opt (tree w0) p = Inr original \<and> transform original = Inr merged \<and>
           read_opt (tree (before i (stage p tmp merged (take_lock lk p w0)))) p = Inr current \<and>
           view current = view original \<and>
           fs_read (tree w') p = Some merged \<and> mode_bits w' p = target_mode w0 p
     | Inr False \<Rightarrow> w' = take_lock lk p w0
     | Inl e \<Rightarrow> map_of (tree w') p = map_of (tree w0) p \<or>
         (\<exists>original merged. read_opt (tree w0) p = Inr original \<and> transform original = Inr merged \<and>
            map_of (tree w') p = map_of (tree (before i (stage p tmp merged (take_lock lk p w0)))) p))"
  using assms(1)
proof (cases rule: managed_update_cases)
  case (failed e)
  then show ?thesis using assms(7) take_lock_target(1) [OF assms(2)] by simp
next
  case (current original merged)
  then show ?thesis using assms(7) by simp
next
  case (published original merged)
  note pub = published(1) [symmetric]
  have tl: "read_opt (tree w0) p = Inr original" "target_mode (take_lock lk p w0) p = target_mode w0 p"
    using published(3) take_lock_target [OF assms(2), of lk w0]
    by (simp_all add: read_opt_def target_mode_def fs_exists_def)
  show ?thesis
  proof (cases r)
    case (Inl e)
    then have "map_of (tree w') p = map_of (tree (before i (stage p tmp merged (take_lock lk p w0)))) p"
      using pub assms(3,6) by (intro publish_Inl) auto
    then show ?thesis using Inl publish_tmp_gone [OF pub] tl(1) published(4) by auto
  next
    case (Inr b)
    then have "r = Inr True" using publish_not_False pub by (cases b) auto
    moreover have "publish view p tmp i original merged (take_lock lk p w0) = (Inr True, w')"
      using pub \<open>r = Inr True\<close> by simp
    note publish_True [OF this assms(3,4,5)]
    ultimately show ?thesis using tl published(4) by auto
  qed
qed

text \<open>
  The Markdown merge keeps every byte outside the managed blocks: an accepted file is
  a sequence of texts and blocks that each run from a BEGIN to an END marker, as many as
  there are BEGIN markers; the result is the texts in their order, with the new block in
  place of the first old one (or appended after a blank line when there was none), up to
  white space at the end of the file.
\<close>

definition md_pieces :: "string \<Rightarrow> string \<Rightarrow> (string \<times> string) list \<Rightarrow> string \<Rightarrow> bool" where
  "md_pieces name original ps tail \<longleftrightarrow>
     original = concat (map (\<lambda>(text, old). text @ old) ps) @ tail \<and>
     length ps = count_sub original (begin_marker name) \<and>
     (\<forall>(text, old) \<in> set ps. \<exists>mid nl. old = begin_marker name @ mid @ end_marker name @ nl \<and> nl \<in> {[], [CHR 0x0A]})"

lemma replace_blocks_Cons:
  "replace_blocks block (m # ms) tail = m_pre m @ block @ [CHR 0x0A] @ concat (map m_pre ms) @ tail"
proof -
  have "0 < i \<Longrightarrow> concat (map (\<lambda>(i, m). m_pre m @ (if i = 0 then block @ [CHR 0x0A] else [])) (enum_from i ms)) =
      concat (map m_pre ms)" for i
    by (induction i ms rule: enum_from.induct) auto
  then show ?thesis by (simp add: replace_blocks_def)
qed

theorem md_merge_keeps_text:
  assumes "md_merge_text name body original = Inr merged"
  shows "count_sub original (begin_marker name) = count_sub original (end_marker name) \<and>
    (\<exists>ps tail. md_pieces name original ps tail \<and>
       merged = rstrip (case ps of
           [] \<Rightarrow> (if rstrip original = [] then [] else rstrip original @ [CHR 0x0A, CHR 0x0A]) @ md_block name body
         | (text, old) # rest \<Rightarrow> text @ md_block name body @ [CHR 0x0A] @ concat (map fst rest) @ tail)
         @ [CHR 0x0A])"
proof (cases "count_sub original (begin_marker name) = 0")
  case True
  then have "md_pieces name original [] original" by (simp add: md_pieces_def)
  with True assms show ?thesis
    by (auto simp: md_merge_text_def Let_def intro!: exI [of _ "[]"] exI [of _ original] split: if_splits)
next
  case False
  obtain ms tail where f: "find_all (Suc (length original)) (block_rx name) None original = (ms, tail)" by fastforce
  have eq: "count_sub original (begin_marker name) = count_sub original (end_marker name)"
    and len: "length ms = count_sub original (begin_marker name)"
    and m: "merged = rstrip (replace_blocks (md_block name body) ms tail) @ [CHR 0x0A]"
    using assms False f by (auto simp: md_merge_text_def Let_def split: if_splits simp del: find_all.simps)
  let ?ps = "map (\<lambda>m. (m_pre m, m_text m)) ms"
  have "\<exists>mid nl. m_text x = begin_marker name @ mid @ end_marker name @ nl \<and> nl \<in> {[], [CHR 0x0A]}" if "x \<in> set ms" for x
    using find_all_match [OF f that] block_rx_cut by metis
  then have "md_pieces name original ?ps tail"
    using find_all_split [OF f] len by (auto simp: md_pieces_def comp_def simp del: find_all.simps)
  moreover obtain x xs where ms: "ms = x # xs" using len False by (cases ms) auto
  ultimately show ?thesis using eq m
    by (intro conjI exI [of _ ?ps] exI [of _ tail]) (auto simp: replace_blocks_Cons comp_def)
qed

text \<open>Concrete runs\<close>

theorem codex_merge_settles_witness:
  "\<exists>w1. codex_merge_file [''h'', ''hooks.json''] ''/b/bin/ai-gotify-notify codex-permission'' [''h'', ''t''] quiet cfg0 = (Inr True, w1) \<and>
     codex_merge_file [''h'', ''hooks.json''] ''/b/bin/ai-gotify-notify codex-permission'' [''h'', ''u''] quiet w1 =
       (Inr False, take_lock notify_lock [''h'', ''hooks.json''] w1)"
proof -
  obtain w1 where w1: "codex_merge_file [''h'', ''hooks.json''] ''/b/bin/ai-gotify-notify codex-permission''
      [''h'', ''t''] quiet cfg0 = (Inr True, w1)"
    using codex_run0 by (metis prod.collapse)
  have "codex_command ''/b/bin/ai-gotify-notify codex-permission''" by code_simp
  then show ?thesis using w1 codex_merge_settles [OF w1] by (auto simp: quiet_def leaves_id)
qed

theorem claude_merge_settles_witness:
  "\<exists>w1. claude_merge_file [''h'', ''s.json''] ''/b/bin/ai-gotify-notify claude-request'' [''h'', ''t''] quiet cfg0 = (Inr True, w1) \<and>
     claude_merge_file [''h'', ''s.json''] ''/b/bin/ai-gotify-notify claude-request'' [''h'', ''u''] quiet w1 =
       (Inr False, take_lock notify_lock [''h'', ''s.json''] w1)"
proof -
  obtain w1 where w1: "claude_merge_file [''h'', ''s.json''] ''/b/bin/ai-gotify-notify claude-request''
      [''h'', ''t''] quiet cfg0 = (Inr True, w1)"
    using claude_run0 by (metis prod.collapse)
  have "claude_command ''/b/bin/ai-gotify-notify claude-request''" by code_simp
  then show ?thesis using w1 claude_merge_settles [OF w1] by (auto simp: quiet_def leaves_id)
qed

definition settings0 :: dict where
  "settings0 = [(''model'', JStr ''opus''), (''hooks'', JObj [(''Stop'', JArr [JObj [(''hooks'', JArr
     [JObj [(''command'', JStr ''keep-me'')], JObj [(''command'', JStr ''/t/.claude/hooks/gotify-turn-ping.sh stop'')]])]])])]"

lemma settings0_merge: "\<exists>d. merge_settings ''/b/bin/ai-gotify-notify claude-request'' settings0 = Inr d"
proof -
  have "(case merge_settings ''/b/bin/ai-gotify-notify claude-request'' settings0 of Inl _ \<Rightarrow> False | Inr _ \<Rightarrow> True)"
    by code_simp
  then show ?thesis by (auto split: sum.splits)
qed

theorem claude_merge_keeps_others_witness:
  "\<exists>d. merge_settings ''/b/bin/ai-gotify-notify claude-request'' settings0 = Inr d \<and>
     map_of d ''model'' = Some (JStr ''opus'') \<and> handlers_of d ''Stop'' = [JObj [(''command'', JStr ''keep-me'')]]"
proof -
  obtain d where d: "merge_settings ''/b/bin/ai-gotify-notify claude-request'' settings0 = Inr d"
    using settings0_merge by blast
  have "filter (\<lambda>h. \<not> claude_removes ''Stop'' (obj_of h)) (handlers_of settings0 ''Stop'') @
      claude_adds ''/b/bin/ai-gotify-notify claude-request'' ''Stop'' = [JObj [(''command'', JStr ''keep-me'')]]"
    by code_simp
  moreover have "map_of settings0 ''model'' = Some (JStr ''opus'')" by code_simp
  ultimately show ?thesis using d claude_merge_keeps_others [OF d] by auto
qed

theorem codex_merge_keeps_others_witness:
  "\<exists>d. merge_hooks ''/b/bin/ai-gotify-notify codex-permission'' [(''other'', JBool True)] = Inr d \<and>
     map_of d ''other'' = Some (JBool True) \<and>
     handlers_of d ''PermissionRequest'' = [codex_handler ''/b/bin/ai-gotify-notify codex-permission'']"
proof -
  obtain d where d: "merge_hooks ''/b/bin/ai-gotify-notify codex-permission'' [(''other'', JBool True)] = Inr d"
    by (simp add: merge_hooks_def dict_get_def)
  have "handlers_of [(''other'', JBool True)] ''PermissionRequest'' = []" by code_simp
  then show ?thesis using d codex_merge_keeps_others [OF d] by auto
qed

theorem managed_update_safe_witness:
  "\<exists>w1. md_merge_file [''h'', ''A.md''] ''N'' ''body'' [''h'', ''t''] quiet cfg0 = (Inr True, w1) \<and>
     fs_read (tree w1) [''h'', ''A.md''] = Some (md_block ''N'' ''body'' @ [CHR 0x0A])"
proof -
  have "fst (md_merge_file [''h'', ''A.md''] ''N'' ''body'' [''h'', ''t''] quiet cfg0) = Inr True" by code_simp
  then obtain w1 where w1: "managed_update notify_lock empty_view (md_transform ''N'' ''body'') ''file: '' [''h'', ''A.md'']
      [''h'', ''t''] quiet cfg0 = (Inr True, w1)"
    unfolding md_merge_file_def by (metis prod.collapse)
  have "\<not> fs_exists (tree (take_lock notify_lock [''h'', ''A.md''] cfg0)) [''h'', ''t'']" by code_simp
  moreover have "read_opt (tree cfg0) [''h'', ''A.md''] = Inr None" by code_simp
  moreover have "md_transform ''N'' ''body'' None = Inr (md_block ''N'' ''body'' @ [CHR 0x0A])" by code_simp
  ultimately show ?thesis using w1 managed_update_safe [OF w1] by (auto simp: quiet_def leaves_id md_merge_file_def)
qed

theorem md_merge_keeps_text_witness:
  "md_merge_text ''N'' ''new'' ''a<!-- BEGIN N -->x<!-- END N -->b'' =
     Inr (''a<!-- BEGIN N -->'' @ [CHR 0x0A] @ ''new'' @ [CHR 0x0A] @ ''<!-- END N -->'' @ [CHR 0x0A] @ ''b'' @ [CHR 0x0A]) \<and>
   count_sub ''a<!-- BEGIN N -->x<!-- END N -->b'' (begin_marker ''N'') = count_sub ''a<!-- BEGIN N -->x<!-- END N -->b'' (end_marker ''N'')"
proof -
  have r: "md_merge_text ''N'' ''new'' ''a<!-- BEGIN N -->x<!-- END N -->b'' =
     Inr (''a<!-- BEGIN N -->'' @ [CHR 0x0A] @ ''new'' @ [CHR 0x0A] @ ''<!-- END N -->'' @ [CHR 0x0A] @ ''b'' @ [CHR 0x0A])"
    by code_simp
  then show ?thesis using md_merge_keeps_text [OF r] by blast
qed

text \<open>
  The window the comparison does not cover: a write between it and the rename is lost,
  and the run still reports success.
\<close>

definition late_writer :: interference where
  "late_writer = \<lparr>before = id, late = (\<lambda>w. w\<lparr>tree := fs_write [''h'', ''A.md''] ''user'' (tree w)\<rparr>)\<rparr>"

lemma late_write_is_lost:
  "fst (md_merge_file [''h'', ''A.md''] ''N'' ''body'' [''h'', ''t''] late_writer cfg0) = Inr True \<and>
   fs_read (tree (snd (md_merge_file [''h'', ''A.md''] ''N'' ''body'' [''h'', ''t''] late_writer cfg0))) [''h'', ''A.md''] =
     Some (md_block ''N'' ''body'' @ [CHR 0x0A])"
  by code_simp

end
