(* ===== verification/Py_Dyn.thy ===== *)
theory Py_Dyn
  imports Py_Json "HOL-Library.List_Lexorder"
begin

text \<open>
  Operations on values whose type Python only checks when the operation runs: what the
  scripts do to a JSON document they did not write. An operation a value does not have is
  an \<open>AttributeError\<close> or a \<open>TypeError\<close>, as in Python.
\<close>

text \<open>\<open>a or b\<close>, and \<open>d.get(k)\<close> on a dict and on any value\<close>

definition py_or :: "json \<Rightarrow> json \<Rightarrow> json" where
  "py_or a b = (if truthy a then a else b)"

definition field :: "(string \<times> json) list \<Rightarrow> string \<Rightarrow> json" where
  "field d k = (case map_of d k of None \<Rightarrow> JNull | Some v \<Rightarrow> v)"

definition type_name :: "json \<Rightarrow> string" where
  "type_name j =
     (case j of JNull \<Rightarrow> ''NoneType'' | JBool _ \<Rightarrow> ''bool'' | JInt _ \<Rightarrow> ''int'' | JDec _ _ \<Rightarrow> ''float''
      | JStr _ \<Rightarrow> ''str'' | JArr _ \<Rightarrow> ''list'' | JObj _ \<Rightarrow> ''dict'')"

definition no_attribute :: "json \<Rightarrow> string \<Rightarrow> exn" where
  "no_attribute j a = AttributeError (type_name j @ '' object has no attribute '' @ a)"

definition py_get :: "json \<Rightarrow> string \<Rightarrow> exn + json" where
  "py_get j k = (case j of JObj d \<Rightarrow> Inr (field d k) | _ \<Rightarrow> Inl (no_attribute j ''get''))"

text \<open>\<open>v.strip()\<close>, and \<open>(v or "").strip()\<close>\<close>

definition py_strip :: "json \<Rightarrow> exn + string" where
  "py_strip j = (case j of JStr s \<Rightarrow> Inr (strip s) | _ \<Rightarrow> Inl (no_attribute j ''strip''))"

definition strip_or_empty :: "json \<Rightarrow> exn + string" where
  "strip_or_empty j = py_strip (py_or j (JStr []))"

text \<open>\<open>d[k]\<close> on any value\<close>

definition py_item :: "json \<Rightarrow> string \<Rightarrow> exn + json" where
  "py_item j k =
     (case j of
        JObj d \<Rightarrow> (case map_of d k of None \<Rightarrow> Inl (KeyError k) | Some v \<Rightarrow> Inr v)
      | _ \<Rightarrow> Inl (TypeError (type_name j @ '' indices must be integers'')))"

text \<open>\<open>d.get(k, v)\<close> and \<open>d.items()\<close> on any value\<close>

definition py_get_or :: "json \<Rightarrow> string \<Rightarrow> json \<Rightarrow> exn + json" where
  "py_get_or j k v =
     (case j of JObj d \<Rightarrow> Inr (case map_of d k of None \<Rightarrow> v | Some u \<Rightarrow> u) | _ \<Rightarrow> Inl (no_attribute j ''get''))"

definition py_items :: "json \<Rightarrow> exn + (string \<times> json) list" where
  "py_items j = (case j of JObj d \<Rightarrow> Inr d | _ \<Rightarrow> Inl (no_attribute j ''items''))"

text \<open>Iteration, and iteration over \<open>v or []\<close>\<close>

definition py_iter :: "json \<Rightarrow> exn + json list" where
  "py_iter j =
     (case j of
        JArr xs \<Rightarrow> Inr xs
      | JObj d \<Rightarrow> Inr (map (\<lambda>(k, v). JStr k) d)
      | JStr s \<Rightarrow> Inr (map (\<lambda>c. JStr [c]) s)
      | _ \<Rightarrow> Inl (TypeError (type_name j @ '' object is not iterable'')))"

definition iter_or_empty :: "json \<Rightarrow> exn + json list" where
  "iter_or_empty j = (if truthy j then py_iter j else Inr [])"

text \<open>\<open>int(v)\<close>\<close>

definition py_int_of :: "json \<Rightarrow> exn + int" where
  "py_int_of j =
     (case j of
        JInt i \<Rightarrow> Inr i
      | JBool b \<Rightarrow> Inr (if b then 1 else 0)
      | JDec m k \<Rightarrow> Inr (if m < 0 then - (- m div 10 ^ k) else m div 10 ^ k)
      | JStr s \<Rightarrow> (case py_int s of
            None \<Rightarrow> Inl (ValueError ''invalid literal for int() with base 10'') | Some i \<Rightarrow> Inr i)
      | _ \<Rightarrow> Inl (TypeError (''int() argument must be a string or a real number, not '' @ type_name j)))"

text \<open>\<open>==\<close>: numbers compare by value, whatever their type, dicts without regard to order\<close>

fun canon :: "json \<Rightarrow> json" where
  "canon (JBool b) = JInt (if b then 1 else 0)"
| "canon (JDec m k) = (if m mod 10 ^ k = 0 then JInt (m div 10 ^ k) else JDec m k)"
| "canon (JArr xs) = JArr (map canon xs)"
| "canon (JObj d) = JObj (sort_key fst (map (\<lambda>(k, v). (k, canon v)) d))"
| "canon j = j"

definition py_eq :: "json \<Rightarrow> json \<Rightarrow> bool" where
  "py_eq a b \<longleftrightarrow> canon a = canon b"

lemma py_eq_refl [simp]: "py_eq a a"
  by (simp add: py_eq_def)

lemma py_eq_sym: "py_eq a b \<longleftrightarrow> py_eq b a"
  by (auto simp: py_eq_def)

lemma py_eq_trans: "py_eq a b \<Longrightarrow> py_eq b c \<Longrightarrow> py_eq a c"
  by (simp add: py_eq_def)

text \<open>Elements of a set or keys of a dict must be hashable.\<close>

definition hashable :: "json \<Rightarrow> bool" where
  "hashable j \<longleftrightarrow> \<not> is_obj j \<and> \<not> is_arr j"

definition py_set :: "json list \<Rightarrow> exn + json list" where
  "py_set xs =
     (if list_all hashable xs then Inr (map canon xs) else Inl (TypeError ''unhashable type''))"

definition same_set :: "json list \<Rightarrow> json list \<Rightarrow> bool" where
  "same_set xs ys \<longleftrightarrow> set xs = set ys"

text \<open>A comprehension whose element expression may raise\<close>

primrec rmap :: "('a \<Rightarrow> exn + 'b) \<Rightarrow> 'a list \<Rightarrow> exn + 'b list" where
  "rmap f [] = Inr []"
| "rmap f (x # xs) = rbnd (f x) (\<lambda>y. rbnd (rmap f xs) (\<lambda>ys. Inr (y # ys)))"

lemma rmap_Inr: "rmap f xs = Inr ys \<Longrightarrow> list_all2 (\<lambda>x y. f x = Inr y) xs ys"
  by (induction xs arbitrary: ys) (auto simp: rbnd_Inr_iff)

lemma rmap_total: "(\<And>x. x \<in> set xs \<Longrightarrow> f x = Inr (g x)) \<Longrightarrow> rmap f xs = Inr (map g xs)"
  by (induction xs) auto

section \<open>Operations are total\<close>

text \<open>They give a value or an exception \<open>except Exception\<close> catches: never an exit, never out of fuel.\<close>

definition ordinary :: "exn + 'a \<Rightarrow> bool" where
  "ordinary m \<longleftrightarrow> (case m of Inl e \<Rightarrow> is_exception e | Inr _ \<Rightarrow> True)"

lemma ordinary_simps [simp]: "ordinary (Inr x)" "ordinary (Inl e) \<longleftrightarrow> is_exception e"
  by (simp_all add: ordinary_def)

lemma ordinary_no_attribute [simp]: "is_exception (no_attribute j a)" "is_exception (TypeError m)"
  "is_exception (ValueError m)" "is_exception (KeyError m)" "is_exception (AttributeError m)"
  "is_exception (RuntimeError m)" "is_exception (OSError m)" "is_exception JSONDecodeError"
  "is_exception (CalledProcessError c)"
  by (simp_all add: no_attribute_def is_exception_def)

lemma ordinary_rbnd: "ordinary m \<Longrightarrow> (\<And>x. ordinary (f x)) \<Longrightarrow> ordinary (rbnd m f)"
  by (cases m) simp_all

lemma ordinary_rmap: "(\<And>x. ordinary (f x)) \<Longrightarrow> ordinary (rmap f xs)"
  by (induction xs) (simp_all add: ordinary_rbnd)

lemma ordinary_py [simp]:
  "ordinary (py_get j k)" "ordinary (py_get_or j k v)" "ordinary (py_item j k)" "ordinary (py_iter j)"
  "ordinary (iter_or_empty j)" "ordinary (py_items j)" "ordinary (py_strip j)" "ordinary (strip_or_empty j)"
  "ordinary (py_int_of j)"
  by (auto simp: py_get_def py_get_or_def py_item_def py_iter_def iter_or_empty_def py_items_def py_strip_def
      strip_or_empty_def py_int_of_def split: json.split option.split)

lemma ordinary_not_fuel: "ordinary m \<Longrightarrow> m \<noteq> Inl OutOfFuel"
  by (auto simp: is_exception_def)

lemma rbnd_ends: "m \<noteq> Inl OutOfFuel \<Longrightarrow> (\<And>x. f x \<noteq> Inl OutOfFuel) \<Longrightarrow> rbnd m f \<noteq> Inl OutOfFuel"
  by (cases m) auto

lemma rmap_ends: "(\<And>x. f x \<noteq> Inl OutOfFuel) \<Longrightarrow> rmap f xs \<noteq> Inl OutOfFuel"
  by (induction xs) (simp_all add: rbnd_ends)

lemmas py_get_ends = ordinary_not_fuel [OF ordinary_py(1)]
lemmas iter_or_empty_ends = ordinary_not_fuel [OF ordinary_py(5)]
lemmas py_ends = ordinary_py [THEN ordinary_not_fuel] rbnd_ends rmap_ends

end
