(* ===== verification/Py_Url.thy ===== *)
theory Py_Url
  imports Py_Json
begin

text \<open>
  The part of \<open>urllib.parse\<close> the scripts use: percent-decoding, the path of a URL, and the
  parameters of a query. Texts are bytes, so decoding needs no character set.
\<close>

text \<open>\<open>urllib.parse.urlparse\<close> of what follows \<open>file:\<close>, and percent-decoding\<close>

definition split_netloc :: "string \<Rightarrow> string \<times> string" where
  "split_netloc s =
     (if starts_with s ''//'' then (takeWhile (\<lambda>c. c \<notin> set ''/?#'') (drop 2 s), dropWhile (\<lambda>c. c \<notin> set ''/?#'') (drop 2 s)) else ([], s))"

definition url_path :: "string \<Rightarrow> string" where
  "url_path s = takeWhile (\<lambda>c. c \<notin> set ''?#'') (snd (split_netloc s))"

fun unquote :: "string \<Rightarrow> string" where
  "unquote (p # a # b # cs) =
     (case (if p = CHR ''%'' then hex_val a else None, hex_val b) of
        (Some x, Some y) \<Rightarrow> char_of (16 * x + y) # unquote cs
      | _ \<Rightarrow> p # unquote (a # b # cs))"
| "unquote s = s"

text \<open>\<open>urlparse\<close> of a request target that starts with one slash: its path and its query\<close>

definition cut_at :: "char \<Rightarrow> string \<Rightarrow> string \<times> string" where
  "cut_at c s = (case partition_char c s of (a, _, b) \<Rightarrow> (a, b))"

definition drop_params :: "string \<Rightarrow> string" where
  "drop_params s =
     (let l = takeWhile (\<lambda>c. c \<noteq> CHR ''/'') (rev s); r = dropWhile (\<lambda>c. c \<noteq> CHR ''/'') (rev s)
      in rev r @ fst (cut_at (CHR '';'') (rev l)))"

definition target_path :: "string \<Rightarrow> string" where
  "target_path s = drop_params (fst (cut_at (CHR ''?'') (fst (cut_at (CHR ''#'') s))))"

definition target_query :: "string \<Rightarrow> string" where
  "target_query s = snd (cut_at (CHR ''?'') (fst (cut_at (CHR ''#'') s)))"

text \<open>\<open>parse_qs(q).get(name, [None])[0]\<close>: pairs without a value are left out\<close>

definition query_text :: "string \<Rightarrow> string" where
  "query_text s = unquote (map (\<lambda>c. if c = CHR ''+'' then CHR '' '' else c) s)"

definition query_pairs :: "string \<Rightarrow> (string \<times> string) list" where
  "query_pairs q =
     concat (map (\<lambda>nv. case partition_char (CHR ''='') nv of
        (n, e, v) \<Rightarrow> if e \<and> v \<noteq> [] then [(query_text n, query_text v)] else []) (split_on (CHR ''&'') q))"

definition query_value :: "string \<Rightarrow> string \<Rightarrow> string option" where
  "query_value q name = map_of (query_pairs q) name"

end
