(* ===== verification/Komga_Sync.thy ===== *)
theory Komga_Sync
  imports Py_Dyn Py_Path Py_Regex Py_Url Complex_Main
begin

text \<open>
  The Komga metadata synchroniser (scripts/komga-sync.py): the fields a sidecar asks for,
  the comparison with what Komga has, the discoverability gate that scans libraries and
  waits for new books, and the run over every sidecar. The Komga service is a parameter:
  \<open>open_url\<close> answers one request and moves the service on.
\<close>

section \<open>The service and the state of a run\<close>

record 's komga_env =
  open_url :: "string \<Rightarrow> string \<Rightarrow> string option \<Rightarrow> 's \<Rightarrow> (exn + int \<times> string) \<times> 's"
  clock :: "'s \<Rightarrow> rat"
  sleep_for :: "rat \<Rightarrow> 's \<Rightarrow> 's"
  api_key :: string
  sidecar_root :: path
  dry_run :: bool

text \<open>\<open>sent\<close> records the requests made, newest first; the script does not read it.\<close>

record 's km =
  server :: 's
  files :: fs
  book_cache :: "(json \<times> json) list"
  cache_loaded :: bool
  sent :: "(string \<times> string) list"

definition http :: "'s komga_env \<Rightarrow> string \<Rightarrow> string \<Rightarrow> json option \<Rightarrow> ('s km, int \<times> json) prog" where
  "http E meth p body w =
     (let (r, s) = open_url E meth p (map_option (json_dumps default_layout) body) (server w);
          w' = w\<lparr>server := s, sent := (meth, p) # sent w\<rparr>
      in case r of
           Inl (HTTPError code text) \<Rightarrow> (Inr (code, JObj [(''error'', JStr text)]), w')
         | Inl (URLError _ _ _) \<Rightarrow> (Inr (0, JNull), w')
         | Inl e \<Rightarrow> (Inl e, w')
         | Inr (status, raw) \<Rightarrow>
             if raw = [] then (Inr (status, JNull), w')
             else (case json_loads raw of
                     Some j \<Rightarrow> (Inr (status, j), w')
                   | None \<Rightarrow> (Inr (status, JStr raw), w')))"

definition km_get :: "'s komga_env \<Rightarrow> string \<Rightarrow> ('s km, int \<times> json) prog" where
  "km_get E p = http E ''GET'' p None"

definition km_patch :: "'s komga_env \<Rightarrow> string \<Rightarrow> json \<Rightarrow> ('s km, int \<times> json) prog" where
  "km_patch E p body = http E ''PATCH'' p (Some body)"

section \<open>Constants\<close>

definition scan_wait_seconds :: rat where "scan_wait_seconds = 600"
definition scan_poll_seconds :: rat where "scan_poll_seconds = 5"
definition scan_poll_max_seconds :: rat where "scan_poll_max_seconds = 60"
definition scan_poll_backoff :: rat where "scan_poll_backoff = 3 / 2"
definition scan_request_attempts :: nat where "scan_request_attempts = 3"
definition scan_request_retry_seconds :: rat where "scan_request_retry_seconds = 5"
definition max_tags_per_book :: nat where "max_tags_per_book = 60"
definition max_tag_chars_total :: nat where "max_tag_chars_total = 500"

record series_cfg =
  title_prefix :: string
  sr_summary :: string
  publisher :: string
  genres :: "string list"
  language :: string

definition series_defaults :: "string \<Rightarrow> series_cfg option" where
  "series_defaults kind =
     (if kind = ''GAW'' then Some
        \<lparr>title_prefix = ''Grapegrower & Winemaker'',
         sr_summary = ''Grapegrower & Winemaker is Australia'' @ [CHR 0x27] @ ''s leading monthly trade '' @
           ''publication for the wine industry, published by Winetitles Media.'',
         publisher = ''Winetitles Media'', genres = [''Magazine'', ''Wine industry''], language = ''en''\<rparr>
      else if kind = ''WVJ'' then Some
        \<lparr>title_prefix = ''Wine & Viticulture Journal'',
         sr_summary = ''Wine & Viticulture Journal is a peer-reviewed quarterly covering '' @
           ''viticultural and oenological research and practice in Australia, '' @
           ''published by Winetitles Media.'',
         publisher = ''Winetitles Media'', genres = [''Magazine'', ''Wine industry''], language = ''en''\<rparr>
      else None)"

section \<open>Sidecar parsing\<close>

type_synonym sidecar = "(string \<times> json) list"

definition kind_for :: "path \<Rightarrow> string" where
  "kind_for p =
     (if ''GAW'' \<in> set p then ''GAW'' else if ''WVJ'' \<in> set p then ''WVJ'' else ''UNKNOWN'')"

definition first_of_month :: "int \<Rightarrow> int \<Rightarrow> string" where
  "first_of_month y m = zero_pad 4 y @ ''-'' @ zero_pad 2 m @ ''-01''"

definition quarter_month :: "int \<Rightarrow> int" where
  "quarter_month i = (if i = 1 then 1 else if i = 2 then 4 else if i = 3 then 7 else if i = 4 then 10 else 1)"

definition release_date :: "sidecar \<Rightarrow> string \<Rightarrow> exn + string option" where
  "release_date side kind =
     (let year = field side ''year'' in
      if \<not> truthy year then Inr None
      else if kind = ''GAW'' then
        rbnd (py_int_of year) (\<lambda>y.
        rbnd (py_int_of (py_or (field side ''month'') (JInt 1))) (\<lambda>m.
        Inr (Some (first_of_month y m))))
      else if kind = ''WVJ'' then
        rbnd (py_int_of (py_or (field side ''issue'') (JInt 1))) (\<lambda>i.
        rbnd (py_int_of year) (\<lambda>y.
        Inr (Some (first_of_month y (quarter_month i)))))
      else Inr None)"

text \<open>\<open>float(n)\<close> of an integer, as json.dumps prints it\<close>

definition float_of_int :: "int \<Rightarrow> json" where
  "float_of_int n = JDec (n * 10) 1"

definition book_number :: "sidecar \<Rightarrow> string \<Rightarrow> exn + string \<times> json" where
  "book_number side kind =
     (if kind = ''GAW'' then
        rbnd (py_int_of (py_or (field side ''issue_number'') (JInt 0))) (\<lambda>n.
        Inr (show_int n, float_of_int n))
      else if kind = ''WVJ'' then
        rbnd (py_int_of (py_or (field side ''volume'') (JInt 0))) (\<lambda>vol.
        rbnd (py_int_of (py_or (field side ''issue'') (JInt 0))) (\<lambda>iss.
        Inr (''Vol'' @ show_int vol @ ''-'' @ zero_pad 2 iss, float_of_int (vol * 100 + iss))))
      else Inr ([], float_of_int 0))"

definition dedup :: "string list \<Rightarrow> string list" where
  "dedup items = dedup_on lower [] (filter (\<lambda>s. s \<noteq> []) (map strip items))"

text \<open>The keywords of the articles, in order\<close>

primrec article_keywords :: "json list \<Rightarrow> exn + string list" where
  "article_keywords [] = Inr []"
| "article_keywords (a # rest) =
     rbnd (py_get a ''keywords'') (\<lambda>v.
     rbnd (iter_or_empty v) (\<lambda>kws.
     rbnd (article_keywords rest) (\<lambda>tags.
     Inr (map (\<lambda>kw. lower (strip (py_str kw))) kws @ tags))))"

fun cap_tags :: "string list \<Rightarrow> nat \<Rightarrow> string list \<Rightarrow> string list" where
  "cap_tags capped tot [] = capped"
| "cap_tags capped tot (t # ts) =
     (if max_tags_per_book \<le> length capped then capped
      else if max_tag_chars_total < tot + length t + 2 then capped
      else cap_tags (capped @ [t]) (tot + length t + 2) ts)"

definition build_tags :: "json list \<Rightarrow> exn + string list" where
  "build_tags articles = rbnd (article_keywords articles) (\<lambda>tags. Inr (cap_tags [] 0 (dedup tags)))"

primrec article_authors :: "json list \<Rightarrow> exn + string list" where
  "article_authors [] = Inr []"
| "article_authors (a # rest) =
     rbnd (py_get a ''author'') (\<lambda>v.
     rbnd (article_authors rest) (\<lambda>names.
     Inr (if truthy v then py_str v # names else names)))"

definition author_entry :: "string \<Rightarrow> json" where
  "author_entry n = JObj [(''name'', JStr n), (''role'', JStr ''writer'')]"

definition build_authors :: "json list \<Rightarrow> exn + json list" where
  "build_authors articles = rbnd (article_authors articles) (\<lambda>names. Inr (map author_entry (dedup names)))"

definition em_dash :: string where
  "em_dash = [CHR 0xE2, CHR 0x80, CHR 0x94]"

definition field_text :: "json \<Rightarrow> string \<Rightarrow> exn + string" where
  "field_text a k = rbnd (py_get a k) strip_or_empty"

definition article_line :: "nat \<Rightarrow> json \<Rightarrow> exn + string" where
  "article_line i art =
     rbnd (field_text art ''title'') (\<lambda>t.
     rbnd (field_text art ''author'') (\<lambda>author.
     rbnd (field_text art ''page_numbers'') (\<lambda>pages.
     rbnd (field_text art ''url'') (\<lambda>url.
       let title = (if t = [] then ''Article '' @ show_nat i else t)
       in Inr (show_nat i @ ''. '' @
            (if url \<noteq> [] then ''['' @ title @ ''](''  @ url @ '')'' else title) @
            (if author \<noteq> [] then '' '' @ em_dash @ '' '' @ author else []) @
            (if pages \<noteq> [] then '' (pp. '' @ pages @ '')'' else []))))))"

definition build_summary :: "sidecar \<Rightarrow> exn + string" where
  "build_summary side =
     rbnd (iter_or_empty (field side ''articles'')) (\<lambda>arts.
     rbnd (rmap (\<lambda>(i, art). article_line i art) (enum_from 1 arts)) (\<lambda>rows.
       let issue_url = field side ''issue_url''
       in Inr (join [CHR 0x0A]
            ((if truthy issue_url then [''Issue page: <'' @ py_str issue_url @ ''>'', []] else []) @
             [''## Contents'', []] @ rows))))"

definition book_title :: "sidecar \<Rightarrow> exn + json" where
  "book_title side =
     rbnd (strip_or_empty (field side ''title'')) (\<lambda>t.
     Inr (py_or (JStr t) (py_or (field side ''pdf_filename'') (JStr ''Untitled''))))"

definition load_sidecar :: "fs \<Rightarrow> path \<Rightarrow> sidecar option" where
  "load_sidecar t p =
     (case fs_read t p of
        None \<Rightarrow> None
      | Some text \<Rightarrow> (case json_loads text of Some (JObj d) \<Rightarrow> Some d | _ \<Rightarrow> None))"

definition pdf_path_of :: "path \<Rightarrow> sidecar \<Rightarrow> path" where
  "pdf_path_of p side =
     (let name = path_name (to_path (py_str (py_or (field side ''pdf_filename'') (JStr []))))
      in with_name p (if name \<noteq> [] then name else path_stem p @ ''.pdf''))"

definition pdf_path_for :: "fs \<Rightarrow> path \<Rightarrow> path" where
  "pdf_path_for t p = pdf_path_of p (case load_sidecar t p of None \<Rightarrow> [] | Some d \<Rightarrow> d)"

section \<open>Libraries\<close>

definition library_root :: "sidecar \<Rightarrow> path option" where
  "library_root library =
     (let raw = strip (py_str (py_or (field library ''root'') (JStr []))) in
      if raw = [] then None
      else if starts_with raw ''file:'' then
        (let rest = filter (\<lambda>c. c \<notin> set [CHR 0x09, CHR 0x0A, CHR 0x0D]) (drop 5 raw)
         in if fst (split_netloc rest) \<notin> set [[], ''localhost''] then None
            else (let path = unquote (url_path rest)
                  in if starts_with path ''/'' then Some (to_path path) else None))
      else if starts_with raw ''/'' then Some (to_path raw) else None)"

definition library_roots :: "sidecar list \<Rightarrow> (path \<times> string) list" where
  "library_roots libraries =
     concat (map (\<lambda>l. case library_root l of
         None \<Rightarrow> []
       | Some base \<Rightarrow> if truthy (field l ''id'') then [(base, py_str (field l ''id''))] else []) libraries)"

definition deepest_first :: "(path \<times> string) list \<Rightarrow> (path \<times> string) list" where
  "deepest_first roots = rev (sort_key (\<lambda>r. length (fst r)) (rev roots))"

definition library_of :: "(path \<times> string) list \<Rightarrow> path \<Rightarrow> string option" where
  "library_of roots p = map_option snd (find (\<lambda>r. is_relative_to p (fst r)) roots)"

definition map_sidecars_to_libraries :: "path list \<Rightarrow> sidecar list \<Rightarrow> (path \<times> string) list \<times> path list" where
  "map_sidecars_to_libraries sidecars libraries =
     (let roots = deepest_first (library_roots libraries)
      in (dict_of_pairs (concat (map (\<lambda>s. case library_of roots s of None \<Rightarrow> [] | Some l \<Rightarrow> [(s, l)]) sidecars)),
          filter (\<lambda>s. library_of roots s = None) sidecars))"

section \<open>The book index\<close>

definition add_book :: "json \<Rightarrow> ('s km, unit) prog" where
  "add_book entry =
     bnd (of_result (py_get entry ''url'')) (\<lambda>url.
     bnd (of_result (py_get entry ''id'')) (\<lambda>bid.
       if truthy url \<and> truthy bid then
         (if hashable url then modify (\<lambda>w. w\<lparr>book_cache := AList.update url bid (book_cache w)\<rparr>)
          else raise (TypeError ''unhashable type''))
       else ret ()))"

definition page_path :: "nat \<Rightarrow> string" where
  "page_path page = ''/api/v1/books?unpaged=false&page='' @ show_nat page @ ''&size=500''"

text \<open>The listing ends with the page marked last, or with an answer that is not a page.\<close>

primrec load_pages :: "'s komga_env \<Rightarrow> nat \<Rightarrow> nat \<Rightarrow> ('s km, unit) prog" where
  "load_pages E 0 page = raise OutOfFuel"
| "load_pages E (Suc n) page =
     bnd (km_get E (page_path page)) (\<lambda>(status, body).
       if status \<noteq> 200 \<or> \<not> is_obj body then ret ()
       else
         bnd (of_result (iter_or_empty (field (obj_of body) ''content''))) (\<lambda>entries.
         bnd (for_each entries (\<lambda>e _. add_book e) ()) (\<lambda>_.
           case map_of (obj_of body) ''last'' of
             None \<Rightarrow> ret ()
           | Some l \<Rightarrow> if truthy l then ret () else load_pages E n (Suc page))))"

definition load_book_cache :: "'s komga_env \<Rightarrow> nat \<Rightarrow> ('s km, unit) prog" where
  "load_book_cache E pages w =
     (if cache_loaded w then (Inr (), w)
      else bnd (load_pages E pages 0) (\<lambda>_. modify (\<lambda>w. w\<lparr>cache_loaded := True\<rparr>)) w)"

definition reload_book_cache :: "'s komga_env \<Rightarrow> nat \<Rightarrow> ('s km, unit) prog" where
  "reload_book_cache E pages w = load_book_cache E pages (w\<lparr>book_cache := [], cache_loaded := False\<rparr>)"

definition indexed :: "'s km \<Rightarrow> string \<Rightarrow> bool" where
  "indexed w url = (map_of (book_cache w) (JStr url) \<noteq> None)"

definition find_book_id :: "'s komga_env \<Rightarrow> nat \<Rightarrow> string \<Rightarrow> ('s km, json option) prog" where
  "find_book_id E pages url =
     bnd (load_book_cache E pages) (\<lambda>_. gets (\<lambda>w. map_of (book_cache w) (JStr url)))"

section \<open>Library scans\<close>

definition pause :: "'s komga_env \<Rightarrow> rat \<Rightarrow> ('s km, unit) prog" where
  "pause E d = modify (\<lambda>w. w\<lparr>server := sleep_for E d (server w)\<rparr>)"

definition monotonic :: "'s komga_env \<Rightarrow> 's km \<Rightarrow> rat" where
  "monotonic E w = clock E (server w)"

definition scan_path :: "string \<Rightarrow> string" where
  "scan_path library_id = ''/api/v1/libraries/'' @ library_id @ ''/scan''"

definition scan_error :: "string \<Rightarrow> int \<Rightarrow> string" where
  "scan_error library_id status = ''library scan request for '' @ library_id @ '' returned '' @ show_int status"

text \<open>The attempts that are left, and the error of the last one\<close>

primrec scan_attempts :: "'s komga_env \<Rightarrow> string \<Rightarrow> nat \<Rightarrow> string \<Rightarrow> ('s km, string option) prog" where
  "scan_attempts E library_id 0 error = ret (Some error)"
| "scan_attempts E library_id (Suc n) error =
     bnd (http E ''POST'' (scan_path library_id) None) (\<lambda>(status, _).
       if 200 \<le> status \<and> status < 300 then ret None
       else bnd (if n \<noteq> 0 then pause E scan_request_retry_seconds else ret ()) (\<lambda>_.
            scan_attempts E library_id n (scan_error library_id status)))"

definition request_scan :: "'s komga_env \<Rightarrow> string \<Rightarrow> ('s km, string option) prog" where
  "request_scan E library_id = scan_attempts E library_id scan_request_attempts []"

record index_gate =
  missing :: "path list"
  unmapped :: "path list"
  scan_errors :: "string list"

definition scan_one :: "'s komga_env \<Rightarrow> string \<Rightarrow> string list \<times> string list \<Rightarrow> ('s km, string list \<times> string list) prog" where
  "scan_one E library_id acc =
     bnd (request_scan E library_id) (\<lambda>error.
       case (acc, error) of
         ((errors, scanned), Some e) \<Rightarrow> if e \<noteq> [] then ret (errors @ [e], scanned) else ret (errors, scanned @ [library_id])
       | ((errors, scanned), None) \<Rightarrow> ret (errors, scanned @ [library_id]))"

text \<open>
  Waiting for the scanned books: sleep, list the books again, with a growing delay, until
  every book is there or the deadline has passed.
\<close>

primrec poll :: "'s komga_env \<Rightarrow> nat \<Rightarrow> (path \<Rightarrow> string) \<Rightarrow> rat \<Rightarrow> nat \<Rightarrow> rat \<Rightarrow> path list \<Rightarrow> ('s km, unit) prog" where
  "poll E pages pdf deadline 0 delay waiting w =
     (if waiting \<noteq> [] \<and> monotonic E w < deadline then (Inl OutOfFuel, w) else (Inr (), w))"
| "poll E pages pdf deadline (Suc n) delay waiting w =
     (if waiting \<noteq> [] \<and> monotonic E w < deadline then
        bnd (pause E (min delay (max 0 (deadline - monotonic E w)))) (\<lambda>_.
        bnd (reload_book_cache E pages) (\<lambda>_ w'.
          poll E pages pdf deadline n (min scan_poll_max_seconds (delay * scan_poll_backoff))
            (filter (\<lambda>s. \<not> indexed w' (pdf s)) waiting) w')) w
      else (Inr (), w))"

definition poll_fuel :: nat where "poll_fuel = 15"

definition wanted_libraries :: "(path \<times> string) list \<Rightarrow> path list \<Rightarrow> string list" where
  "wanted_libraries mapped pending = dedup_on id [] (List.map_filter (map_of mapped) pending)"

definition refresh_book_index :: "'s komga_env \<Rightarrow> nat \<Rightarrow> path list \<Rightarrow> sidecar list \<Rightarrow> ('s km, index_gate) prog" where
  "refresh_book_index E pages sidecars libraries =
     bnd (load_book_cache E pages) (\<lambda>_ w.
       let pdf = (\<lambda>s. path_str (pdf_path_for (files w) s));
           (mapped, unm) = map_sidecars_to_libraries sidecars libraries;
           pending = filter (\<lambda>s. \<not> indexed w (pdf s)) sidecars
       in if pending = [] then ret \<lparr>missing = [], unmapped = unm, scan_errors = []\<rparr> w
          else
            bnd (for_each (wanted_libraries mapped pending) (scan_one E) ([], [])) (\<lambda>(errors, scanned) w1.
              let waiting = filter (\<lambda>s. map_of mapped s \<in> Some ` set scanned) pending;
                  deadline = monotonic E w1 + scan_wait_seconds
              in bnd (poll E pages pdf deadline poll_fuel scan_poll_seconds waiting) (\<lambda>_ w2.
                   ret \<lparr>missing = filter (\<lambda>s. \<not> indexed w2 (pdf s)) pending, unmapped = unm, scan_errors = errors\<rparr> w2) w1) w)"

section \<open>What must be written\<close>

text \<open>\<open>float(v)\<close> as a decimal \<open>m / 10 ^ k\<close>, and the comparison with the tolerance 1e-6\<close>

definition number_value :: "json \<Rightarrow> (int \<times> nat) option" where
  "number_value j =
     (case j of
        JInt i \<Rightarrow> Some (i, 0)
      | JBool b \<Rightarrow> Some (if b then 1 else 0, 0)
      | JDec m k \<Rightarrow> Some (m, k)
      | JStr s \<Rightarrow> (case parse_num (strip s) of
            Some (JInt i, []) \<Rightarrow> Some (i, 0)
          | Some (JDec m k, []) \<Rightarrow> Some (m, k)
          | _ \<Rightarrow> None)
      | _ \<Rightarrow> None)"

definition far_apart :: "int \<times> nat \<Rightarrow> int \<times> nat \<Rightarrow> bool" where
  "far_apart a b =
     (case (a, b) of ((m, k), (n, j)) \<Rightarrow> 10 ^ (k + j) < \<bar>m * 10 ^ j - n * 10 ^ k\<bar> * 1000000)"

definition pair_of :: "string \<Rightarrow> string \<Rightarrow> json \<Rightarrow> exn + json" where
  "pair_of k1 k2 a =
     rbnd (py_get a k1) (\<lambda>x. rbnd (py_get a k2) (\<lambda>y. Inr (JObj [(k1, x), (k2, y)])))"

definition pairs_differ :: "string \<Rightarrow> string \<Rightarrow> json \<Rightarrow> json \<Rightarrow> exn + bool" where
  "pairs_differ k1 k2 have want =
     rbnd (iter_or_empty have) (\<lambda>xs. rbnd (rmap (pair_of k1 k2) xs) (\<lambda>cur. Inr (\<not> py_eq (JArr cur) want)))"

definition book_field_differs :: "string \<Rightarrow> json \<Rightarrow> json \<Rightarrow> exn + bool" where
  "book_field_differs key have want =
     (if key = ''authors'' then pairs_differ ''name'' ''role'' have want
      else if key = ''links'' then pairs_differ ''label'' ''url'' have want
      else if key = ''tags'' then
        rbnd (rbnd (iter_or_empty have) py_set) (\<lambda>h.
        rbnd (rbnd (py_iter want) py_set) (\<lambda>wt. Inr (\<not> same_set h wt)))
      else if key = ''numberSort'' then
        Inr (case (number_value (py_or have (JInt 0)), number_value want) of
               (Some h, Some wt) \<Rightarrow> far_apart h wt
             | _ \<Rightarrow> True)
      else Inr (\<not> py_eq have want))"

definition folded_set :: "json list \<Rightarrow> string set" where
  "folded_set xs = set (map (\<lambda>g. lower (py_str g)) xs)"

definition series_field_differs :: "string \<Rightarrow> json \<Rightarrow> json \<Rightarrow> exn + bool" where
  "series_field_differs key have want =
     (if key = ''genres'' then
        rbnd (iter_or_empty have) (\<lambda>h. rbnd (py_iter want) (\<lambda>wt. Inr (folded_set h \<noteq> folded_set wt)))
      else Inr (\<not> py_eq have want))"

primrec diff_fields :: "(string \<Rightarrow> json \<Rightarrow> json \<Rightarrow> exn + bool) \<Rightarrow> json \<Rightarrow> sidecar \<Rightarrow> exn + sidecar" where
  "diff_fields differs current [] = Inr []"
| "diff_fields differs current (kv # rest) =
     rbnd (py_get current (fst kv)) (\<lambda>have.
     rbnd (differs (fst kv) have (snd kv)) (\<lambda>d.
     rbnd (diff_fields differs current rest) (\<lambda>more. Inr (if d then kv # more else more))))"

definition needs_patch_book :: "json \<Rightarrow> sidecar \<Rightarrow> exn + sidecar" where
  "needs_patch_book current desired = diff_fields book_field_differs (py_or current (JObj [])) desired"

definition needs_patch_series :: "json \<Rightarrow> sidecar \<Rightarrow> exn + sidecar" where
  "needs_patch_series current desired = diff_fields series_field_differs current desired"

definition attach_locks :: "sidecar \<Rightarrow> sidecar" where
  "attach_locks payload = foldl (\<lambda>out (k, _). AList.update (k @ ''Lock'') (JBool True) out) payload payload"

section \<open>Syncing a book and a series\<close>

datatype outcome = Ok string | Skip string | Err string

definition link_entry :: "json \<Rightarrow> json" where
  "link_entry url = JArr [JObj [(''label'', JStr ''Issue page''), (''url'', url)]]"

definition desired_book :: "sidecar \<Rightarrow> string \<Rightarrow> exn + sidecar" where
  "desired_book side kind =
     rbnd (book_number side kind) (\<lambda>(number, number_sort).
     rbnd (book_title side) (\<lambda>title.
     rbnd (build_summary side) (\<lambda>summary.
     rbnd (iter_or_empty (field side ''articles'')) (\<lambda>articles.
     rbnd (build_tags articles) (\<lambda>tags.
     rbnd (build_authors articles) (\<lambda>authors.
     rbnd (release_date side kind) (\<lambda>rdate.
     Inr ([(''title'', title), (''summary'', JStr summary), (''number'', JStr number),
           (''numberSort'', number_sort), (''tags'', JArr (map JStr tags)), (''authors'', JArr authors)] @
          (case rdate of None \<Rightarrow> [] | Some d \<Rightarrow> [(''releaseDate'', JStr d)]) @
          (if truthy (field side ''issue_url'') then [(''links'', link_entry (field side ''issue_url''))] else [])))))))))"

text \<open>The PATCH of a book or a series, unless nothing differs or the run is dry\<close>

definition apply_patch :: "'s komga_env \<Rightarrow> string \<Rightarrow> string \<Rightarrow> sidecar \<Rightarrow> ('s km, outcome) prog" where
  "apply_patch E what ident diff =
     (if diff = [] then ret (Skip ident)
      else if dry_run E then ret (Ok ident)
      else bnd (km_patch E (''/api/v1/'' @ what @ ident @ ''/metadata'') (JObj (attach_locks diff))) (\<lambda>(status, body).
             if status \<noteq> 200 \<and> status \<noteq> 204
             then ret (Err (ident @ '': PATCH status '' @ show_int status @ '' body='' @ py_repr body))
             else ret (Ok ident)))"

definition metadata_of :: "json \<Rightarrow> json" where
  "metadata_of current = py_or (field (obj_of current) ''metadata'') (JObj [])"

definition sync_book :: "'s komga_env \<Rightarrow> nat \<Rightarrow> path \<Rightarrow> string \<Rightarrow> ('s km, outcome) prog" where
  "sync_book E pages p kind w0 =
     (case load_sidecar (files w0) p of
        None \<Rightarrow> ret (Err (path_str p @ '': unreadable or malformed JSON sidecar'')) w0
      | Some side \<Rightarrow>
          (let url = path_str (pdf_path_of p side) in
           bnd (find_book_id E pages url) (\<lambda>bid.
             if \<not> truthy (case bid of None \<Rightarrow> JNull | Some b \<Rightarrow> b) then ret (Err (''no book matches '' @ url))
             else
               let ident = py_str (the bid) in
               bnd (km_get E (''/api/v1/books/'' @ ident)) (\<lambda>(status, current).
                 if status \<noteq> 200 \<or> \<not> is_obj current then ret (Err (''book '' @ ident @ '': GET status '' @ show_int status))
                 else
                   bnd (of_result (desired_book side kind)) (\<lambda>desired.
                   bnd (of_result (needs_patch_book (metadata_of current) desired)) (\<lambda>diff.
                   apply_patch E ''books/'' ident diff)))) w0))"

definition desired_series :: "series_cfg \<Rightarrow> string \<Rightarrow> sidecar" where
  "desired_series cfg year =
     [(''title'', JStr (title_prefix cfg @ '' ('' @ year @ '')'')), (''summary'', JStr (sr_summary cfg)),
      (''publisher'', JStr (publisher cfg)), (''genres'', JArr (map JStr (genres cfg))),
      (''language'', JStr (language cfg))]"

definition sync_series :: "'s komga_env \<Rightarrow> string \<Rightarrow> string \<Rightarrow> string \<Rightarrow> ('s km, outcome) prog" where
  "sync_series E series_id year kind =
     (case series_defaults kind of
        None \<Rightarrow> ret (Skip series_id)
      | Some cfg \<Rightarrow>
          bnd (km_get E (''/api/v1/series/'' @ series_id)) (\<lambda>(status, current).
            if status \<noteq> 200 \<or> \<not> is_obj current then ret (Err (''series '' @ series_id @ '': GET status '' @ show_int status))
            else
              bnd (of_result (needs_patch_series (metadata_of current) (desired_series cfg year))) (\<lambda>diff.
              apply_patch E ''series/'' series_id diff)))"

section \<open>The run\<close>

definition find_sidecars :: "fs \<Rightarrow> path \<Rightarrow> path list" where
  "find_sidecars t base =
     filter (\<lambda>p. fs_is_file t (pdf_path_for t p))
       (sort (filter (\<lambda>p. ends_with (path_name p) ''.json'') (fs_below t base)))"

definition year_rx :: rx where
  "year_rx = rseq [RLit ''/'', RGroup 1 (RAlt (RLit ''GAW'') (RLit ''WVJ'')), RLit ''/'',
                   RGroup 2 (rrep 4 (RSet is_digit)), RLit ''/'']"

definition enable_hash :: "'s komga_env \<Rightarrow> json \<Rightarrow> ('s km, unit) prog" where
  "enable_hash E lib =
     bnd (of_result (py_get lib ''hashKoreader'')) (\<lambda>h.
       if truthy h then ret ()
       else case (map_of (obj_of lib) ''id'', map_of (obj_of lib) ''name'') of
         (Some lid, Some _) \<Rightarrow>
           bnd (km_patch E (''/api/v1/libraries/'' @ py_str lid) (JObj [(''hashKoreader'', JBool True)])) (\<lambda>(s, _).
             if s \<noteq> 204 then ret ()
             else bnd (http E ''POST'' (''/api/v1/libraries/'' @ py_str lid @ ''/analyze'') None) (\<lambda>_. ret ()))
       | (None, _) \<Rightarrow> raise (KeyError ''id'')
       | _ \<Rightarrow> raise (KeyError ''name''))"

definition ensure_hashkoreader :: "'s komga_env \<Rightarrow> ('s km, unit) prog" where
  "ensure_hashkoreader E =
     bnd (km_get E ''/api/v1/libraries'') (\<lambda>(status, libs).
       if status \<noteq> 200 \<or> \<not> is_arr libs then ret ()
       else for_each (arr_of libs) (\<lambda>l _. enable_hash E l) ())"

record tally =
  oks :: nat
  skips :: nat
  errs :: nat

definition count :: "outcome \<Rightarrow> tally \<Rightarrow> tally" where
  "count r t =
     (case r of Ok _ \<Rightarrow> t\<lparr>oks := Suc (oks t)\<rparr> | Skip _ \<Rightarrow> t\<lparr>skips := Suc (skips t)\<rparr> | Err _ \<Rightarrow> t\<lparr>errs := Suc (errs t)\<rparr>)"

type_synonym series_map = "((string \<times> string) \<times> json) list"

definition note_series ::
  "'s komga_env \<Rightarrow> path \<Rightarrow> string \<Rightarrow> string \<Rightarrow> series_map \<Rightarrow> ('s km, series_map) prog" where
  "note_series E p kind book_id seen =
     (case re_search year_rx (path_str p) of
        None \<Rightarrow> ret seen
      | Some m \<Rightarrow>
          let key = (kind, group_text m 2) in
          if map_of seen key \<noteq> None then ret seen
          else
            bnd (km_get E (''/api/v1/books/'' @ book_id)) (\<lambda>(s, body).
              if s = 200 \<and> is_obj body
              then ret (AList.update key (case map_of (obj_of body) ''seriesId'' of None \<Rightarrow> JStr [] | Some v \<Rightarrow> v) seen)
              else ret seen))"

definition sync_one ::
  "'s komga_env \<Rightarrow> nat \<Rightarrow> path \<Rightarrow> tally \<times> series_map \<Rightarrow> ('s km, tally \<times> series_map) prog" where
  "sync_one E pages p acc =
     (case acc of (t, seen) \<Rightarrow>
        bnd (sync_book E pages p (kind_for p)) (\<lambda>r.
          case r of
            Err _ \<Rightarrow> ret (count r t, seen)
          | Ok ident \<Rightarrow> bnd (note_series E p (kind_for p) ident seen) (\<lambda>seen'. ret (count r t, seen'))
          | Skip ident \<Rightarrow> bnd (note_series E p (kind_for p) ident seen) (\<lambda>seen'. ret (count r t, seen'))))"

definition series_one ::
  "'s komga_env \<Rightarrow> (string \<times> string) \<times> json \<Rightarrow> tally \<Rightarrow> ('s km, tally) prog" where
  "series_one E entry t =
     (case entry of ((kind, year), sid) \<Rightarrow>
        if \<not> truthy sid then ret t
        else bnd (sync_series E (py_str sid) year kind) (\<lambda>r. ret (count r t)))"

definition no_tally :: tally where
  "no_tally = \<lparr>oks = 0, skips = 0, errs = 0\<rparr>"

definition index_errors :: "'s komga_env \<Rightarrow> nat \<Rightarrow> path list \<Rightarrow> json \<Rightarrow> ('s km, nat) prog" where
  "index_errors E pages sidecars libraries =
     (if dry_run E then ret 0
      else if \<not> list_all is_obj (arr_of libraries) then raise (AttributeError ''get'')
      else bnd (refresh_book_index E pages sidecars (map obj_of (arr_of libraries))) (\<lambda>gate.
             ret (length (scan_errors gate))))"

definition sync_all :: "'s komga_env \<Rightarrow> nat \<Rightarrow> json \<Rightarrow> ('s km, int) prog" where
  "sync_all E pages libraries =
     bnd (gets (\<lambda>w. find_sidecars (files w) (sidecar_root E))) (\<lambda>sidecars.
     bnd (index_errors E pages sidecars libraries) (\<lambda>err_index.
     bnd (for_each sidecars (sync_one E pages) (no_tally, [])) (\<lambda>(books, seen).
     bnd (for_each seen (series_one E) no_tally) (\<lambda>series.
     ret (if errs books \<noteq> 0 \<or> errs series \<noteq> 0 \<or> err_index \<noteq> 0 then 2 else 0)))))"

definition main :: "'s komga_env \<Rightarrow> nat \<Rightarrow> ('s km, int) prog" where
  "main E pages w =
     (if api_key E = [] then ret 1 w
      else if \<not> fs_is_dir (files w) (sidecar_root E) then ret 1 w
      else
        bnd (km_get E ''/api/v1/libraries'') (\<lambda>(status, libraries).
          if status \<noteq> 200 \<or> \<not> is_arr libraries then ret 1
          else bnd (ensure_hashkoreader E) (\<lambda>_. sync_all E pages libraries)) w)"

section \<open>Tags\<close>

definition tag_chars :: "string list \<Rightarrow> nat" where
  "tag_chars ts = sum_list (map (\<lambda>t. length t + 2) ts)"

lemma cap_tags_bounds:
  "length capped \<le> max_tags_per_book \<Longrightarrow> tag_chars capped = tot \<Longrightarrow> tot \<le> max_tag_chars_total \<Longrightarrow>
   cap_tags capped tot ts = r \<Longrightarrow>
     length r \<le> max_tags_per_book \<and> tag_chars r \<le> max_tag_chars_total \<and>
     (\<exists>taken rest. r = capped @ taken \<and> ts = taken @ rest \<and>
        (rest \<noteq> [] \<longrightarrow> length r = max_tags_per_book \<or> max_tag_chars_total < tag_chars (r @ [hd rest])))"
proof (induction capped tot ts arbitrary: r rule: cap_tags.induct)
  case (1 capped tot)
  then show ?case by simp
next
  case (2 capped tot t ts)
  show ?case
  proof (cases "max_tags_per_book \<le> length capped \<or> max_tag_chars_total < tot + length t + 2")
    case True
    then have "r = capped" using "2.prems"(4) by auto
    then show ?thesis using True "2.prems"
      by (intro conjI exI [of _ "[]"] exI [of _ "t # ts"]) (auto simp: tag_chars_def)
  next
    case False
    then have r: "cap_tags (capped @ [t]) (tot + length t + 2) ts = r"
      and le: "\<not> max_tags_per_book \<le> length capped" "\<not> max_tag_chars_total < tot + length t + 2"
      using "2.prems"(4) by auto
    have "tag_chars (capped @ [t]) = tot + length t + 2" using "2.prems"(2) by (simp add: tag_chars_def)
    then have ih: "length r \<le> max_tags_per_book \<and> tag_chars r \<le> max_tag_chars_total \<and>
     (\<exists>taken rest. r = (capped @ [t]) @ taken \<and> ts = taken @ rest \<and>
        (rest \<noteq> [] \<longrightarrow> length r = max_tags_per_book \<or> max_tag_chars_total < tag_chars (r @ [hd rest])))"
      using le by (intro "2.IH" [OF le _ _ _ r]) auto
    then obtain taken rest where "r = (capped @ [t]) @ taken" "ts = taken @ rest"
      "rest \<noteq> [] \<longrightarrow> length r = max_tags_per_book \<or> max_tag_chars_total < tag_chars (r @ [hd rest])"
      by blast
    with ih show ?thesis
      by (intro conjI exI [of _ "t # taken"] exI [of _ rest]) simp_all
  qed
qed

lemma dedup_distinct: "distinct (map lower (dedup items))"
  by (simp add: dedup_def distinct_dedup_on)

lemma dedup_stripped: "s \<in> set (dedup items) \<Longrightarrow> s \<noteq> [] \<and> strip s = s \<and> (\<exists>i \<in> set items. s = strip i)"
  unfolding dedup_def using dedup_on_subset [of lower "[]" "filter (\<lambda>s. s \<noteq> []) (map strip items)"] by auto

section \<open>Libraries\<close>

lemma set_deepest_first: "set (deepest_first rs) = set rs"
  by (simp add: deepest_first_def)

lemma sorted_deepest_first: "sorted_wrt (\<lambda>a b. length (fst b) \<le> length (fst a)) (deepest_first rs)"
proof -
  have "sorted (map (\<lambda>r. length (fst r)) (sort_key (\<lambda>r. length (fst r)) (rev rs)))" by (rule sorted_sort_key)
  then show ?thesis unfolding deepest_first_def sorted_wrt_rev by (simp add: sorted_wrt_map)
qed

lemma find_sorted_wrt:
  "sorted_wrt R xs \<Longrightarrow> find P xs = Some x \<Longrightarrow> x \<in> set xs \<and> P x \<and> (\<forall>y \<in> set xs. P y \<longrightarrow> y = x \<or> R x y)"
  by (induction xs) (auto split: if_splits)

lemma library_of_deepest:
  assumes "library_of (deepest_first rs) p = Some l"
  shows "\<exists>base. (base, l) \<in> set rs \<and> is_relative_to p base \<and>
           (\<forall>(b, l') \<in> set rs. is_relative_to p b \<longrightarrow> length b \<le> length base)"
proof -
  obtain r where r: "find (\<lambda>r. is_relative_to p (fst r)) (deepest_first rs) = Some r" and l: "snd r = l"
    using assms by (auto simp: library_of_def)
  from find_sorted_wrt [OF sorted_deepest_first r] l show ?thesis
    by (intro exI [of _ "fst r"]) (auto simp: set_deepest_first)
qed

lemma library_of_None: "library_of (deepest_first rs) p = None \<longleftrightarrow> (\<forall>(b, l) \<in> set rs. \<not> is_relative_to p b)"
  by (auto simp: library_of_def find_None_iff set_deepest_first)

lemma map_of_foldl_update:
  "map_of (foldl (\<lambda>d (k, v). AList.update k v d) d ps) k =
     (case map_of (rev ps) k of None \<Rightarrow> map_of d k | Some v \<Rightarrow> Some v)"
  by (induction ps arbitrary: d) (auto simp: update_conv' map_add_def split: option.splits)

lemma map_of_dict_of_pairs: "map_of (dict_of_pairs ps) k = map_of (rev ps) k"
  by (simp add: dict_of_pairs_def map_of_foldl_update split: option.splits)

lemma map_of_tagged:
  "map_of (rev (concat (map (\<lambda>s. case f s of None \<Rightarrow> [] | Some l \<Rightarrow> [(s, l)]) xs))) s =
     (if s \<in> set xs then f s else None)"
  by (induction xs) (auto simp: map_of_append map_add_def split: option.splits)

lemma map_sidecars_mapped:
  "map_of (fst (map_sidecars_to_libraries sidecars libs)) s =
     (if s \<in> set sidecars then library_of (deepest_first (library_roots libs)) s else None)"
  by (simp add: map_sidecars_to_libraries_def Let_def map_of_dict_of_pairs map_of_tagged)

section \<open>Differences\<close>

lemma diff_fields_Nil:
  assumes "\<And>k v. (k, v) \<in> set desired \<Longrightarrow> differs k (field st k) v = Inr False"
  shows "diff_fields differs (JObj st) desired = Inr []"
  using assms by (induction desired) (auto simp: py_get_def)

lemma diff_fields_sound:
  assumes "diff_fields differs (JObj cur) desired = Inr diff"
  shows "set diff \<subseteq> set desired \<and>
    (\<forall>(k, v) \<in> set desired. \<exists>d. differs k (field cur k) v = Inr d) \<and>
    (\<forall>(k, v) \<in> set diff. differs k (field cur k) v = Inr True) \<and>
    (\<forall>(k, v) \<in> set desired. (k, v) \<notin> set diff \<longrightarrow> differs k (field cur k) v = Inr False)"
  using assms
proof (induction desired arbitrary: diff)
  case (Cons kv rest)
  obtain d more where d: "differs (fst kv) (field cur (fst kv)) (snd kv) = Inr d"
    and more: "diff_fields differs (JObj cur) rest = Inr more" and diff: "diff = (if d then kv # more else more)"
    using Cons.prems by (auto simp: rbnd_Inr_iff py_get_def)
  show ?case using Cons.IH [OF more] d by (cases d) (auto simp: diff)
qed simp

lemma field_py_or: "py_or (JObj st) (JObj []) = JObj st"
  by (simp add: py_or_def)

lemma hashable_strings: "list_all hashable (map JStr ts)"
  by (simp add: list_all_iff hashable_def is_obj_def is_arr_def)

lemma py_set_strings: "py_set (map JStr ts) = Inr (map JStr ts)"
  by (simp add: py_set_def hashable_strings)

lemma pairs_agree:
  assumes "xs \<noteq> [] \<Longrightarrow> rmap (pair_of k1 k2) xs = Inr xs"
  shows "pairs_differ k1 k2 (JArr xs) (JArr xs) = Inr False"
  using assms by (cases "xs = []") (simp_all add: pairs_differ_def iter_or_empty_def py_iter_def)

lemma rmap_id: "(\<And>x. x \<in> set xs \<Longrightarrow> f x = Inr x) \<Longrightarrow> rmap f xs = Inr xs"
  by (induction xs) auto

lemma desired_book_shape:
  assumes "desired_book side kind = Inr desired"
  obtains t s n ns ts as rest where
    "desired = [(''title'', t), (''summary'', JStr s), (''number'', JStr n), (''numberSort'', float_of_int ns),
       (''tags'', JArr (map JStr ts)), (''authors'', JArr (map author_entry as))] @ rest"
    "rest = [] \<or> (\<exists>d. rest = [(''releaseDate'', JStr d)]) \<or> (\<exists>u. rest = [(''links'', link_entry u)]) \<or>
     (\<exists>d u. rest = [(''releaseDate'', JStr d), (''links'', link_entry u)])"
proof -
  obtain number ns0 where n: "book_number side kind = Inr (number, ns0)"
    using assms by (auto simp: desired_book_def rbnd_Inr_iff)
  then obtain ns where ns: "ns0 = float_of_int ns"
    by (auto simp: book_number_def rbnd_Inr_iff split: if_splits)
  obtain t s arts tags authors rdate where
    d: "desired = [(''title'', t), (''summary'', JStr s), (''number'', JStr number), (''numberSort'', float_of_int ns),
       (''tags'', JArr (map JStr tags)), (''authors'', JArr authors)] @
       (case rdate of None \<Rightarrow> [] | Some d \<Rightarrow> [(''releaseDate'', JStr d)]) @
       (if truthy (field side ''issue_url'') then [(''links'', link_entry (field side ''issue_url''))] else [])"
    and a: "build_authors arts = Inr authors"
    using assms n ns by (auto simp: desired_book_def rbnd_Inr_iff)
  obtain as where as: "authors = map author_entry as" using a by (auto simp: build_authors_def rbnd_Inr_iff)
  define rest where "rest = (case rdate of None \<Rightarrow> [] | Some d \<Rightarrow> [(''releaseDate'', JStr d)]) @
       (if truthy (field side ''issue_url'') then [(''links'', link_entry (field side ''issue_url''))] else [])"
  have "rest = [] \<or> (\<exists>d. rest = [(''releaseDate'', JStr d)]) \<or> (\<exists>u. rest = [(''links'', link_entry u)]) \<or>
     (\<exists>d u. rest = [(''releaseDate'', JStr d), (''links'', link_entry u)])"
    unfolding rest_def by (cases rdate; cases "truthy (field side ''issue_url'')") auto
  with d as show ?thesis unfolding rest_def [symmetric] by (intro that [of t s number ns tags as rest]) (simp_all only: as)
qed

text \<open>What a server that honours a PATCH may answer for a field: a set of tags in any order\<close>

definition agrees :: "string \<Rightarrow> json \<Rightarrow> json \<Rightarrow> bool" where
  "agrees key stored want \<longleftrightarrow>
     (if key = ''tags'' then \<exists>xs. stored = JArr xs \<and> list_all hashable xs \<and> set (map canon xs) = set (arr_of want)
      else stored = want)"

lemma number_sort_same: "book_field_differs ''numberSort'' (float_of_int n) (float_of_int n) = Inr False"
proof (cases "n = 0")
  case True
  then show ?thesis by (simp add: book_field_differs_def py_or_def float_of_int_def number_value_def far_apart_def)
next
  case False
  then have "py_or (float_of_int n) (JInt 0) = float_of_int n" by (simp add: py_or_def float_of_int_def)
  then show ?thesis by (simp add: book_field_differs_def float_of_int_def number_value_def far_apart_def)
qed

lemma tags_same:
  assumes "agrees ''tags'' stored (JArr (map JStr ts))"
  shows "book_field_differs ''tags'' stored (JArr (map JStr ts)) = Inr False"
proof -
  obtain xs where xs: "stored = JArr xs" "list_all hashable xs" "set (map canon xs) = set (map JStr ts)"
    using assms by (auto simp: agrees_def)
  then show ?thesis
    by (cases "xs = []") (simp_all add: book_field_differs_def iter_or_empty_def py_iter_def py_set_strings same_set_def
        py_set_def hashable_strings)
qed

lemma authors_same: "book_field_differs ''authors'' (JArr (map author_entry as)) (JArr (map author_entry as)) = Inr False"
  unfolding book_field_differs_def
  by (simp, rule pairs_agree, rule rmap_id) (auto simp: author_entry_def pair_of_def py_get_def field_def)

lemma links_same: "book_field_differs ''links'' (link_entry u) (link_entry u) = Inr False"
  unfolding book_field_differs_def link_entry_def
  by (simp, rule pairs_agree, rule rmap_id) (auto simp: pair_of_def py_get_def field_def)

lemma other_same: "k \<notin> {''authors'', ''links'', ''tags'', ''numberSort''} \<Longrightarrow> book_field_differs k v v = Inr False"
  by (simp add: book_field_differs_def)

lemma desired_book_agrees:
  assumes d: "desired_book side kind = Inr desired" and kv: "(k, v) \<in> set desired" and a: "agrees k stored v"
  shows "book_field_differs k stored v = Inr False"
proof -
  obtain t s n ns ts as rest where
    ds: "desired = [(''title'', t), (''summary'', JStr s), (''number'', JStr n), (''numberSort'', float_of_int ns),
       (''tags'', JArr (map JStr ts)), (''authors'', JArr (map author_entry as))] @ rest" and
    rest: "rest = [] \<or> (\<exists>d. rest = [(''releaseDate'', JStr d)]) \<or> (\<exists>u. rest = [(''links'', link_entry u)]) \<or>
     (\<exists>d u. rest = [(''releaseDate'', JStr d), (''links'', link_entry u)])"
    using desired_book_shape [OF d] by blast
  define P where "P k v \<longleftrightarrow> k = ''tags'' \<and> v = JArr (map JStr ts) \<or> k = ''numberSort'' \<and> v = float_of_int ns \<or>
      k = ''authors'' \<and> v = JArr (map author_entry as) \<or> k = ''links'' \<and> (\<exists>u. v = link_entry u) \<or>
      k \<notin> {''authors'', ''links'', ''tags'', ''numberSort''}" for k v
  have P1: "P ''releaseDate'' x" "P ''title'' x" "P ''summary'' x" "P ''number'' x" for x by (simp_all add: P_def)
  have P2: "P ''numberSort'' (float_of_int ns)" "P ''tags'' (JArr (map JStr ts))"
    "P ''authors'' (JArr (map author_entry as))" unfolding P_def by blast+
  have P3: "P ''links'' (link_entry u)" for u
    unfolding P_def by (rule disjI2, rule disjI2, rule disjI2, rule disjI1, rule conjI [OF refl], rule exI, rule refl)
  have "list_all (\<lambda>p. P (fst p) (snd p)) rest"
    using rest by (elim disjE exE) (simp_all add: P1 P2 P3)
  then have "list_all (\<lambda>p. P (fst p) (snd p)) desired" unfolding ds by (simp add: P1 P2)
  then have "P k v" using kv by (auto simp: list_all_iff)
  then show ?thesis unfolding P_def
  proof (elim disjE conjE exE)
    assume "k = ''tags''" "v = JArr (map JStr ts)"
    with a show ?thesis by (simp add: tags_same)
  next
    assume "k = ''numberSort''" "v = float_of_int ns"
    with a show ?thesis by (simp add: agrees_def number_sort_same)
  next
    assume "k = ''authors''" "v = JArr (map author_entry as)"
    with a show ?thesis by (simp add: agrees_def authors_same)
  next
    fix u
    assume "k = ''links''" "v = link_entry u"
    with a show ?thesis by (simp add: agrees_def links_same)
  next
    assume "k \<notin> {''authors'', ''links'', ''tags'', ''numberSort''}"
    with a show ?thesis by (simp add: agrees_def other_same)
  qed
qed

lemma desired_book_distinct:
  assumes "desired_book side kind = Inr desired"
  shows "distinct (map fst desired)"
proof -
  obtain t s n ns ts as rest where
    ds: "desired = [(''title'', t), (''summary'', JStr s), (''number'', JStr n), (''numberSort'', float_of_int ns),
       (''tags'', JArr (map JStr ts)), (''authors'', JArr (map author_entry as))] @ rest" and
    rest: "rest = [] \<or> (\<exists>d. rest = [(''releaseDate'', JStr d)]) \<or> (\<exists>u. rest = [(''links'', link_entry u)]) \<or>
     (\<exists>d u. rest = [(''releaseDate'', JStr d), (''links'', link_entry u)])"
    using desired_book_shape [OF assms] by blast
  have "map fst rest \<in> {[], [''releaseDate''], [''links''], [''releaseDate'', ''links'']}"
    using rest by (elim disjE exE) simp_all
  then have "distinct ([''title'', ''summary'', ''number'', ''numberSort'', ''tags'', ''authors''] @ map fst rest)"
    by (elim insertE emptyE) (simp_all only: append.simps, simp_all)
  then show ?thesis by (simp only: ds map_append list.map fst_conv append.simps)
qed

section \<open>Frames\<close>

text \<open>Relations between states that replacing the book cache respects\<close>

definition cache_frame :: "('s km \<Rightarrow> 's km \<Rightarrow> bool) \<Rightarrow> bool" where
  "cache_frame R \<longleftrightarrow> reflp R \<and> transp R \<and> (\<forall>w c l. R w (w\<lparr>book_cache := c, cache_loaded := l\<rparr>))"

lemma cache_frameD:
  assumes "cache_frame R"
  shows "reflp R" "transp R" "R w (w\<lparr>book_cache := c, cache_loaded := l\<rparr>)"
    "R w (w\<lparr>book_cache := c\<rparr>)" "R w (w\<lparr>cache_loaded := l\<rparr>)"
proof -
  have u: "R w (w\<lparr>book_cache := c, cache_loaded := l\<rparr>)" for c l using assms by (simp add: cache_frame_def)
  show "reflp R" "transp R" using assms by (simp_all add: cache_frame_def)
  show "R w (w\<lparr>book_cache := c, cache_loaded := l\<rparr>)" by (rule u)
  show "R w (w\<lparr>book_cache := c\<rparr>)" using u [where c = c and l = "cache_loaded w"] by simp
  show "R w (w\<lparr>cache_loaded := l\<rparr>)" using u [where c = "book_cache w" and l = l] by simp
qed

lemma keeps_add_book: "cache_frame R \<Longrightarrow> keeps R (add_book e)"
proof -
  assume R: "cache_frame R"
  note pure = keeps_pure [OF cache_frameD(1) [OF R]]
  have m: "keeps R (modify (\<lambda>w. w\<lparr>book_cache := f (book_cache w)\<rparr>))" for f
    by (rule keepsI) (simp add: modify_def cache_frameD(4) [OF R])
  show ?thesis
    unfolding add_book_def
    by (intro keeps_bnd [OF cache_frameD(2) [OF R]] pure) (simp add: pure m)
qed

lemma keeps_load_pages:
  assumes R: "cache_frame R" and g: "\<And>p. keeps R (km_get E p)"
  shows "keeps R (load_pages E n page)"
proof (induction n arbitrary: page)
  case 0
  show ?case using keeps_pure(2) [OF cache_frameD(1) [OF R]] by simp
next
  case (Suc n)
  note pure = keeps_pure [OF cache_frameD(1) [OF R]]
  note tr = cache_frameD(2) [OF R]
  have "keeps R (for_each entries (\<lambda>e _. add_book e) ())" for entries
    by (intro keeps_for_each cache_frameD [OF R] keeps_add_book R)
  then show ?case
    unfolding load_pages.simps
    by (intro keeps_bnd [OF tr] g keeps_case)
      (auto intro!: pure keeps_bnd [OF tr] Suc.IH split: option.split)
qed

lemma keeps_load_book_cache:
  assumes R: "cache_frame R" and g: "\<And>p. keeps R (km_get E p)"
  shows "keeps R (load_book_cache E pages)" "keeps R (reload_book_cache E pages)"
proof -
  have "keeps R (bnd (load_pages E pages 0) (\<lambda>_. modify (\<lambda>w. w\<lparr>cache_loaded := True\<rparr>)))"
    by (intro keeps_bnd cache_frameD(2) [OF R] keeps_load_pages R g)
      (auto intro!: keepsI cache_frameD(5) [OF R] simp: modify_def)
  then show l: "keeps R (load_book_cache E pages)"
    using cache_frameD(1) [OF R] by (auto simp: keeps_def load_book_cache_def reflp_def)
  show "keeps R (reload_book_cache E pages)"
  proof (rule keepsI)
    fix w
    have "R (w\<lparr>book_cache := [], cache_loaded := False\<rparr>) (snd (reload_book_cache E pages w))"
      using l by (auto simp: keeps_def reload_book_cache_def)
    then show "R w (snd (reload_book_cache E pages w))"
      using cache_frameD(2,3) [OF R] by (blast dest: transpD)
  qed
qed

section \<open>Waiting is bounded\<close>

text \<open>Documented of the clock: sleeping takes at least as long as asked, and it never runs back.\<close>

definition clock_ok :: "'s komga_env \<Rightarrow> bool" where
  "clock_ok E \<longleftrightarrow>
     (\<forall>d s. 0 \<le> d \<longrightarrow> clock E s + d \<le> clock E (sleep_for E d s)) \<and>
     (\<forall>m p b s. clock E s \<le> clock E (snd (open_url E m p b s)))"

definition time_passes :: "'s komga_env \<Rightarrow> 's km \<Rightarrow> 's km \<Rightarrow> bool" where
  "time_passes E w w' \<longleftrightarrow> monotonic E w \<le> monotonic E w'"

lemma time_frame: "cache_frame (time_passes E)"
  by (auto simp: cache_frame_def time_passes_def monotonic_def reflp_def transp_def)

lemma http_state:
  "\<exists>r s. open_url E m p (map_option (json_dumps default_layout) b) (server w) = (r, s) \<and>
     snd (http E m p b w) = w\<lparr>server := s, sent := (m, p) # sent w\<rparr>"
proof -
  obtain r s where rs: "open_url E m p (map_option (json_dumps default_layout) b) (server w) = (r, s)" by fastforce
  have "snd (http E m p b w) = w\<lparr>server := s, sent := (m, p) # sent w\<rparr>"
    unfolding http_def rs Let_def by (cases r) (auto split: exn.split option.split prod.split)
  with rs show ?thesis by blast
qed

lemma time_http: "clock_ok E \<Longrightarrow> keeps (time_passes E) (http E m p b)"
proof (rule keepsI)
  fix w
  assume c: "clock_ok E"
  obtain r s where "open_url E m p (map_option (json_dumps default_layout) b) (server w) = (r, s)"
    "snd (http E m p b w) = w\<lparr>server := s, sent := (m, p) # sent w\<rparr>"
    using http_state [of E m p b w] by (elim exE conjE)
  with c show "time_passes E w (snd (http E m p b w))"
    by (simp add: time_passes_def monotonic_def clock_ok_def) (metis snd_conv)
qed

lemma time_reload: "clock_ok E \<Longrightarrow> keeps (time_passes E) (reload_book_cache E pages)"
  by (rule keeps_load_book_cache) (auto simp: time_frame km_get_def time_http)

primrec wait_total :: "nat \<Rightarrow> rat \<Rightarrow> rat" where
  "wait_total 0 delay = 0"
| "wait_total (Suc n) delay = delay + wait_total n (min scan_poll_max_seconds (delay * scan_poll_backoff))"

lemma wait_total_nonneg: "0 \<le> delay \<Longrightarrow> 0 \<le> wait_total n delay"
  by (induction n arbitrary: delay) (simp_all add: scan_poll_max_seconds_def scan_poll_backoff_def)

lemma poll_fuel_enough: "scan_wait_seconds \<le> wait_total poll_fuel scan_poll_seconds"
  by code_simp

text \<open>
  Documented of the service: no answer is out of fuel (it is not an exception), and the
  listing of books has a last page, whose answer says so or fails.
\<close>

definition last_answer :: "int \<times> string \<Rightarrow> bool" where
  "last_answer a = (case a of (status, raw) \<Rightarrow> status \<noteq> 200 \<or>
     (case json_loads raw of
        Some (JObj d) \<Rightarrow> (case map_of d ''last'' of None \<Rightarrow> True | Some l \<Rightarrow> truthy l)
      | _ \<Rightarrow> True))"

definition service_ok :: "'s komga_env \<Rightarrow> nat \<Rightarrow> bool" where
  "service_ok E pages \<longleftrightarrow>
     (\<forall>m p b s. fst (open_url E m p b s) \<noteq> Inl OutOfFuel) \<and>
     (\<exists>n < pages. \<forall>s. case fst (open_url E ''GET'' (page_path n) None s) of Inl _ \<Rightarrow> True | Inr a \<Rightarrow> last_answer a)"

lemma add_book_ends: "ends (add_book e)"
  unfolding add_book_def by (intro ends_bnd ends_pure py_get_ends) (simp add: ends_pure)

lemma http_result:
  fixes E :: "'s komga_env" and w :: "'s km"
  assumes "open_url E m p (map_option (json_dumps default_layout) b) (server w) = (r, s)"
  shows "fst (http E m p b w) =
     (case r of
        Inl (HTTPError code text) \<Rightarrow> Inr (code, JObj [(''error'', JStr text)])
      | Inl (URLError _ _ _) \<Rightarrow> Inr (0, JNull)
      | Inl e \<Rightarrow> Inl e
      | Inr (status, raw) \<Rightarrow> Inr (status, if raw = [] then JNull else case json_loads raw of Some j \<Rightarrow> j | None \<Rightarrow> JStr raw))"
  unfolding http_def assms Let_def by (cases r) (auto split: exn.split option.split prod.split)

lemma http_ends:
  fixes E :: "'s komga_env"
  shows "service_ok E pages \<Longrightarrow> ends (http E m p b)"
  unfolding ends_def
proof
  fix w :: "'s km"
  assume s: "service_ok E pages"
  obtain r s where r: "open_url E m p (map_option (json_dumps default_layout) b) (server w) = (r, s)" by fastforce
  have "fst (open_url E m p (map_option (json_dumps default_layout) b) (server w)) \<noteq> Inl OutOfFuel"
    using s by (simp only: service_ok_def) blast
  then have "r \<noteq> Inl OutOfFuel" by (simp add: r)
  then show "fst (http E m p b w) \<noteq> Inl OutOfFuel"
    unfolding http_result [OF r] by (cases r) (auto split: exn.split prod.split)
qed

definition page_body :: "'s komga_env \<Rightarrow> nat \<Rightarrow> nat \<Rightarrow> int \<times> json \<Rightarrow> ('s km, unit) prog" where
  "page_body E n page answer =
     (case answer of (status, body) \<Rightarrow>
       if status \<noteq> 200 \<or> \<not> is_obj body then ret ()
       else
         bnd (of_result (iter_or_empty (field (obj_of body) ''content''))) (\<lambda>entries.
         bnd (for_each entries (\<lambda>e _. add_book e) ()) (\<lambda>_.
           case map_of (obj_of body) ''last'' of
             None \<Rightarrow> ret ()
           | Some l \<Rightarrow> if truthy l then ret () else load_pages E n (Suc page))))"

lemma load_pages_Suc: "load_pages E (Suc n) page = bnd (km_get E (page_path page)) (page_body E n page)"
  unfolding load_pages.simps page_body_def by (rule refl)

lemma page_body_ends:
  assumes "status \<noteq> 200 \<or> \<not> is_obj body \<or>
     (case map_of (obj_of body) ''last'' of None \<Rightarrow> True | Some l \<Rightarrow> truthy l) \<or> ends (load_pages E n (Suc page))"
  shows "ends (page_body E n page (status, body))"
  using assms unfolding page_body_def
  by (auto intro!: ends_pure ends_bnd ends_for_each add_book_ends iter_or_empty_ends split: option.splits)

lemma last_answer_body:
  "last_answer (status, raw) \<Longrightarrow> raw \<noteq> [] \<Longrightarrow>
   status \<noteq> 200 \<or> \<not> is_obj (case json_loads raw of Some j \<Rightarrow> j | None \<Rightarrow> JStr raw) \<or>
     (case map_of (obj_of (case json_loads raw of Some j \<Rightarrow> j | None \<Rightarrow> JStr raw)) ''last'' of None \<Rightarrow> True | Some l \<Rightarrow> truthy l)"
  by (auto simp: last_answer_def is_obj_def split: option.splits json.splits)

lemma load_pages_end:
  fixes E :: "'s komga_env"
  assumes s: "service_ok E pages"
    and last: "\<And>s. case fst (open_url E ''GET'' (page_path N) None s) of Inl _ \<Rightarrow> True | Inr a \<Rightarrow> last_answer a"
  shows "page \<le> N \<Longrightarrow> N < page + n \<Longrightarrow> ends (load_pages E n page)"
proof (induction n arbitrary: page)
  case 0
  then show ?case by simp
next
  case (Suc n)
  have rest: "ends (load_pages E n (Suc page))" if "page \<noteq> N" using Suc that by simp
  show ?case
    unfolding ends_def
  proof
    fix w :: "'s km"
    obtain r s' where r: "open_url E ''GET'' (page_path page) None (server w) = (r, s')" by fastforce
    obtain x w1 where h: "km_get E (page_path page) w = (x, w1)" by fastforce
    have x: "x \<noteq> Inl OutOfFuel" using http_ends [OF s] h unfolding ends_def km_get_def by (metis fst_conv)
    have fx: "fst (http E ''GET'' (page_path page) None w) = x" using h by (simp add: km_get_def)
    have body: "ends (page_body E n page (status, body))" if xi: "x = Inr (status, body)" for status body
    proof (cases "page = N")
      case False
      then show ?thesis using rest by (intro page_body_ends) simp
    next
      case True
      show ?thesis
      proof (cases r)
        case (Inl e)
        then show ?thesis using fx http_result [of E "''GET''" "page_path page" None w r s'] r xi
          by (intro page_body_ends) (auto simp: is_obj_def split: exn.splits)
      next
        case (Inr a)
        obtain st raw where a: "a = (st, raw)" by fastforce
        have la: "last_answer (st, raw)" using last [of "server w"] r Inr True a by simp
        have "status = st" "body = (if raw = [] then JNull else case json_loads raw of Some j \<Rightarrow> j | None \<Rightarrow> JStr raw)"
          using fx http_result [of E "''GET''" "page_path page" None w r s'] r xi Inr a by auto
        then show ?thesis using last_answer_body [OF la] by (intro page_body_ends) (auto simp: is_obj_def)
      qed
    qed
    show "fst (load_pages E (Suc n) page w) \<noteq> Inl OutOfFuel"
      using x body unfolding load_pages_Suc ends_def by (cases x) (auto simp: bnd_def h)
  qed
qed

lemma reload_ends:
  assumes "service_ok E pages"
  shows "ends (load_book_cache E pages)" "ends (reload_book_cache E pages)"
proof -
  obtain N where "N < pages" "\<And>s. case fst (open_url E ''GET'' (page_path N) None s) of Inl _ \<Rightarrow> True | Inr a \<Rightarrow> last_answer a"
    using assms by (auto simp: service_ok_def)
  then have l: "ends (load_pages E pages 0)" by (intro load_pages_end [OF assms, of N]) auto
  then have "ends (bnd (load_pages E pages 0) (\<lambda>_. modify (\<lambda>w. w\<lparr>cache_loaded := True\<rparr>)))"
    by (intro ends_bnd ends_pure)
  then show "ends (load_book_cache E pages)" "ends (reload_book_cache E pages)"
    by (auto simp: ends_def load_book_cache_def reload_book_cache_def)
qed

lemma poll_bounded:
  assumes c: "clock_ok E" and pg: "service_ok E pages"
  shows "0 \<le> delay \<Longrightarrow> deadline - monotonic E w \<le> wait_total n delay \<Longrightarrow>
    fst (poll E pages pdf deadline n delay waiting w) \<noteq> Inl OutOfFuel"
proof (induction n arbitrary: delay waiting w)
  case 0
  then show ?case by simp
next
  case (Suc n)
  show ?case
  proof (cases "waiting \<noteq> [] \<and> monotonic E w < deadline")
    case False
    then show ?thesis by auto
  next
    case True
    define d where "d = min delay (max 0 (deadline - monotonic E w))"
    define w1 where "w1 = w\<lparr>server := sleep_for E d (server w)\<rparr>"
    have d: "0 \<le> d" using Suc.prems(1) by (simp add: d_def)
    have t1: "monotonic E w + d \<le> monotonic E w1"
      using c d by (simp add: clock_ok_def monotonic_def w1_def)
    obtain r w2 where r: "reload_book_cache E pages w1 = (r, w2)" by fastforce
    have t2: "monotonic E w1 \<le> monotonic E w2"
      using keepsD [OF time_reload [OF c] r] by (simp add: time_passes_def)
    let ?delay = "min scan_poll_max_seconds (delay * scan_poll_backoff)"
    have nn: "0 \<le> ?delay" using Suc.prems(1) by (simp add: scan_poll_max_seconds_def scan_poll_backoff_def)
    have "deadline - monotonic E w2 \<le> wait_total n ?delay"
    proof (cases "d = delay")
      case True
      with t1 t2 Suc.prems(2) show ?thesis by simp
    next
      case False
      then have "d = deadline - monotonic E w" using True by (simp add: d_def)
      with t1 t2 have "deadline \<le> monotonic E w2" by simp
      with wait_total_nonneg [OF nn, of n] show ?thesis by simp
    qed
    then have ih: "fst (poll E pages pdf deadline n ?delay ws w2) \<noteq> Inl OutOfFuel" for ws
      using Suc.IH [OF nn] by blast
    have "fst (reload_book_cache E pages w1) \<noteq> Inl OutOfFuel" using reload_ends(2) [OF pg] by (simp add: ends_def)
    then have "r \<noteq> Inl OutOfFuel" by (simp add: r)
    moreover have "poll E pages pdf deadline (Suc n) delay waiting w =
        bnd (reload_book_cache E pages) (\<lambda>_ w'. poll E pages pdf deadline n ?delay
            (filter (\<lambda>s. \<not> indexed w' (pdf s)) waiting) w') w1"
      using True by (simp add: bnd_def pause_def modify_def d_def w1_def)
    ultimately show ?thesis using ih by (cases r) (auto simp: bnd_def r)
  qed
qed

lemma request_scan_ends: "service_ok E pages \<Longrightarrow> ends (request_scan E l)"
proof -
  assume s: "service_ok E pages"
  have "ends (scan_attempts E l n error)" for n error
    by (induction n arbitrary: error)
      (auto intro!: ends_pure ends_bnd http_ends [OF s] simp: pause_def)
  then show ?thesis by (simp add: request_scan_def)
qed

lemma scan_one_ends: "service_ok E pages \<Longrightarrow> ends (scan_one E l acc)"
  unfolding scan_one_def
  by (intro ends_bnd request_scan_ends) (auto intro!: ends_pure split: option.split prod.split)

section \<open>Dry runs and tallies\<close>

definition only_reads :: "'s km \<Rightarrow> 's km \<Rightarrow> bool" where
  "only_reads w w' \<longleftrightarrow> (\<exists>new. sent w' = new @ sent w \<and> fst ` set new \<subseteq> {''GET''}) \<and> files w' = files w"

lemma only_reads_frame: "cache_frame only_reads"
proof -
  have "only_reads w1 w3" if a: "only_reads w1 w2" and b: "only_reads w2 w3" for w1 w2 w3 :: "'s km"
  proof -
    obtain n1 n2 where "sent w2 = n1 @ sent w1" "sent w3 = n2 @ sent w2" "fst ` set n1 \<subseteq> {''GET''}"
      "fst ` set n2 \<subseteq> {''GET''}" using a b unfolding only_reads_def by blast
    then have "sent w3 = (n2 @ n1) @ sent w1" "fst ` set (n2 @ n1) \<subseteq> {''GET''}" by auto
    with a b show ?thesis unfolding only_reads_def by metis
  qed
  then have "transp only_reads" by (blast intro: transpI)
  then show ?thesis by (auto simp: cache_frame_def only_reads_def intro!: reflpI)
qed

lemma only_reads_refl: "only_reads w w"
  by (simp add: only_reads_def)

lemmas reads_trans = cache_frameD(2) [OF only_reads_frame]
lemmas reads_pure = keeps_pure [OF cache_frameD(1) [OF only_reads_frame]]

lemma reads_get: "keeps only_reads (km_get E p)"
proof (rule keepsI)
  fix w
  show "only_reads w (snd (km_get E p w))"
    using http_state [of E "''GET''" p None w] unfolding km_get_def only_reads_def
    by (elim exE conjE) (auto intro!: exI [of _ "[(''GET'', p)]"])
qed

lemmas reads_load = keeps_load_book_cache(1) [OF only_reads_frame reads_get]

lemma reads_find_book_id: "keeps only_reads (find_book_id E pages url)"
  unfolding find_book_id_def by (intro keeps_bnd reads_trans reads_load reads_pure)

lemma reads_apply_patch: "dry_run E \<Longrightarrow> keeps only_reads (apply_patch E what ident diff)"
  by (simp add: apply_patch_def reads_pure)

lemma reads_sync_book: "dry_run E \<Longrightarrow> keeps only_reads (sync_book E pages p kind)"
proof -
  assume d: "dry_run E"
  have "keeps only_reads (\<lambda>w. sync_book E pages p kind w)"
  proof (rule keepsI)
    fix w
    show "only_reads w (snd (sync_book E pages p kind w))"
    proof (cases "load_sidecar (files w) p")
      case None
      then show ?thesis by (simp add: sync_book_def ret_def only_reads_refl)
    next
      case (Some side)
      let ?url = "path_str (pdf_path_of p side)"
      have "keeps only_reads (bnd (find_book_id E pages ?url) (\<lambda>bid.
             if \<not> truthy (case bid of None \<Rightarrow> JNull | Some b \<Rightarrow> b) then ret (Err (''no book matches '' @ ?url))
             else
               let ident = py_str (the bid) in
               bnd (km_get E (''/api/v1/books/'' @ ident)) (\<lambda>(status, current).
                 if status \<noteq> 200 \<or> \<not> is_obj current then ret (Err (''book '' @ ident @ '': GET status '' @ show_int status))
                 else
                   bnd (of_result (desired_book side kind)) (\<lambda>desired.
                   bnd (of_result (needs_patch_book (metadata_of current) desired)) (\<lambda>diff.
                   apply_patch E ''books/'' ident diff)))))" (is "keeps _ ?m")
        by (intro keeps_bnd reads_trans reads_find_book_id)
          (auto simp: Let_def intro!: reads_pure keeps_bnd reads_trans reads_get reads_apply_patch d keeps_case)
      moreover have "sync_book E pages p kind w = ?m w" using Some by (simp add: sync_book_def Let_def)
      ultimately show ?thesis by (simp add: keeps_def)
    qed
  qed
  then show ?thesis by simp
qed

lemma reads_sync_series: "dry_run E \<Longrightarrow> keeps only_reads (sync_series E sid year kind)"
  unfolding sync_series_def
  by (auto split: option.split intro!: reads_pure keeps_bnd reads_trans reads_get reads_apply_patch keeps_case)

lemma reads_note_series: "keeps only_reads (note_series E p kind b seen)"
  unfolding note_series_def Let_def
  by (auto split: option.split intro!: reads_pure keeps_bnd reads_trans reads_get keeps_case)

lemma reads_sync_one: "dry_run E \<Longrightarrow> keeps only_reads (sync_one E pages p acc)"
  unfolding sync_one_def
  by (auto split: outcome.split prod.split
      intro!: reads_pure keeps_bnd reads_trans reads_sync_book reads_note_series)

lemma reads_series_one: "dry_run E \<Longrightarrow> keeps only_reads (series_one E entry t)"
  unfolding series_one_def
  by (auto split: prod.split intro!: reads_pure keeps_bnd reads_trans reads_sync_series)

lemma reads_sync_all: "dry_run E \<Longrightarrow> keeps only_reads (sync_all E pages libs)"
  unfolding sync_all_def
  by (auto simp: index_errors_def intro!: reads_pure keeps_bnd reads_trans keeps_for_each reads_sync_one
      reads_series_one cache_frameD(1) [OF only_reads_frame] keeps_case)

definition total :: "tally \<Rightarrow> nat" where
  "total t = oks t + skips t + errs t"

lemma total_count: "total (count r t) = Suc (total t)"
  by (simp add: total_def count_def split: outcome.split)

lemma sync_one_total:
  "sync_one E pages p (t, seen) w = (Inr (t', seen'), w') \<Longrightarrow> total t' = Suc (total t)"
proof -
  assume a: "sync_one E pages p (t, seen) w = (Inr (t', seen'), w')"
  then obtain r w1 where "(case r of
            Err _ \<Rightarrow> ret (count r t, seen)
          | Ok ident \<Rightarrow> bnd (note_series E p (kind_for p) ident seen) (\<lambda>seen'. ret (count r t, seen'))
          | Skip ident \<Rightarrow> bnd (note_series E p (kind_for p) ident seen) (\<lambda>seen'. ret (count r t, seen'))) w1 = (Inr (t', seen'), w')"
    unfolding sync_one_def prod.case bnd_Inr_iff by blast
  then have "t' = count r t" by (cases r) (auto simp: bnd_Inr_iff prog_defs)
  then show ?thesis by (simp add: total_count)
qed

lemma sync_loop_total:
  "for_each ps (sync_one E pages) (t, seen) w = (Inr (t', seen'), w') \<Longrightarrow> total t' = total t + length ps"
proof (induction ps arbitrary: t seen w)
  case Nil
  then show ?case by (simp add: prog_defs)
next
  case (Cons p ps)
  then obtain t1 seen1 w1 where "sync_one E pages p (t, seen) w = (Inr (t1, seen1), w1)"
    "for_each ps (sync_one E pages) (t1, seen1) w1 = (Inr (t', seen'), w')"
    by (auto simp: bnd_Inr_iff)
  with Cons.IH sync_one_total show ?case by fastforce
qed

lemma scan_attempts_sent:
  "scan_attempts E l n error w = (Inr r, w') \<Longrightarrow>
     \<exists>k \<le> n. sent w' = replicate k (''POST'', scan_path l) @ sent w \<and> files w' = files w \<and> (r \<noteq> None \<longrightarrow> k = n)"
proof (induction n arbitrary: error w)
  case 0
  then show ?case by (auto simp: prog_defs)
next
  case (Suc n)
  obtain status body w1 where h: "http E ''POST'' (scan_path l) None w = (Inr (status, body), w1)"
    and rest: "(if 200 \<le> status \<and> status < 300 then ret None
       else bnd (if n \<noteq> 0 then pause E scan_request_retry_seconds else ret ()) (\<lambda>_.
            scan_attempts E l n (scan_error l status))) w1 = (Inr r, w')"
    using Suc.prems by (auto simp: bnd_Inr_iff)
  have w1: "sent w1 = (''POST'', scan_path l) # sent w" "files w1 = files w"
    using http_state [of E "''POST''" "scan_path l" None w] h by auto
  show ?case
  proof (cases "200 \<le> status \<and> status < 300")
    case True
    then show ?thesis using rest w1 by (intro exI [of _ 1]) (auto simp: prog_defs)
  next
    case False
    define w2 where "w2 = (if n \<noteq> 0 then w1\<lparr>server := sleep_for E scan_request_retry_seconds (server w1)\<rparr> else w1)"
    have w2: "sent w2 = sent w1" "files w2 = files w1" by (simp_all add: w2_def)
    have r2: "scan_attempts E l n (scan_error l status) w2 = (Inr r, w')"
      using rest False by (auto simp: bnd_def pause_def prog_defs w2_def split: if_splits)
    obtain k where "k \<le> n" "sent w' = replicate k (''POST'', scan_path l) @ sent w2" "files w' = files w2" "r \<noteq> None \<longrightarrow> k = n"
      using Suc.IH [OF r2] by auto
    then show ?thesis using w1 w2
      by (intro exI [of _ "Suc k"]) (auto simp: replicate_append_same [symmetric])
  qed
qed

section \<open>Properties\<close>

text \<open>
  C4. The synchroniser settles: after a PATCH of the computed difference that the service
  honours (every patched field then holds what was sent, tags in any order; no other
  field changes), nothing is left to patch for the same sidecar.
\<close>

theorem resync_needs_nothing:
  assumes "desired_book side kind = Inr desired" "needs_patch_book (JObj cur) desired = Inr diff"
    and "\<And>k v. (k, v) \<in> set diff \<Longrightarrow> agrees k (field stored k) v"
    and "\<And>k. k \<notin> fst ` set diff \<Longrightarrow> field stored k = field cur k"
  shows "needs_patch_book (JObj stored) desired = Inr []"
proof -
  have d: "diff_fields book_field_differs (JObj cur) desired = Inr diff"
    using assms(2) by (simp add: needs_patch_book_def field_py_or)
  note sound = diff_fields_sound [OF d]
  have "book_field_differs k (field stored k) v = Inr False" if kv: "(k, v) \<in> set desired" for k v
  proof (cases "(k, v) \<in> set diff")
    case True
    then show ?thesis using desired_book_agrees [OF assms(1) kv assms(3)] by blast
  next
    case False
    have "k \<notin> fst ` set diff"
    proof
      assume "k \<in> fst ` set diff"
      then obtain v' where v': "(k, v') \<in> set diff" by auto
      then have "(k, v') \<in> set desired" using sound by auto
      then have "v' = v" using kv desired_book_distinct [OF assms(1)] by (metis eq_key_imp_eq_value)
      with v' False show False by simp
    qed
    moreover have "book_field_differs k (field cur k) v = Inr False" using sound kv False by auto
    ultimately show ?thesis using assms(4) by simp
  qed
  then show ?thesis
    unfolding needs_patch_book_def field_py_or by (rule diff_fields_Nil)
qed

text \<open>
  The tags of a book are at most 60, take at most 500 characters with their
  separators, never repeat, and are the longest start of the deduplicated keywords for
  which that holds.
\<close>

theorem build_tags_bounded:
  assumes "build_tags articles = Inr tags"
  shows "length tags \<le> 60 \<and> tag_chars tags \<le> 500 \<and> distinct (map lower tags) \<and>
    (\<exists>kwds rest. article_keywords articles = Inr kwds \<and> dedup kwds = tags @ rest \<and>
       (rest \<noteq> [] \<longrightarrow> length tags = 60 \<or> 500 < tag_chars (tags @ [hd rest])))"
proof -
  obtain kwds where k: "article_keywords articles = Inr kwds" and t: "tags = cap_tags [] 0 (dedup kwds)"
    using assms by (auto simp: build_tags_def rbnd_Inr_iff)
  have b: "length tags \<le> max_tags_per_book \<and> tag_chars tags \<le> max_tag_chars_total \<and>
     (\<exists>taken rest. tags = [] @ taken \<and> dedup kwds = taken @ rest \<and>
        (rest \<noteq> [] \<longrightarrow> length tags = max_tags_per_book \<or> max_tag_chars_total < tag_chars (tags @ [hd rest])))"
    by (rule cap_tags_bounds [OF _ _ _ t [symmetric]]) (simp_all add: tag_chars_def)
  then obtain rest where r: "dedup kwds = tags @ rest"
    "rest \<noteq> [] \<longrightarrow> length tags = max_tags_per_book \<or> max_tag_chars_total < tag_chars (tags @ [hd rest])" by auto
  moreover have "distinct (map lower (tags @ rest))" using dedup_distinct [of kwds] r(1) by simp
  ultimately show ?thesis using b k
    unfolding max_tags_per_book_def max_tag_chars_total_def map_append distinct_append by blast
qed

text \<open>
  Every sidecar is assigned to the library with the deepest root it lies under, and is
  reported as unmapped exactly when it lies under none.
\<close>

theorem sidecars_go_to_deepest_library:
  assumes "map_sidecars_to_libraries sidecars libraries = (mapped, unmapped_ones)" "s \<in> set sidecars"
  shows "(case map_of mapped s of
       Some l \<Rightarrow> s \<notin> set unmapped_ones \<and>
         (\<exists>base. (base, l) \<in> set (library_roots libraries) \<and> is_relative_to s base \<and>
            (\<forall>(b, l') \<in> set (library_roots libraries). is_relative_to s b \<longrightarrow> length b \<le> length base))
     | None \<Rightarrow> s \<in> set unmapped_ones \<and> (\<forall>(b, l') \<in> set (library_roots libraries). \<not> is_relative_to s b))"
proof -
  have m: "map_of mapped s = library_of (deepest_first (library_roots libraries)) s"
    using map_sidecars_mapped [of sidecars libraries s] assms by simp
  have u: "unmapped_ones = filter (\<lambda>s. library_of (deepest_first (library_roots libraries)) s = None) sidecars"
    using assms(1) by (simp add: map_sidecars_to_libraries_def Let_def)
  show ?thesis
  proof (cases "library_of (deepest_first (library_roots libraries)) s")
    case None
    then show ?thesis using assms(2) library_of_None [of "library_roots libraries" s] by (simp add: m u)
  next
    case (Some l)
    then show ?thesis using library_of_deepest [OF Some] by (simp add: m u)
  qed
qed

text \<open>
  C5. The discoverability gate always returns: with the documented behaviour of the
  clock and of a listing that has a last page, fifteen polls are enough to use up its
  ten minutes, so neither the paging nor the polling goes on for ever.
\<close>

theorem index_gate_returns:
  assumes "clock_ok E" "service_ok E pages"
  shows "fst (refresh_book_index E pages sidecars libraries w) \<noteq> Inl OutOfFuel"
proof -
  have poll: "fst (poll E pages pdf (monotonic E w1 + scan_wait_seconds) poll_fuel scan_poll_seconds waiting w1) \<noteq> Inl OutOfFuel"
    for pdf waiting w1
    using poll_fuel_enough by (intro poll_bounded assms) (simp_all add: scan_poll_seconds_def)
  have scans: "ends (for_each ls (scan_one E) acc)" for ls acc
    by (intro ends_for_each scan_one_ends [OF assms(2)])
  define after where "after = (\<lambda>pdf (mapped :: (path \<times> string) list) pending unm (errors, scanned) w1.
     bnd (poll E pages pdf (monotonic E w1 + scan_wait_seconds) poll_fuel scan_poll_seconds
            (filter (\<lambda>s. map_of mapped s \<in> Some ` set scanned) pending)) (\<lambda>_ w2.
       ret \<lparr>missing = filter (\<lambda>s. \<not> indexed w2 (pdf s)) pending, unmapped = unm, scan_errors = errors\<rparr> w2) w1)"
  have after: "ends (after pdf mapped pending unm x)" for pdf mapped pending unm x
  proof (cases x)
    case (Pair errors scanned)
    show ?thesis unfolding ends_def Pair
    proof
      fix w1
      let ?p = "poll E pages pdf (monotonic E w1 + scan_wait_seconds) poll_fuel scan_poll_seconds
            (filter (\<lambda>s. map_of mapped s \<in> Some ` set scanned) pending)"
      obtain r w2 where r: "?p w1 = (r, w2)" by fastforce
      then have "r \<noteq> Inl OutOfFuel" using poll by (metis fst_conv)
      then show "fst (after pdf mapped pending unm (errors, scanned) w1) \<noteq> Inl OutOfFuel"
        by (cases r) (auto simp: after_def bnd_def r ret_def)
    qed
  qed
  define K where "K = (\<lambda>w.
       let pdf = (\<lambda>s. path_str (pdf_path_for (files w) s));
           (mapped, unm) = map_sidecars_to_libraries sidecars libraries;
           pending = filter (\<lambda>s. \<not> indexed w (pdf s)) sidecars
       in if pending = [] then ret \<lparr>missing = [], unmapped = unm, scan_errors = []\<rparr> w
          else bnd (for_each (wanted_libraries mapped pending) (scan_one E) ([], [])) (after pdf mapped pending unm) w)"
  have "ends K"
    unfolding ends_def
  proof
    fix w1
    obtain mapped unm where m: "map_sidecars_to_libraries sidecars libraries = (mapped, unm)" by fastforce
    have "ends (bnd (for_each (wanted_libraries mapped pending) (scan_one E) ([], [])) (after pdf mapped pending unm))"
      for pdf pending by (intro ends_bnd scans after)
    then show "fst (K w1) \<noteq> Inl OutOfFuel" by (auto simp: K_def m Let_def ends_def ret_def)
  qed
  moreover have "refresh_book_index E pages sidecars libraries = bnd (load_book_cache E pages) (\<lambda>_. K)"
    unfolding refresh_book_index_def K_def after_def Let_def by (rule refl)
  moreover have "ends (bnd (load_book_cache E pages) (\<lambda>_. K))"
    using \<open>ends K\<close> by (intro ends_bnd reload_ends(1) [OF assms(2)])
  ultimately show ?thesis by (simp add: ends_def)
qed

text \<open>
  A scan request gives up: at most three POSTs are sent for a library, nothing else is
  requested, and an error is only reported after all three were refused.
\<close>

theorem request_scan_attempts:
  assumes "request_scan E l w = (Inr r, w')"
  shows "\<exists>k \<le> 3. sent w' = replicate k (''POST'', scan_path l) @ sent w \<and> (r \<noteq> None \<longrightarrow> k = 3)"
  using scan_attempts_sent [of E l scan_request_attempts "[]" w r w'] assms
  unfolding request_scan_def scan_request_attempts_def by blast

text \<open>
  No sidecar is dropped: a run that ends has counted every sidecar it found as
  synced, unchanged or failed, whatever happened to the others before it, and its exit
  code is 0 only if none failed.
\<close>

theorem sync_all_counts_every_sidecar:
  assumes "sync_all E pages libraries w = (Inr code, w')"
  shows "\<exists>books seen w1 w2.
     for_each (find_sidecars (files w) (sidecar_root E)) (sync_one E pages) (no_tally, []) w1 = (Inr (books, seen), w2) \<and>
     oks books + skips books + errs books = length (find_sidecars (files w) (sidecar_root E)) \<and>
     (code = 0 \<longrightarrow> errs books = 0) \<and> (errs books \<noteq> 0 \<longrightarrow> code = 2) \<and> code \<in> {0, 2}"
proof -
  obtain err :: nat and w1 xb w2 where f: "for_each (find_sidecars (files w) (sidecar_root E)) (sync_one E pages) (no_tally, []) w1 = (Inr xb, w2)"
    and rest: "(case xb of (books, seen) \<Rightarrow> bnd (for_each seen (series_one E) no_tally) (\<lambda>series.
       ret (if errs books \<noteq> 0 \<or> errs series \<noteq> 0 \<or> err \<noteq> 0 then 2 else 0))) w2 = (Inr code, w')"
    using assms unfolding sync_all_def bnd_Inr_iff [of "gets _"] bnd_Inr_iff [of "index_errors _ _ _ _"]
      bnd_Inr_iff [of "for_each _ _ (no_tally, [])"] gets_def prod.inject sum.inject
    by blast
  obtain books seen where xb: "xb = (books, seen)" by fastforce
  note b = f [unfolded xb]
  obtain series :: tally where c: "code = (if errs books \<noteq> 0 \<or> errs series \<noteq> 0 \<or> err \<noteq> 0 then 2 else 0)"
    using rest by (auto simp: xb bnd_Inr_iff ret_def)
  have "total books = total no_tally + length (find_sidecars (files w) (sidecar_root E))"
    by (rule sync_loop_total [OF b])
  then have "oks books + skips books + errs books = length (find_sidecars (files w) (sidecar_root E))"
    by (simp add: total_def no_tally_def)
  with b c show ?thesis by (intro exI [of _ books] exI [of _ seen] exI [of _ w1] exI [of _ w2]) auto
qed

text \<open>
  In a dry run the synchronisation itself only reads: every request it makes is a
  GET, and the archive on disk is untouched.
\<close>

theorem dry_run_only_reads:
  assumes "dry_run E"
  shows "only_reads w (snd (sync_all E pages libraries w))"
  using reads_sync_all [OF assms] by (simp add: keeps_def)

section \<open>Concrete runs\<close>

definition quote :: "string \<Rightarrow> string" where "quote s = CHR 0x22 # s @ [CHR 0x22]"

definition demo_answer :: "string \<Rightarrow> string" where
  "demo_answer p =
     (if p = ''/api/v1/libraries'' then ''[{'' @ quote ''id'' @ '':'' @ quote ''L'' @ '','' @ quote ''name'' @ '':'' @ quote ''N'' @ ''}]''
      else ''{'' @ quote ''content'' @ '':[],'' @ quote ''last'' @ '':true}'')"

definition demo_env :: "rat komga_env" where
  "demo_env = \<lparr>open_url = (\<lambda>m p b s. (Inr (200, demo_answer p), s + 1)), clock = id, sleep_for = (\<lambda>d s. s + d),
     api_key = ''k'', sidecar_root = [''/'', ''m''], dry_run = True\<rparr>"

definition demo_world :: "rat km" where
  "demo_world = \<lparr>server = 0, files = [([''/'', ''m''], NDir)], book_cache = [], cache_loaded = False, sent = []\<rparr>"

definition demo_side :: sidecar where
  "demo_side = [(''title'', JStr '' June ''), (''year'', JInt 2024), (''month'', JInt 6), (''issue_number'', JInt 605),
     (''articles'', JArr [JObj [(''title'', JStr ''A''), (''author'', JStr ''Jo''), (''keywords'', JArr [JStr ''Vine'', JStr ''vine''])]])]"

lemma demo_desired: "(case desired_book demo_side ''GAW'' of Inr d \<Rightarrow> needs_patch_book (JObj []) d = Inr d | Inl _ \<Rightarrow> False)"
  by code_simp

theorem resync_needs_nothing_witness:
  "\<exists>desired. desired_book demo_side ''GAW'' = Inr desired \<and> needs_patch_book (JObj desired) desired = Inr []"
proof -
  obtain d where d: "desired_book demo_side ''GAW'' = Inr d" "needs_patch_book (JObj []) d = Inr d"
    using demo_desired by (auto split: sum.splits)
  have f: "(k, v) \<in> set d \<Longrightarrow> field d k = v" for k v
    using desired_book_distinct [OF d(1)] by (simp add: field_def)
  have "agrees k (field d k) v" if "(k, v) \<in> set d" for k v
  proof (cases "k = ''tags''")
    case True
    have "field d ''tags'' = JArr [JStr ''vine'']"
    proof -
      have "(case desired_book demo_side ''GAW'' of Inr d \<Rightarrow> field d ''tags'' | Inl _ \<Rightarrow> JNull) = JArr [JStr ''vine'']" by code_simp
      then show ?thesis by (simp add: d(1))
    qed
    then have "v = JArr [JStr ''vine'']" using f [OF that] True by simp
    then show ?thesis using f [OF that] True by (simp add: agrees_def hashable_def is_obj_def is_arr_def)
  next
    case False
    then show ?thesis using f [OF that] by (simp add: agrees_def)
  qed
  moreover have "k \<notin> fst ` set d \<Longrightarrow> field d k = field [] k" for k
    by (simp add: field_def map_of_eq_None_iff [THEN iffD2])
  ultimately have "needs_patch_book (JObj d) d = Inr []"
    by (rule resync_needs_nothing [OF d])
  with d(1) show ?thesis by blast
qed

theorem build_tags_bounded_witness:
  "build_tags [JObj [(''keywords'', JArr [JStr '' Vine '', JStr ''vine'', JStr ''oak''])]] = Inr [''vine'', ''oak''] \<and>
   tag_chars [''vine'', ''oak''] \<le> 500"
proof -
  have b: "build_tags [JObj [(''keywords'', JArr [JStr '' Vine '', JStr ''vine'', JStr ''oak''])]] = Inr [''vine'', ''oak'']"
    by code_simp
  with build_tags_bounded [OF b] show ?thesis by blast
qed

theorem sidecars_go_to_deepest_library_witness:
  "\<exists>mapped un. map_sidecars_to_libraries [[''/'', ''m'', ''GAW'', ''a.json'']]
      [[(''root'', JStr ''/m''), (''id'', JStr ''1'')], [(''root'', JStr ''/m/GAW''), (''id'', JStr ''2'')]] = (mapped, un) \<and>
    map_of mapped [''/'', ''m'', ''GAW'', ''a.json''] = Some ''2'' \<and> [''/'', ''m'', ''GAW'', ''a.json''] \<notin> set un"
proof -
  have r: "map_sidecars_to_libraries [[''/'', ''m'', ''GAW'', ''a.json'']]
      [[(''root'', JStr ''/m''), (''id'', JStr ''1'')], [(''root'', JStr ''/m/GAW''), (''id'', JStr ''2'')]] =
      ([([''/'', ''m'', ''GAW'', ''a.json''], ''2'')], [])" by code_simp
  show ?thesis using r sidecars_go_to_deepest_library [OF r, of "[''/'', ''m'', ''GAW'', ''a.json'']"] by simp
qed

theorem index_gate_returns_witness:
  "fst (refresh_book_index demo_env 1 [] [] demo_world) \<noteq> Inl OutOfFuel"
proof (rule index_gate_returns)
  show "clock_ok demo_env" by (simp add: clock_ok_def demo_env_def)
  have "case fst (open_url demo_env ''GET'' (page_path 0) None s) of Inl _ \<Rightarrow> True | Inr a \<Rightarrow> last_answer a" for s
  proof -
    have "last_answer (200, demo_answer (page_path 0))" by code_simp
    then show ?thesis by (simp add: demo_env_def)
  qed
  then show "service_ok demo_env 1" by (auto simp: service_ok_def demo_env_def)
qed

theorem request_scan_attempts_witness:
  "\<exists>w'. request_scan demo_env ''L'' demo_world = (Inr None, w') \<and> length (sent w') \<le> 3"
proof -
  have "fst (request_scan demo_env ''L'' demo_world) = Inr None" by code_simp
  then obtain w' where r: "request_scan demo_env ''L'' demo_world = (Inr None, w')" by (metis prod.collapse)
  then show ?thesis using request_scan_attempts [OF r] by (auto simp: demo_world_def)
qed

theorem sync_all_counts_every_sidecar_witness:
  "\<exists>w' books seen w1 w2. sync_all demo_env 1 (JArr []) demo_world = (Inr 0, w') \<and>
    for_each (find_sidecars (files demo_world) [''/'', ''m'']) (sync_one demo_env 1) (no_tally, []) w1 = (Inr (books, seen), w2) \<and>
    errs books = 0"
proof -
  have "fst (sync_all demo_env 1 (JArr []) demo_world) = Inr 0" by code_simp
  then obtain w' where r: "sync_all demo_env 1 (JArr []) demo_world = (Inr 0, w')" by (metis prod.collapse)
  have e: "sidecar_root demo_env = [''/'', ''m'']" by (simp add: demo_env_def)
  from sync_all_counts_every_sidecar [OF r] r e show ?thesis by metis
qed

theorem dry_run_only_reads_witness:
  "only_reads demo_world (snd (sync_all demo_env 1 (JArr []) demo_world))"
  by (rule dry_run_only_reads) (simp add: demo_env_def)

text \<open>
  What a dry run is documented not to do, it does: the whole run turns on the
  hashKoreader option of every library that lacks it, with a PATCH, in a dry run too.
\<close>

theorem dry_run_patches_libraries:
  "dry_run demo_env \<and> (''PATCH'', ''/api/v1/libraries/L'') \<in> set (sent (snd (main demo_env 1 demo_world)))"
  by code_simp

end
