(* ===== verification/Magazine_Site.thy ===== *)
theory Magazine_Site
  imports Py_Json Py_Path Py_Regex Complex_Main
begin

text \<open>
  What the two magazine archivers share (scripts/gwm-archiver.py, scripts/wvj-archive.py):
  the state of a run, the HTML they scrape, and the PDF tools they call. The web server,
  html.unescape, pdfinfo, qpdf and exiftool are parameters. Every change of the file tree
  goes through \<open>change\<close>, which keeps the trees a crash could leave behind.
\<close>

section \<open>The environment and the state of a run\<close>

record web_request =
  url :: string
  post_data :: "(string \<times> string) list"
  referer :: "string option"

text \<open>A reply: the chunks \<open>r.read\<close> returns, and the exception that cuts them short, if any\<close>

record web_reply =
  chunks :: "string list"
  cut_short :: "exn option"
  disposition :: "string option"
  content_length :: "string option"

record 's mag_env =
  open_url :: "web_request \<Rightarrow> 's \<Rightarrow> (exn + web_reply) \<times> 's"
  cookie_names :: "'s \<Rightarrow> string list"
  sleep_for :: "rat \<Rightarrow> 's \<Rightarrow> 's"
  unescape :: "string \<Rightarrow> string"
  pdfinfo :: "string \<Rightarrow> exn + string"
  qpdf :: "string list \<Rightarrow> (exn + unit) \<times> string option"
  exiftool :: "string \<Rightarrow> string \<Rightarrow> string \<Rightarrow> string \<Rightarrow> string"

record 's mag =
  server :: 's
  files :: fs
  trace :: "fs list"
  html_cache :: "(string \<times> string) list"

definition change :: "(fs \<Rightarrow> fs) \<Rightarrow> ('s mag, unit) prog" where
  "change f w = (Inr (), w\<lparr>files := f (files w), trace := files w # trace w\<rparr>)"

definition pause :: "'s mag_env \<Rightarrow> rat \<Rightarrow> ('s mag, unit) prog" where
  "pause E d w = (Inr (), w\<lparr>server := sleep_for E d (server w)\<rparr>)"

definition fetch_reply :: "'s mag_env \<Rightarrow> web_request \<Rightarrow> ('s mag, web_reply) prog" where
  "fetch_reply E q w = (case open_url E q (server w) of (r, s) \<Rightarrow> (r, w\<lparr>server := s\<rparr>))"

definition body_of :: "web_reply \<Rightarrow> string" where
  "body_of r = concat (chunks r)"

definition read_all :: "web_reply \<Rightarrow> exn + string" where
  "read_all r = (case cut_short r of Some e \<Rightarrow> Inl e | None \<Rightarrow> Inr (body_of r))"

definition get_request :: "string \<Rightarrow> web_request" where
  "get_request u = \<lparr>url = u, post_data = [], referer = None\<rparr>"

definition base_url :: string where
  "base_url = ''https://winetitles.com.au''"

section \<open>Pages\<close>

definition letter_lower :: "char \<Rightarrow> bool" where
  "letter_lower c \<longleftrightarrow> CHR ''a'' \<le> c \<and> c \<le> CHR ''z''"

definition slug_char :: "char \<Rightarrow> bool" where
  "slug_char c \<longleftrightarrow> letter_lower c \<or> is_digit c \<or> c = CHR ''-''"

definition field_rx :: "(char \<Rightarrow> bool) \<Rightarrow> rx" where
  "field_rx key =
     rseq [RLit ''<p>'', rspaces, RLit ''<strong>'', RGroup 1 (rplus (RSet key)), RLit '':'', rspaces,
           RLit ''</strong>'', rspaces, RGroup 2 (RStarLazy any_char), rspaces, RLit ''</p>'']"

definition gwm_key_char :: "char \<Rightarrow> bool" where
  "gwm_key_char c \<longleftrightarrow> is_alpha c \<or> c \<in> set '' ()''"

definition tag_rx :: rx where
  "tag_rx = rseq [RLit ''<'', rplus (none_of ''>''), RLit ''>'']"

definition title_rx :: rx where
  "title_rx = rseq [RLit ''<title>'', RGroup 1 (rplus_lazy (none_of ''<'')), rspaces, RLit ''-'', rspaces,
                    RLit ''Winetitles</title>'']"

record art_meta =
  m_title :: string
  m_author :: string
  m_keywords :: "string list"
  m_pages :: string

definition one_spaces :: "string \<Rightarrow> string" where
  "one_spaces s = re_sub rspaces1 (\<lambda>m. '' '') s"

definition page_fields :: "(string \<Rightarrow> string) \<Rightarrow> rx \<Rightarrow> (string \<Rightarrow> string) \<Rightarrow> string \<Rightarrow> (string \<times> string) list" where
  "page_fields unesc rx fix_key html =
     foldl (\<lambda>d m. AList.update (fix_key (strip (group_text m 1)))
                    (strip (one_spaces (unesc (re_sub tag_rx (\<lambda>m. []) (group_text m 2))))) d)
       [] (re_finditer rx html)"

definition str_field :: "(string \<times> string) list \<Rightarrow> string \<Rightarrow> string" where
  "str_field d k = (case map_of d k of None \<Rightarrow> [] | Some v \<Rightarrow> v)"

definition split_keywords :: "string \<Rightarrow> string list" where
  "split_keywords s = filter (\<lambda>k. k \<noteq> []) (map strip (split_on (CHR '','') s))"

definition meta_of_page :: "(string \<Rightarrow> string) \<Rightarrow> rx \<Rightarrow> (string \<Rightarrow> string) \<Rightarrow> string \<Rightarrow> art_meta" where
  "meta_of_page unesc rx fix_key html =
     (let d = page_fields unesc rx fix_key html;
          title = str_field d ''Title'';
          title' = (if title \<noteq> [] then title
                    else case re_search title_rx html of
                           Some m \<Rightarrow> strip (unesc (group_text m 1)) | None \<Rightarrow> [])
      in \<lparr>m_title = title', m_author = str_field d ''Author'',
          m_keywords = split_keywords (str_field d ''Keywords''), m_pages = str_field d ''Page Number(s)''\<rparr>)"

definition parse_article_meta :: "'s mag_env \<Rightarrow> string \<Rightarrow> art_meta" where
  "parse_article_meta E html = meta_of_page (unescape E) (field_rx gwm_key_char) (\<lambda>k. k) html"

definition articles_prefix :: "string \<Rightarrow> string \<Rightarrow> string" where
  "articles_prefix section slug = ''/'' @ section @ ''/articles/'' @ slug @ ''/''"

definition full_issue_rx :: "string \<Rightarrow> string \<Rightarrow> rx" where
  "full_issue_rx section slug =
     rseq [RLit (articles_prefix section slug), RGroup 1 (RSeq (rplus (RSet slug_char)) (RLit ''-full-issue'')), RLit ''/'']"

definition article_rx :: "string \<Rightarrow> string \<Rightarrow> rx" where
  "article_rx section slug =
     rseq [RLit (articles_prefix section slug), RGroup 1 (rplus (RSet slug_char)), RLit ''/'']"

definition full_issue_in :: "string \<Rightarrow> string \<Rightarrow> string \<Rightarrow> string option" where
  "full_issue_in section slug html = map_option (\<lambda>m. group_text m 1) (re_search (full_issue_rx section slug) html)"

definition article_slugs_in :: "string \<Rightarrow> string \<Rightarrow> string \<Rightarrow> string list" where
  "article_slugs_in section slug html =
     dedup_on id [] (filter (\<lambda>s. \<not> ends_with s ''-full-issue'')
       (map (\<lambda>m. group_text m 1) (re_finditer (article_rx section slug) html)))"

definition docid_rx :: rx where
  "docid_rx = rseq [RLit (''name='' @ [CHR 0x22] @ ''docid'' @ [CHR 0x22]), RStar (none_of ''>''),
     RLit (''value='' @ [CHR 0x22]), RGroup 1 rdigits, RLit [CHR 0x22]]"

definition dockey_rx :: rx where
  "dockey_rx = rseq [RLit (''name='' @ [CHR 0x22] @ ''dockey'' @ [CHR 0x22]), RStar (none_of ''>''),
     RLit (''value='' @ [CHR 0x22]), RGroup 1 (rplus (none_of [CHR 0x22])), RLit [CHR 0x22]]"

definition form_in :: "string \<Rightarrow> string \<Rightarrow> exn + string \<times> string" where
  "form_in u html =
     (case (re_search docid_rx html, re_search dockey_rx html) of
        (Some a, Some b) \<Rightarrow> Inr (group_text a 1, group_text b 1)
      | _ \<Rightarrow> Inl (RuntimeError (''docid/dockey missing on '' @ u)))"

section \<open>PDF tools\<close>

fun pages_line :: "string list \<Rightarrow> (exn + int) option" where
  "pages_line [] = None"
| "pages_line (l # ls) =
     (if starts_with l ''Pages:'' then
        Some (case split_ws l of
                _ # n # _ \<Rightarrow> (case py_int n of Some i \<Rightarrow> Inr i | None \<Rightarrow> Inl (ValueError ''invalid literal for int()''))
              | _ \<Rightarrow> Inl (IndexError ''list index out of range''))
      else pages_line ls)"

definition pdf_page_count :: "'s mag_env \<Rightarrow> path \<Rightarrow> ('s mag, int) prog" where
  "pdf_page_count E p w =
     ((case fs_read (files w) p of
         None \<Rightarrow> Inl (CalledProcessError 1)
       | Some c \<Rightarrow>
           rbnd (pdfinfo E c) (\<lambda>out.
             case pages_line (splitlines out) of
               Some r \<Rightarrow> r
             | None \<Rightarrow> Inl (RuntimeError (''no Pages: in pdfinfo '' @ path_str p)))), w)"

definition read_parts :: "fs \<Rightarrow> path list \<Rightarrow> string list" where
  "read_parts t ps = map (\<lambda>p. case fs_read t p of None \<Rightarrow> [] | Some c \<Rightarrow> c) ps"

text \<open>qpdf writes the target itself: what it leaves there on failure is its own affair.\<close>

definition qpdf_merge :: "'s mag_env \<Rightarrow> path list \<Rightarrow> path \<Rightarrow> ('s mag, unit) prog" where
  "qpdf_merge E parts dest w =
     (case qpdf E (read_parts (files w) parts) of
        (r, out) \<Rightarrow>
          (case out of
             None \<Rightarrow> (r, w)
           | Some c \<Rightarrow> bnd (change (fs_write dest c)) (\<lambda>_. of_result r) w))"

definition keyword_line :: "string list \<Rightarrow> string" where
  "keyword_line ks = take 4000 (join '', '' (sorted_list_of_set (set (filter (\<lambda>k. k \<noteq> []) ks))))"

definition embed_pdf_metadata :: "'s mag_env \<Rightarrow> path \<Rightarrow> string \<Rightarrow> string list \<Rightarrow> string \<Rightarrow> ('s mag, unit) prog" where
  "embed_pdf_metadata E p title ks subject w =
     (case fs_read (files w) p of
        None \<Rightarrow> (Inr (), w)
      | Some c \<Rightarrow> change (fs_write p (exiftool E title subject (keyword_line ks) c)) w)"

definition cd_rx :: rx where
  "cd_rx = rseq [RLit (''filename='' @ [CHR 0x22]), RGroup 1 (rplus (none_of [CHR 0x22])), RLit [CHR 0x22]]"

section \<open>What is already archived\<close>

definition glob_in :: "fs \<Rightarrow> path \<Rightarrow> string \<Rightarrow> string \<Rightarrow> path list" where
  "glob_in t dir pre sfx =
     sort (filter (\<lambda>p. starts_with (path_name p) pre \<and> ends_with (drop (length pre) (path_name p)) sfx) (fs_children t dir))"

definition artifacts_with :: "fs \<Rightarrow> path \<Rightarrow> string \<Rightarrow> path option \<times> path option" where
  "artifacts_with t year_dir pre =
     (if \<not> fs_exists t year_dir then (None, None)
      else
        let first = (\<lambda>ps. case ps of [] \<Rightarrow> None | p # _ \<Rightarrow> Some p)
        in (first (glob_in t year_dir pre ''.pdf''), first (glob_in t year_dir pre ''.json'')))"

text \<open>The records of a synthesised issue, in the order the articles were tried\<close>

datatype art_rec =
    NoForm nat string string string
  | EmptyPdf nat string string string
  | Part nat string string art_meta int int nat

definition rec_json :: "art_rec \<Rightarrow> json" where
  "rec_json r =
     (case r of
        NoForm i slug u e \<Rightarrow>
          JObj [(''order'', JInt (int i)), (''slug'', JStr slug), (''url'', JStr u), (''_error'', JStr e)]
      | EmptyPdf i slug u title \<Rightarrow>
          JObj [(''order'', JInt (int i)), (''slug'', JStr slug), (''url'', JStr u), (''title'', JStr title),
                (''_error'', JStr ''empty PDF'')]
      | Part i slug u m lo hi n \<Rightarrow>
          JObj [(''order'', JInt (int i)), (''slug'', JStr slug), (''url'', JStr u), (''title'', JStr (m_title m)),
                (''author'', JStr (m_author m)), (''keywords'', JArr (map JStr (m_keywords m))),
                (''print_page_numbers'', JStr (m_pages m)), (''merged_pages'', JArr [JInt lo, JInt hi]),
                (''size_bytes'', JInt (int n))])"

definition rec_keywords :: "art_rec \<Rightarrow> string list" where
  "rec_keywords r = (case r of Part _ _ _ m _ _ _ \<Rightarrow> m_keywords m | _ \<Rightarrow> [])"

definition meta_json :: "art_meta \<Rightarrow> string \<Rightarrow> nat \<Rightarrow> json" where
  "meta_json m u i =
     JObj [(''title'', JStr (m_title m)), (''author'', JStr (m_author m)), (''keywords'', JArr (map JStr (m_keywords m))),
           (''page_numbers'', JStr (m_pages m)), (''url'', JStr u), (''order'', JInt (int i))]"

text \<open>The state of the loop over the articles of an issue\<close>

record synth =
  parts :: "path list"
  records :: "art_rec list"
  cumulative :: int
  empties :: nat

definition no_synth :: synth where
  "no_synth = \<lparr>parts = [], records = [], cumulative = 0, empties = 0\<rparr>"

definition page_ranges :: "art_rec list \<Rightarrow> (int \<times> int) list" where
  "page_ranges rs = concat (map (\<lambda>r. case r of Part _ _ _ _ lo hi _ \<Rightarrow> [(lo, hi)] | _ \<Rightarrow> []) rs)"

text \<open>Each range starts right after the one before it; the last one ends at the given page.\<close>

fun contiguous :: "int \<Rightarrow> (int \<times> int) list \<Rightarrow> int \<Rightarrow> bool" where
  "contiguous p [] q \<longleftrightarrow> p = q"
| "contiguous p ((lo, hi) # rs) q \<longleftrightarrow> lo = p + 1 \<and> contiguous hi rs q"

lemma contiguous_append: "contiguous p (xs @ ys) q \<longleftrightarrow> (\<exists>m. contiguous p xs m \<and> contiguous m ys q)"
  by (induction p xs q rule: contiguous.induct) auto

end
