(* ===== verification/Gwm_Archiver.thy ===== *)
theory Gwm_Archiver
  imports Magazine_Site "HOL-Library.Multiset"
begin

text \<open>
  The Grapegrower & Winemaker archiver (scripts/gwm-archiver.py): the retry policy, the
  download that publishes complete responses only, the synthesis of an issue from its
  articles, the idempotent processing of one issue, and the weekly and quarterly runs.
\<close>

section \<open>Dates\<close>

definition months :: "string list" where
  "months = [''january'', ''february'', ''march'', ''april'', ''may'', ''june'', ''july'', ''august'',
             ''september'', ''october'', ''november'', ''december'']"

definition month_titles :: "string list" where
  "month_titles = map (\<lambda>m. case m of [] \<Rightarrow> [] | c # cs \<Rightarrow> upper [c] @ lower cs) months"

definition anchor_n :: int where "anchor_n = 748"
definition anchor_year :: int where "anchor_year = 2026"
definition anchor_month :: int where "anchor_month = 5"
definition first_available_issue :: int where "first_available_issue = 642"

definition year_month_for :: "int \<Rightarrow> int \<times> int" where
  "year_month_for n =
     (let idx = (anchor_year * 12 + (anchor_month - 1)) - (anchor_n - n) in (idx div 12, idx mod 12 + 1))"

definition slug_for :: "int \<Rightarrow> string" where
  "slug_for n = (case year_month_for n of (_, m) \<Rightarrow> months ! nat (m - 1) @ ''-'' @ show_int n)"

section \<open>Requests\<close>

definition retry_delays :: "rat list" where "retry_delays = [5, 15, 30]"

definition retryable :: "exn \<Rightarrow> bool" where
  "retryable e =
     (case e of
        HTTPError code _ \<Rightarrow> code \<in> set [408, 429, 500, 502, 503, 504]
      | URLError cert no_such_host _ \<Rightarrow> \<not> cert \<and> \<not> no_such_host
      | TimeoutError _ \<Rightarrow> True
      | ConnectionError _ \<Rightarrow> True
      | IncompleteRead _ \<Rightarrow> True
      | RemoteDisconnected _ \<Rightarrow> True
      | _ \<Rightarrow> False)"

primrec retry_with :: "'s mag_env \<Rightarrow> rat list \<Rightarrow> ('s mag, 'a) prog \<Rightarrow> ('s mag, 'a) prog" where
  "retry_with E [] operation = operation"
| "retry_with E (d # ds) operation =
     try_except operation (\<lambda>e.
       if retryable e then bnd (pause E d) (\<lambda>_. retry_with E ds operation) else raise e)"

definition retry_request :: "'s mag_env \<Rightarrow> ('s mag, 'a) prog \<Rightarrow> ('s mag, 'a) prog" where
  "retry_request E operation = retry_with E retry_delays operation"

definition http_get :: "'s mag_env \<Rightarrow> string \<Rightarrow> ('s mag, string) prog" where
  "http_get E u = retry_request E (bnd (fetch_reply E (get_request u)) (\<lambda>r. of_result (read_all r)))"

definition part_of :: "path \<Rightarrow> path" where
  "part_of dest = with_suffix dest (path_suffix dest @ ''.part'')"

definition check_length :: "web_reply \<Rightarrow> exn + nat" where
  "check_length r =
     (let n = length (body_of r) in
      case cut_short r of
        Some e \<Rightarrow> Inl e
      | None \<Rightarrow>
          (case content_length r of
             None \<Rightarrow> Inr n
           | Some s \<Rightarrow>
               (case py_int s of
                  None \<Rightarrow> Inl (ValueError ''invalid literal for int()'')
                | Some expected \<Rightarrow>
                    if int n \<noteq> expected then Inl (IncompleteRead (nat (max 0 (expected - int n)))) else Inr n)))"

definition download_fetch :: "'s mag_env \<Rightarrow> web_request \<Rightarrow> path \<Rightarrow> ('s mag, nat \<times> string) prog" where
  "download_fetch E q dest =
     (let tmp = part_of dest in
      bnd (attempt
        (bnd (fetch_reply E q) (\<lambda>r.
         bnd (change (fs_write tmp (body_of r))) (\<lambda>_.
         bnd (of_result (check_length r)) (\<lambda>n.
         bnd (if n \<noteq> 0 then change (fs_rename tmp dest) else ret ()) (\<lambda>_.
         ret (n, case disposition r of None \<Rightarrow> [] | Some c \<Rightarrow> c))))))) (\<lambda>out.
      bnd (change (fs_unlink tmp)) (\<lambda>_. of_result out)))"

definition download_request :: "'s mag_env \<Rightarrow> web_request \<Rightarrow> path \<Rightarrow> ('s mag, nat \<times> string) prog" where
  "download_request E q dest =
     bnd (change (fs_mkdirs (path_parent dest))) (\<lambda>_. retry_request E (download_fetch E q dest))"

definition http_post_stream ::
  "'s mag_env \<Rightarrow> string \<Rightarrow> (string \<times> string) list \<Rightarrow> path \<Rightarrow> string option \<Rightarrow> ('s mag, nat) prog" where
  "http_post_stream E u data dest ref =
     bnd (download_request E \<lparr>url = u, post_data = data, referer = ref\<rparr> dest) (\<lambda>(n, _). ret n)"

definition login_request :: "string \<Rightarrow> string \<Rightarrow> web_request" where
  "login_request user pwd =
     \<lparr>url = base_url @ ''/wp-login.php'',
      post_data = [(''log'', user), (''pwd'', pwd), (''wp-submit'', ''Log In''),
                   (''redirect_to'', base_url @ ''/gwm/''), (''testcookie'', ''1'')],
      referer = None\<rparr>"

definition login :: "'s mag_env \<Rightarrow> string \<Rightarrow> string \<Rightarrow> ('s mag, unit) prog" where
  "login E user pwd =
     bnd (retry_request E (bnd (fetch_reply E (login_request user pwd)) (\<lambda>r. of_result (read_all r)))) (\<lambda>_.
     bnd (gets (\<lambda>w. cookie_names E (server w))) (\<lambda>names.
       if list_ex (\<lambda>c. starts_with c ''wordpress_logged_in_'') names then ret ()
       else raise (SystemExit ''ERROR: login failed (no wordpress_logged_in_* cookie)'')))"

section \<open>The site\<close>

definition issue_rx :: rx where
  "issue_rx =
     rseq [RLit ''/gwm/articles/'', RGroup 1 (rseq [rplus (RSet letter_lower), RLit ''-'', RGroup 2 rdigits]), RLit ''/'']"

definition rsplit_head :: "char \<Rightarrow> string \<Rightarrow> string" where
  "rsplit_head c s = (if c \<in> set s then rev (tl (dropWhile (\<lambda>x. x \<noteq> c) (rev s))) else s)"

definition issues_in :: "string \<Rightarrow> (int \<times> string) list" where
  "issues_in html =
     sort_key fst (foldl (\<lambda>found m.
         if rsplit_head (CHR ''-'') (group_text m 1) \<notin> set months then found
         else AList.update (int (read_nat (group_text m 2))) (group_text m 1) found)
       [] (re_finditer issue_rx html))"

definition list_issues :: "'s mag_env \<Rightarrow> ('s mag, (int \<times> string) list) prog" where
  "list_issues E = bnd (http_get E (base_url @ ''/gwm/articles/'')) (\<lambda>html. ret (issues_in html))"

definition issue_url :: "string \<Rightarrow> string" where
  "issue_url slug = base_url @ ''/gwm/articles/'' @ slug @ ''/''"

definition article_url :: "string \<Rightarrow> string \<Rightarrow> string" where
  "article_url slug aslug = issue_url slug @ aslug @ ''/''"

definition issue_html :: "'s mag_env \<Rightarrow> string \<Rightarrow> ('s mag, string) prog" where
  "issue_html E slug w =
     (case map_of (html_cache w) slug of
        Some h \<Rightarrow> (Inr h, w)
      | None \<Rightarrow>
          bnd (http_get E (issue_url slug)) (\<lambda>h.
          bnd (modify (\<lambda>w. w\<lparr>html_cache := AList.update slug h (html_cache w)\<rparr>)) (\<lambda>_. ret h)) w)"

definition find_full_issue_slug :: "'s mag_env \<Rightarrow> string \<Rightarrow> ('s mag, string option) prog" where
  "find_full_issue_slug E slug = bnd (issue_html E slug) (\<lambda>h. ret (full_issue_in ''gwm'' slug h))"

definition article_slugs_in_order :: "'s mag_env \<Rightarrow> string \<Rightarrow> ('s mag, string list) prog" where
  "article_slugs_in_order E slug = bnd (issue_html E slug) (\<lambda>h. ret (article_slugs_in ''gwm'' slug h))"

definition scrape_form :: "'s mag_env \<Rightarrow> string \<Rightarrow> ('s mag, string \<times> string \<times> art_meta) prog" where
  "scrape_form E u =
     bnd (http_get E u) (\<lambda>html.
     bnd (of_result (form_in u html)) (\<lambda>(docid, dockey).
     ret (docid, dockey, parse_article_meta E html)))"

definition filename_from_cd :: "string \<Rightarrow> string \<Rightarrow> string" where
  "filename_from_cd cd fallback =
     (let name = (case re_search cd_rx cd of
                    None \<Rightarrow> []
                  | Some m \<Rightarrow> path_name (to_path (replace_all [CHR 0x5C] ''/'' (group_text m 1))))
      in if name \<in> set [[], ''.'', ''..''] then fallback else name)"

section \<open>One issue\<close>

record issue =
  num :: int
  slug :: string
  year :: int
  month :: int

definition year_dir :: "path \<Rightarrow> int \<Rightarrow> path" where
  "year_dir out_root y = path_join out_root (show_int y)"

definition month_prefix :: "int \<Rightarrow> string" where
  "month_prefix m = zero_pad 2 m @ ''_''"

definition existing_artifacts :: "fs \<Rightarrow> path \<Rightarrow> int \<Rightarrow> int \<Rightarrow> path option \<times> path option" where
  "existing_artifacts t out_root y m = artifacts_with t (year_dir out_root y) (month_prefix m)"

definition tmp_php :: string where
  "tmp_php = base_url @ ''/wp-content/uploads/tmp.php''"

definition staging_path :: "issue \<Rightarrow> path \<Rightarrow> path" where
  "staging_path i out_root =
     year_dir out_root (year i) @ [month_prefix (month i) @ ''DOWNLOADING_'' @ show_int (num i) @ ''.download'']"

text \<open>The form of the full issue, and its PDF in the staging file\<close>

definition fetch_staged :: "'s mag_env \<Rightarrow> issue \<Rightarrow> path \<Rightarrow> string \<Rightarrow> ('s mag, nat \<times> string) prog" where
  "fetch_staged E i out_root page =
     bnd (scrape_form E page) (\<lambda>(docid, dockey, _).
     download_request E
       \<lparr>url = tmp_php, post_data = [(''docid'', docid), (''dockey'', dockey)], referer = Some page\<rparr>
       (staging_path i out_root))"

definition download_full_issue :: "'s mag_env \<Rightarrow> issue \<Rightarrow> path \<Rightarrow> rat \<Rightarrow> ('s mag, path option) prog" where
  "download_full_issue E i out_root sleep_s =
     bnd (find_full_issue_slug E (slug i)) (\<lambda>full.
       case full of
         None \<Rightarrow> ret None
       | Some f \<Rightarrow>
           bnd (fetch_staged E i out_root (article_url (slug i) f)) (\<lambda>(n, cd).
             if n = 0 then ret None
             else
               let orig = filename_from_cd cd (''GWM_'' @ show_int (num i) @ ''.pdf'');
                   final = year_dir out_root (year i) @ [month_prefix (month i) @ orig]
               in bnd (change (fs_rename (staging_path i out_root) final)) (\<lambda>_.
                  bnd (pause E sleep_s) (\<lambda>_. ret (Some final)))))"

definition issue_stem :: "issue \<Rightarrow> string" where
  "issue_stem i = month_prefix (month i) @ ''GW_'' @ show_int (year i) @ ''-'' @ zero_pad 2 (month i)"

definition empty_fail_fast :: nat where "empty_fail_fast = 2"

definition bail_out :: "synth \<Rightarrow> bool" where
  "bail_out st \<longleftrightarrow> parts st = [] \<and> empty_fail_fast \<le> empties st"

definition failed_article :: "art_rec \<Rightarrow> synth \<Rightarrow> synth" where
  "failed_article r st = st\<lparr>records := records st @ [r], empties := Suc (empties st)\<rparr>"

definition add_article :: "nat \<Rightarrow> string \<Rightarrow> string \<Rightarrow> art_meta \<Rightarrow> path \<Rightarrow> nat \<Rightarrow> int \<Rightarrow> synth \<Rightarrow> synth" where
  "add_article idx aslug u meta tmp n pages st =
     st\<lparr>records := records st @ [Part idx aslug u meta (cumulative st + 1) (cumulative st + pages) n],
        parts := parts st @ [tmp], cumulative := cumulative st + pages, empties := 0\<rparr>"

text \<open>
  The body of the loop, in its two parts: after an article without a PDF the loop may bail
  out, which removes the work directory (the flag says so).
\<close>

definition skip_article :: "path \<Rightarrow> art_rec \<Rightarrow> synth \<Rightarrow> ('s mag, synth \<times> bool) prog" where
  "skip_article work r st =
     (let st' = failed_article r st in
      if bail_out st' then bnd (change (fs_rmtree work)) (\<lambda>_. ret (st', True)) else ret (st', False))"

definition fetch_article ::
  "'s mag_env \<Rightarrow> path \<Rightarrow> rat \<Rightarrow> nat \<Rightarrow> string \<Rightarrow> string \<Rightarrow> string \<times> string \<times> art_meta \<Rightarrow> synth \<Rightarrow>
     ('s mag, synth \<times> bool) prog" where
  "fetch_article E work sleep_s idx aslug u form st =
     (case form of (docid, dockey, meta) \<Rightarrow>
        let tmp = work @ [zero_pad 2 (int idx) @ ''_'' @ take 60 aslug @ ''.pdf''] in
        bnd (http_post_stream E tmp_php [(''docid'', docid), (''dockey'', dockey)] tmp (Some u)) (\<lambda>n.
          if n = 0 then
            bnd (pause E sleep_s) (\<lambda>_. skip_article work (EmptyPdf idx aslug u (m_title meta)) st)
          else
            bnd (pdf_page_count E tmp) (\<lambda>pages.
            bnd (pause E sleep_s) (\<lambda>_. ret (add_article idx aslug u meta tmp n pages st, False)))))"

definition try_article ::
  "'s mag_env \<Rightarrow> issue \<Rightarrow> path \<Rightarrow> rat \<Rightarrow> nat \<times> string \<Rightarrow> synth \<Rightarrow> ('s mag, synth \<times> bool) prog" where
  "try_article E i work sleep_s a st =
     (let u = article_url (slug i) (snd a) in
      bnd (attempt (scrape_form E u)) (\<lambda>form.
        case form of
          Inr f \<Rightarrow> fetch_article E work sleep_s (fst a) (snd a) u f st
        | Inl e \<Rightarrow>
            (case e of
               RuntimeError msg \<Rightarrow> skip_article work (NoForm (fst a) (snd a) u msg) st
             | _ \<Rightarrow> raise e)))"

primrec synth_articles ::
  "'s mag_env \<Rightarrow> issue \<Rightarrow> path \<Rightarrow> rat \<Rightarrow> (nat \<times> string) list \<Rightarrow> synth \<Rightarrow> ('s mag, synth \<times> bool) prog" where
  "synth_articles E i work sleep_s [] st = ret (st, False)"
| "synth_articles E i work sleep_s (a # rest) st =
     bnd (try_article E i work sleep_s a st) (\<lambda>(st', bailed).
       if bailed then ret (st', True) else synth_articles E i work sleep_s rest st')"

definition synthesise_from_articles ::
  "'s mag_env \<Rightarrow> issue \<Rightarrow> path \<Rightarrow> rat \<Rightarrow> ('s mag, path option \<times> art_rec list) prog" where
  "synthesise_from_articles E i out_root sleep_s =
     bnd (article_slugs_in_order E (slug i)) (\<lambda>slugs.
       let dir = year_dir out_root (year i);
           final = dir @ [issue_stem i @ ''_synthetic.pdf''];
           work = dir @ [issue_stem i @ ''_parts'']
       in if slugs = [] then ret (None, [])
          else
            bnd (change (fs_mkdirs work)) (\<lambda>_.
            bnd (synth_articles E i work sleep_s (enum_from 1 slugs) no_synth) (\<lambda>(st, bailed).
              if bailed then ret (None, records st)
              else if parts st = [] then bnd (change (fs_rmtree work)) (\<lambda>_. ret (None, records st))
              else
                bnd (qpdf_merge E (parts st) final) (\<lambda>_.
                bnd (change (fs_rmtree work)) (\<lambda>_. ret (Some final, records st))))))"

section \<open>Sidecars\<close>

definition native_article ::
  "'s mag_env \<Rightarrow> issue \<Rightarrow> rat \<Rightarrow> nat \<times> string \<Rightarrow> (art_meta \<times> json) list \<Rightarrow> ('s mag, (art_meta \<times> json) list) prog" where
  "native_article E i sleep_s a acc =
     (let u = article_url (slug i) (snd a) in
      bnd (http_get E u) (\<lambda>html.
        let meta = parse_article_meta E html in
        bnd (pause E sleep_s) (\<lambda>_. ret (acc @ [(meta, meta_json meta u (fst a))]))))"

definition issue_title :: "issue \<Rightarrow> string" where
  "issue_title i =
     ''Grapegrower & Winemaker '' @ month_titles ! nat (month i - 1) @ '' '' @ show_int (year i) @ '' (#'' @ show_int (num i) @ '')''"

definition sidecar_json :: "issue \<Rightarrow> path \<Rightarrow> (string \<times> json) list \<Rightarrow> json list \<Rightarrow> json" where
  "sidecar_json i pdf extra articles =
     JObj ([(''issue_number'', JInt (num i)), (''year'', JInt (year i)), (''month'', JInt (month i)),
            (''month_name'', JStr (month_titles ! nat (month i - 1))), (''title'', JStr (issue_title i)),
            (''issue_url'', JStr (issue_url (slug i))), (''issue_slug'', JStr (slug i)),
            (''pdf_path'', JStr (path_str pdf)), (''pdf_filename'', JStr (path_name pdf))] @ extra @
           [(''articles'', JArr articles)])"

definition build_sidecar_for_native ::
  "'s mag_env \<Rightarrow> issue \<Rightarrow> path \<Rightarrow> rat \<Rightarrow> ('s mag, json \<times> string list) prog" where
  "build_sidecar_for_native E i pdf sleep_s =
     bnd (article_slugs_in_order E (slug i)) (\<lambda>slugs.
     bnd (for_each (enum_from 1 slugs) (native_article E i sleep_s) []) (\<lambda>articles.
     ret (sidecar_json i pdf [(''synthetic'', JBool False)] (map snd articles),
          concat (map (\<lambda>a. m_keywords (fst a)) articles))))"

definition build_sidecar_for_synthetic :: "issue \<Rightarrow> path \<Rightarrow> art_rec list \<Rightarrow> json \<times> string list" where
  "build_sidecar_for_synthetic i pdf rs =
     (sidecar_json i pdf
        [(''synthetic'', JBool True),
         (''synthesis_note'', JStr (''Merged from per-article PDFs because winetitles '' @
            ''does not publish a single FULL ISSUE PDF for this issue.''))]
        (map rec_json rs),
      concat (map rec_keywords rs))"

definition write_sidecar :: "path \<Rightarrow> json \<Rightarrow> ('s mag, path) prog" where
  "write_sidecar pdf sidecar =
     (let json_path = with_suffix pdf ''.json''; tmp = with_suffix json_path ''.json.part'' in
      bnd (change (fs_write tmp (json_dumps indent2_layout sidecar))) (\<lambda>_.
      bnd (change (fs_rename tmp json_path)) (\<lambda>_. ret json_path)))"

section \<open>Processing an issue\<close>

datatype status =
    SkipComplete path
  | WouldProcess bool bool
  | NoPdf
  | Downloaded path path
  | Synthesised path path
  | SidecarOnly path path
  | Failed string

definition obtain_pdf ::
  "'s mag_env \<Rightarrow> issue \<Rightarrow> path \<Rightarrow> rat \<Rightarrow> ('s mag, (path \<times> art_rec list option) option) prog" where
  "obtain_pdf E i out_root sleep_s =
     bnd (download_full_issue E i out_root sleep_s) (\<lambda>full.
       case full of
         Some p \<Rightarrow> ret (Some (p, None))
       | None \<Rightarrow>
           bnd (synthesise_from_articles E i out_root sleep_s) (\<lambda>(p, rs).
             ret (case p of None \<Rightarrow> None | Some q \<Rightarrow> Some (q, Some rs))))"

definition complete_sidecar ::
  "'s mag_env \<Rightarrow> issue \<Rightarrow> rat \<Rightarrow> path \<Rightarrow> bool \<Rightarrow> art_rec list option \<Rightarrow> path option \<Rightarrow> ('s mag, path) prog" where
  "complete_sidecar E i sleep_s pdf synthetic rs existing =
     (case existing of
        Some j \<Rightarrow> ret j
      | None \<Rightarrow>
          bnd (case (synthetic, rs) of
                 (True, Some r) \<Rightarrow> ret (build_sidecar_for_synthetic i pdf r)
               | _ \<Rightarrow> build_sidecar_for_native E i pdf (sleep_s * (1 / 2))) (\<lambda>(sidecar, kws).
          bnd (embed_pdf_metadata E pdf (issue_title i) kws
                 (if synthetic then ''Grapegrower & Winemaker (synthetic full issue)'' else ''Grapegrower & Winemaker'')) (\<lambda>_.
          write_sidecar pdf sidecar)))"

definition process_issue :: "'s mag_env \<Rightarrow> issue \<Rightarrow> path \<Rightarrow> rat \<Rightarrow> bool \<Rightarrow> ('s mag, status) prog" where
  "process_issue E i out_root sleep_s dry w =
     (case existing_artifacts (files w) out_root (year i) (month i) of
        (Some pdf, Some j) \<Rightarrow> ret (SkipComplete pdf) w
      | (pdf, j) \<Rightarrow>
          if dry then ret (WouldProcess (pdf \<noteq> None) (j \<noteq> None)) w
          else
            (case pdf of
               None \<Rightarrow>
                 bnd (obtain_pdf E i out_root sleep_s) (\<lambda>got.
                   case got of
                     None \<Rightarrow> ret NoPdf
                   | Some (p, rs) \<Rightarrow>
                       bnd (complete_sidecar E i sleep_s p (rs \<noteq> None) rs j) (\<lambda>js.
                       ret (if rs \<noteq> None then Synthesised p js else Downloaded p js))) w
             | Some p \<Rightarrow>
                 bnd (complete_sidecar E i sleep_s p (contains (path_name p) ''_synthetic'') None j) (\<lambda>js.
                 ret (SidecarOnly p js)) w))"

section \<open>The run\<close>

definition status_name :: "status \<Rightarrow> string" where
  "status_name s =
     (case s of SkipComplete _ \<Rightarrow> ''skip-complete'' | WouldProcess _ _ \<Rightarrow> ''would-process'' | NoPdf \<Rightarrow> ''no-pdf''
      | Downloaded _ _ \<Rightarrow> ''downloaded'' | Synthesised _ _ \<Rightarrow> ''synthesised'' | SidecarOnly _ _ \<Rightarrow> ''sidecar-only''
      | Failed _ \<Rightarrow> ''error'')"

definition recovered :: "status \<Rightarrow> bool" where
  "recovered s \<longleftrightarrow> status_name s \<in> set [''downloaded'', ''synthesised'', ''sidecar-only'']"

record gwm_config =
  user :: "string option"
  pwd :: "string option"
  out_root :: path
  sleep_secs :: rat
  limit :: nat
  dry_run :: bool
  mode :: string
  sample_frac :: rat
  tools :: "string list"
  pick :: "nat \<Rightarrow> nat \<Rightarrow> nat list"

definition complete :: "fs \<Rightarrow> path \<Rightarrow> int \<Rightarrow> bool" where
  "complete t base n =
     (case existing_artifacts t base (fst (year_month_for n)) (snd (year_month_for n)) of
        (Some _, Some _) \<Rightarrow> True | _ \<Rightarrow> False)"

definition sample_size :: "nat \<Rightarrow> rat \<Rightarrow> nat" where
  "sample_size missing fraction = min missing (max 1 (nat \<lceil>of_nat missing * fraction\<rceil>))"

definition split_backfill_sample ::
  "(nat \<Rightarrow> nat \<Rightarrow> nat list) \<Rightarrow> (int \<times> string) list \<Rightarrow> fs \<Rightarrow> path \<Rightarrow> rat \<Rightarrow> (int \<times> string) list \<times> (int \<times> string) list" where
  "split_backfill_sample sampled issues t base fraction =
     (let missing = filter (\<lambda>iss. \<not> complete t base (fst iss)) issues in
      if missing = [] then ([], [])
      else
        let chosen = sampled (length missing) (sample_size (length missing) fraction)
        in (map snd (filter (\<lambda>(i, iss). i \<in> set chosen) (enum_from 0 missing)),
            map snd (filter (\<lambda>(i, iss). i \<notin> set chosen) (enum_from 0 missing))))"

definition issue_of :: "int \<times> string \<Rightarrow> issue" where
  "issue_of iss =
     (case year_month_for (fst iss) of (y, m) \<Rightarrow> \<lparr>num = fst iss, slug = snd iss, year = y, month = m\<rparr>)"

definition run_one :: "'s mag_env \<Rightarrow> gwm_config \<Rightarrow> int \<times> string \<Rightarrow> ('s mag, status) prog" where
  "run_one E c iss =
     bnd (try_except
       (bnd (process_issue E (issue_of iss) (out_root c) (sleep_secs c) (dry_run c)) (\<lambda>r.
         ret (if r = NoPdf \<and> mode c = ''current'' then Failed ''available-era issue has no PDF'' else r)))
       (\<lambda>e. if is_exception e then ret (Failed ''exception'') else raise e)) (\<lambda>r.
     bnd (modify (\<lambda>w. w\<lparr>html_cache := AList.delete (snd iss) (html_cache w)\<rparr>)) (\<lambda>_. ret r))"

definition counts_towards_limit :: "status \<Rightarrow> bool" where
  "counts_towards_limit s \<longleftrightarrow> recovered s \<or> status_name s = ''would-process''"

type_synonym counts = "(string \<times> nat) list"

text \<open>
  The while loop over the queue. The list is the part of the queue not reached yet; a
  recovery appends the held back issues once. Each step shortens queue and held list
  together, so the recursion ends.
\<close>

function run_queue ::
  "'s mag_env \<Rightarrow> gwm_config \<Rightarrow> (int \<times> string) list \<Rightarrow> (int \<times> string) list \<Rightarrow> nat \<Rightarrow> counts \<Rightarrow> 's mag \<Rightarrow>
     (exn + counts) \<times> 's mag" where
  "run_queue E c [] held n counts w = (Inr counts, w)"
| "run_queue E c (iss # rest) held n counts w =
     (if limit c \<noteq> 0 \<and> limit c \<le> n then (Inr counts, w)
      else
        case run_one E c iss w of
          (Inl e, w1) \<Rightarrow> (Inl e, w1)
        | (Inr s, w1) \<Rightarrow>
            let counts' = bump_count (status_name s) counts;
                n' = (if counts_towards_limit s then Suc n else n)
            in if held \<noteq> [] \<and> recovered s then run_queue E c (rest @ held) [] n' counts' w1
               else run_queue E c rest held n' counts' w1)"
  by pat_completeness auto
termination
  by (relation "measure (\<lambda>(E, c, q, held, n, counts, w). length q + length held)") auto

definition selected :: "string \<Rightarrow> (int \<times> string) list \<Rightarrow> (int \<times> string) list" where
  "selected m issues = filter (\<lambda>iss. (fst iss < first_available_issue) = (m = ''backfill'')) issues"

definition exit_code :: "counts \<Rightarrow> int" where
  "exit_code counts = (if count_of counts ''error'' = 0 then 0 else 1)"

definition check_config :: "gwm_config \<Rightarrow> exn + unit" where
  "check_config c =
     (if user c \<in> {None, Some []} \<or> pwd c \<in> {None, Some []} then Inl (SystemExit ''ERROR: set WT_USER and WT_PASS'')
      else if mode c \<notin> set [''current'', ''backfill''] then
        Inl (SystemExit ''ERROR: ARCHIVE_MODE must be current or backfill'')
      else if \<not> (0 < sample_frac c \<and> sample_frac c \<le> 1) then
        Inl (SystemExit ''ERROR: BACKFILL_SAMPLE must be in (0, 1]'')
      else case find (\<lambda>t. t \<notin> set (tools c)) [''qpdf'', ''pdfinfo'', ''exiftool''] of
        Some t \<Rightarrow> Inl (SystemExit (''ERROR: missing tool: '' @ t))
      | None \<Rightarrow> Inr ())"

definition main :: "'s mag_env \<Rightarrow> gwm_config \<Rightarrow> ('s mag, int) prog" where
  "main E c =
     bnd (of_result (check_config c)) (\<lambda>_.
     bnd (login E (the (user c)) (the (pwd c))) (\<lambda>_.
     bnd (list_issues E) (\<lambda>all_issues.
       if all_issues = [] then raise (RuntimeError ''archive index contains no magazine issues'')
       else
         let queue = rev (selected (mode c) all_issues) in
         bnd (gets (\<lambda>w. if mode c = ''backfill''
                        then split_backfill_sample (pick c) queue (files w) (out_root c) (sample_frac c)
                        else (queue, []))) (\<lambda>(q, held).
         bnd (run_queue E c q held 0 []) (\<lambda>counts. ret (exit_code counts))))))"

section \<open>Retries\<close>

text \<open>
  \<open>tries E m n w r\<close>: the operation was run \<open>n\<close> times from \<open>w\<close>, each run but the last
  failed with an error that is worth retrying, and the last one had the outcome \<open>r\<close>.
\<close>

inductive tries :: "'s mag_env \<Rightarrow> ('s mag, 'a) prog \<Rightarrow> nat \<Rightarrow> 's mag \<Rightarrow> (exn + 'a) \<times> 's mag \<Rightarrow> bool"
  for E m where
  last_try: "tries E m 1 w (m w)"
| try_again: "m w = (Inl e, w1) \<Longrightarrow> retryable e \<Longrightarrow> d \<in> set retry_delays \<Longrightarrow>
    tries E m n (w1\<lparr>server := sleep_for E d (server w1)\<rparr>) r \<Longrightarrow> tries E m (Suc n) w r"

inductive_cases tries_SucE: "tries E m (Suc n) w r"

definition settled :: "exn + 'a \<Rightarrow> bool" where
  "settled r = (case r of Inl e \<Rightarrow> \<not> retryable e | Inr _ \<Rightarrow> True)"

lemma retry_with_tries:
  assumes "set ds \<subseteq> set retry_delays" "retry_with E ds m w = r"
  shows "\<exists>n. 1 \<le> n \<and> n \<le> Suc (length ds) \<and> tries E m n w r \<and> (n \<le> length ds \<longrightarrow> settled (fst r))"
  using assms
proof (induction ds arbitrary: w)
  case Nil
  then have "tries E m 1 w r" by (metis last_try retry_with.simps(1))
  then show ?case by auto
next
  case (Cons d ds)
  obtain x w1 where x: "m w = (x, w1)" by fastforce
  show ?case
  proof (cases "settled x")
    case True
    then have "r = m w" using Cons.prems(2) x
      by (cases x) (auto simp: try_except_def raise_def settled_def)
    then show ?thesis using last_try [of E m w] True x by (intro exI [of _ 1]) auto
  next
    case False
    then obtain e where e: "x = Inl e" "retryable e" by (auto simp: settled_def split: sum.splits)
    let ?w = "w1\<lparr>server := sleep_for E d (server w1)\<rparr>"
    have "retry_with E ds m ?w = r" using Cons.prems(2) x e by (simp add: try_except_def bnd_def pause_def)
    then obtain n where n: "1 \<le> n" "n \<le> Suc (length ds)" "tries E m n ?w r" "n \<le> length ds \<longrightarrow> settled (fst r)"
      using Cons.IH [of ?w] Cons.prems(1) by auto
    have "tries E m (Suc n) w r"
      using x e Cons.prems(1) n(3) by (intro try_again [of m w e w1]) auto
    then show ?thesis using n by (intro exI [of _ "Suc n"]) auto
  qed
qed

lemma keeps_retry:
  assumes R: "reflp R" "transp R" and p: "\<And>d. keeps R (pause E d)" and m: "keeps R m"
  shows "keeps R (retry_request E m)"
proof -
  have "keeps R (retry_with E ds m)" for ds
  proof (induction ds)
    case Nil
    show ?case using m by simp
  next
    case (Cons d ds)
    then show ?case
      by (auto intro!: keeps_try_except keeps_bnd R m p keeps_pure)
  qed
  then show ?thesis by (simp add: retry_request_def)
qed

section \<open>What a run keeps\<close>

text \<open>
  Two frames over the paths a predicate selects: none of them disappears, and none of them
  appears, in any tree a crash could leave behind.
\<close>

definition keeps_files :: "(path \<Rightarrow> bool) \<Rightarrow> 's mag \<Rightarrow> 's mag \<Rightarrow> bool" where
  "keeps_files Q w w' \<longleftrightarrow> (\<forall>p. Q p \<longrightarrow> fs_exists (files w) p \<longrightarrow> fs_exists (files w') p)"

definition adds_no_file :: "(path \<Rightarrow> bool) \<Rightarrow> 's mag \<Rightarrow> 's mag \<Rightarrow> bool" where
  "adds_no_file Q w w' \<longleftrightarrow>
     (\<exists>new. trace w' = new @ trace w \<and>
        (\<forall>t \<in> insert (files w') (set new). \<forall>p. Q p \<longrightarrow> fs_exists t p \<longrightarrow> fs_exists (files w) p))"

lemma adds_no_file_trans:
  "adds_no_file Q w1 w2 \<Longrightarrow> adds_no_file Q w2 w3 \<Longrightarrow> adds_no_file Q w1 w3"
proof -
  assume a: "adds_no_file Q w1 w2" and b: "adds_no_file Q w2 w3"
  obtain n1 where n1: "trace w2 = n1 @ trace w1"
    "\<forall>t \<in> insert (files w2) (set n1). \<forall>p. Q p \<longrightarrow> fs_exists t p \<longrightarrow> fs_exists (files w1) p"
    using a by (auto simp: adds_no_file_def)
  obtain n2 where n2: "trace w3 = n2 @ trace w2"
    "\<forall>t \<in> insert (files w3) (set n2). \<forall>p. Q p \<longrightarrow> fs_exists t p \<longrightarrow> fs_exists (files w2) p"
    using b by (auto simp: adds_no_file_def)
  have "trace w3 = (n2 @ n1) @ trace w1" using n1 n2 by simp
  moreover have "\<forall>t \<in> insert (files w3) (set (n2 @ n1)). \<forall>p. Q p \<longrightarrow> fs_exists t p \<longrightarrow> fs_exists (files w1) p"
    using n1(2) n2(2) by (metis Un_iff insert_iff set_append)
  ultimately show ?thesis unfolding adds_no_file_def by blast
qed

lemma frame_orders [simp]:
  "reflp (keeps_files Q)" "transp (keeps_files Q)" "reflp (adds_no_file Q)" "transp (adds_no_file Q)"
  by (auto simp: keeps_files_def reflp_def intro!: transpI intro: adds_no_file_trans)
    (auto simp: adds_no_file_def)

lemma keeps_files_change:
  "(\<And>t p. Q p \<Longrightarrow> fs_exists t p \<Longrightarrow> fs_exists (f t) p) \<Longrightarrow> keeps (keeps_files Q) (change f)"
  by (auto simp: keeps_def keeps_files_def change_def)

lemma adds_no_file_change:
  "(\<And>t p. Q p \<Longrightarrow> fs_exists (f t) p \<Longrightarrow> fs_exists t p) \<Longrightarrow> keeps (adds_no_file Q) (change f)"
  by (auto simp: keeps_def adds_no_file_def change_def intro!: exI [of _ "[_]"])

lemma frames_quiet [simp]:
  "keeps (keeps_files Q) (pause E d)" "keeps (adds_no_file Q) (pause E d)"
  "keeps (keeps_files Q) (fetch_reply E q)" "keeps (adds_no_file Q) (fetch_reply E q)"
  "keeps (keeps_files Q) (modify (\<lambda>w. w\<lparr>html_cache := g w\<rparr>))" "keeps (adds_no_file Q) (modify (\<lambda>w. w\<lparr>html_cache := g w\<rparr>))"
  "keeps (keeps_files Q) (pdf_page_count E p)" "keeps (adds_no_file Q) (pdf_page_count E p)"
  by (auto simp: keeps_def keeps_files_def adds_no_file_def pause_def fetch_reply_def modify_def pdf_page_count_def
      split: prod.split)

lemmas frame_pure = keeps_pure [OF frame_orders(1)] keeps_pure [OF frame_orders(3)]
lemmas frame_bnd = keeps_bnd [OF frame_orders(2)] keeps_bnd [OF frame_orders(4)]
lemmas frame_retry = keeps_retry [OF frame_orders(1,2) frames_quiet(1)] keeps_retry [OF frame_orders(3,4) frames_quiet(2)]
lemmas frames = frame_pure frame_bnd frame_retry keeps_attempt frames_quiet

lemma frame_http_get: "keeps (keeps_files Q) (http_get E u)" "keeps (adds_no_file Q) (http_get E u)"
  unfolding http_get_def by (intro frames)+

lemma frame_issue_html: "keeps (keeps_files Q) (issue_html E s)" "keeps (adds_no_file Q) (issue_html E s)"
proof -
  have "keeps R (issue_html E s)" if r: "reflp R" "transp R" and h: "\<And>u. keeps R (http_get E u)"
    and m: "\<And>g. keeps R (modify (\<lambda>w. w\<lparr>html_cache := g w\<rparr>))" for R
  proof (rule keepsI)
    fix w
    have "keeps R (bnd (http_get E (issue_url s)) (\<lambda>h.
          bnd (modify (\<lambda>w. w\<lparr>html_cache := AList.update s h (html_cache w)\<rparr>)) (\<lambda>_. ret h)))"
      by (intro keeps_bnd r h m keeps_pure)
    then show "R w (snd (issue_html E s w))"
      using r(1) by (cases "map_of (html_cache w) s") (auto simp: issue_html_def keeps_def reflp_def)
  qed
  then show "keeps (keeps_files Q) (issue_html E s)" "keeps (adds_no_file Q) (issue_html E s)"
    by (simp_all add: frame_http_get)
qed

lemma frame_scrape: "keeps (keeps_files Q) (scrape_form E u)" "keeps (adds_no_file Q) (scrape_form E u)"
  unfolding scrape_form_def by (intro frames frame_http_get keeps_case)+

section \<open>Downloads\<close>

lemma part_of_name: "path_name dest \<noteq> [] \<Longrightarrow> part_of dest = butlast dest @ [path_name dest @ ''.part'']"
  using name_stem_suffix [of "path_name dest"]
  unfolding part_of_def with_suffix_def path_stem_def path_suffix_def by (metis append.assoc)

lemma part_of_ne: "path_name dest \<noteq> [] \<Longrightarrow> part_of dest \<noteq> dest"
  by (subst part_of_name) (auto simp: path_name_def split: if_splits dest: arg_cong [of _ _ last])

text \<open>A complete response: no error cut it short, and it has the announced length.\<close>

definition whole :: "web_reply \<Rightarrow> bool" where
  "whole r \<longleftrightarrow> cut_short r = None \<and> (\<forall>s. content_length r = Some s \<longrightarrow> py_int s = Some (int (length (body_of r))))"

lemma check_length_whole: "check_length r = Inr n \<Longrightarrow> whole r \<and> n = length (body_of r)"
  by (auto simp: check_length_def whole_def Let_def split: option.splits if_splits)

text \<open>The trees a crash could leave behind while a download runs, and the one it leaves when it is over\<close>

definition target_ok :: "path \<Rightarrow> string option \<Rightarrow> fs \<Rightarrow> bool" where
  "target_ok dest before t \<longleftrightarrow>
     fs_read t dest = before \<or> (\<exists>r. whole r \<and> body_of r \<noteq> [] \<and> fs_read t dest = Some (body_of r))"

definition through :: "(fs \<Rightarrow> bool) \<Rightarrow> 's mag \<Rightarrow> 's mag \<Rightarrow> bool" where
  "through P w w' \<longleftrightarrow> (\<exists>new. trace w' = new @ trace w \<and> (\<forall>t \<in> set new. P t))"

lemma through_refl: "through P w w"
  by (simp add: through_def)

lemma through_trans: "through P w1 w2 \<Longrightarrow> through P w2 w3 \<Longrightarrow> through P w1 w3"
proof -
  assume "through P w1 w2" "through P w2 w3"
  then obtain n1 n2 where "trace w2 = n1 @ trace w1" "\<forall>t \<in> set n1. P t" "trace w3 = n2 @ trace w2" "\<forall>t \<in> set n2. P t"
    unfolding through_def by blast
  then have "trace w3 = (n2 @ n1) @ trace w1 \<and> (\<forall>t \<in> set (n2 @ n1). P t)" by auto
  then show ?thesis unfolding through_def by blast
qed

lemma download_fetch_effect:
  assumes run: "download_fetch E q dest w = (out, w')" and d: "path_name dest \<noteq> []"
    and before: "fs_read (files w) dest = b"
  shows "fs_read (files w') (part_of dest) = None \<and> through (target_ok dest b) w w' \<and>
    (case out of
       Inr (n, _) \<Rightarrow>
         \<exists>r. whole r \<and> n = length (body_of r) \<and> fs_read (files w') dest = (if n = 0 then b else Some (body_of r))
     | Inl _ \<Rightarrow> fs_read (files w') dest = b)"
proof -
  let ?tmp = "part_of dest"
  note ne = part_of_ne [OF d]
  obtain x s where x: "open_url E q (server w) = (x, s)" by fastforce
  show ?thesis
  proof (cases x)
    case (Inl e)
    then have "out = Inl e" "files w' = fs_unlink ?tmp (files w)" "trace w' = [files w] @ trace w"
      using run by (auto simp: download_fetch_def Let_def bnd_def attempt_def fetch_reply_def x change_def of_result_def)
    then show ?thesis using before ne by (auto simp: through_def target_ok_def)
  next
    case (Inr r)
    let ?f1 = "fs_write ?tmp (body_of r) (files w)"
    show ?thesis
    proof (cases "check_length r")
      case (Inl e)
      then have "out = Inl e" "files w' = fs_unlink ?tmp ?f1" "trace w' = [?f1, files w] @ trace w"
        using run Inr by (auto simp: download_fetch_def Let_def bnd_def attempt_def fetch_reply_def x change_def of_result_def)
      then show ?thesis using before ne by (auto simp: through_def target_ok_def)
    next
      case ok: (Inr n)
      have wh: "whole r" "n = length (body_of r)" using check_length_whole [OF ok] by auto
      let ?f2 = "fs_rename ?tmp dest ?f1"
      show ?thesis
      proof (cases "n = 0")
        case True
        then have "\<exists>cd. out = Inr (0, cd)" "files w' = fs_unlink ?tmp ?f1" "trace w' = [?f1, files w] @ trace w"
          using run Inr ok by (auto simp: download_fetch_def Let_def bnd_def attempt_def fetch_reply_def x change_def of_result_def ret_def)
        then show ?thesis using before ne wh True by (auto simp: through_def target_ok_def)
      next
        case False
        then have o: "\<exists>cd. out = Inr (n, cd)" "files w' = fs_unlink ?tmp ?f2" "trace w' = [?f2, ?f1, files w] @ trace w"
          using run Inr ok by (auto simp: download_fetch_def Let_def bnd_def attempt_def fetch_reply_def x change_def of_result_def ret_def)
        have f2: "fs_read ?f2 dest = Some (body_of r)" using fs_read_rename [of ?f1 ?tmp "body_of r" dest dest] by simp
        have "target_ok dest b ?f2" using f2 wh False unfolding target_ok_def by auto
        moreover have "fs_read (files w') dest = Some (body_of r)" using o(2) f2 ne by simp
        moreover have "fs_read (files w') ?tmp = None" using o(2) by simp
        ultimately show ?thesis using o(1,3) before ne wh False by (auto simp: through_def target_ok_def)
      qed
    qed
  qed
qed

lemma retry_download_effect:
  assumes d: "path_name dest \<noteq> []"
  shows "retry_with E ds (download_fetch E q dest) w = (out, w') \<Longrightarrow> fs_read (files w) dest = b \<Longrightarrow>
    fs_read (files w') (part_of dest) = None \<and> through (target_ok dest b) w w' \<and>
    (case out of
       Inr (n, _) \<Rightarrow>
         \<exists>r. whole r \<and> n = length (body_of r) \<and> fs_read (files w') dest = (if n = 0 then b else Some (body_of r))
     | Inl _ \<Rightarrow> fs_read (files w') dest = b)"
proof (induction ds arbitrary: w)
  case Nil
  then show ?case unfolding retry_with.simps by (intro download_fetch_effect d)
next
  case (Cons y ds)
  obtain x w1 where x: "download_fetch E q dest w = (x, w1)" by fastforce
  note eff = download_fetch_effect [OF x d Cons.prems(2)]
  show ?case
  proof (cases "\<exists>e. x = Inl e \<and> retryable e")
    case True
    then obtain e where e: "x = Inl e" "retryable e" by blast
    let ?w = "w1\<lparr>server := sleep_for E y (server w1)\<rparr>"
    have r: "retry_with E ds (download_fetch E q dest) ?w = (out, w')"
      using Cons.prems(1) x e by (simp add: try_except_def bnd_def pause_def)
    have "fs_read (files ?w) dest = b" using eff e(1) by simp
    note ih = Cons.IH [OF r this]
    have "through (target_ok dest b) w ?w" using eff by (simp add: through_def)
    with ih show ?thesis using through_trans by blast
  next
    case False
    then have "out = x" "w' = w1" using Cons.prems(1) x
      by (cases x; simp add: try_except_def raise_def)+
    with eff show ?thesis by (simp only:)
  qed
qed

lemma download_request_effect:
  assumes run: "download_request E q dest w = (out, w')" and d: "path_name dest \<noteq> []"
  shows "fs_read (files w') (part_of dest) = None \<and> through (target_ok dest (fs_read (files w) dest)) w w' \<and>
    (case out of
       Inr (n, _) \<Rightarrow>
         \<exists>r. whole r \<and> n = length (body_of r) \<and>
           fs_read (files w') dest = (if n = 0 then fs_read (files w) dest else Some (body_of r))
     | Inl _ \<Rightarrow> fs_read (files w') dest = fs_read (files w) dest)"
proof -
  let ?w = "w\<lparr>files := fs_mkdirs (path_parent dest) (files w), trace := files w # trace w\<rparr>"
  have r: "retry_with E retry_delays (download_fetch E q dest) ?w = (out, w')"
    using run by (simp add: download_request_def bnd_def change_def retry_request_def)
  have b: "fs_read (files ?w) dest = fs_read (files w) dest" by simp
  have "through (target_ok dest (fs_read (files w) dest)) w ?w" by (auto simp: through_def target_ok_def)
  with retry_download_effect [OF d r b] show ?thesis using through_trans by blast
qed

section \<open>The files of an issue\<close>

lemma year_dir_ne: "year_dir root_dir y \<noteq> []"
proof -
  have "show_int y \<noteq> []" by (simp add: show_int_def)
  moreover have "CHR ''/'' \<notin> set (show_int y)"
    using show_nat_digits [of "CHR ''/''"] by (auto simp: show_int_def is_digit_def)
  ultimately have "split_on (CHR ''/'') (show_int y) = [show_int y]" by (simp add: split_on_notin)
  moreover have "show_int y \<noteq> ''.''"
    using show_nat_digits [of "CHR ''.''" "nat y"] by (auto simp: show_int_def is_digit_def)
  ultimately have "path_parts (show_int y) = [show_int y]"
    using \<open>show_int y \<noteq> []\<close> by (simp add: path_parts_def)
  moreover have "\<not> starts_with (show_int y) ''/''"
    using \<open>CHR ''/'' \<notin> set (show_int y)\<close> by (cases "show_int y") (auto simp: starts_with_def)
  ultimately show ?thesis by (simp add: year_dir_def path_join_def)
qed

lemma mkdirs_exists: "p \<noteq> [] \<Longrightarrow> fs_exists (fs_mkdirs p t) p"
proof -
  assume "p \<noteq> []"
  then have "p \<in> set (tl (prefixes p))" by (cases p) (auto simp: image_iff)
  then show ?thesis by (auto simp: fs_exists_def map_of_fs_mkdirs)
qed

lemma exists_mkdirs: "fs_exists t p \<Longrightarrow> fs_exists (fs_mkdirs d t) p"
  by (auto simp: fs_exists_def map_of_fs_mkdirs)

lemma exists_write: "fs_exists (fs_write q c t) p \<longleftrightarrow> p = q \<or> fs_exists t p"
  by (auto simp: fs_exists_def)

lemma exists_unlink: "fs_exists (fs_unlink q t) p \<longleftrightarrow> p \<noteq> q \<and> fs_exists t p"
  by (auto simp: fs_exists_def)

lemma exists_rename: "p \<noteq> a \<Longrightarrow> fs_exists t p \<Longrightarrow> fs_exists (fs_rename a b t) p"
  by (auto simp: fs_exists_def map_of_fs_rename split: option.splits)

lemma rename_target: "fs_exists t a \<Longrightarrow> fs_exists (fs_rename a b t) b"
  by (auto simp: fs_exists_def map_of_fs_rename split: option.splits)

lemma exists_rename_only: "fs_exists (fs_rename a b t) p \<Longrightarrow> p = b \<or> fs_exists t p"
  by (auto simp: fs_exists_def map_of_fs_rename split: option.splits if_splits)

lemma exists_rmtree: "fs_exists (fs_rmtree d t) p \<longleftrightarrow> \<not> is_relative_to p d \<and> fs_exists t p"
  by (auto simp: fs_exists_def map_of_fs_rmtree)

text \<open>The directory of a year and the published files in it\<close>

definition published :: "path \<Rightarrow> path \<Rightarrow> bool" where
  "published dir p \<longleftrightarrow>
     p = dir \<or> (p \<noteq> [] \<and> butlast p = dir \<and> (ends_with (last p) ''.pdf'' \<or> ends_with (last p) ''.json''))"

lemma published_not_part:
  "published dir (dir @ [x @ ''.part'']) = False" "published dir (dir @ [x @ ''.download'']) = False"
  by (auto simp: published_def ends_with_def starts_with_def)

lemma published_not_below: "published dir p \<Longrightarrow> \<not> ends_with x ''.pdf'' \<Longrightarrow> \<not> ends_with x ''.json'' \<Longrightarrow>
   \<not> is_relative_to p (dir @ [x])"
proof
  assume p: "published dir p" and n: "\<not> ends_with x ''.pdf''" "\<not> ends_with x ''.json''"
    and "is_relative_to p (dir @ [x])"
  then obtain r where r: "p = dir @ [x] @ r" by (auto simp: is_relative_to_prefix prefix_def)
  then have "p \<noteq> dir" by simp
  then have "butlast p = dir" using p by (simp add: published_def)
  moreover have "butlast p = dir @ [x] @ butlast r" if "r \<noteq> []" using that by (simp add: r butlast_append)
  ultimately have "r = []" by auto
  then show False using p n r \<open>p \<noteq> dir\<close> by (simp add: published_def)
qed

lemma frame_download_request:
  assumes n: "path_name dest \<noteq> []" and d: "\<not> published dir dest" "\<not> published dir (part_of dest)"
  shows "keeps (keeps_files (published dir)) (retry_request E (download_fetch E q dest))"
    "keeps (keeps_files (published dir)) (download_request E q dest)"
proof -
  have "keeps (keeps_files (published dir)) (download_fetch E q dest)"
    unfolding download_fetch_def Let_def
  proof (intro frames)
    fix r
    show "keeps (keeps_files (published dir)) (change (fs_write (part_of dest) (body_of r)))"
      by (rule keeps_files_change) (simp add: exists_write)
    fix n' :: nat
    show "keeps (keeps_files (published dir)) (if n' \<noteq> 0 then change (fs_rename (part_of dest) dest) else ret ())"
      using d by (cases "n' = 0") (auto intro!: keeps_files_change frame_pure exists_rename)
    show "keeps (keeps_files (published dir)) (change (fs_unlink (part_of dest)))"
      by (rule keeps_files_change) (use d in \<open>auto simp: exists_unlink\<close>)
  qed
  then show r: "keeps (keeps_files (published dir)) (retry_request E (download_fetch E q dest))"
    by (intro frames)
  show "keeps (keeps_files (published dir)) (download_request E q dest)"
    unfolding download_request_def
    by (intro frame_bnd keeps_files_change exists_mkdirs r)
qed

lemma frame_download_request_new:
  assumes n: "path_name dest \<noteq> []" and d: "\<not> Q dest" "\<not> Q (part_of dest)"
    and dirs: "\<And>p. Q p \<Longrightarrow> p \<notin> set (prefixes (path_parent dest))"
  shows "keeps (adds_no_file Q) (download_request E q dest)"
proof -
  have "keeps (adds_no_file Q) (download_fetch E q dest)"
    unfolding download_fetch_def Let_def
  proof (intro frames)
    fix r
    show "keeps (adds_no_file Q) (change (fs_write (part_of dest) (body_of r)))"
      by (rule adds_no_file_change) (use d in \<open>auto simp: exists_write\<close>)
    fix n' :: nat
    show "keeps (adds_no_file Q) (if n' \<noteq> 0 then change (fs_rename (part_of dest) dest) else ret ())"
      using d by (cases "n' = 0") (auto intro!: adds_no_file_change frame_pure dest: exists_rename_only)
    show "keeps (adds_no_file Q) (change (fs_unlink (part_of dest)))"
      by (rule adds_no_file_change) (simp add: exists_unlink)
  qed
  moreover have "keeps (adds_no_file Q) (change (fs_mkdirs (path_parent dest)))"
  proof (rule adds_no_file_change)
    fix t p
    assume "Q p" "fs_exists (fs_mkdirs (path_parent dest) t) p"
    moreover have "p \<notin> set (tl (prefixes (path_parent dest)))"
      using dirs [OF \<open>Q p\<close>] by (cases "prefixes (path_parent dest)") auto
    ultimately show "fs_exists t p" by (auto simp: fs_exists_def map_of_fs_mkdirs split: if_splits)
  qed
  ultimately show ?thesis
    unfolding download_request_def by (intro frames)
qed

section \<open>Synthesis\<close>

lemma not_published_below: "\<not> published dir (dir @ [x, y])"
proof -
  have "butlast (dir @ [x, y]) = dir @ [x]" by (simp add: butlast_append)
  then show ?thesis by (simp add: published_def)
qed

lemma not_published_work: "\<not> ends_with x ''.pdf'' \<Longrightarrow> \<not> ends_with x ''.json'' \<Longrightarrow> \<not> published dir (dir @ [x])"
  by (simp add: published_def)

lemma part_of_below: "path_name (d @ [n]) \<noteq> [] \<Longrightarrow> part_of (d @ [n]) = d @ [n @ ''.part'']"
  by (subst part_of_name) (auto simp: path_name_def split: if_splits)

lemma file_name: "d \<noteq> [] \<Longrightarrow> path_name (d @ [n]) = n"
  by (simp add: path_name_def)

lemma frame_post:
  assumes "y \<noteq> []"
  shows "keeps (keeps_files (published dir)) (http_post_stream E u data (dir @ [x, y]) ref)"
proof -
  have n: "path_name (dir @ [x, y]) = y" using file_name [of "dir @ [x]" y] by simp
  have "part_of (dir @ [x, y]) = dir @ [x, y @ ''.part'']"
    using part_of_below [of "dir @ [x]" y] n assms by simp
  then have "keeps (keeps_files (published dir)) (download_request E q (dir @ [x, y]))" for q
    using n assms by (intro frame_download_request(2)) (simp_all add: not_published_below)
  then show ?thesis unfolding http_post_stream_def by (intro frames keeps_case) simp_all
qed

lemma frame_rmtree:
  "\<not> ends_with x ''.pdf'' \<Longrightarrow> \<not> ends_with x ''.json'' \<Longrightarrow>
   keeps (keeps_files (published dir)) (change (fs_rmtree (dir @ [x])))"
  by (rule keeps_files_change) (simp add: exists_rmtree published_not_below)

lemma frame_skip_article:
  assumes x: "\<not> ends_with x ''.pdf''" "\<not> ends_with x ''.json''"
  shows "keeps (keeps_files (published dir)) (skip_article (dir @ [x]) r st)"
proof (cases "bail_out (failed_article r st)")
  case True
  then show ?thesis unfolding skip_article_def Let_def by (simp only: if_True) (intro frame_bnd frame_rmtree [OF x] frame_pure)
next
  case False
  then show ?thesis by (simp add: skip_article_def frame_pure)
qed

lemma frame_fetch_article:
  assumes x: "\<not> ends_with x ''.pdf''" "\<not> ends_with x ''.json''"
  shows "keeps (keeps_files (published dir)) (fetch_article E (dir @ [x]) s k sl u form st)"
proof -
  obtain docid dockey meta where f: "form = (docid, dockey, meta)" by (cases form)
  have post: "keeps (keeps_files (published dir)) (http_post_stream E u data (dir @ [x, zero_pad 2 (int k) @ CHR ''_'' # z]) ref)"
    for u data z ref by (rule frame_post) simp
  show ?thesis
    unfolding fetch_article_def f prod.case Let_def
    by (simp, intro frame_bnd(1) post) (auto intro!: frames frame_skip_article x)
qed

lemma frame_try_article:
  assumes x: "\<not> ends_with x ''.pdf''" "\<not> ends_with x ''.json''"
  shows "keeps (keeps_files (published dir)) (try_article E i (dir @ [x]) s a st)"
  unfolding try_article_def Let_def
proof (intro frame_bnd(1) keeps_attempt frame_scrape)
  fix form :: "exn + string \<times> string \<times> art_meta"
  show "keeps (keeps_files (published dir)) (case form of
          Inr f \<Rightarrow> fetch_article E (dir @ [x]) s (fst a) (snd a) (article_url (slug i) (snd a)) f st
        | Inl e \<Rightarrow>
            (case e of
               RuntimeError msg \<Rightarrow> skip_article (dir @ [x]) (NoForm (fst a) (snd a) (article_url (slug i) (snd a)) msg) st
             | _ \<Rightarrow> raise e))"
  proof (cases form)
    case (Inl e)
    then show ?thesis using frame_skip_article [OF x] frame_pure(2) by (cases e) simp_all
  next
    case (Inr f)
    then show ?thesis using frame_fetch_article [OF x] by simp
  qed
qed

lemma frame_synth_articles:
  assumes x: "\<not> ends_with x ''.pdf''" "\<not> ends_with x ''.json''"
  shows "keeps (keeps_files (published dir)) (synth_articles E i (dir @ [x]) s as st)"
proof (induction as arbitrary: st)
  case Nil
  show ?case by (simp add: frame_pure)
next
  case (Cons a as)
  then show ?case
    unfolding synth_articles.simps
    by (intro frame_bnd(1) frame_try_article [OF x] keeps_case) (simp add: frame_pure)
qed

definition synth_ok :: "synth \<Rightarrow> bool" where
  "synth_ok st \<longleftrightarrow> contiguous 0 (page_ranges (records st)) (cumulative st) \<and>
     length (page_ranges (records st)) = length (parts st)"

lemma page_ranges_append: "page_ranges (xs @ ys) = page_ranges xs @ page_ranges ys"
  by (simp add: page_ranges_def)

lemma synth_ok_failed: "synth_ok st \<Longrightarrow> synth_ok (failed_article (NoForm i s u e) st)"
  "synth_ok st \<Longrightarrow> synth_ok (failed_article (EmptyPdf i s u t) st)"
  by (simp_all add: synth_ok_def failed_article_def page_ranges_append) (simp_all add: page_ranges_def)

lemma synth_ok_add: "synth_ok st \<Longrightarrow> synth_ok (add_article i s u m p n k st)"
proof -
  assume "synth_ok st"
  moreover have "page_ranges [Part i s u m (cumulative st + 1) (cumulative st + k) n] =
      [(cumulative st + 1, cumulative st + k)]" by (simp add: page_ranges_def)
  ultimately show ?thesis by (auto simp: synth_ok_def add_article_def page_ranges_append contiguous_append)
qed

lemma skip_article_ok:
  "skip_article work r st w = (Inr (st', b), w') \<Longrightarrow> st' = failed_article r st"
  by (auto simp: skip_article_def Let_def bnd_Inr_iff ret_def split: if_splits)

lemma fetch_article_ok:
  assumes "fetch_article E work s k sl u form st w = (Inr (st', b), w')" "synth_ok st"
  shows "synth_ok st'"
proof -
  obtain docid dockey meta where f: "form = (docid, dockey, meta)" by (cases form)
  consider r wx where "skip_article work (EmptyPdf k sl u (m_title meta)) st wx = (Inr (st', b), w')"
    | tmp n pages where "st' = add_article k sl u meta tmp n pages st"
    using assms(1) by (auto simp: fetch_article_def f Let_def bnd_Inr_iff ret_def split: if_splits)
  then show ?thesis using skip_article_ok synth_ok_failed(2) synth_ok_add assms(2) by cases blast+
qed

lemma try_article_ok:
  assumes "try_article E i work s a st w = (Inr (st', b), w')" "synth_ok st"
  shows "synth_ok st'"
proof -
  let ?u = "article_url (slug i) (snd a)"
  obtain form w1 where "(case form of
          Inr f \<Rightarrow> fetch_article E work s (fst a) (snd a) ?u f st
        | Inl e \<Rightarrow> (case e of RuntimeError msg \<Rightarrow> skip_article work (NoForm (fst a) (snd a) ?u msg) st | _ \<Rightarrow> raise e)) w1 =
      (Inr (st', b), w')"
    using assms(1) unfolding try_article_def Let_def bnd_Inr_iff by blast
  then show ?thesis
    using fetch_article_ok assms(2) skip_article_ok synth_ok_failed(1)
    by (cases form) (fastforce simp: raise_def split: exn.splits)+
qed

lemma synth_articles_ok:
  "synth_articles E i work s as st w = (Inr (st', b), w') \<Longrightarrow> synth_ok st \<Longrightarrow> synth_ok st'"
proof (induction as arbitrary: st w)
  case Nil
  then show ?case by (simp add: ret_def)
next
  case (Cons a as)
  then obtain st1 b1 w1 where t: "try_article E i work s a st w = (Inr (st1, b1), w1)" and
    r: "(if b1 then ret (st1, True) else synth_articles E i work s as st1) w1 = (Inr (st', b), w')"
    by (auto simp: bnd_Inr_iff)
  have ok1: "synth_ok st1" by (rule try_article_ok [OF t Cons.prems(2)])
  show ?case
  proof (cases b1)
    case True
    with r ok1 show ?thesis by (simp add: ret_def)
  next
    case False
    with r ok1 show ?thesis by (simp add: Cons.IH)
  qed
qed

section \<open>A processed issue stays processed\<close>

lemma ends_with_append: "ends_with (x @ y) y"
  by (auto simp: ends_with_suffix)

lemma staging_name: "last (staging_path i root_dir) = month_prefix (month i) @ ''DOWNLOADING_'' @ show_int (num i) @ ''.download''"
  "butlast (staging_path i root_dir) = year_dir root_dir (year i)" "staging_path i root_dir \<noteq> []"
  by (simp_all add: staging_path_def)

lemma staging_not_published:
  "path_name (staging_path i root_dir) \<noteq> []" "path_parent (staging_path i root_dir) = year_dir root_dir (year i)"
  "\<not> published (year_dir root_dir (year i)) (staging_path i root_dir)"
  "\<not> published (year_dir root_dir (year i)) (part_of (staging_path i root_dir))"
proof -
  let ?n = "month_prefix (month i) @ ''DOWNLOADING_'' @ show_int (num i) @ ''.download''"
  have n: "path_name (staging_path i root_dir) = ?n"
    using file_name [OF year_dir_ne] by (simp add: staging_path_def)
  show "path_name (staging_path i root_dir) \<noteq> []" by (simp add: n)
  show "path_parent (staging_path i root_dir) = year_dir root_dir (year i)"
    using year_dir_ne [of root_dir "year i"] by (simp add: path_parent_def staging_path_def)
  show "\<not> published (year_dir root_dir (year i)) (staging_path i root_dir)"
    using published_not_part(2) [of "year_dir root_dir (year i)" "month_prefix (month i) @ ''DOWNLOADING_'' @ show_int (num i)"]
    by (simp add: staging_path_def)
  have "part_of (staging_path i root_dir) = year_dir root_dir (year i) @ [?n @ ''.part'']"
    using part_of_below [of "year_dir root_dir (year i)" ?n] n by (simp add: staging_path_def)
  then show "\<not> published (year_dir root_dir (year i)) (part_of (staging_path i root_dir))"
    using published_not_part(1) [of "year_dir root_dir (year i)" ?n] by simp
qed

lemma frame_download_full_issue:
  "keeps (keeps_files (published (year_dir root_dir (year i)))) (download_full_issue E i root_dir s)"
proof -
  note st = staging_not_published [where i = i and root_dir = root_dir]
  have dl: "keeps (keeps_files (published (year_dir root_dir (year i)))) (download_request E q (staging_path i root_dir))" for q
    by (rule frame_download_request(2) [OF st(1,3,4)])
  have rn: "keeps (keeps_files (published (year_dir root_dir (year i)))) (change (fs_rename (staging_path i root_dir) f))" for f
    by (rule keeps_files_change) (use st(3) in \<open>auto intro: exists_rename\<close>)
  show ?thesis
    unfolding download_full_issue_def find_full_issue_slug_def fetch_staged_def Let_def
    by (auto intro!: frames frame_issue_html frame_scrape keeps_case dl rn split: option.split)
qed

lemma work_name: "\<not> ends_with (issue_stem i @ ''_parts'') ''.pdf''" "\<not> ends_with (issue_stem i @ ''_parts'') ''.json''"
  by (auto simp: ends_with_def starts_with_def)

lemma frame_qpdf: "keeps (keeps_files Q) (qpdf_merge E ps dest)"
proof (rule keepsI)
  fix w
  show "keeps_files Q w (snd (qpdf_merge E ps dest w))"
    by (auto simp: qpdf_merge_def keeps_files_def bnd_def change_def of_result_def exists_write split: prod.split option.split)
qed

lemma frame_synthesise:
  "keeps (keeps_files (published (year_dir root_dir (year i)))) (synthesise_from_articles E i root_dir s)"
proof -
  have mk: "keeps (keeps_files (published (year_dir root_dir (year i)))) (change (fs_mkdirs d))" for d
    by (intro keeps_files_change exists_mkdirs)
  show ?thesis
    unfolding synthesise_from_articles_def article_slugs_in_order_def Let_def
    by (auto intro!: frames frame_issue_html frame_synth_articles work_name keeps_case mk frame_rmtree frame_qpdf)
qed

lemma frame_obtain_pdf:
  "keeps (keeps_files (published (year_dir root_dir (year i)))) (obtain_pdf E i root_dir s)"
  unfolding obtain_pdf_def
  by (auto intro!: frames frame_download_full_issue frame_synthesise keeps_case split: option.split)

text \<open>Documented of qpdf: a successful run has written its output.\<close>

definition qpdf_ok :: "'s mag_env \<Rightarrow> bool" where
  "qpdf_ok E \<longleftrightarrow> (\<forall>cs. fst (qpdf E cs) = Inr () \<longrightarrow> snd (qpdf E cs) \<noteq> None)"

definition in_place :: "path \<Rightarrow> string \<Rightarrow> 's mag \<Rightarrow> path \<Rightarrow> bool" where
  "in_place dir pre w p \<longleftrightarrow> (\<exists>x. p = dir @ [pre @ x]) \<and> fs_exists (files w) p \<and> fs_exists (files w) dir"

lemma download_request_makes_dir:
  assumes "download_request E q (staging_path i root_dir) w = (r, w')"
  shows "fs_exists (files w') (year_dir root_dir (year i))"
proof -
  note st = staging_not_published [where i = i and root_dir = root_dir]
  let ?w = "w\<lparr>files := fs_mkdirs (path_parent (staging_path i root_dir)) (files w), trace := files w # trace w\<rparr>"
  have "retry_request E (download_fetch E q (staging_path i root_dir)) ?w = (r, w')"
    using assms by (simp add: download_request_def bnd_def change_def)
  then have "keeps_files (published (year_dir root_dir (year i))) ?w w'"
    by (rule keepsD [OF frame_download_request(1) [OF st(1,3,4)]])
  moreover have "fs_exists (files ?w) (year_dir root_dir (year i))"
    using mkdirs_exists [OF year_dir_ne] by (simp add: st(2))
  ultimately show ?thesis by (simp add: keeps_files_def published_def)
qed

lemma download_full_issue_in_place:
  assumes "download_full_issue E i root_dir s w = (Inr (Some p), w')"
  shows "in_place (year_dir root_dir (year i)) (month_prefix (month i)) w' p"
proof -
  note st = staging_not_published [where i = i and root_dir = root_dir]
  obtain q n cd w1 w2 where d: "download_request E q (staging_path i root_dir) w1 = (Inr (n, cd), w2)" and n: "n \<noteq> 0"
    and w': "\<exists>o'. p = year_dir root_dir (year i) @ [month_prefix (month i) @ o'] \<and> files w' = fs_rename (staging_path i root_dir) p (files w2)"
    using assms unfolding download_full_issue_def find_full_issue_slug_def fetch_staged_def Let_def
    by (auto simp: bnd_Inr_iff ret_def change_def pause_def split: option.splits if_splits)
  have dir: "fs_exists (files w2) (year_dir root_dir (year i))" by (rule download_request_makes_dir [OF d])
  have "fs_exists (files w2) (staging_path i root_dir)"
    using download_request_effect [OF d st(1)] n by (auto intro: fs_exists_read)
  then have "fs_exists (files w') p" using w' rename_target by metis
  moreover have "fs_exists (files w') (year_dir root_dir (year i))"
    using w' dir st(3) by (auto intro!: exists_rename simp: published_def)
  ultimately show ?thesis using w' by (auto simp: in_place_def)
qed

lemma synthesise_in_place:
  assumes "synthesise_from_articles E i root_dir s w = (Inr (Some p, rs), w')" "qpdf_ok E"
  shows "in_place (year_dir root_dir (year i)) (month_prefix (month i)) w' p" "ends_with (last p) ''.pdf''"
    "\<exists>st. synth_ok st \<and> rs = records st \<and> parts st \<noteq> []"
proof -
  let ?dir = "year_dir root_dir (year i)"
  let ?work = "?dir @ [issue_stem i @ ''_parts'']" and ?final = "?dir @ [issue_stem i @ ''_synthetic.pdf'']"
  obtain slugs w1 st w3 w4 where
    m: "synth_articles E i ?work s (enum_from 1 slugs) no_synth (w1\<lparr>files := fs_mkdirs ?work (files w1), trace := files w1 # trace w1\<rparr>) = (Inr (st, False), w3)"
    and ne: "parts st \<noteq> []" and q: "qpdf_merge E (parts st) ?final w3 = (Inr (), w4)"
    and f: "files w' = fs_rmtree ?work (files w4)" "p = ?final" "rs = records st"
    using assms(1) unfolding synthesise_from_articles_def article_slugs_in_order_def Let_def
    by (auto simp: bnd_Inr_iff ret_def change_def split: if_splits)
  have "fs_exists (fs_mkdirs ?work (files w1)) ?dir"
  proof -
    have "?dir \<in> set (tl (prefixes ?work))"
      using year_dir_ne [of root_dir "year i"] by (cases ?dir) (auto simp: image_iff prefix_def)
    then show ?thesis by (auto simp: fs_exists_def map_of_fs_mkdirs)
  qed
  then have "fs_exists (files w3) ?dir"
    using keepsD [OF frame_synth_articles [OF work_name] m] by (simp add: keeps_files_def published_def)
  moreover obtain c where "files w4 = fs_write ?final c (files w3)"
  proof -
    obtain r out where o: "qpdf E (read_parts (files w3) (parts st)) = (r, out)" by fastforce
    show thesis
    proof (cases out)
      case None
      with o q have "r = Inr ()" by (simp add: qpdf_merge_def)
      with o None assms(2) show thesis unfolding qpdf_ok_def by (metis fst_conv snd_conv)
    next
      case (Some c)
      with o q that [of c] show thesis by (auto simp: qpdf_merge_def bnd_def change_def of_result_def)
    qed
  qed
  moreover have "\<not> is_relative_to ?final ?work" "\<not> is_relative_to ?dir ?work"
    by (auto simp: is_relative_to_prefix prefix_def)
  ultimately have "fs_exists (files w') ?dir" "fs_exists (files w') ?final"
    by (simp_all add: f exists_rmtree exists_write)
  then show "in_place ?dir (month_prefix (month i)) w' p"
    by (auto simp: in_place_def f(2) issue_stem_def)
  show "ends_with (last p) ''.pdf''" using ends_with_append [of "issue_stem i @ ''_synthetic''" "''.pdf''"] by (simp add: f(2))
  have "synth_ok no_synth" by (simp add: synth_ok_def no_synth_def page_ranges_def)
  then show "\<exists>st. synth_ok st \<and> rs = records st \<and> parts st \<noteq> []"
    using synth_articles_ok [OF m] ne f(3) by blast
qed

lemma suffix_of_name: "a \<noteq> [] \<Longrightarrow> name_suffix (a @ ''.pdf'') = ''.pdf''"
  by (simp add: name_suffix_def takeWhile_append dropWhile_append)

lemma stem_of_name: "a \<noteq> [] \<Longrightarrow> name_stem (a @ ''.pdf'') = a"
  using suffix_of_name [of a] by (simp add: name_stem_def)

lemma with_suffix_pdf: "d \<noteq> [] \<Longrightarrow> a \<noteq> [] \<Longrightarrow> with_suffix (d @ [a @ ''.pdf'']) s = d @ [a @ s]"
  by (simp add: with_suffix_def path_stem_def file_name stem_of_name)

lemma suffix_of_json: "a \<noteq> [] \<Longrightarrow> name_stem (a @ ''.json'') = a"
  by (simp add: name_stem_def name_suffix_def takeWhile_append dropWhile_append)

lemma with_suffix_json: "d \<noteq> [] \<Longrightarrow> a \<noteq> [] \<Longrightarrow> with_suffix (d @ [a @ ''.json'']) s = d @ [a @ s]"
  by (simp add: with_suffix_def path_stem_def file_name suffix_of_json)

lemma month_prefix_ne: "month_prefix m \<noteq> []"
  by (simp add: month_prefix_def)

lemma glob_in_iff:
  "dir \<noteq> [] \<Longrightarrow> p \<in> set (glob_in t dir pre sfx) \<longleftrightarrow>
     (\<exists>x. p = dir @ [pre @ x] \<and> ends_with x sfx \<and> fs_exists t p)"
proof -
  assume d: "dir \<noteq> []"
  have c: "p \<in> set (fs_children t dir) \<and> starts_with (path_name p) pre \<longleftrightarrow>
      (\<exists>x. p = dir @ [pre @ x] \<and> fs_exists t p)"
  proof
    assume a: "p \<in> set (fs_children t dir) \<and> starts_with (path_name p) pre"
    then have p: "p = dir @ [last p]" "fs_exists t p" by (auto simp: fs_children_iff)
    then have "path_name p = last p" using file_name [OF d] by metis
    then show "\<exists>x. p = dir @ [pre @ x] \<and> fs_exists t p" using a p by (auto simp: starts_with_prefix prefix_def)
  next
    assume "\<exists>x. p = dir @ [pre @ x] \<and> fs_exists t p"
    then show "p \<in> set (fs_children t dir) \<and> starts_with (path_name p) pre"
      using file_name [OF d] by (auto simp: fs_children_iff)
  qed
  have "p \<in> set (glob_in t dir pre sfx) \<longleftrightarrow>
      (p \<in> set (fs_children t dir) \<and> starts_with (path_name p) pre) \<and> ends_with (drop (length pre) (path_name p)) sfx"
    by (auto simp: glob_in_def)
  also have "\<dots> \<longleftrightarrow> (\<exists>x. p = dir @ [pre @ x] \<and> fs_exists t p \<and> ends_with (drop (length pre) (path_name p)) sfx)"
    unfolding c by blast
  also have "\<dots> \<longleftrightarrow> (\<exists>x. p = dir @ [pre @ x] \<and> ends_with x sfx \<and> fs_exists t p)"
    using file_name [OF d] by auto
  finally show ?thesis .
qed

lemma existing_artifacts_Some:
  assumes "existing_artifacts t root_dir y m = (a, b)" "fs_exists t (year_dir root_dir y)"
  shows "(a = None \<longleftrightarrow> (\<forall>x. ends_with x ''.pdf'' \<longrightarrow> \<not> fs_exists t (year_dir root_dir y @ [month_prefix m @ x])))"
    "(b = None \<longleftrightarrow> (\<forall>x. ends_with x ''.json'' \<longrightarrow> \<not> fs_exists t (year_dir root_dir y @ [month_prefix m @ x])))"
proof -
  let ?d = "year_dir root_dir y" and ?pre = "month_prefix m"
  have "glob_in t ?d ?pre sfx = [] \<longleftrightarrow> (\<forall>x. ends_with x sfx \<longrightarrow> \<not> fs_exists t (?d @ [?pre @ x]))" for sfx
  proof -
    have "glob_in t ?d ?pre sfx = [] \<longleftrightarrow> (\<forall>p. p \<notin> set (glob_in t ?d ?pre sfx))" by (metis equals0I empty_iff set_empty)
    then show ?thesis unfolding glob_in_iff [OF year_dir_ne] by blast
  qed
  moreover have "a = None \<longleftrightarrow> glob_in t ?d ?pre ''.pdf'' = []" "b = None \<longleftrightarrow> glob_in t ?d ?pre ''.json'' = []"
    using assms by (auto simp: existing_artifacts_def artifacts_with_def Let_def split: list.splits)
  ultimately show "(a = None \<longleftrightarrow> (\<forall>x. ends_with x ''.pdf'' \<longrightarrow> \<not> fs_exists t (?d @ [?pre @ x])))"
    "(b = None \<longleftrightarrow> (\<forall>x. ends_with x ''.json'' \<longrightarrow> \<not> fs_exists t (?d @ [?pre @ x])))" by auto
qed

lemma existing_artifacts_found:
  assumes "existing_artifacts t root_dir y m = (a, b)"
  shows "a = Some p \<Longrightarrow> (\<exists>x. p = year_dir root_dir y @ [month_prefix m @ x] \<and> ends_with x ''.pdf'') \<and> fs_exists t p \<and> fs_exists t (year_dir root_dir y)"
    "b = Some p \<Longrightarrow> (\<exists>x. p = year_dir root_dir y @ [month_prefix m @ x] \<and> ends_with x ''.json'') \<and> fs_exists t p \<and> fs_exists t (year_dir root_dir y)"
proof -
  let ?d = "year_dir root_dir y" and ?pre = "month_prefix m"
  note g = glob_in_iff [OF year_dir_ne, of p t root_dir y ?pre]
  show "a = Some p \<Longrightarrow> (\<exists>x. p = ?d @ [?pre @ x] \<and> ends_with x ''.pdf'') \<and> fs_exists t p \<and> fs_exists t ?d"
    using assms g [of "''.pdf''"] by (auto simp: existing_artifacts_def artifacts_with_def Let_def split: list.splits if_splits)
  show "b = Some p \<Longrightarrow> (\<exists>x. p = ?d @ [?pre @ x] \<and> ends_with x ''.json'') \<and> fs_exists t p \<and> fs_exists t ?d"
    using assms g [of "''.json''"] by (auto simp: existing_artifacts_def artifacts_with_def Let_def split: list.splits if_splits)
qed

text \<open>The two files that make an issue complete\<close>

definition archived :: "fs \<Rightarrow> path \<Rightarrow> int \<Rightarrow> int \<Rightarrow> bool" where
  "archived t root_dir y m \<longleftrightarrow> (\<exists>p j. existing_artifacts t root_dir y m = (Some p, Some j))"

lemma archivedI:
  assumes "fs_exists t (year_dir root_dir y)"
    "fs_exists t (year_dir root_dir y @ [month_prefix m @ x])" "ends_with x ''.pdf''"
    "fs_exists t (year_dir root_dir y @ [month_prefix m @ z])" "ends_with z ''.json''"
  shows "archived t root_dir y m"
proof -
  obtain a b where e: "existing_artifacts t root_dir y m = (a, b)" by fastforce
  show ?thesis using existing_artifacts_Some [OF e assms(1)] assms e by (auto simp: archived_def)
qed

lemma frame_native_article: "keeps (keeps_files Q) (native_article E i s a acc)"
  unfolding native_article_def Let_def by (intro frames frame_http_get)

lemma frame_native: "keeps (keeps_files Q) (build_sidecar_for_native E i pdf s)"
  unfolding build_sidecar_for_native_def article_slugs_in_order_def
  by (intro frames frame_issue_html keeps_for_each frame_orders frame_native_article)

lemma frame_embed: "keeps (keeps_files Q) (embed_pdf_metadata E p title ks subject)"
  by (auto simp: keeps_def embed_pdf_metadata_def keeps_files_def change_def exists_write split: option.split)

lemma write_sidecar_effect:
  assumes "write_sidecar (dir @ [a @ ''.pdf'']) doc w = (Inr js, w')" "dir \<noteq> []" "a \<noteq> []"
  shows "js = dir @ [a @ ''.json'']" "fs_exists (files w') js" "keeps_files (published dir) w w'"
proof -
  let ?json = "dir @ [a @ ''.json'']" and ?tmp = "dir @ [a @ ''.json.part'']"
  have p: "with_suffix (dir @ [a @ ''.pdf'']) ''.json'' = ?json" "with_suffix ?json ''.json.part'' = ?tmp"
    using assms(2,3) by (simp_all add: with_suffix_pdf with_suffix_json)
  have js: "js = ?json" "files w' = fs_rename ?tmp ?json (fs_write ?tmp (json_dumps indent2_layout doc) (files w))"
    using assms(1) by (auto simp: write_sidecar_def Let_def p bnd_def change_def ret_def)
  show "js = ?json" by (rule js(1))
  show "fs_exists (files w') js" by (simp add: js rename_target exists_write)
  have "\<not> published dir ?tmp" using published_not_part(1) [of dir "a @ ''.json''"] by simp
  then show "keeps_files (published dir) w w'"
    by (auto simp: keeps_files_def js(2) exists_write intro!: exists_rename)
qed

lemma complete_sidecar_archives:
  assumes run: "complete_sidecar E i s p syn rs ex w = (Inr js, w')"
    and pl: "in_place (year_dir root_dir (year i)) (month_prefix (month i)) w p" and pdf: "ends_with (last p) ''.pdf''"
    and ex: "\<And>j. ex = Some j \<Longrightarrow> in_place (year_dir root_dir (year i)) (month_prefix (month i)) w j \<and>
               (\<exists>z. j = year_dir root_dir (year i) @ [month_prefix (month i) @ z] \<and> ends_with z ''.json'')"
  shows "archived (files w') root_dir (year i) (month i)"
proof -
  let ?d = "year_dir root_dir (year i)" and ?pre = "month_prefix (month i)"
  obtain x where x: "p = ?d @ [?pre @ x]" "fs_exists (files w) p" "fs_exists (files w) ?d"
    using pl by (auto simp: in_place_def)
  obtain y where "?pre @ x = y @ ''.pdf''" using pdf x(1) by (auto simp: ends_with_suffix)
  moreover have "?pre = zero_pad 2 (month i) @ ''_''" by (simp add: month_prefix_def)
  ultimately obtain x' where x': "x = x' @ ''.pdf''"
  proof -
    assume a: "?pre @ x = y @ ''.pdf''" and pre: "?pre = zero_pad 2 (month i) @ ''_''"
      and th: "\<And>x'. x = x' @ ''.pdf'' \<Longrightarrow> thesis"
    from a obtain us where "?pre @ us = y \<and> x = us @ ''.pdf'' \<or> ?pre = y @ us \<and> us @ x = ''.pdf''"
      by (auto simp: append_eq_append_conv2)
    then show thesis
    proof
      assume "?pre @ us = y \<and> x = us @ ''.pdf''"
      then show thesis using th by blast
    next
      assume b: "?pre = y @ us \<and> us @ x = ''.pdf''"
      show thesis
      proof (cases us rule: rev_cases)
        case Nil
        then show thesis using b th [of "[]"] by simp
      next
        case (snoc u c)
        then have "c = CHR ''_''" using b pre by (metis last_snoc append.assoc)
        then have "CHR ''_'' \<in> set ''.pdf''" using b snoc by (metis append_is_Nil_conv in_set_conv_decomp append.assoc Cons_eq_appendI self_append_conv2)
        then show thesis by simp
      qed
    qed
  qed
  then have pa: "p = ?d @ [(?pre @ x') @ ''.pdf'']" and xe: "ends_with x ''.pdf''"
    using x(1) ends_with_append by simp_all
  show ?thesis
  proof (cases ex)
    case (Some j)
    then have "w' = w" using run by (simp add: complete_sidecar_def ret_def)
    obtain z where z: "j = ?d @ [?pre @ z]" "ends_with z ''.json''" "fs_exists (files w) j"
      using ex [OF Some] by (auto simp: in_place_def)
    show ?thesis unfolding \<open>w' = w\<close>
      by (rule archivedI [of _ _ _ _ x z]) (use x xe z in simp_all)
  next
    case None
    obtain doc w1 where w1: "keeps_files (published ?d) w w1" and ws: "write_sidecar p doc w1 = (Inr js, w')"
    proof -
      let ?src = "case (syn, rs) of (True, Some r) \<Rightarrow> ret (build_sidecar_for_synthetic i p r)
               | _ \<Rightarrow> build_sidecar_for_native E i p (s * (1 / 2))"
      obtain doc kws w0 w1 where a: "?src w = (Inr (doc, kws), w0)"
        and b: "embed_pdf_metadata E p (issue_title i) kws
                 (if syn then ''Grapegrower & Winemaker (synthetic full issue)'' else ''Grapegrower & Winemaker'') w0 = (Inr (), w1)"
        and c: "write_sidecar p doc w1 = (Inr js, w')"
        using run None unfolding complete_sidecar_def by (auto simp: bnd_Inr_iff)
      have "keeps (keeps_files (published ?d)) ?src"
        by (cases syn; cases rs) (simp_all add: frame_pure frame_native)
      from keepsD [OF this a] keepsD [OF frame_embed b] have "keeps_files (published ?d) w w1"
        using transpD [OF frame_orders(2)] by blast
      with c that show thesis by blast
    qed
    have ne: "?pre @ x' \<noteq> []" by (simp add: month_prefix_ne)
    note eff = write_sidecar_effect [OF ws [unfolded pa] year_dir_ne ne]
    have "keeps_files (published ?d) w w'" using w1 eff(3) transpD [OF frame_orders(2)] by blast
    then have "fs_exists (files w') ?d" "fs_exists (files w') (?d @ [?pre @ x])"
      using x pdf by (auto simp: keeps_files_def published_def)
    moreover have "js = ?d @ [?pre @ (x' @ ''.json'')]" using eff(1) by simp
    moreover have "ends_with (x' @ ''.json'') ''.json''" by (rule ends_with_append)
    ultimately show ?thesis using eff(2) xe
      by (intro archivedI [of _ _ _ _ x "x' @ ''.json''"]) simp_all
  qed
qed

text \<open>What a status that reports success says of the PDF it names\<close>

fun archived_pdf :: "status \<Rightarrow> path option" where
  "archived_pdf (SkipComplete p) = Some p"
| "archived_pdf (Downloaded p _) = Some p"
| "archived_pdf (Synthesised p _) = Some p"
| "archived_pdf (SidecarOnly p _) = Some p"
| "archived_pdf _ = None"

lemma process_issue_archives:
  assumes run: "process_issue E i root_dir s dry w = (Inr st, w')" and q: "qpdf_ok E"
    and st: "archived_pdf st = Some p" "ends_with (last p) ''.pdf''"
  shows "archived (files w') root_dir (year i) (month i)"
proof -
  let ?d = "year_dir root_dir (year i)" and ?pre = "month_prefix (month i)"
  obtain a b where e: "existing_artifacts (files w) root_dir (year i) (month i) = (a, b)" by fastforce
  note found = existing_artifacts_found [OF e]
  show ?thesis
  proof (cases a)
    case (Some pdf)
    show ?thesis
    proof (cases b)
      case (Some j)
      then have "w' = w" using run e \<open>a = Some pdf\<close> by (simp add: process_issue_def ret_def)
      with e Some \<open>a = Some pdf\<close> show ?thesis by (simp add: archived_def)
    next
      case None
      have nd: "\<not> dry" using run e \<open>a = Some pdf\<close> None st by (auto simp: process_issue_def ret_def)
      obtain js where c: "complete_sidecar E i s pdf (contains (path_name pdf) ''_synthetic'') None None w = (Inr js, w')"
        using run e \<open>a = Some pdf\<close> None nd by (auto simp: process_issue_def bnd_Inr_iff ret_def)
      have "in_place ?d ?pre w pdf" "ends_with (last pdf) ''.pdf''"
        using found(1) [OF Some] by (auto simp: in_place_def ends_with_suffix)
      then show ?thesis by (intro complete_sidecar_archives [OF c]) auto
    qed
  next
    case None
    have nd: "\<not> dry" using run e None st by (auto simp: process_issue_def ret_def)
    obtain pdf rs w1 js where o: "obtain_pdf E i root_dir s w = (Inr (Some (pdf, rs)), w1)"
      and c: "complete_sidecar E i s pdf (rs \<noteq> None) rs b w1 = (Inr js, w')"
      and st': "st = (if rs \<noteq> None then Synthesised pdf js else Downloaded pdf js)"
      using run e None nd st by (auto simp: process_issue_def bnd_Inr_iff ret_def split: option.splits prod.splits)
    have p: "pdf = p" using st' st(1) by (auto split: if_splits)
    have place: "in_place ?d ?pre w1 pdf"
    proof -
      obtain full w2 where f: "download_full_issue E i root_dir s w = (Inr full, w2)"
        using o by (auto simp: obtain_pdf_def bnd_Inr_iff)
      show ?thesis
      proof (cases full)
        case (Some x)
        then have "x = pdf" "w2 = w1" using o f by (auto simp: obtain_pdf_def bnd_def ret_def)
        with download_full_issue_in_place f Some show ?thesis by blast
      next
        case None
        then obtain r where "synthesise_from_articles E i root_dir s w2 = (Inr (Some pdf, r), w1)"
          using o f by (auto simp: obtain_pdf_def bnd_def ret_def split: prod.splits sum.splits option.splits)
        then show ?thesis by (rule synthesise_in_place(1) [OF _ q])
      qed
    qed
    have "keeps_files (published ?d) w w1" by (rule keepsD [OF frame_obtain_pdf o])
    then have "in_place ?d ?pre w1 j \<and> (\<exists>z. j = ?d @ [?pre @ z] \<and> ends_with z ''.json'')" if "b = Some j" for j
      using found(2) [OF that] by (auto simp: in_place_def keeps_files_def published_def ends_with_suffix)
    then show ?thesis using st(2) p by (intro complete_sidecar_archives [OF c place]) auto
  qed
qed

section \<open>The queue\<close>








lemma enum_filter_split:
  "mset (map snd (filter (\<lambda>(i, x). P i) (enum_from k xs))) + mset (map snd (filter (\<lambda>(i, x). \<not> P i) (enum_from k xs))) = mset xs"
  by (induction k xs rule: enum_from.induct) auto

lemma enum_filter_subseq: "subseq (map snd (filter (\<lambda>(i, x). P i) (enum_from k xs))) xs"
  by (induction k xs rule: enum_from.induct) auto

lemma enum_filter_length:
  "length (filter (\<lambda>(i, x). i \<in> A) (enum_from k xs)) = card (A \<inter> {k..<k + length xs})"
proof (induction k xs rule: enum_from.induct)
  case (2 k x xs)
  have "{k..<k + length (x # xs)} = insert k {Suc k..<Suc k + length xs}" by auto
  then show ?case using 2 by (simp add: Int_insert_right card_insert_if)
qed simp

section \<open>Properties\<close>

lemma next_month:
  fixes x :: int
  shows "(x + 1) div 12 = (if x mod 12 = 11 then x div 12 + 1 else x div 12)"
    "(x + 1) mod 12 = (if x mod 12 = 11 then 0 else x mod 12 + 1)"
proof -
  define q r where "q = x div 12" and "r = x mod 12"
  have x: "x = 12 * q + r" and r: "0 \<le> r" "r < 12" by (simp_all add: q_def r_def)
  have e: "x + 1 = (if r = 11 then 12 * (q + 1) else (r + 1) + 12 * q)" using x by simp
  have small: "(r + 1) div 12 = 0" "(r + 1) mod 12 = r + 1" if "r \<noteq> 11" using r that by simp_all
  show "(x + 1) div 12 = (if x mod 12 = 11 then x div 12 + 1 else x div 12)"
    unfolding e q_def [symmetric] r_def [symmetric] using small by (cases "r = 11") simp_all
  show "(x + 1) mod 12 = (if x mod 12 = 11 then 0 else x mod 12 + 1)"
    unfolding e q_def [symmetric] r_def [symmetric] using small by (cases "r = 11") simp_all
qed

text \<open>
  Issue numbers and months correspond one to one: the month is always a month, the
  next issue is the next month, different issues fall into different months, and issue 748
  is May 2026.
\<close>

theorem issue_months:
  "(case year_month_for n of (y, m) \<Rightarrow>
      1 \<le> m \<and> m \<le> 12 \<and> year_month_for (n + 1) = (if m = 12 then (y + 1, 1) else (y, m + 1))) \<and>
   (year_month_for n = year_month_for k \<longleftrightarrow> n = k) \<and> year_month_for 748 = (2026, 5)"
proof -
  define idx where "idx k = anchor_year * 12 + (anchor_month - 1) - (anchor_n - k)" for k
  have ym: "year_month_for k = (idx k div 12, idx k mod 12 + 1)" for k
    by (simp add: year_month_for_def idx_def Let_def)
  have "idx (n + 1) = idx n + 1" by (simp add: idx_def)
  then have "year_month_for (n + 1) = (if idx n mod 12 = 11 then (idx n div 12 + 1, 1) else (idx n div 12, idx n mod 12 + 2))"
    by (simp add: ym next_month)
  moreover have "0 \<le> idx n mod 12" "idx n mod 12 < 12" by simp_all
  moreover have "year_month_for n = year_month_for k \<longleftrightarrow> n = k"
  proof -
    have "idx n div 12 = idx k div 12 \<Longrightarrow> idx n mod 12 = idx k mod 12 \<Longrightarrow> idx n = idx k" by (metis mult_div_mod_eq)
    then show ?thesis by (auto simp: ym idx_def)
  qed
  moreover have "year_month_for 748 = (2026, 5)"
    by (simp add: ym idx_def anchor_year_def anchor_month_def anchor_n_def)
  ultimately show ?thesis by (auto simp: ym)
qed

text \<open>
  Every request is tried at most four times; it is repeated only after an error that
  is worth repeating, and it stops earlier only with a result or with another error.
\<close>

theorem retry_request_bounded:
  "\<exists>n. 1 \<le> n \<and> n \<le> 4 \<and> tries E m n w (retry_request E m w) \<and> (n = 4 \<or> settled (fst (retry_request E m w)))"
  using retry_with_tries [of retry_delays E m w "retry_request E m w"]
  by (auto simp: retry_request_def retry_delays_def)


text \<open>
  C8. The page table of a synthesised issue is right: the articles that were merged take
  consecutive page ranges, the first starting at page 1, and there is one range for every
  merged part.
\<close>

theorem synthesised_pages_contiguous:
  assumes "synthesise_from_articles E i root_dir s w = (Inr (Some p, rs), w')" "qpdf_ok E"
  shows "page_ranges rs \<noteq> [] \<and> (\<exists>pages. contiguous 0 (page_ranges rs) pages)"
  using synthesise_in_place(3) [OF assms] by (auto simp: synth_ok_def)

text \<open>
  Processing is idempotent: whatever an issue went through, once a run has reported a
  PDF named like a PDF, every later run finds the issue complete and changes nothing.
\<close>

theorem processed_issue_is_skipped:
  assumes "process_issue E i root_dir s dry w = (Inr st, w')" "qpdf_ok E"
    and "archived_pdf st = Some p" "ends_with (last p) ''.pdf''" "files w2 = files w'"
  shows "\<exists>p'. process_issue E i root_dir s' dry' w2 = (Inr (SkipComplete p'), w2)"
  using process_issue_archives [OF assms(1-4)] assms(5)
  by (auto simp: archived_def process_issue_def ret_def)

text \<open>
  C9. A crash while a full issue is downloaded leaves no file behind that a later run
  would take for a finished PDF: no tree the download goes through has a PDF of that month
  that was not there before.
\<close>

theorem crash_leaves_no_unfinished_pdf:
  assumes "download_full_issue E i root_dir s w = (r, w')"
  shows "through (\<lambda>t. \<forall>x. ends_with x ''.pdf'' \<longrightarrow>
      fs_exists t (year_dir root_dir (year i) @ [month_prefix (month i) @ x]) \<longrightarrow>
      fs_exists (files w) (year_dir root_dir (year i) @ [month_prefix (month i) @ x])) w w'"
proof -
  let ?d = "year_dir root_dir (year i)"
  define Q where "Q = (\<lambda>p. \<exists>x. ends_with x ''.pdf'' \<and> p = ?d @ [month_prefix (month i) @ x])"
  note st = staging_not_published [where i = i and root_dir = root_dir]
  have Qp: "Q p \<Longrightarrow> published ?d p" for p by (auto simp: Q_def published_def ends_with_suffix)
  have dirs: "p \<notin> set (prefixes (path_parent (staging_path i root_dir)))" if "Q p" for p
    using that by (auto simp: st(2) Q_def prefix_def)
  have dl: "keeps (adds_no_file Q) (download_request E q (staging_path i root_dir))" for q
    using st(3,4) Qp by (intro frame_download_request_new st(1) dirs) blast+
  have thr: "through (\<lambda>t. \<forall>x. ends_with x ''.pdf'' \<longrightarrow> fs_exists t (?d @ [month_prefix (month i) @ x]) \<longrightarrow>
      fs_exists (files w) (?d @ [month_prefix (month i) @ x])) w w1" if "adds_no_file Q w w1" for w1
    using that by (auto simp: adds_no_file_def through_def Q_def)
  obtain full w1 where f: "find_full_issue_slug E (slug i) w = (full, w1)" by fastforce
  have kf: "keeps (adds_no_file Q) (find_full_issue_slug E (slug i))"
    unfolding find_full_issue_slug_def by (intro frames frame_issue_html)
  have n1: "adds_no_file Q w w1" by (rule keepsD [OF kf f])
  define m where "m = fetch_staged E i root_dir"
  have m: "keeps (adds_no_file Q) (m page)" for page
    unfolding m_def fetch_staged_def by (intro frames frame_scrape) (auto intro!: dl split: prod.split)
  show ?thesis
  proof (cases "\<exists>f. full = Inr (Some f)")
    case False
    then have "w' = w1" using assms f unfolding download_full_issue_def bnd_def by (auto simp: ret_def split: sum.splits option.splits)
    then show ?thesis using thr [OF n1] by simp
  next
    case True
    then obtain f' where f': "full = Inr (Some f')" by blast
    obtain out w2 where o: "m (article_url (slug i) f') w1 = (out, w2)" by fastforce
    have n2: "adds_no_file Q w w2" using n1 keepsD [OF m o] by (rule adds_no_file_trans)
    have "trace w' = trace w2 \<or> trace w' = files w2 # trace w2"
      using assms f f' o unfolding download_full_issue_def bnd_def m_def
      by (auto simp: ret_def change_def pause_def Let_def split: sum.splits if_splits)
    moreover have "through (\<lambda>t. \<forall>x. ends_with x ''.pdf'' \<longrightarrow> fs_exists t (?d @ [month_prefix (month i) @ x]) \<longrightarrow>
      fs_exists (files w) (?d @ [month_prefix (month i) @ x])) w2 (w2\<lparr>trace := files w2 # trace w2\<rparr>)"
      using n2 by (auto simp: adds_no_file_def through_def Q_def)
    ultimately show ?thesis using thr [OF n2] by (auto simp: through_def)
  qed
qed

text \<open>
  The quarterly sample loses nothing: probed and held back issues together are exactly
  the incomplete ones, each in the order they came; the sample has the requested size,
  and is empty only if nothing is missing. Documented of random.sample: it picks that many
  different positions.
\<close>

theorem backfill_sample_partitions:
  assumes "split_backfill_sample sampled issues t root_dir fraction = (sample, held)"
    and "\<And>n k. k \<le> n \<Longrightarrow> distinct (sampled n k) \<and> length (sampled n k) = k \<and> set (sampled n k) \<subseteq> {0..<n}"
  shows "mset sample + mset held = mset (filter (\<lambda>iss. \<not> complete t root_dir (fst iss)) issues) \<and>
    subseq sample issues \<and> subseq held issues \<and>
    length sample = sample_size (length sample + length held) fraction \<and>
    (sample = [] \<longrightarrow> held = [])"
proof -
  define ms where "ms = filter (\<lambda>iss. \<not> complete t root_dir (fst iss)) issues"
  have sub: "subseq ms issues" by (simp add: ms_def)
  show ?thesis
  proof (cases "ms = []")
    case True
    then show ?thesis using assms(1) by (auto simp: split_backfill_sample_def ms_def [symmetric] sample_size_def)
  next
    case False
    define k where "k = sample_size (length ms) fraction"
    define ch where "ch = sampled (length ms) k"
    have s: "sample = map snd (filter (\<lambda>(i, x). i \<in> set ch) (enum_from 0 ms))"
      "held = map snd (filter (\<lambda>(i, x). i \<notin> set ch) (enum_from 0 ms))"
      using assms(1) False by (auto simp: split_backfill_sample_def ms_def [symmetric] k_def [symmetric] ch_def [symmetric] Let_def)
    have k: "k \<le> length ms" "1 \<le> k" using False by (auto simp: k_def sample_size_def Suc_le_eq)
    have ch: "distinct ch" "length ch = k" "set ch \<subseteq> {0..<length ms}" using assms(2) [OF k(1)] by (auto simp: ch_def)
    have "length sample = card (set ch \<inter> {0..<length ms})"
      using enum_filter_length [of "set ch" 0 ms] by (simp add: s)
    also have "set ch \<inter> {0..<length ms} = set ch" using ch(3) by blast
    also have "card (set ch) = k" using ch(1,2) distinct_card by blast
    finally have ls: "length sample = k" .
    have ms_split: "mset sample + mset held = mset ms"
      unfolding s by (rule enum_filter_split)
    then have "length sample + length held = length ms" by (metis size_mset size_union)
    then show ?thesis
      using ms_split ls k subseq_order.trans [OF enum_filter_subseq sub]
      by (auto simp: ms_def [symmetric] k_def s)
  qed
qed


section \<open>Concrete runs\<close>

definition demo_reply :: "string \<Rightarrow> web_reply" where
  "demo_reply b = \<lparr>chunks = [b], cut_short = None, disposition = None, content_length = Some (show_nat (length b))\<rparr>"

definition demo_mag_env :: "nat mag_env" where
  "demo_mag_env =
     \<lparr>open_url = (\<lambda>q s. if s = 0 then (Inl (TimeoutError ''t''), 1) else (Inr (demo_reply ''body''), s)),
      cookie_names = (\<lambda>s. []), sleep_for = (\<lambda>d s. s), unescape = id, pdfinfo = (\<lambda>c. Inr ''Pages: 3''),
      qpdf = (\<lambda>cs. (Inr (), Some (concat cs))), exiftool = (\<lambda>t su ks c. c)\<rparr>"

definition demo_mag :: "fs \<Rightarrow> nat mag" where
  "demo_mag t = \<lparr>server = 0, files = t, trace = [], html_cache = []\<rparr>"

lemma demo_qpdf_ok: "qpdf_ok demo_mag_env"
  by (simp add: qpdf_ok_def demo_mag_env_def)


definition demo_issue :: issue where
  "demo_issue = \<lparr>num = 643, slug = ''s'', year = 2017, month = 8\<rparr>"

definition demo_page :: string where
  "demo_page = ''/gwm/articles/s/one/ name='' @ [CHR 0x22] @ ''docid'' @ [CHR 0x22] @ '' value='' @ [CHR 0x22] @ ''1'' @ [CHR 0x22] @
        '' name='' @ [CHR 0x22] @ ''dockey'' @ [CHR 0x22] @ '' value='' @ [CHR 0x22] @ ''k'' @ [CHR 0x22]"

definition demo_synth_env :: "nat mag_env" where
  "demo_synth_env = demo_mag_env\<lparr>open_url := (\<lambda>q s. (Inr (demo_reply (if post_data q \<noteq> [] then ''PDF'' else demo_page)), s))\<rparr>"

lemma demo_synth_qpdf_ok: "qpdf_ok demo_synth_env"
  by (simp add: qpdf_ok_def demo_synth_env_def demo_mag_env_def)

text \<open>With a server that always answers, the network calls return at once.\<close>

lemma retry_first: "m w = (Inr x, w') \<Longrightarrow> retry_request E m w = (Inr x, w')"
  by (simp add: retry_request_def retry_delays_def try_except_def)

lemma demo_get: "http_get demo_synth_env u w = (Inr demo_page, w)"
  unfolding http_get_def
  by (rule retry_first)
    (simp add: bnd_def fetch_reply_def demo_synth_env_def get_request_def of_result_def read_all_def demo_reply_def body_of_def)

lemma demo_download:
  "path_name dest \<noteq> [] \<Longrightarrow> post_data q \<noteq> [] \<Longrightarrow>
   \<exists>w'. download_request demo_synth_env q dest w = (Inr (3, []), w') \<and> server w' = server w \<and> html_cache w' = html_cache w \<and>
     fs_is_file (files w') dest"
proof -
  assume d: "path_name dest \<noteq> []" and q: "post_data q \<noteq> []"
  let ?w = "w\<lparr>files := fs_mkdirs (path_parent dest) (files w), trace := files w # trace w\<rparr>"
  have "check_length (demo_reply ''PDF'') = Inr 3" by code_simp
  then obtain w' where w': "download_fetch demo_synth_env q dest ?w = (Inr (3, []), w')"
    "server w' = server w" "html_cache w' = html_cache w"
    using q by (simp add: download_fetch_def Let_def bnd_def attempt_def fetch_reply_def demo_synth_env_def change_def
        of_result_def ret_def body_of_def demo_reply_def)
  have r: "download_request demo_synth_env q dest w = (Inr (3, []), w')"
    using retry_first [of "download_fetch demo_synth_env q dest" ?w "(3, [])" w' demo_synth_env] w'(1)
    by (simp add: download_request_def bnd_def change_def)
  have "fs_is_file (files w') dest" using download_request_effect [OF r d] by (auto simp: fs_is_file_read)
  with r w' show ?thesis by blast
qed

lemma pause_demo: "pause demo_synth_env d w = (Inr (), w)"
  by (simp add: pause_def demo_synth_env_def demo_mag_env_def)

lemma demo_forms:
  "form_in u demo_page = Inr (''1'', ''k'')" "article_slugs_in ''gwm'' ''s'' demo_page = [''one'']"
  "full_issue_in ''gwm'' ''s'' demo_page = None"
proof -
  have "(case (re_search docid_rx demo_page, re_search dockey_rx demo_page) of
        (Some a, Some b) \<Rightarrow> (group_text a 1, group_text b 1) = (''1'', ''k'') | _ \<Rightarrow> False)" by code_simp
  then show "form_in u demo_page = Inr (''1'', ''k'')" by (auto simp: form_in_def split: option.splits)
  show "article_slugs_in ''gwm'' ''s'' demo_page = [''one'']" "full_issue_in ''gwm'' ''s'' demo_page = None" by code_simp+
qed

lemma demo_synth_run:
  assumes "html_cache w = []"
  shows "\<exists>rs w'. synthesise_from_articles demo_synth_env demo_issue [''o''] 0 w =
      (Inr (Some [''o'', ''2017'', ''08_GW_2017-08_synthetic.pdf''], rs), w')"
proof -
  define work where "work = [''o'', ''2017'', ''08_GW_2017-08_parts'']"
  define tmp where "tmp = work @ [''01_one.pdf'']"
  have names: "year_dir [''o''] 2017 = [''o'', ''2017'']" "issue_stem demo_issue = ''08_GW_2017-08''"
    "zero_pad 2 1 @ ''_'' @ take 60 ''one'' @ ''.pdf'' = ''01_one.pdf''" by code_simp+
  obtain w1 where w1: "article_slugs_in_order demo_synth_env ''s'' w = (Inr [''one''], w1)"
    using assms by (simp add: article_slugs_in_order_def bnd_def issue_html_def demo_get modify_def ret_def demo_forms)
  obtain w2 where w2: "change (fs_mkdirs work) w1 = (Inr (), w2)" by (simp add: change_def)
  have "path_name tmp \<noteq> []" unfolding tmp_def work_def by code_simp
  then obtain w3 where w3: "download_request demo_synth_env
      \<lparr>url = tmp_php, post_data = [(''docid'', ''1''), (''dockey'', ''k'')], referer = Some (article_url ''s'' ''one'')\<rparr> tmp w2 =
      (Inr (3, []), w3)" "fs_is_file (files w3) tmp"
    using demo_download [of tmp
        "\<lparr>url = tmp_php, post_data = [(''docid'', ''1''), (''dockey'', ''k'')], referer = Some (article_url ''s'' ''one'')\<rparr>" w2]
    by auto
  have pages: "pdf_page_count demo_synth_env tmp w3 = (Inr 3, w3)"
  proof -
    have "pages_line (splitlines ''Pages: 3'') = Some (Inr 3)" by code_simp
    then show ?thesis using w3(2) by (auto simp: pdf_page_count_def fs_is_file_read demo_synth_env_def demo_mag_env_def)
  qed
  have one: "try_article demo_synth_env demo_issue work 0 (1, ''one'') no_synth w2 =
      (Inr (add_article 1 ''one'' (article_url ''s'' ''one'') (parse_article_meta demo_synth_env demo_page) tmp 3 3 no_synth, False), w3)"
    using names(3)
    by (simp add: try_article_def Let_def bnd_def attempt_def scrape_form_def demo_get demo_forms of_result_def ret_def
        fetch_article_def http_post_stream_def w3(1) pages pause_demo demo_issue_def tmp_def [symmetric])
  define st where "st = add_article 1 ''one'' (article_url ''s'' ''one'') (parse_article_meta demo_synth_env demo_page) tmp 3 3 no_synth"
  have i: "slug demo_issue = ''s''" "year demo_issue = 2017" by (simp_all add: demo_issue_def)
  have arts: "synth_articles demo_synth_env demo_issue work 0 (enum_from 1 [''one'']) no_synth w2 = (Inr (st, False), w3)"
    using one by (simp add: bnd_def st_def ret_def)
  have parts: "parts st = [tmp]" by (simp add: st_def add_article_def no_synth_def)
  have dir: "year_dir [''o''] 2017 @ [issue_stem demo_issue @ ''_parts''] = work" 
    "year_dir [''o''] 2017 @ [issue_stem demo_issue @ ''_synthetic.pdf''] = [''o'', ''2017'', ''08_GW_2017-08_synthetic.pdf'']"
    by (simp_all add: names work_def)
  show ?thesis
    unfolding synthesise_from_articles_def i dir Let_def
    using w1 w2 arts parts
    by (simp add: bnd_def qpdf_merge_def demo_synth_env_def demo_mag_env_def change_def of_result_def ret_def)
qed

theorem synthesised_pages_contiguous_witness:
  "\<exists>p rs w'. synthesise_from_articles demo_synth_env demo_issue [''o''] 0 (demo_mag []) = (Inr (Some p, rs), w') \<and>
     page_ranges rs \<noteq> [] \<and> (\<exists>pages. contiguous 0 (page_ranges rs) pages)"
proof -
  have "html_cache (demo_mag []) = []" by (simp add: demo_mag_def)
  from demo_synth_run [OF this] obtain p rs w'
    where r: "synthesise_from_articles demo_synth_env demo_issue [''o''] 0 (demo_mag []) = (Inr (Some p, rs), w')" by blast
  from synthesised_pages_contiguous [OF r demo_synth_qpdf_ok] r show ?thesis by blast
qed

text \<open>An issue whose PDF is there and whose page lists no articles gets its sidecar.\<close>

definition demo_half :: "nat mag" where
  "demo_half = (demo_mag [([''o'', ''2017'', ''08_x.pdf''], NFile ''PDF''), ([''o'', ''2017''], NDir)])\<lparr>html_cache := [(''s'', [])]\<rparr>"

lemma demo_half_artifacts: "existing_artifacts (files demo_half) [''o''] 2017 8 = (Some [''o'', ''2017'', ''08_x.pdf''], None)"
  by code_simp

lemma demo_process_run:
  "\<exists>w'. process_issue demo_synth_env demo_issue [''o''] 0 False demo_half =
     (Inr (SidecarOnly [''o'', ''2017'', ''08_x.pdf''] [''o'', ''2017'', ''08_x.json'']), w')"
proof -
  have page: "issue_html demo_synth_env ''s'' demo_half = (Inr [], demo_half)"
    by (simp add: issue_html_def demo_half_def)
  have none: "article_slugs_in ''gwm'' ''s'' [] = []" by code_simp
  have names: "with_suffix [''o'', ''2017'', ''08_x.pdf''] ''.json'' = [''o'', ''2017'', ''08_x.json'']"
    "contains (path_name [''o'', ''2017'', ''08_x.pdf'']) ''_synthetic'' = False" by code_simp+
  obtain sc kws where sc: "build_sidecar_for_native demo_synth_env demo_issue [''o'', ''2017'', ''08_x.pdf''] (0 * (1 / 2)) demo_half =
      (Inr (sc, kws), demo_half)"
    by (simp add: build_sidecar_for_native_def article_slugs_in_order_def bnd_def demo_issue_def page none ret_def)
  obtain w1 where e: "embed_pdf_metadata demo_synth_env [''o'', ''2017'', ''08_x.pdf''] (issue_title demo_issue) kws
      ''Grapegrower & Winemaker'' demo_half = (Inr (), w1)"
    by (cases "fs_read (files demo_half) [''o'', ''2017'', ''08_x.pdf'']") (simp_all add: embed_pdf_metadata_def change_def)
  show ?thesis
    using demo_half_artifacts sc e
    by (simp add: process_issue_def demo_issue_def complete_sidecar_def bnd_def names write_sidecar_def Let_def change_def ret_def)
qed

theorem processed_issue_is_skipped_witness:
  "\<exists>w' p'. process_issue demo_synth_env demo_issue [''o''] 0 False w' = (Inr (SkipComplete p'), w')"
proof -
  obtain w' where r: "process_issue demo_synth_env demo_issue [''o''] 0 False demo_half =
     (Inr (SidecarOnly [''o'', ''2017'', ''08_x.pdf''] [''o'', ''2017'', ''08_x.json'']), w')"
    using demo_process_run by blast
  have st: "archived_pdf (SidecarOnly [''o'', ''2017'', ''08_x.pdf''] [''o'', ''2017'', ''08_x.json'']) =
      Some [''o'', ''2017'', ''08_x.pdf'']" by code_simp
  have "ends_with (last [''o'', ''2017'', ''08_x.pdf'']) ''.pdf''" by code_simp
  from processed_issue_is_skipped [OF r demo_synth_qpdf_ok st this refl] show ?thesis by blast
qed

theorem crash_leaves_no_unfinished_pdf_witness:
  "\<exists>r w'. download_full_issue demo_mag_env demo_issue [''o''] 0 (demo_mag []) = (r, w') \<and>
    through (\<lambda>t. \<forall>x. ends_with x ''.pdf'' \<longrightarrow>
      fs_exists t (year_dir [''o''] 2017 @ [month_prefix 8 @ x]) \<longrightarrow>
      fs_exists [] (year_dir [''o''] 2017 @ [month_prefix 8 @ x])) (demo_mag []) w'"
proof -
  obtain r w' where r: "download_full_issue demo_mag_env demo_issue [''o''] 0 (demo_mag []) = (r, w')" by fastforce
  from crash_leaves_no_unfinished_pdf [OF r] r show ?thesis by (auto simp: demo_issue_def demo_mag_def)
qed

definition first_k :: "nat \<Rightarrow> nat \<Rightarrow> nat list" where
  "first_k n k = [0..<k]"

theorem backfill_sample_partitions_witness:
  "\<exists>sample held. split_backfill_sample first_k [(3, ''c''), (2, ''b''), (1, ''a'')] [] [''o''] (1 / 4) = (sample, held) \<and>
     mset sample + mset held = mset (filter (\<lambda>iss. \<not> complete [] [''o''] (fst iss)) [(3, ''c''), (2, ''b''), (1, ''a'')])"
proof -
  obtain sample held where r: "split_backfill_sample first_k [(3, ''c''), (2, ''b''), (1, ''a'')] [] [''o''] (1 / 4) = (sample, held)"
    by fastforce
  have "k \<le> n \<Longrightarrow> distinct (first_k n k) \<and> length (first_k n k) = k \<and> set (first_k n k) \<subseteq> {0..<n}" for n k
    by (auto simp: first_k_def)
  from backfill_sample_partitions [OF r this] r show ?thesis by blast
qed




end
