(* ===== verification/Wvj_Archive.thy ===== *)
theory Wvj_Archive
  imports Gwm_Archiver
begin

text \<open>
  The one-shot archiver of the Wine & Viticulture Journal (scripts/wvj-archive.py). It
  scrapes the same site as the Grapegrower & Winemaker archiver with the definitions of
  Magazine_Site; what differs is modelled here: no retries, a download that trusts the
  end of the stream, names made of volume and number, and errors noted per article.
\<close>

section \<open>Slugs\<close>

definition slug_rx :: rx where
  "slug_rx =
     rseq [RLit ''volume-'', RGroup 1 rdigits, RLit ''-no-'', RGroup 2 rdigits,
           ropt (RSeq (RLit ''-'') (RGroup 3 (rrep 4 (RSet is_digit))))]"

definition off_slug_rx :: rx where
  "off_slug_rx = rseq [RLit ''volume-no-'', RGroup 1 rdigits, RLit ''-'', RGroup 2 (rrep 4 (RSet is_digit))]"

definition group_int :: "rmatch \<Rightarrow> nat \<Rightarrow> int" where
  "group_int m i = int (read_nat (group_text m i))"

definition parse_slug :: "string \<Rightarrow> exn + int \<times> int \<times> int option" where
  "parse_slug sl =
     (case re_search slug_rx sl of
        Some m \<Rightarrow> Inr (group_int m 1, group_int m 2, if group_text m 3 = [] then None else Some (group_int m 3))
      | None \<Rightarrow>
          (case re_match off_slug_rx sl of
             Some m \<Rightarrow> Inr (33, group_int m 1, Some (group_int m 2))
           | None \<Rightarrow> Inl (ValueError (''cannot parse volume/issue from slug: '' @ sl))))"

section \<open>Requests\<close>

definition wvj_http_get :: "'s mag_env \<Rightarrow> string \<Rightarrow> ('s mag, string) prog" where
  "wvj_http_get E u = bnd (fetch_reply E (get_request u)) (\<lambda>r. of_result (read_all r))"

text \<open>Whatever arrives before the stream ends is the file: the announced length is not looked at.\<close>

definition wvj_http_post_stream :: "'s mag_env \<Rightarrow> web_request \<Rightarrow> path \<Rightarrow> ('s mag, nat \<times> string) prog" where
  "wvj_http_post_stream E q dest =
     (let tmp = part_of dest in
      bnd (change (fs_mkdirs (path_parent dest))) (\<lambda>_.
      bnd (fetch_reply E q) (\<lambda>r.
      bnd (change (fs_write tmp (body_of r))) (\<lambda>_.
        let cd = (case disposition r of None \<Rightarrow> [] | Some c \<Rightarrow> c) in
        case cut_short r of
          Some e \<Rightarrow> raise e
        | None \<Rightarrow>
            if body_of r = [] then bnd (change (fs_unlink tmp)) (\<lambda>_. ret (0, cd))
            else bnd (change (fs_rename tmp dest)) (\<lambda>_. ret (length (body_of r), cd))))))"

definition wvj_login_request :: "string \<Rightarrow> string \<Rightarrow> web_request" where
  "wvj_login_request us pw =
     \<lparr>url = base_url @ ''/wp-login.php'',
      post_data = [(''log'', us), (''pwd'', pw), (''wp-submit'', ''Log In''),
                   (''redirect_to'', base_url @ ''/wvj/''), (''testcookie'', ''1'')],
      referer = None\<rparr>"

definition wvj_login :: "'s mag_env \<Rightarrow> string \<Rightarrow> string \<Rightarrow> ('s mag, unit) prog" where
  "wvj_login E us pw =
     bnd (bnd (fetch_reply E (wvj_login_request us pw)) (\<lambda>r. of_result (read_all r))) (\<lambda>_.
     bnd (gets (\<lambda>w. cookie_names E (server w))) (\<lambda>names.
       if list_ex (\<lambda>c. starts_with c ''wordpress_logged_in_'') names then ret ()
       else raise (SystemExit ''ERROR: login failed'')))"

section \<open>The site\<close>

definition wvj_slug_rx :: rx where
  "wvj_slug_rx = rseq [RLit ''/wvj/articles/'', RGroup 1 (rplus (RSet slug_char)), RLit ''/'']"

definition full_issue_suffix :: string where "full_issue_suffix = ''-full-issue''"

text \<open>The loop over the links: the slugs found so far, in order\<close>

definition note_slug :: "string list \<Rightarrow> string \<Rightarrow> string list" where
  "note_slug slugs s =
     (if s \<in> set slugs \<or> s = ''feed'' then slugs
      else
        let p = (if ends_with s full_issue_suffix then take (length s - length full_issue_suffix) s else s) in
        if p \<noteq> s \<and> p \<in> set slugs then slugs
        else case parse_slug p of Inl _ \<Rightarrow> slugs | Inr _ \<Rightarrow> slugs @ [p])"

definition slugs_in :: "string \<Rightarrow> string list" where
  "slugs_in html = foldl note_slug [] (map (\<lambda>m. group_text m 1) (re_finditer wvj_slug_rx html))"

definition wvj_list_issues :: "'s mag_env \<Rightarrow> ('s mag, string list) prog" where
  "wvj_list_issues E = bnd (wvj_http_get E (base_url @ ''/wvj/articles/'')) (\<lambda>html. ret (slugs_in html))"

definition wvj_issue_url :: "string \<Rightarrow> string" where
  "wvj_issue_url sl = base_url @ ''/wvj/articles/'' @ sl @ ''/''"

definition wvj_article_url :: "string \<Rightarrow> string \<Rightarrow> string" where
  "wvj_article_url sl aslug = wvj_issue_url sl @ aslug @ ''/''"

definition wvj_issue_html :: "'s mag_env \<Rightarrow> string \<Rightarrow> ('s mag, string) prog" where
  "wvj_issue_html E sl w =
     (case map_of (html_cache w) sl of
        Some h \<Rightarrow> (Inr h, w)
      | None \<Rightarrow>
          bnd (wvj_http_get E (wvj_issue_url sl)) (\<lambda>h.
          bnd (modify (\<lambda>w. w\<lparr>html_cache := AList.update sl h (html_cache w)\<rparr>)) (\<lambda>_. ret h)) w)"

definition wvj_find_full_issue_slug :: "'s mag_env \<Rightarrow> string \<Rightarrow> ('s mag, string option) prog" where
  "wvj_find_full_issue_slug E sl = bnd (wvj_issue_html E sl) (\<lambda>h. ret (full_issue_in ''wvj'' sl h))"

definition wvj_article_slugs :: "'s mag_env \<Rightarrow> string \<Rightarrow> ('s mag, string list) prog" where
  "wvj_article_slugs E sl = bnd (wvj_issue_html E sl) (\<lambda>h. ret (article_slugs_in ''wvj'' sl h))"

definition wvj_key_char :: "char \<Rightarrow> bool" where
  "wvj_key_char c \<longleftrightarrow> is_alpha c \<or> c \<in> set '' ()&;''"

definition wvj_article_meta :: "'s mag_env \<Rightarrow> string \<Rightarrow> art_meta" where
  "wvj_article_meta E html = meta_of_page (unescape E) (field_rx wvj_key_char) (replace_all ''&amp;'' ''&'') html"

definition wvj_scrape_form :: "'s mag_env \<Rightarrow> string \<Rightarrow> ('s mag, string \<times> string \<times> art_meta) prog" where
  "wvj_scrape_form E u =
     bnd (wvj_http_get E u) (\<lambda>html.
     bnd (of_result (form_in u html)) (\<lambda>(docid, dockey). ret (docid, dockey, wvj_article_meta E html)))"

definition wvj_filename_from_cd :: "string \<Rightarrow> string \<Rightarrow> string" where
  "wvj_filename_from_cd cd fallback = (case re_search cd_rx cd of Some m \<Rightarrow> group_text m 1 | None \<Rightarrow> fallback)"

section \<open>One issue\<close>

record wvj_issue =
  w_slug :: string
  w_vol :: int
  w_num :: int
  w_year :: int

definition vol_prefix :: "wvj_issue \<Rightarrow> string" where
  "vol_prefix i = ''V'' @ show_int (w_vol i) @ ''-'' @ show_int (w_num i) @ ''_''"

definition vol_name :: "wvj_issue \<Rightarrow> string" where
  "vol_name i = ''WVJ_V'' @ show_int (w_vol i) @ ''-I'' @ show_int (w_num i) @ ''_'' @ show_int (w_year i)"

definition wvj_existing_artifacts :: "fs \<Rightarrow> path \<Rightarrow> wvj_issue \<Rightarrow> path option \<times> path option" where
  "wvj_existing_artifacts t base i = artifacts_with t (year_dir base (w_year i)) (vol_prefix i)"

definition wvj_staging :: "wvj_issue \<Rightarrow> path \<Rightarrow> path" where
  "wvj_staging i base = year_dir base (w_year i) @ [vol_prefix i @ ''DOWNLOADING.pdf'']"

definition form_request :: "string \<times> string \<times> art_meta \<Rightarrow> string \<Rightarrow> web_request" where
  "form_request form u =
     (case form of (docid, dockey, _) \<Rightarrow>
        \<lparr>url = tmp_php, post_data = [(''docid'', docid), (''dockey'', dockey)], referer = Some u\<rparr>)"

text \<open>The name the server proposes may contain separators: the final path is joined from it.\<close>

definition wvj_final :: "wvj_issue \<Rightarrow> path \<Rightarrow> string \<Rightarrow> path" where
  "wvj_final i base cd =
     path_join (year_dir base (w_year i)) (vol_prefix i @ wvj_filename_from_cd cd (vol_name i @ ''.pdf''))"

definition wvj_download_full_issue :: "'s mag_env \<Rightarrow> wvj_issue \<Rightarrow> path \<Rightarrow> rat \<Rightarrow> ('s mag, path option) prog" where
  "wvj_download_full_issue E i base sleep_s =
     bnd (wvj_find_full_issue_slug E (w_slug i)) (\<lambda>full.
       case full of
         None \<Rightarrow> ret None
       | Some f \<Rightarrow>
           let u = wvj_article_url (w_slug i) f in
           bnd (wvj_scrape_form E u) (\<lambda>form.
           bnd (wvj_http_post_stream E (form_request form u) (wvj_staging i base)) (\<lambda>(n, cd).
             if n = 0 then ret None
             else
               bnd (change (fs_rename (wvj_staging i base) (wvj_final i base cd))) (\<lambda>_.
               bnd (pause E sleep_s) (\<lambda>_. ret (Some (wvj_final i base cd)))))))"

definition wvj_fetch_article ::
  "'s mag_env \<Rightarrow> path \<Rightarrow> rat \<Rightarrow> nat \<Rightarrow> string \<Rightarrow> string \<Rightarrow> string \<times> string \<times> art_meta \<Rightarrow> synth \<Rightarrow>
     ('s mag, synth \<times> bool) prog" where
  "wvj_fetch_article E work sleep_s idx aslug u form st =
     (let meta = snd (snd form); tmp = work @ [zero_pad 2 (int idx) @ ''_'' @ take 60 aslug @ ''.pdf''] in
      bnd (wvj_http_post_stream E (form_request form u) tmp) (\<lambda>(n, _).
        if n = 0 then
          bnd (pause E sleep_s) (\<lambda>_. skip_article work (EmptyPdf idx aslug u (m_title meta)) st)
        else
          bnd (pdf_page_count E tmp) (\<lambda>pages.
          bnd (pause E sleep_s) (\<lambda>_. ret (add_article idx aslug u meta tmp n pages st, False)))))"

definition wvj_try_article ::
  "'s mag_env \<Rightarrow> wvj_issue \<Rightarrow> path \<Rightarrow> rat \<Rightarrow> nat \<times> string \<Rightarrow> synth \<Rightarrow> ('s mag, synth \<times> bool) prog" where
  "wvj_try_article E i work sleep_s a st =
     (let u = wvj_article_url (w_slug i) (snd a) in
      bnd (attempt (wvj_scrape_form E u)) (\<lambda>form.
        case form of
          Inr f \<Rightarrow> wvj_fetch_article E work sleep_s (fst a) (snd a) u f st
        | Inl e \<Rightarrow>
            if is_exception e then skip_article work (NoForm (fst a) (snd a) u (exn_text e)) st else raise e))"

primrec wvj_synth_articles ::
  "'s mag_env \<Rightarrow> wvj_issue \<Rightarrow> path \<Rightarrow> rat \<Rightarrow> (nat \<times> string) list \<Rightarrow> synth \<Rightarrow> ('s mag, synth \<times> bool) prog" where
  "wvj_synth_articles E i work sleep_s [] st = ret (st, False)"
| "wvj_synth_articles E i work sleep_s (a # rest) st =
     bnd (wvj_try_article E i work sleep_s a st) (\<lambda>(st', bailed).
       if bailed then ret (st', True) else wvj_synth_articles E i work sleep_s rest st')"

definition wvj_synthesise :: "'s mag_env \<Rightarrow> wvj_issue \<Rightarrow> path \<Rightarrow> rat \<Rightarrow> ('s mag, path option \<times> art_rec list) prog" where
  "wvj_synthesise E i base sleep_s =
     bnd (wvj_article_slugs E (w_slug i)) (\<lambda>slugs.
       let dir = year_dir base (w_year i);
           final = dir @ [vol_prefix i @ vol_name i @ ''_synthetic.pdf''];
           work = dir @ [vol_prefix i @ show_int (w_year i) @ ''_parts'']
       in if slugs = [] then ret (None, [])
          else
            bnd (change (fs_mkdirs work)) (\<lambda>_.
            bnd (wvj_synth_articles E i work sleep_s (enum_from 1 slugs) no_synth) (\<lambda>(st, bailed).
              if bailed then ret (None, records st)
              else if parts st = [] then bnd (change (fs_rmtree work)) (\<lambda>_. ret (None, records st))
              else
                bnd (qpdf_merge E (parts st) final) (\<lambda>_.
                bnd (change (fs_rmtree work)) (\<lambda>_. ret (Some final, records st))))))"

section \<open>The sidecar\<close>

definition wvj_native_article ::
  "'s mag_env \<Rightarrow> wvj_issue \<Rightarrow> rat \<Rightarrow> nat \<times> string \<Rightarrow> (json \<times> string list) list \<Rightarrow> ('s mag, (json \<times> string list) list) prog" where
  "wvj_native_article E i sleep_s a acc =
     (let u = wvj_article_url (w_slug i) (snd a) in
      bnd (attempt (wvj_http_get E u)) (\<lambda>got.
      bnd (case got of
             Inr html \<Rightarrow>
               (let meta = wvj_article_meta E html in ret (meta_json meta u (fst a), m_keywords meta))
           | Inl e \<Rightarrow>
               if is_exception e
               then ret (JObj [(''order'', JInt (int (fst a))), (''url'', JStr u), (''_error'', JStr (exn_text e))], [])
               else raise e) (\<lambda>x.
      bnd (pause E (sleep_s * (1 / 2))) (\<lambda>_. ret (acc @ [x])))))"

definition wvj_title :: "wvj_issue \<Rightarrow> string" where
  "wvj_title i =
     ''Wine & Viticulture Journal Vol '' @ show_int (w_vol i) @ '' No '' @ show_int (w_num i) @
     '' ('' @ show_int (w_year i) @ '')''"

definition wvj_sidecar_json :: "wvj_issue \<Rightarrow> path \<Rightarrow> bool \<Rightarrow> json list \<Rightarrow> json" where
  "wvj_sidecar_json i pdf synthetic articles =
     JObj ([(''publication'', JStr ''Wine & Viticulture Journal''), (''volume'', JInt (w_vol i)),
            (''issue'', JInt (w_num i)), (''year'', JInt (w_year i)), (''title'', JStr (wvj_title i)),
            (''issue_url'', JStr (wvj_issue_url (w_slug i))), (''issue_slug'', JStr (w_slug i)),
            (''pdf_path'', JStr (path_str pdf)), (''pdf_filename'', JStr (path_name pdf)),
            (''synthetic'', JBool synthetic)] @
           (if synthetic
            then [(''synthesis_note'', JStr (''Merged from per-article PDFs because winetitles '' @
                   ''does not publish a single FULL ISSUE PDF for this issue.''))] else []) @
           [(''articles'', JArr articles)])"

definition build_sidecar ::
  "'s mag_env \<Rightarrow> wvj_issue \<Rightarrow> path \<Rightarrow> bool \<Rightarrow> art_rec list option \<Rightarrow> rat \<Rightarrow> ('s mag, json \<times> string list) prog" where
  "build_sidecar E i pdf synthetic rs sleep_s =
     (case (synthetic, rs) of
        (True, Some r) \<Rightarrow> ret (wvj_sidecar_json i pdf synthetic (map rec_json r), concat (map rec_keywords r))
      | _ \<Rightarrow>
          bnd (wvj_article_slugs E (w_slug i)) (\<lambda>slugs.
          bnd (for_each (enum_from 1 slugs) (wvj_native_article E i sleep_s) []) (\<lambda>arts.
            ret (wvj_sidecar_json i pdf synthetic (map fst arts), concat (map snd arts)))))"

section \<open>Processing and the run\<close>

datatype wvj_status =
    BadSlug string
  | WSkip path
  | WNoPdf
  | WDownloaded path
  | WSynthesised path
  | WSidecar path
  | WError string

definition wvj_obtain_pdf ::
  "'s mag_env \<Rightarrow> wvj_issue \<Rightarrow> path \<Rightarrow> rat \<Rightarrow> ('s mag, (path \<times> art_rec list option) option) prog" where
  "wvj_obtain_pdf E i base sleep_s =
     bnd (wvj_download_full_issue E i base sleep_s) (\<lambda>full.
       case full of
         Some p \<Rightarrow> ret (Some (p, None))
       | None \<Rightarrow>
           bnd (wvj_synthesise E i base sleep_s) (\<lambda>(p, rs).
             ret (case p of None \<Rightarrow> None | Some q \<Rightarrow> Some (q, Some rs))))"

definition wvj_complete_sidecar ::
  "'s mag_env \<Rightarrow> wvj_issue \<Rightarrow> rat \<Rightarrow> path \<Rightarrow> bool \<Rightarrow> art_rec list option \<Rightarrow> path option \<Rightarrow> ('s mag, unit) prog" where
  "wvj_complete_sidecar E i sleep_s pdf synthetic rs existing =
     (case existing of
        Some j \<Rightarrow> ret ()
      | None \<Rightarrow>
          bnd (build_sidecar E i pdf synthetic rs sleep_s) (\<lambda>(sidecar, kws).
          bnd (embed_pdf_metadata E pdf (wvj_title i) kws
                 (if synthetic then ''Wine & Viticulture Journal (synthetic full issue)'' else ''Wine & Viticulture Journal'')) (\<lambda>_.
          bnd (write_sidecar pdf sidecar) (\<lambda>_. ret ()))))"

definition process_parsed :: "'s mag_env \<Rightarrow> wvj_issue \<Rightarrow> path \<Rightarrow> rat \<Rightarrow> ('s mag, wvj_status) prog" where
  "process_parsed E i base sleep_s w =
     (case wvj_existing_artifacts (files w) base i of
        (Some pdf, Some j) \<Rightarrow> ret (WSkip pdf) w
      | (Some pdf, None) \<Rightarrow>
          bnd (wvj_complete_sidecar E i sleep_s pdf (contains (path_name pdf) ''_synthetic'') None None) (\<lambda>_.
          ret (WSidecar pdf)) w
      | (None, j) \<Rightarrow>
          bnd (wvj_obtain_pdf E i base sleep_s) (\<lambda>got.
            case got of
              None \<Rightarrow> ret WNoPdf
            | Some (p, rs) \<Rightarrow>
                bnd (wvj_complete_sidecar E i sleep_s p (rs \<noteq> None) rs j) (\<lambda>_.
                ret (if rs \<noteq> None then WSynthesised p else WDownloaded p))) w)"

definition wvj_process_issue :: "'s mag_env \<Rightarrow> string \<Rightarrow> path \<Rightarrow> rat \<Rightarrow> ('s mag, wvj_status) prog" where
  "wvj_process_issue E sl base sleep_s =
     (case parse_slug sl of
        Inl e \<Rightarrow> ret (BadSlug (exn_text e))
      | Inr (vol, no, None) \<Rightarrow> ret (BadSlug (''no year in '' @ sl))
      | Inr (vol, no, Some y) \<Rightarrow>
          process_parsed E \<lparr>w_slug = sl, w_vol = vol, w_num = no, w_year = y\<rparr> base sleep_s)"

definition wvj_status_name :: "wvj_status \<Rightarrow> string" where
  "wvj_status_name s =
     (case s of BadSlug _ \<Rightarrow> ''bad-slug'' | WSkip _ \<Rightarrow> ''skip-complete'' | WNoPdf \<Rightarrow> ''no-pdf'' | WDownloaded _ \<Rightarrow> ''downloaded''
      | WSynthesised _ \<Rightarrow> ''synthesised'' | WSidecar _ \<Rightarrow> ''sidecar-only'' | WError _ \<Rightarrow> ''error'')"

definition wvj_one :: "'s mag_env \<Rightarrow> path \<Rightarrow> rat \<Rightarrow> string \<Rightarrow> counts \<Rightarrow> ('s mag, counts) prog" where
  "wvj_one E base sleep_s sl counts =
     bnd (try_except (wvj_process_issue E sl base sleep_s)
            (\<lambda>e. if is_exception e then ret (WError (exn_text e)) else raise e)) (\<lambda>s.
     bnd (modify (\<lambda>w. w\<lparr>html_cache := AList.delete sl (html_cache w)\<rparr>)) (\<lambda>_.
       ret (bump_count (wvj_status_name s) counts)))"

definition wvj_main :: "'s mag_env \<Rightarrow> gwm_config \<Rightarrow> ('s mag, int) prog" where
  "wvj_main E c =
     (if user c \<in> {None, Some []} \<or> pwd c \<in> {None, Some []} then raise (SystemExit ''ERROR: set WT_USER + WT_PASS'')
      else case find (\<lambda>t. t \<notin> set (tools c)) [''qpdf'', ''pdfinfo'', ''exiftool''] of
        Some t \<Rightarrow> raise (SystemExit (''ERROR: missing tool: '' @ t))
      | None \<Rightarrow>
          bnd (wvj_login E (the (user c)) (the (pwd c))) (\<lambda>_.
          bnd (wvj_list_issues E) (\<lambda>slugs.
          bnd (for_each slugs (wvj_one E (out_root c) (sleep_secs c)) []) (\<lambda>counts.
            ret (exit_code counts)))))"

section \<open>Downloads, next to those of the other archiver\<close>

definition cd_of :: "web_reply \<Rightarrow> string" where
  "cd_of r = (case disposition r of None \<Rightarrow> [] | Some c \<Rightarrow> c)"

lemma wvj_post_run:
  assumes "open_url E q (server w) = (Inr r, s)" "cut_short r = None"
  shows "\<exists>w'. wvj_http_post_stream E q dest w = (Inr (length (body_of r), cd_of r), w') \<and>
    files w' = (let t = fs_write (part_of dest) (body_of r) (fs_mkdirs (path_parent dest) (files w)) in
      if body_of r = [] then fs_unlink (part_of dest) t else fs_rename (part_of dest) dest t)"
  using assms
  by (auto simp: wvj_http_post_stream_def Let_def bnd_def change_def fetch_reply_def ret_def cd_of_def)




text \<open>
  A response that ends before its announced length is published as the journal's PDF:
  the download reports success and the target holds the truncated bytes, where the other
  archiver's length check fails.
\<close>

theorem truncated_download_is_published:
  assumes "open_url E q (server w) = (Inr r, s)" "cut_short r = None" "body_of r \<noteq> []"
    and "check_length r = Inl (IncompleteRead missing)"
  shows "\<exists>w'. wvj_http_post_stream E q dest w = (Inr (length (body_of r), cd_of r), w') \<and>
    fs_read (files w') dest = Some (body_of r) \<and> content_length r \<noteq> None"
proof -
  obtain w' where w': "wvj_http_post_stream E q dest w = (Inr (length (body_of r), cd_of r), w')"
    "files w' = (let t = fs_write (part_of dest) (body_of r) (fs_mkdirs (path_parent dest) (files w)) in
      if body_of r = [] then fs_unlink (part_of dest) t else fs_rename (part_of dest) dest t)"
    using wvj_post_run [OF assms(1,2)] by blast
  have "fs_read (files w') dest = Some (body_of r)"
    using assms(3) w'(2) by (simp add: Let_def fs_read_rename)
  moreover have "content_length r \<noteq> None" using assms(2,4) by (auto simp: check_length_def Let_def split: option.splits)
  ultimately show ?thesis using w'(1) by blast
qed

section \<open>Concrete downloads\<close>

definition web_env :: "web_reply \<Rightarrow> unit mag_env" where
  "web_env r =
     \<lparr>open_url = (\<lambda>q s. (Inr r, s)), cookie_names = (\<lambda>s. []), sleep_for = (\<lambda>d s. s), unescape = id,
      pdfinfo = (\<lambda>c. Inr []), qpdf = (\<lambda>cs. (Inr (), None)), exiftool = (\<lambda>t su ks c. c)\<rparr>"

definition empty_mag :: "unit mag" where
  "empty_mag = \<lparr>server = (), files = [], trace = [], html_cache = []\<rparr>"

definition reply_of :: "string \<Rightarrow> string \<Rightarrow> web_reply" where
  "reply_of body len = \<lparr>chunks = [body], cut_short = None, disposition = None, content_length = Some len\<rparr>"


theorem truncated_download_is_published_witness:
  "\<exists>w'. wvj_http_post_stream (web_env (reply_of ''PDF'' ''100'')) (get_request ''u'') [''d'', ''x.pdf''] empty_mag = (Inr (3, []), w') \<and>
    fs_read (files w') [''d'', ''x.pdf''] = Some ''PDF''"
proof -
  have o: "open_url (web_env (reply_of ''PDF'' ''100'')) (get_request ''u'') (server empty_mag) = (Inr (reply_of ''PDF'' ''100''), ())"
    by (simp add: web_env_def)
  have c: "check_length (reply_of ''PDF'' ''100'') = Inl (IncompleteRead 97)" by code_simp
  have b: "body_of (reply_of ''PDF'' ''100'') = ''PDF''" "cut_short (reply_of ''PDF'' ''100'') = None" "cd_of (reply_of ''PDF'' ''100'') = []"
    by code_simp+
  show ?thesis using truncated_download_is_published [OF o b(2) _ c, of "[''d'', ''x.pdf'']"] by (auto simp: b numeral_3_eq_3)
qed

end
