(* ===== verification/Py_Float.thy ===== *)
theory Py_Float
  imports Py_Dyn Complex_Main
begin

text \<open>
  Python's \<open>float\<close> as an exact rational: reading a decimal text, truncation, floor
  division and fixed-point formatting. The rounding of binary floating point is left out,
  and so are the texts for infinities and for not-a-number.
\<close>

definition pow10 :: "int \<Rightarrow> rat" where
  "pow10 e = (if 0 \<le> e then 10 ^ nat e else 1 / 10 ^ nat (- e))"

text \<open>Digits, a point and digits: the value without the exponent\<close>

definition decimal_body :: "string \<Rightarrow> rat option" where
  "decimal_body s =
     (case partition_char (CHR ''.'') s of
        (a, _, b) \<Rightarrow>
          if (a @ b = []) \<or> \<not> list_all is_digit (a @ b) then None
          else Some (of_nat (read_nat (a @ b)) / 10 ^ length b))"

definition unsigned_float :: "string \<Rightarrow> rat option" where
  "unsigned_float s =
     (case partition_char (CHR ''e'') (lower s) of
        (m, False, _) \<Rightarrow> decimal_body m
      | (m, True, x) \<Rightarrow>
          (case (decimal_body m, py_int x) of
             (Some q, Some e) \<Rightarrow> if x = strip x then Some (q * pow10 e) else None
           | _ \<Rightarrow> None))"

definition py_float :: "string \<Rightarrow> rat option" where
  "py_float s =
     (case strip s of
        [] \<Rightarrow> None
      | c # cs \<Rightarrow>
          if c = CHR ''-'' then map_option uminus (unsigned_float cs)
          else if c = CHR ''+'' then unsigned_float cs
          else unsigned_float (c # cs))"

definition py_float_of :: "json \<Rightarrow> exn + rat" where
  "py_float_of j =
     (case j of
        JInt i \<Rightarrow> Inr (of_int i)
      | JBool b \<Rightarrow> Inr (if b then 1 else 0)
      | JDec m k \<Rightarrow> Inr (of_int m / 10 ^ k)
      | JStr s \<Rightarrow> (case py_float s of
            None \<Rightarrow> Inl (ValueError ''could not convert string to float'') | Some q \<Rightarrow> Inr q)
      | _ \<Rightarrow> Inl (TypeError (''float() argument must be a string or a real number, not '' @ type_name j)))"

text \<open>\<open>int(x)\<close> truncates towards zero; \<open>a // b\<close> is a floor.\<close>

definition trunc :: "rat \<Rightarrow> int" where
  "trunc x = (if x < 0 then - \<lfloor>- x\<rfloor> else \<lfloor>x\<rfloor>)"

text \<open>\<open>round(x)\<close>: ties go to the even neighbour\<close>

definition round_even :: "rat \<Rightarrow> int" where
  "round_even x =
     (let f = \<lfloor>x\<rfloor>; r = x - of_int f in
      if r < 1 / 2 then f else if r > 1 / 2 then f + 1 else if even f then f else f + 1)"

text \<open>\<open>f"{x:.kf}"\<close>\<close>

definition fixed :: "nat \<Rightarrow> rat \<Rightarrow> string" where
  "fixed k x =
     (let n = round_even (\<bar>x\<bar> * 10 ^ k); d = show_nat (nat n);
          p = replicate (Suc k - length d) (CHR ''0'') @ d;
          body = take (length p - k) p @ (if k = 0 then [] else CHR ''.'' # drop (length p - k) p)
      in if x < 0 then CHR ''-'' # body else body)"

definition py_min :: "rat \<Rightarrow> rat \<Rightarrow> rat" where
  "py_min a b = (if b < a then b else a)"

lemma py_min_le [simp]: "py_min a b \<le> a" "py_min a b \<le> b"
  by (auto simp: py_min_def)

lemma trunc_floor: "0 \<le> x \<Longrightarrow> trunc x = \<lfloor>x\<rfloor>"
  by (simp add: trunc_def)

end
