(* ===== verification/Yoto_Prep.thy ===== *)
theory Yoto_Prep
  imports Py_Float Py_Path Py_Regex "HOL-Library.Multiset"
begin

text \<open>
  The preparation of audiobooks for Yoto cards (yoto-share/yoto-prep.py): names and labels,
  the cut of a book into tracks and cards, the preparation of one book with its manifest,
  and the run over all books. ffmpeg, ffprobe, the ZIP format and the file times are
  parameters; durations are exact rationals.
\<close>

section \<open>Limits, names and labels\<close>

definition track_seconds :: rat where "track_seconds = 58 * 60"
definition track_bytes :: rat where "track_bytes = 95 * 1024 * 1024"
definition card_seconds :: rat where "card_seconds = 5 * 3600"
definition card_bytes :: rat where "card_bytes = 500 * 1024 * 1024"
definition card_tracks :: nat where "card_tracks = 100"

lemmas yoto_limits = track_seconds_def track_bytes_def card_seconds_def card_bytes_def card_tracks_def

definition audio_exts :: "string list" where
  "audio_exts = [''.m4b'', ''.m4a'', ''.mp3'']"

definition passthrough_codecs :: "(string \<times> string) list" where
  "passthrough_codecs = [(''mp3'', ''.mp3''), (''aac'', ''.m4a'')]"

definition unsafe_char :: "char \<Rightarrow> bool" where
  "unsafe_char c \<longleftrightarrow> c \<in> set ([CHR 0x5C, CHR 0x22] @ ''/:*?<>|'') \<or> c < CHR 0x20"

definition safe_name :: "string \<Rightarrow> string" where
  "safe_name name =
     (let n = map (\<lambda>c. if unsafe_char c then CHR ''-'' else c) name;
          m = strip_chars ''.'' (strip (re_sub rspaces1 (\<lambda>_. '' '') n));
          r = take 120 m
      in if r = [] then ''Untitled'' else r)"

definition label_letter :: "nat \<Rightarrow> char" where
  "label_letter r = ''ABCDEFGHIJKLMNOPQRSTUVWXYZ'' ! r"

text \<open>The loop that builds the label from its last letter on; the index is one-based here.\<close>

fun label_loop :: "nat \<Rightarrow> string \<Rightarrow> string" where
  "label_loop 0 label = label"
| "label_loop (Suc i) label = label_loop (i div 26) (label_letter (i mod 26) # label)"

definition card_label :: "nat \<Rightarrow> string" where
  "card_label index = ''Card '' @ label_loop (Suc index) []"

section \<open>Tracks\<close>

record segment =
  title :: string
  start :: rat
  stop :: rat

definition duration :: "segment \<Rightarrow> rat" where
  "duration s = stop s - start s"

text \<open>\<open>(ch.get("tags") or {}).get("title", "").strip()\<close>\<close>

definition chapter_title :: "json \<Rightarrow> exn + string" where
  "chapter_title ch =
     rbnd (py_get ch ''tags'') (\<lambda>t.
       case py_or t (JObj []) of
         JObj d \<Rightarrow> py_strip (case map_of d ''title'' of None \<Rightarrow> JStr [] | Some v \<Rightarrow> v)
       | j \<Rightarrow> Inl (no_attribute j ''get''))"

definition chapter_segment :: "rat \<Rightarrow> nat \<times> json \<Rightarrow> exn + segment list" where
  "chapter_segment dur ich =
     (case ich of (i, ch) \<Rightarrow>
        rbnd (py_item ch ''start_time'') (\<lambda>a. rbnd (py_float_of a) (\<lambda>s.
        rbnd (py_item ch ''end_time'') (\<lambda>b. rbnd (py_float_of b) (\<lambda>e0.
          let e = py_min e0 dur in
          if e - s < 1 then Inr []
          else rbnd (chapter_title ch) (\<lambda>t.
            Inr [\<lparr>title = (if t \<noteq> [] then t else ''Chapter '' @ show_nat i), start = s, stop = e\<rparr>]))))))"

text \<open>\<open>info.get("chapters", [])\<close>, and the loop over it when it is true\<close>

definition chapters_of :: "json \<Rightarrow> exn + json" where
  "chapters_of info =
     (case info of
        JObj d \<Rightarrow> Inr (case map_of d ''chapters'' of None \<Rightarrow> JArr [] | Some v \<Rightarrow> v)
      | j \<Rightarrow> Inl (no_attribute j ''get''))"

definition chapter_segments :: "json \<Rightarrow> rat \<Rightarrow> exn + segment list" where
  "chapter_segments info dur =
     rbnd (chapters_of info) (\<lambda>cs.
       if truthy cs
       then rbnd (py_iter cs) (\<lambda>xs. rbnd (rmap (chapter_segment dur) (enum_from 1 xs)) (\<lambda>ss. Inr (concat ss)))
       else Inr [])"

definition slice_len :: rat where "slice_len = 30 * 60"

definition slice_count :: "rat \<Rightarrow> nat" where
  "slice_count dur =
     nat (max 1 (\<lfloor>dur / slice_len\<rfloor> + (if of_int \<lfloor>dur / slice_len\<rfloor> * slice_len \<noteq> dur then 1 else 0)))"

definition slices :: "rat \<Rightarrow> segment list" where
  "slices dur = map (\<lambda>i.
       let s = of_nat i * slice_len in
       \<lparr>title = ''Part '' @ show_nat (i + 1), start = s, stop = py_min (s + slice_len) dur\<rparr>)
     [0..<slice_count dur]"

definition base_segments :: "json \<Rightarrow> rat \<Rightarrow> exn + segment list" where
  "base_segments info dur =
     rbnd (chapter_segments info dur) (\<lambda>ss. Inr (if ss = [] then slices dur else ss))"

definition breaches :: "rat \<Rightarrow> rat \<Rightarrow> nat \<Rightarrow> bool" where
  "breaches dur bps parts \<longleftrightarrow>
     dur / of_nat parts > track_seconds \<or> (dur / of_nat parts) * bps > track_bytes"

lemma breaches_bound:
  assumes "breaches dur bps parts"
  shows "parts < nat \<lceil>max (dur / track_seconds) (dur * bps / track_bytes)\<rceil>"
proof -
  have p: "0 < parts" using assms by (cases parts) (auto simp: breaches_def yoto_limits)
  then have "of_nat parts < max (dur / track_seconds) (dur * bps / track_bytes)"
    using assms by (auto simp: breaches_def yoto_limits field_simps less_max_iff_disj)
  then have "int parts < \<lceil>max (dur / track_seconds) (dur * bps / track_bytes)\<rceil>"
    by (simp add: less_ceiling_iff)
  then show ?thesis by linarith
qed

function count_parts :: "rat \<Rightarrow> rat \<Rightarrow> nat \<Rightarrow> nat" where
  "count_parts dur bps parts = (if breaches dur bps parts then count_parts dur bps (Suc parts) else parts)"
  by pat_completeness auto
termination
  by (relation "measure (\<lambda>(dur, bps, parts). nat \<lceil>max (dur / track_seconds) (dur * bps / track_bytes)\<rceil> - parts)")
    (auto dest: breaches_bound)

declare count_parts.simps [simp del]

definition subdivide :: "rat \<Rightarrow> segment \<Rightarrow> segment list" where
  "subdivide bps seg =
     (let parts = count_parts (duration seg) bps 1; step = duration seg / of_nat parts in
      if parts = 1 then [seg]
      else map (\<lambda>p.
        \<lparr>title = title seg @ '' (Part '' @ show_nat (p + 1) @ '' of '' @ show_nat parts @ '')'',
         start = start seg + of_nat p * step,
         stop = (if p < parts - 1 then start seg + of_nat (p + 1) * step else stop seg)\<rparr>) [0..<parts])"

definition build_segments :: "json \<Rightarrow> rat \<Rightarrow> rat \<Rightarrow> exn + segment list" where
  "build_segments info dur bps = rbnd (base_segments info dur) (\<lambda>ss. Inr (concat (map (subdivide bps) ss)))"

text \<open>The loop of \<open>merge_segments\<close>: the current track, the rest, and the tracks it emits\<close>

definition mergeable :: "rat \<Rightarrow> segment \<Rightarrow> segment \<Rightarrow> bool" where
  "mergeable bps cur seg \<longleftrightarrow>
     (let combined = (stop cur - start cur) + duration seg in
      \<bar>start seg - stop cur\<bar> < 1 \<and> combined \<le> track_seconds \<and> combined * bps \<le> track_bytes)"

fun merge_loop :: "rat \<Rightarrow> segment \<Rightarrow> segment list \<Rightarrow> segment list" where
  "merge_loop bps cur [] = [cur]"
| "merge_loop bps cur (seg # segs) =
     (if mergeable bps cur seg then merge_loop bps (cur\<lparr>stop := stop seg\<rparr>) segs
      else cur # merge_loop bps seg segs)"

definition merge_segments :: "rat \<Rightarrow> segment list \<Rightarrow> segment list" where
  "merge_segments bps segs = (case segs of [] \<Rightarrow> [] | s # ss \<Rightarrow> merge_loop bps s ss)"

section \<open>Cards\<close>

text \<open>
  Both the preparation and the server split lists of things with a duration, so the two
  routines take the duration, and the test of a card, as arguments.
\<close>

definition card_index :: "nat \<Rightarrow> rat \<Rightarrow> rat \<Rightarrow> nat" where
  "card_index n tot mid =
     (if tot = 0 then 0 else nat (min (int n - 1) (trunc (mid / tot * of_nat n))))"

fun split_loop :: "('a \<Rightarrow> rat) \<Rightarrow> nat \<Rightarrow> rat \<Rightarrow> 'a list \<Rightarrow> rat \<Rightarrow> nat \<Rightarrow> 'a list list \<Rightarrow> 'a list list" where
  "split_loop dur n tot [] cum lst cards = cards"
| "split_loop dur n tot (x # xs) cum lst cards =
     (let k = max (card_index n tot (cum + dur x / 2)) lst
      in split_loop dur n tot xs (cum + dur x) k (cards[k := cards ! k @ [x]]))"

definition split_evenly :: "('a \<Rightarrow> rat) \<Rightarrow> 'a list \<Rightarrow> nat \<Rightarrow> 'a list list" where
  "split_evenly dur xs n =
     filter (\<lambda>c. c \<noteq> []) (split_loop dur n (sum_list (map dur xs)) xs 0 0 (replicate n []))"

function pack_from :: "('a \<Rightarrow> rat) \<Rightarrow> ('a list \<Rightarrow> bool) \<Rightarrow> 'a list \<Rightarrow> nat \<Rightarrow> 'a list list" where
  "pack_from dur fits xs n =
     (if n \<le> length xs then
        (let cards = split_evenly dur xs n in
         if list_all fits cards then cards else pack_from dur fits xs (Suc n))
      else map (\<lambda>x. [x]) xs)"
  by pat_completeness auto
termination by (relation "measure (\<lambda>(dur, fits, xs, n). Suc (length xs) - n)") auto

declare pack_from.simps [simp del]

definition seconds :: "segment list \<Rightarrow> rat" where
  "seconds c = sum_list (map duration c)"

definition card_fits :: "rat \<Rightarrow> segment list \<Rightarrow> bool" where
  "card_fits bps c \<longleftrightarrow>
     seconds c \<le> card_seconds \<and> seconds c * bps \<le> card_bytes \<and> length c \<le> card_tracks"

definition ceil_div :: "rat \<Rightarrow> rat \<Rightarrow> nat" where
  "ceil_div a b = nat (max 1 (- \<lfloor>- a / b\<rfloor>))"

definition pack_cards :: "rat \<Rightarrow> segment list \<Rightarrow> segment list list" where
  "pack_cards bps segs =
     (let tot = seconds segs in
      pack_from duration (card_fits bps) segs
        (max (ceil_div tot card_seconds)
          (max (ceil_div (tot * bps) card_bytes) (ceil_div (of_nat (length segs)) (of_nat card_tracks)))))"

section \<open>Facts about tracks\<close>

definition legal_track :: "rat \<Rightarrow> segment \<Rightarrow> bool" where
  "legal_track bps s \<longleftrightarrow> duration s \<le> track_seconds \<and> duration s * bps \<le> track_bytes"

text \<open>The tracks follow each other without a gap from one time to another.\<close>

fun tiles :: "rat \<Rightarrow> segment list \<Rightarrow> rat \<Rightarrow> bool" where
  "tiles a [] b \<longleftrightarrow> a = b"
| "tiles a (s # ss) b \<longleftrightarrow> start s = a \<and> tiles (stop s) ss b"

lemma tiles_append: "tiles a (xs @ ys) c \<longleftrightarrow> (\<exists>b. tiles a xs b \<and> tiles b ys c)"
  by (induction xs arbitrary: a) auto

lemma count_parts_ok: "\<not> breaches dur bps (count_parts dur bps k)"
proof (induction dur bps k rule: count_parts.induct)
  case (1 dur bps parts)
  then show ?case by (cases "breaches dur bps parts") (simp_all add: count_parts.simps [of dur bps parts])
qed

lemma count_parts_ge: "k \<le> count_parts dur bps k"
proof (induction dur bps k rule: count_parts.induct)
  case (1 dur bps parts)
  then show ?case by (cases "breaches dur bps parts") (simp_all add: count_parts.simps [of dur bps parts])
qed

lemma subdivide_duration:
  assumes "s \<in> set (subdivide bps seg)"
  shows "duration s = duration seg / of_nat (count_parts (duration seg) bps 1)"
proof -
  define n where "n = count_parts (duration seg) bps 1"
  have n: "1 \<le> n" unfolding n_def by (rule count_parts_ge)
  show ?thesis
  proof (cases "n = 1")
    case True
    then show ?thesis using assms by (simp add: subdivide_def n_def [symmetric] Let_def del: One_nat_def)
  next
    case False
    define d where "d = duration seg"
    from False assms obtain p where p: "p < n" and s: "start s = start seg + of_nat p * (d / of_nat n)"
      "stop s = (if p < n - 1 then start seg + of_nat (p + 1) * (d / of_nat n) else stop seg)"
      by (auto simp: subdivide_def n_def [symmetric] d_def Let_def simp del: One_nat_def)
    have st: "stop seg = start seg + d" by (simp add: d_def duration_def)
    have nz: "(of_nat n :: rat) \<noteq> 0" using n by simp
    have "duration s = d / of_nat n"
    proof (cases "p < n - 1")
      case True
      then show ?thesis using s by (simp add: duration_def algebra_simps add_divide_distrib)
    next
      case False
      with p have "of_nat p = (of_nat n - 1 :: rat)" using n by (simp add: of_nat_diff le_antisym)
      with False s st nz show ?thesis by (simp add: duration_def field_simps)
    qed
    then show ?thesis by (simp add: n_def d_def)
  qed
qed

lemma subdivide_legal: "s \<in> set (subdivide bps seg) \<Longrightarrow> legal_track bps s"
  using count_parts_ok [of "duration seg" bps 1] subdivide_duration [of s bps seg]
  by (simp add: legal_track_def breaches_def not_less)

lemma tiles_steps:
  "k \<le> n \<Longrightarrow>
   tiles a (map (\<lambda>p. \<lparr>title = t p, start = a + of_nat p * d, stop = a + of_nat (p + 1) * d\<rparr>) [0..<k]) (a + of_nat k * d)"
  by (induction k) (auto simp: tiles_append)

lemma subdivide_tiles: "tiles (start seg) (subdivide bps seg) (stop seg)"
proof -
  define n where "n = count_parts (duration seg) bps 1"
  have n: "1 \<le> n" unfolding n_def by (rule count_parts_ge)
  show ?thesis
  proof (cases "n = 1")
    case True
    then show ?thesis by (simp add: subdivide_def n_def [symmetric] Let_def del: One_nat_def)
  next
    case False
    define d where "d = duration seg / of_nat n"
    define t where "t p = title seg @ '' (Part '' @ show_nat (p + 1) @ '' of '' @ show_nat n @ '')''" for p
    have u: "[0..<n] = [0..<n - 1] @ [n - 1]" using n by (metis Suc_diff_1 less_eq_Suc_le upt_Suc_append zero_le One_nat_def)
    have "subdivide bps seg =
       map (\<lambda>p. \<lparr>title = t p, start = start seg + of_nat p * d, stop = start seg + of_nat (p + 1) * d\<rparr>) [0..<n - 1] @
       [\<lparr>title = t (n - 1), start = start seg + of_nat (n - 1) * d, stop = stop seg\<rparr>]"
      using False by (simp add: subdivide_def n_def [symmetric] d_def [symmetric] t_def u Let_def del: upt_Suc One_nat_def)
    then show ?thesis using tiles_steps [of "n - 1" n "start seg" t d] by (auto simp: tiles_append)
  qed
qed

section \<open>Facts about cards\<close>

lemma card_index_less: "0 < n \<Longrightarrow> card_index n tot mid < n"
  by (cases "tot = 0") (simp_all add: card_index_def nat_less_iff)

lemma concat_update_last:
  assumes "k < length cards" "\<And>j. k < j \<Longrightarrow> j < length cards \<Longrightarrow> cards ! j = []"
  shows "concat (cards[k := cards ! k @ [x]]) = concat cards @ [x]"
proof -
  have c: "cards = take k cards @ cards ! k # drop (Suc k) cards" using assms(1) by (rule id_take_nth_drop)
  have "concat (drop (Suc k) cards) = []"
  proof (rule concat_eq_Nil_conv [THEN iffD2], rule ballI)
    fix y assume "y \<in> set (drop (Suc k) cards)"
    then obtain j where "j < length cards - Suc k" "y = cards ! (Suc k + j)" by (auto simp: in_set_conv_nth)
    then show "y = []" using assms(2) [of "Suc k + j"] by simp
  qed
  moreover have "cards[k := cards ! k @ [x]] = take k cards @ (cards ! k @ [x]) # drop (Suc k) cards"
    using assms(1) by (rule upd_conv_take_nth_drop)
  ultimately show ?thesis by (subst (3) c) (simp add: \<open>concat (drop (Suc k) cards) = []\<close> del: concat_eq_Nil_conv)
qed

lemma concat_split_loop:
  "length cards = n \<Longrightarrow> 0 < n \<Longrightarrow> lst < n \<Longrightarrow> (\<And>j. lst < j \<Longrightarrow> j < n \<Longrightarrow> cards ! j = []) \<Longrightarrow>
   concat (split_loop dur n tot xs cum lst cards) = concat cards @ xs"
proof (induction xs arbitrary: cum lst cards)
  case (Cons x xs)
  define k where "k = max (card_index n tot (cum + dur x / 2)) lst"
  have k: "k < n" "lst \<le> k" using Cons.prems(2,3) card_index_less by (auto simp: k_def)
  have "concat (split_loop dur n tot xs (cum + dur x) k (cards[k := cards ! k @ [x]])) =
        concat (cards[k := cards ! k @ [x]]) @ xs"
    using Cons.prems k by (intro Cons.IH) (auto simp: nth_list_update)
  also have "concat (cards[k := cards ! k @ [x]]) = concat cards @ [x]"
    using Cons.prems k by (intro concat_update_last) auto
  finally show ?case by (simp add: k_def [symmetric] Let_def)
qed simp

lemma concat_filter_ne: "concat (filter (\<lambda>c. c \<noteq> []) cs) = concat cs"
  by (induction cs) auto

lemma concat_split_evenly: "0 < n \<Longrightarrow> concat (split_evenly dur xs n) = xs"
  by (simp add: split_evenly_def concat_filter_ne concat_split_loop)

lemma split_evenly_ne: "[] \<notin> set (split_evenly dur xs n)"
  by (simp add: split_evenly_def)

lemma pack_from_spec:
  assumes "\<And>x. x \<in> set xs \<Longrightarrow> fits [x]"
  shows "0 < n \<Longrightarrow> concat (pack_from dur fits xs n) = xs \<and> list_all fits (pack_from dur fits xs n) \<and>
    [] \<notin> set (pack_from dur fits xs n)"
  using assms
proof (induction dur fits xs n rule: pack_from.induct)
  case (1 dur fits xs n)
  show ?case
  proof (cases "n \<le> length xs \<and> \<not> list_all fits (split_evenly dur xs n)")
    case True
    then show ?thesis using 1 by (simp add: pack_from.simps [of dur fits xs n])
  next
    case False
    then show ?thesis using 1(2,3) concat_split_evenly [of n dur xs] split_evenly_ne [of dur xs n]
      by (auto simp: pack_from.simps [of dur fits xs n] list_all_iff)
  qed
qed

lemma legal_track_fits: "legal_track bps s \<Longrightarrow> card_fits bps [s]"
  by (auto simp: legal_track_def card_fits_def seconds_def yoto_limits)

lemma pack_cards_spec:
  assumes "\<And>s. s \<in> set segs \<Longrightarrow> legal_track bps s"
  shows "concat (pack_cards bps segs) = segs" "list_all (card_fits bps) (pack_cards bps segs)"
    "[] \<notin> set (pack_cards bps segs)"
proof -
  define n where "n = max (ceil_div (seconds segs) card_seconds)
    (max (ceil_div (seconds segs * bps) card_bytes) (ceil_div (of_nat (length segs)) (of_nat card_tracks)))"
  have "0 < ceil_div a b" for a b by (simp add: ceil_div_def)
  then have n: "0 < n" unfolding n_def by (simp add: less_max_iff_disj)
  have p: "pack_cards bps segs = pack_from duration (card_fits bps) segs n"
    by (simp add: pack_cards_def n_def Let_def)
  have f: "\<And>x. x \<in> set segs \<Longrightarrow> card_fits bps [x]" using assms legal_track_fits by blast
  show "concat (pack_cards bps segs) = segs" "list_all (card_fits bps) (pack_cards bps segs)"
    "[] \<notin> set (pack_cards bps segs)"
    unfolding p using pack_from_spec [of segs "card_fits bps" n duration, OF f n] by blast+
qed

section \<open>Facts about merged tracks\<close>

text \<open>A merged track stands for a group of consecutive tracks, less than a second apart.\<close>

fun close_by :: "segment list \<Rightarrow> bool" where
  "close_by (a # b # ss) \<longleftrightarrow> \<bar>start b - stop a\<bar> < 1 \<and> close_by (b # ss)"
| "close_by _ \<longleftrightarrow> True"

definition merged_from :: "segment list \<Rightarrow> segment \<Rightarrow> bool" where
  "merged_from g m \<longleftrightarrow>
     g \<noteq> [] \<and> close_by g \<and> title m = title (hd g) \<and> start m = start (hd g) \<and> stop m = stop (last g)"

lemma close_by_snoc: "close_by g \<Longrightarrow> g \<noteq> [] \<Longrightarrow> \<bar>start s - stop (last g)\<bar> < 1 \<Longrightarrow> close_by (g @ [s])"
  by (induction g rule: close_by.induct) auto

lemma merge_loop_groups:
  "merged_from g cur \<Longrightarrow> \<exists>gs. concat gs = g @ segs \<and> list_all2 merged_from gs (merge_loop bps cur segs)"
proof (induction bps cur segs arbitrary: g rule: merge_loop.induct)
  case (1 bps cur)
  then show ?case by (intro exI [of _ "[g]"]) simp
next
  case (2 bps cur seg segs)
  show ?case
  proof (cases "mergeable bps cur seg")
    case True
    then have "\<bar>start seg - stop cur\<bar> < 1" by (simp add: mergeable_def Let_def)
    with 2(3) have "merged_from (g @ [seg]) (cur\<lparr>stop := stop seg\<rparr>)"
      by (auto simp: merged_from_def close_by_snoc)
    from "2.IH"(1) [OF True this] True show ?thesis by simp
  next
    case False
    have "merged_from [seg] seg" by (simp add: merged_from_def)
    from "2.IH"(2) [OF False this] obtain gs where
      "concat gs = [seg] @ segs" "list_all2 merged_from gs (merge_loop bps seg segs)" by blast
    then show ?thesis using False 2(3) by (intro exI [of _ "g # gs"]) simp
  qed
qed

lemma merge_loop_duration:
  "duration cur < track_seconds + 1 \<Longrightarrow> (\<And>s. s \<in> set segs \<Longrightarrow> duration s < track_seconds + 1) \<Longrightarrow>
   m \<in> set (merge_loop bps cur segs) \<Longrightarrow> duration m < track_seconds + 1"
proof (induction bps cur segs rule: merge_loop.induct)
  case (2 bps cur seg segs)
  show ?case
  proof (cases "mergeable bps cur seg")
    case True
    then have "stop seg - start cur < track_seconds + 1" by (auto simp: mergeable_def Let_def duration_def)
    then have "duration (cur\<lparr>stop := stop seg\<rparr>) < track_seconds + 1" by (simp add: duration_def)
    with 2 True show ?thesis by simp
  next
    case False
    with 2 show ?thesis by auto
  qed
qed simp

section \<open>Labels\<close>

definition letter_value :: "char \<Rightarrow> nat" where
  "letter_value c = length (takeWhile (\<lambda>x. x \<noteq> c) ''ABCDEFGHIJKLMNOPQRSTUVWXYZ'')"

definition label_value :: "string \<Rightarrow> nat" where
  "label_value s = foldl (\<lambda>a c. 26 * a + letter_value c + 1) 0 s"

lemma letter_value: "r < 26 \<Longrightarrow> letter_value (label_letter r) = r"
proof -
  assume "r < 26"
  then have "r \<in> set [0..<26]" by simp
  moreover have "\<forall>r \<in> set [0..<26]. letter_value (label_letter r) = r"
    unfolding letter_value_def label_letter_def by code_simp
  ultimately show ?thesis by blast
qed

lemma label_loop_append: "label_loop n acc = label_loop n [] @ acc"
proof (induction n arbitrary: acc rule: less_induct)
  case (less n)
  show ?case
  proof (cases n)
    case (Suc i)
    then have "i div 26 < n" by (simp add: less_Suc_eq_le)
    note ih = less.IH [OF this]
    show ?thesis
      unfolding Suc label_loop.simps(2) ih [of "label_letter (i mod 26) # acc"] ih [of "[label_letter (i mod 26)]"]
      by simp
  qed simp
qed

lemma label_value_snoc: "label_value (s @ [c]) = 26 * label_value s + letter_value c + 1"
  by (simp add: label_value_def)

lemma label_value_loop: "label_value (label_loop n []) = n"
proof (induction n rule: less_induct)
  case (less n)
  show ?case
  proof (cases n)
    case 0
    then show ?thesis by (simp add: label_value_def)
  next
    case (Suc i)
    have "label_loop n [] = label_loop (i div 26) [] @ [label_letter (i mod 26)]"
      unfolding Suc label_loop.simps(2) by (rule label_loop_append)
    moreover have "label_value (label_loop (i div 26) []) = i div 26" using Suc by (intro less) simp
    moreover have "letter_value (label_letter (i mod 26)) = i mod 26" by (rule letter_value) simp
    ultimately have "label_value (label_loop n []) = 26 * (i div 26) + i mod 26 + 1" by (simp only: label_value_snoc)
    also have "26 * (i div 26) + i mod 26 = i" by (rule mult_div_mod_eq)
    finally show ?thesis by (simp add: Suc)
  qed
qed

lemma card_label_inj: "card_label i = card_label j \<Longrightarrow> i = j"
proof -
  assume "card_label i = card_label j"
  then have "label_loop (Suc i) [] = label_loop (Suc j) []" unfolding card_label_def by (simp only: same_append_eq)
  then have "label_value (label_loop (Suc i) []) = label_value (label_loop (Suc j) [])" by (rule arg_cong)
  then show "i = j" unfolding label_value_loop by (rule Suc_inject)
qed

section \<open>Effects\<close>

text \<open>
  A process sees and changes the tree; it may fail to start. A ZIP file is a function of
  the names and contents of its members, and the JSON number of a float is a parameter.
\<close>

record 's yoto_env =
  exec :: "string list \<Rightarrow> 's \<Rightarrow> fs \<Rightarrow> (exn + int \<times> string \<times> string) \<times> 's \<times> fs"
  mtime :: "'s \<Rightarrow> path \<Rightarrow> rat"
  temp_dir :: "'s \<Rightarrow> fs \<Rightarrow> path"
  zip_bytes :: "(string \<times> string) list \<Rightarrow> string"
  float_json :: "rat \<Rightarrow> json"

record 's yoto =
  outer :: 's
  tree :: fs

record yoto_config =
  library :: path
  out_dir :: path
  make_zip :: bool
  force :: bool
  dry :: bool
  glue :: bool

definition touch :: "(fs \<Rightarrow> fs) \<Rightarrow> (('s, 'x) yoto_scheme, unit) prog" where
  "touch f w = (Inr (), w\<lparr>tree := f (tree w)\<rparr>)"

definition run :: "'s yoto_env \<Rightarrow> string list \<Rightarrow> (('s, 'x) yoto_scheme, string) prog" where
  "run E cmd w =
     (case exec E cmd (outer w) (tree w) of
        (r, s, t) \<Rightarrow>
          (rbnd r (\<lambda>(code, out, err).
             if code \<noteq> 0 then Inl (RuntimeError (hd cmd @ '' failed: '' @ take 500 (strip err))) else Inr out),
           w\<lparr>outer := s, tree := t\<rparr>))"

text \<open>
  What runs ffmpeg and ffprobe is the module variable \<open>run\<close>, which the server replaces
  by a bounded version: the operations take it as an argument.
\<close>

type_synonym ('s, 'x) runner = "string list \<Rightarrow> (('s, 'x) yoto_scheme, string) prog"

definition parse_json :: "string \<Rightarrow> exn + json" where
  "parse_json s = (case json_loads s of None \<Rightarrow> Inl (ValueError ''invalid JSON'') | Some j \<Rightarrow> Inr j)"

definition probe :: "('s, 'x) runner \<Rightarrow> path \<Rightarrow> (('s, 'x) yoto_scheme, json) prog" where
  "probe R p =
     bnd (R [''ffprobe'', ''-v'', ''error'', ''-show_format'', ''-show_streams'', ''-show_chapters'',
                 ''-of'', ''json'', path_str p]) (\<lambda>out. of_result (parse_json out))"

definition file_size :: "path \<Rightarrow> (('s, 'x) yoto_scheme, nat) prog" where
  "file_size p w =
     ((case fs_read (tree w) p of None \<Rightarrow> Inl (OSError ''No such file'') | Some c \<Rightarrow> Inr (length c)), w)"

section \<open>Artwork\<close>

definition cover_candidates :: "string list" where
  "cover_candidates = [''cover.jpg'', ''cover.png'', ''cover.jpeg'', ''folder.jpg'', ''folder.png'']"

definition ffmpeg_head :: "string list" where
  "ffmpeg_head = [''ffmpeg'', ''-hide_banner'', ''-loglevel'', ''error'', ''-y'']"

definition portrait_filter :: string where
  "portrait_filter = ''[0:v]split=2[bg][fg];[bg]scale=1080:1350:force_original_aspect_ratio=increase,'' @
     ''crop=1080:1350,boxblur=40:10,eq=brightness=0.03:saturation=0.8[bgb];[fg]scale=1080:-1[fgs];'' @
     ''[bgb][fgs]overlay=(W-w)/2:(H-h)/2''"

definition draw_cover :: "('s, 'x) runner \<Rightarrow> path \<Rightarrow> path \<Rightarrow> (('s, 'x) yoto_scheme, unit) prog" where
  "draw_cover R img dest =
     try_except
       (bnd (R (ffmpeg_head @ [''-i'', path_str img, ''-filter_complex'', portrait_filter, ''-frames:v'', ''1'',
                    path_str (dest @ [''cover.png''])])) (\<lambda>_.
        bnd (R (ffmpeg_head @ [''-i'', path_str img, ''-vf'',
                    ''scale=320:320:force_original_aspect_ratio=increase,crop=320:320'', ''-frames:v'', ''1'',
                    path_str (dest @ [''icon.png''])])) (\<lambda>_. ret ())))
       (\<lambda>e. case e of RuntimeError _ \<Rightarrow> ret () | _ \<Rightarrow> raise e)"

definition drop_tree :: "path \<Rightarrow> ('s, 'x) yoto_scheme \<Rightarrow> ('s, 'x) yoto_scheme" where
  "drop_tree d w = w\<lparr>tree := fs_rmtree d (tree w)\<rparr>"

text \<open>The art embedded in the audio file; the flag says whether it could be extracted.\<close>

definition extract_art :: "('s, 'x) runner \<Rightarrow> path \<Rightarrow> path \<Rightarrow> (('s, 'x) yoto_scheme, bool) prog" where
  "extract_art R src img =
     try_except
       (bnd (R (ffmpeg_head @ [''-i'', path_str src, ''-an'', ''-frames:v'', ''1'', path_str img])) (\<lambda>_. ret True))
       (\<lambda>e. case e of RuntimeError _ \<Rightarrow> bnd (modify (drop_tree (path_parent img))) (\<lambda>_. ret False) | _ \<Rightarrow> raise e)"

definition find_cover :: "'s yoto_env \<Rightarrow> ('s, 'x) runner \<Rightarrow> path \<Rightarrow> path \<Rightarrow> path \<Rightarrow> (('s, 'x) yoto_scheme, unit) prog" where
  "find_cover E R book_dir src dest =
     bnd (touch (fs_mkdirs dest)) (\<lambda>_.
     bnd (gets (\<lambda>w. find (\<lambda>p. fs_exists (tree w) p) (map (\<lambda>c. book_dir @ [c]) cover_candidates))) (\<lambda>found.
       case found of
         Some img \<Rightarrow> draw_cover R img dest
       | None \<Rightarrow>
           bnd (gets (\<lambda>w. temp_dir E (outer w) (tree w))) (\<lambda>d.
           bnd (touch (fs_mkdirs d)) (\<lambda>_.
           bnd (extract_art R src (d @ [''embedded.png''])) (\<lambda>ok.
             if ok then try_finally (draw_cover R (d @ [''embedded.png'']) dest) (drop_tree d)
             else ret ())))))"

section \<open>One book\<close>

definition cut :: "('s, 'x) runner \<Rightarrow> path \<Rightarrow> segment \<Rightarrow> path \<Rightarrow> string \<Rightarrow> bool \<Rightarrow> string \<Rightarrow> string \<Rightarrow> nat \<Rightarrow> (('s, 'x) yoto_scheme, unit) prog" where
  "cut R src seg dest ext passthrough book author track_no =
     bnd (R (ffmpeg_head @
       [''-ss'', fixed 3 (start seg), ''-i'', path_str src, ''-t'', fixed 3 (duration seg),
        ''-map'', ''0:a:0'', ''-map_chapters'', ''-1'', ''-map_metadata'', ''-1'',
        ''-metadata'', ''title='' @ title seg, ''-metadata'', ''album='' @ book,
        ''-metadata'', ''artist='' @ author, ''-metadata'', ''track='' @ show_nat track_no] @
       (if passthrough then [''-c:a'', ''copy'']
        else [''-c:a'', ''aac'', ''-b:a'', ''128k'', ''-ac'', ''2'', ''-ar'', ''48000'']) @
       (if ext = ''.m4a'' then [''-movflags'', ''+faststart''] else []) @ [path_str dest])) (\<lambda>_. ret ())"

definition relpath :: "path \<Rightarrow> path \<Rightarrow> path" where
  "relpath p base =
     (let n = length (longest_common_prefix p base) in replicate (length base - n) ''..'' @ drop n p)"

definition manifest :: string where "manifest = ''.yoto-prep.json''"

record plan =
  book :: path
  codec :: json
  passthru :: bool
  cards :: nat
  tracks :: nat
  hours :: rat
  detail :: "(string \<times> nat \<times> rat) list"
  warnings :: "string list"

datatype prep_result = Skipped path nat nat | Planned plan

text \<open>What ffprobe says about the book: duration, codec, whether Yoto plays it, suffix, bytes per second\<close>

record facts =
  f_duration :: rat
  f_codec :: json
  f_pass :: bool
  f_ext :: string
  f_rate :: rat

text \<open>\<open>next(s for s in streams if s["codec_type"] == "audio")\<close>\<close>

fun first_audio :: "json list \<Rightarrow> exn + json" where
  "first_audio [] = Inl StopIteration"
| "first_audio (s # ss) =
     rbnd (py_item s ''codec_type'') (\<lambda>t. if py_eq t (JStr ''audio'') then Inr s else first_audio ss)"

definition audio_stream :: "json \<Rightarrow> exn + json" where
  "audio_stream info = rbnd (py_item info ''streams'') (\<lambda>ss. rbnd (py_iter ss) first_audio)"

definition format_duration :: "json \<Rightarrow> exn + rat" where
  "format_duration info = rbnd (py_item info ''format'') (\<lambda>f. rbnd (py_item f ''duration'') py_float_of)"

text \<open>\<open>PASSTHROUGH_CODECS.get(codec)\<close>\<close>

definition passthrough_ext :: "json \<Rightarrow> exn + string option" where
  "passthrough_ext c =
     (case c of
        JStr s \<Rightarrow> Inr (map_of passthrough_codecs s)
      | _ \<Rightarrow> if hashable c then Inr None else Inl (TypeError ''unhashable type''))"

definition reencoded_rate :: rat where "reencoded_rate = 128000 / 8"

definition ext_or_m4a :: "string option \<Rightarrow> string" where
  "ext_or_m4a x = (case x of None \<Rightarrow> ''.m4a'' | Some e \<Rightarrow> e)"

definition stream_facts :: "json \<Rightarrow> rat \<Rightarrow> nat \<Rightarrow> json \<Rightarrow> exn + facts" where
  "stream_facts audio dur sz info =
     (if dur = 0 then Inl ZeroDivisionError
      else
        rbnd (py_item audio ''codec_name'') (\<lambda>c. rbnd (passthrough_ext c) (\<lambda>x.
          Inr \<lparr>f_duration = dur, f_codec = c, f_pass = (x \<noteq> None), f_ext = ext_or_m4a x,
               f_rate = (if x \<noteq> None then of_nat sz / dur else reencoded_rate)\<rparr>)))"

definition cards_of :: "yoto_config \<Rightarrow> json \<Rightarrow> facts \<Rightarrow> exn + segment list \<times> segment list list" where
  "cards_of c info f =
     rbnd (build_segments info (f_duration f) (f_rate f)) (\<lambda>ss.
       let segs = (if glue c then merge_segments (f_rate f) ss else ss)
       in Inr (segs, pack_cards (f_rate f) segs))"

definition stamp_json :: "yoto_config \<Rightarrow> path \<Rightarrow> nat \<Rightarrow> rat \<Rightarrow> nat \<Rightarrow> nat \<Rightarrow> json" where
  "stamp_json c src sz mt ncards ntracks =
     JObj [(''src'', JStr (path_str src)), (''size'', JInt (int sz)), (''mtime'', JInt (trunc mt)),
           (''merge'', JBool (glue c)), (''cards'', JInt (int ncards)), (''tracks'', JInt (int ntracks))]"

definition plan_json :: "'s yoto_env \<Rightarrow> plan \<Rightarrow> json" where
  "plan_json E p =
     JObj [(''book'', JStr (path_str (book p))), (''skipped'', JBool False), (''codec'', codec p),
           (''passthrough'', JBool (passthru p)), (''cards'', JInt (int (cards p))), (''tracks'', JInt (int (tracks p))),
           (''hours'', float_json E (hours p)),
           (''card_detail'', JArr (map (\<lambda>(l, n, h).
              JObj [(''label'', JStr l), (''tracks'', JInt (int n)), (''hours'', float_json E h)]) (detail p)))]"

definition manifest_json :: "'s yoto_env \<Rightarrow> json \<Rightarrow> plan \<Rightarrow> json" where
  "manifest_json E stamp p = JObj [(''stamp'', stamp), (''plan'', plan_json E p)]"

definition already_done :: "fs \<Rightarrow> path \<Rightarrow> json \<Rightarrow> exn + bool" where
  "already_done t p stamp =
     (case fs_read t p of
        None \<Rightarrow> Inr False
      | Some s \<Rightarrow>
          (case json_loads s of
             None \<Rightarrow> Inr False
           | Some j \<Rightarrow> rbnd (py_get j ''stamp'') (\<lambda>v. Inr (py_eq v stamp))))"

definition plan_of :: "path \<Rightarrow> facts \<Rightarrow> segment list \<Rightarrow> segment list list \<Rightarrow> plan" where
  "plan_of rel f segs cs =
     \<lparr>book = rel, codec = f_codec f, passthru = f_pass f, cards = length cs, tracks = length segs,
      hours = f_duration f / 3600,
      detail = map (\<lambda>(i, c). (card_label i, length c, seconds c / 3600)) (enum_from 0 cs), warnings = []\<rparr>"

definition track_name :: "nat \<Rightarrow> segment \<Rightarrow> string \<Rightarrow> string" where
  "track_name n seg ext = zero_pad 2 (int n) @ '' - '' @ safe_name (title seg) @ ext"

definition write_track ::
  "'s yoto_env \<Rightarrow> path \<Rightarrow> path \<Rightarrow> path \<Rightarrow> string \<Rightarrow> facts \<Rightarrow> string \<Rightarrow> nat \<times> segment \<Rightarrow>
     path list \<times> string list \<Rightarrow> (('s, 'x) yoto_scheme, path list \<times> string list) prog" where
  "write_track E src rel dest_root label f author nseg acc =
     (case (nseg, acc) of ((n, seg), (written, warns)) \<Rightarrow>
        let name = track_name n seg (f_ext f); dest = dest_root @ [label, name] in
        bnd (cut (run E) src seg dest (f_ext f) (f_pass f) (safe_name (path_name (path_parent src))) author n) (\<lambda>_.
        bnd (file_size dest) (\<lambda>actual.
          ret (written @ [dest],
               warns @ (if actual > 100 * 1024 * 1024
                        then [path_str rel @ ''/'' @ label @ ''/'' @ name @ '': '' @
                              fixed 0 (of_nat actual / 1000000) @ ''MB > 100MB'']
                        else [])))))"

text \<open>Members are added one by one: a missing file ends the archive with the ones before it.\<close>

fun zip_members :: "fs \<Rightarrow> string \<Rightarrow> path list \<Rightarrow> (string \<times> string) list \<times> bool" where
  "zip_members t stem [] = ([], True)"
| "zip_members t stem (p # ps) =
     (case fs_read t p of
        None \<Rightarrow> ([], False)
      | Some c \<Rightarrow> (case zip_members t stem ps of (ms, ok) \<Rightarrow> ((stem @ ''/'' @ path_name p, c) # ms, ok)))"

definition write_zip :: "'s yoto_env \<Rightarrow> path \<Rightarrow> string \<Rightarrow> path list \<Rightarrow> (('s, 'x) yoto_scheme, unit) prog" where
  "write_zip E dest_root stem written =
     (let zp = dest_root @ [stem @ ''.zip'']; tmp = dest_root @ [stem @ ''.zip.partial''] in
      bnd (touch (fs_write tmp [])) (\<lambda>_.
      bnd (gets (\<lambda>w. zip_members (tree w) stem written)) (\<lambda>(ms, ok).
      bnd (touch (fs_write tmp (zip_bytes E ms))) (\<lambda>_.
        if ok then touch (fs_rename tmp zp) else raise (OSError ''No such file'')))))"

definition write_card ::
  "'s yoto_env \<Rightarrow> yoto_config \<Rightarrow> path \<Rightarrow> path \<Rightarrow> path \<Rightarrow> nat \<Rightarrow> facts \<Rightarrow> string \<Rightarrow> nat \<times> segment list \<Rightarrow>
     string list \<Rightarrow> (('s, 'x) yoto_scheme, string list) prog" where
  "write_card E c src rel dest_root ncards f author icard warns =
     (case icard of (i, cd) \<Rightarrow>
        let label = card_label i; name = safe_name (path_name (path_parent src));
            stem = (if ncards = 1 then name else name @ '' - '' @ label)
        in
        bnd (touch (fs_mkdirs (dest_root @ [label]))) (\<lambda>_.
        bnd (for_each (enum_from 1 cd) (write_track E src rel dest_root label f author) ([], warns)) (\<lambda>(written, warns').
        bnd (if make_zip c then write_zip E dest_root stem written else ret ()) (\<lambda>_. ret warns'))))"

definition author_of :: "path \<Rightarrow> string" where
  "author_of rel = (if 1 < length rel then hd rel else ''Unknown'')"

definition write_book ::
  "'s yoto_env \<Rightarrow> yoto_config \<Rightarrow> path \<Rightarrow> path \<Rightarrow> facts \<Rightarrow> segment list \<Rightarrow> segment list list \<Rightarrow> json \<Rightarrow>
     (('s, 'x) yoto_scheme, prep_result) prog" where
  "write_book E c src rel f segs cs stamp =
     (let dest_root = out_dir c @ rel; p = plan_of rel f segs cs in
      bnd (touch (fs_mkdirs dest_root)) (\<lambda>_.
      bnd (for_each (enum_from 0 cs) (write_card E c src rel dest_root (length cs) f (author_of rel)) []) (\<lambda>warns.
      bnd (find_cover E (run E) (path_parent src) src (dest_root @ [''_artwork''])) (\<lambda>_.
      bnd (touch (fs_write (dest_root @ [manifest]) (json_dumps indent2_layout (manifest_json E stamp p)))) (\<lambda>_.
        ret (Planned (p\<lparr>warnings := warns\<rparr>)))))))"

definition finish_book ::
  "'s yoto_env \<Rightarrow> yoto_config \<Rightarrow> path \<Rightarrow> facts \<Rightarrow> nat \<Rightarrow> segment list \<times> segment list list \<Rightarrow> (('s, 'x) yoto_scheme, prep_result) prog" where
  "finish_book E c src f sz sc =
     (case sc of (segs, cs) \<Rightarrow>
        let rel = relpath (path_parent src) (library c) in
        bnd (gets (\<lambda>w. stamp_json c src sz (mtime E (outer w) src) (length cs) (length segs))) (\<lambda>stamp.
        bnd (if force c then ret False
             else bnd (gets tree) (\<lambda>t. of_result (already_done t (out_dir c @ rel @ [manifest]) stamp))) (\<lambda>done.
          if done then ret (Skipped rel (length cs) (length segs))
          else if dry c then ret (Planned (plan_of rel f segs cs))
          else write_book E c src rel f segs cs stamp)))"

definition prep_book :: "'s yoto_env \<Rightarrow> yoto_config \<Rightarrow> path \<Rightarrow> (('s, 'x) yoto_scheme, prep_result) prog" where
  "prep_book E c src =
     bnd (probe (run E) src) (\<lambda>info.
     bnd (of_result (audio_stream info)) (\<lambda>audio.
     bnd (of_result (format_duration info)) (\<lambda>dur.
     bnd (file_size src) (\<lambda>sz.
     bnd (of_result (stream_facts audio dur sz info)) (\<lambda>f.
     bnd (of_result (cards_of c info f)) (finish_book E c src f sz))))))"

section \<open>The books of a run\<close>

definition is_audio_file :: "path \<Rightarrow> bool" where
  "is_audio_file p \<longleftrightarrow> list_ex (ends_with (lower (path_name p))) audio_exts"

definition search_roots :: "fs \<Rightarrow> path \<Rightarrow> string \<Rightarrow> exn + path list" where
  "search_roots t lib target =
     (if \<not> fs_is_dir t lib then Inl (OSError ''No such file or directory'')
      else
        let needle = lower target;
            direct = filter (\<lambda>p. contains (lower (path_name p)) needle) (fs_children t lib);
            deeper = filter (\<lambda>p. contains (lower (path_str (relpath p lib))) needle) (walk_dirs t lib)
        in Inr (if direct \<noteq> [] then direct else deeper))"

definition target_files :: "fs \<Rightarrow> path \<Rightarrow> string \<Rightarrow> exn + path list" where
  "target_files t lib target =
     (let base = path_join lib target in
      if fs_is_file t base \<and> is_audio_file base then Inr [base]
      else
        rbnd (if fs_is_dir t base then Inr [base] else search_roots t lib target) (\<lambda>roots.
          Inr (filter is_audio_file (concat (map (walk_files t) roots)))))"

definition collect :: "fs \<Rightarrow> path \<Rightarrow> string list \<Rightarrow> exn + path list" where
  "collect t lib targets =
     rbnd (rmap (target_files t lib) targets) (\<lambda>fs. Inr (sort_key path_str (remdups (concat fs))))"

record run_result =
  completed :: "prep_result list"
  failed :: "(path \<times> string) list"

definition one_book :: "'s yoto_env \<Rightarrow> yoto_config \<Rightarrow> path \<Rightarrow> run_result \<Rightarrow> (('s, 'x) yoto_scheme, run_result) prog" where
  "one_book E c src r =
     try_except
       (bnd (prep_book E c src) (\<lambda>p. ret (r\<lparr>completed := completed r @ [p]\<rparr>)))
       (\<lambda>e. if is_exception e then ret (r\<lparr>failed := failed r @ [(relpath src (library c), exn_text e)]\<rparr>) else raise e)"

definition write_readme :: "string \<Rightarrow> path \<Rightarrow> fs \<Rightarrow> fs" where
  "write_readme readme out t =
     (let t' = fs_mkdirs out t; p = out @ [''README.txt''] in
      if fs_exists t' p then t' else fs_write p readme t')"

text \<open>
  The books run on a thread pool; \<open>order\<close> is the order in which they are completed, and
  one book is one step. The result is the exit code with what was done and what failed.
\<close>

definition main ::
  "'s yoto_env \<Rightarrow> yoto_config \<Rightarrow> string \<Rightarrow> (path list \<Rightarrow> path list) \<Rightarrow> bool \<Rightarrow> string list \<Rightarrow>
     (('s, 'x) yoto_scheme, int \<times> run_result) prog" where
  "main E c readme order tools_found targets =
     (let none = \<lparr>completed = [], failed = []\<rparr> in
      if \<not> tools_found then ret (1, none)
      else
        bnd (bnd (gets tree) (\<lambda>t. of_result (collect t (library c) targets))) (\<lambda>sources.
          if sources = [] then ret (1, none)
          else
            bnd (if dry c then ret () else touch (write_readme readme (out_dir c))) (\<lambda>_.
            bnd (for_each (order sources) (one_book E c) none) (\<lambda>r.
              ret (if failed r = [] then 0 else 1, r)))))"

section \<open>Names\<close>

lemma set_re_sub: "set (re_sub r f s) \<subseteq> set s \<union> (\<Union>m. set (f m))"
proof -
  obtain ms t where ft: "find_all (Suc (length s)) r None s = (ms, t)" by fastforce
  have s: "s = concat (map (\<lambda>m. m_pre m @ m_text m) ms) @ t" by (rule find_all_split [OF ft])
  have "re_sub r f s = concat (map (\<lambda>m. m_pre m @ f m) ms) @ t" by (simp only: re_sub_def ft prod.case)
  then have "set (re_sub r f s) \<subseteq> (\<Union>m \<in> set ms. set (m_pre m)) \<union> set t \<union> (\<Union>m. set (f m))" by auto
  moreover have "(\<Union>m \<in> set ms. set (m_pre m)) \<union> set t \<subseteq> set s" by (subst s) auto
  ultimately show ?thesis by blast
qed

lemma set_strip_chars: "set (strip_chars cs s) \<subseteq> set s"
  by (auto simp: strip_chars_def dest!: set_dropWhileD)

lemma hd_strip_chars: "strip_chars cs s \<noteq> [] \<Longrightarrow> hd (strip_chars cs s) \<notin> set cs"
proof -
  define a where "a = dropWhile (\<lambda>c. c \<in> set cs) s"
  define b where "b = rev (dropWhile (\<lambda>c. c \<in> set cs) (rev a))"
  assume "strip_chars cs s \<noteq> []"
  then have b: "b \<noteq> []" by (simp add: strip_chars_def a_def b_def)
  have "a = b @ rev (takeWhile (\<lambda>c. c \<in> set cs) (rev a))"
    unfolding b_def by (metis rev_append rev_rev_ident takeWhile_dropWhile_id)
  with b have "a \<noteq> []" "hd b = hd a" by (metis append_is_Nil_conv, metis hd_append2)
  then have "hd b \<notin> set cs" using hd_dropWhile [of "\<lambda>c. c \<in> set cs" s] by (simp add: a_def)
  then show ?thesis by (simp add: strip_chars_def a_def b_def)
qed

text \<open>
  A title becomes a usable file name: it is not empty, has at most 120 bytes, does not
  start with a dot, and has no path separator, no character Windows or Android forbid and
  no control character.
\<close>

theorem safe_name_is_safe:
  "safe_name s \<noteq> [] \<and> length (safe_name s) \<le> 120 \<and> \<not> list_ex unsafe_char (safe_name s) \<and> hd (safe_name s) \<noteq> CHR ''.''"
proof -
  define n where "n = map (\<lambda>c. if unsafe_char c then CHR ''-'' else c) s"
  define m where "m = strip_chars ''.'' (strip (re_sub rspaces1 (\<lambda>_. '' '') n))"
  have u: "\<not> unsafe_char (CHR ''-'')" "\<not> unsafe_char (CHR '' '')" "\<not> list_ex unsafe_char ''Untitled''" by code_simp+
  have "set m \<subseteq> set n \<union> set '' ''"
    unfolding m_def using set_strip_chars set_strip set_re_sub [of rspaces1 "\<lambda>_. '' ''" n] by fastforce
  moreover have "\<forall>c \<in> set n. \<not> unsafe_char c" using u(1) by (auto simp: n_def)
  ultimately have m: "\<forall>c \<in> set m. \<not> unsafe_char c" using u(2) by auto
  have h: "m \<noteq> [] \<Longrightarrow> hd m \<noteq> CHR ''.''" unfolding m_def using hd_strip_chars by fastforce
  have s: "safe_name s = (if take 120 m = [] then ''Untitled'' else take 120 m)"
    by (simp add: safe_name_def n_def m_def Let_def)
  show ?thesis
  proof (cases "m = []")
    case True
    then show ?thesis using s u(3) by simp
  next
    case False
    then have "hd (take 120 m) = hd m" by (cases m) auto
    then show ?thesis using s m h False by (auto simp: list_ex_iff dest: in_set_takeD)
  qed
qed

text \<open>
  Card labels count in letters (A to Z, AA, AB and so on): reading a label back gives
  the number of the card, so the cards of a book never share a directory.
\<close>

theorem card_label_roundtrip: "label_value (drop 5 (card_label i)) = Suc i"
  unfolding card_label_def using label_value_loop [of "Suc i"] by (simp del: label_loop.simps)

section \<open>Cards\<close>

text \<open>
  C11. What a book is cut into is legal for Yoto: the tracks of a chapter follow each other
  without a gap from its start to its end, each at most 58 minutes and 95 MB; the cards
  hold exactly the tracks in their order, none is empty, and each is within 5 hours,
  500 MB and 100 tracks.
\<close>

theorem cards_within_yoto_limits:
  assumes "build_segments info dur bps = Inr segs"
  shows "(\<exists>base pieces. base_segments info dur = Inr base \<and> segs = concat pieces \<and>
      list_all2 (\<lambda>b ps. tiles (start b) ps (stop b)) base pieces) \<and>
    list_all (legal_track bps) segs \<and>
    concat (pack_cards bps segs) = segs \<and> list_all (\<lambda>c. c \<noteq> [] \<and> card_fits bps c) (pack_cards bps segs)"
proof -
  obtain base where b: "base_segments info dur = Inr base" and s: "segs = concat (map (subdivide bps) base)"
    using assms by (auto simp: build_segments_def rbnd_Inr_iff)
  have "list_all2 (\<lambda>b ps. tiles (start b) ps (stop b)) base (map (subdivide bps) base)"
    by (simp add: list_all2_map2 subdivide_tiles list_all2_same)
  moreover have legal: "\<And>x. x \<in> set segs \<Longrightarrow> legal_track bps x" using s subdivide_legal by auto
  ultimately show ?thesis using b s pack_cards_spec [of segs bps]
    by (auto simp: list_all_iff)
qed

text \<open>
  Merging chapters only glues neighbours: every merged track stands for a group of
  consecutive tracks less than a second apart, from the first one's start to the last
  one's end, the groups are all tracks in their order, and no merged track gets a second
  longer than the limit of 58 minutes.
\<close>

theorem merge_segments_glues_neighbours:
  assumes "list_all (legal_track bps) segs"
  shows "(\<exists>groups. concat groups = segs \<and> list_all2 merged_from groups (merge_segments bps segs)) \<and>
    list_all (\<lambda>m. duration m < track_seconds + 1) (merge_segments bps segs)"
proof (cases segs)
  case Nil
  then show ?thesis by (simp add: merge_segments_def)
next
  case (Cons s ss)
  have "merged_from [s] s" by (simp add: merged_from_def)
  from merge_loop_groups [OF this, of ss bps] obtain gs
    where gs: "concat gs = segs" "list_all2 merged_from gs (merge_segments bps segs)" using Cons by (auto simp: merge_segments_def)
  have d: "duration x < track_seconds + 1" if "x \<in> set segs" for x
    using assms that by (auto simp: list_all_iff legal_track_def)
  have "list_all (\<lambda>m. duration m < track_seconds + 1) (merge_segments bps segs)"
    using merge_loop_duration [of s ss _ bps] d Cons by (auto simp: list_all_iff merge_segments_def)
  with gs show ?thesis by blast
qed

section \<open>The manifest\<close>

lemma json_ok_loads: "json_loads s = Some j \<Longrightarrow> json_ok j"
  unfolding json_loads_def
  by (cases "parse_val (Suc (length s)) (skip_ws s)")
    (auto simp del: parse_val.simps dest: json_ok_parse split: if_splits)

lemma json_ok_item: "json_ok j \<Longrightarrow> py_item j k = Inr v \<Longrightarrow> json_ok v"
  by (auto simp: py_item_def split: json.splits option.splits dest!: map_of_SomeD)

lemma json_ok_iter: "json_ok j \<Longrightarrow> py_iter j = Inr xs \<Longrightarrow> x \<in> set xs \<Longrightarrow> json_ok x"
  by (auto simp: py_iter_def split: json.splits)

lemma json_ok_first_audio: "first_audio xs = Inr a \<Longrightarrow> a \<in> set xs"
  by (induction xs rule: first_audio.induct) (auto simp: rbnd_Inr_iff split: if_splits)

lemma codec_json_ok:
  assumes "json_ok info" "audio_stream info = Inr audio" "stream_facts audio dur sz info = Inr f"
  shows "json_ok (f_codec f)"
proof -
  obtain ss xs where "py_item info ''streams'' = Inr ss" "py_iter ss = Inr xs" "audio \<in> set xs"
    using assms(2) json_ok_first_audio by (auto simp: audio_stream_def rbnd_Inr_iff)
  then have "json_ok audio" using assms(1) json_ok_item json_ok_iter by blast
  then show ?thesis using assms(3) json_ok_item by (auto simp: stream_facts_def rbnd_Inr_iff split: if_splits)
qed

lemma probe_json_ok: "probe R p w = (Inr info, w') \<Longrightarrow> json_ok info"
  using json_ok_loads by (auto simp: probe_def bnd_Inr_iff of_result_def parse_json_def split: option.splits)

lemma manifest_ok:
  assumes "\<And>x. json_ok (float_json E x)" "json_ok (codec p)"
  shows "json_ok (manifest_json E (stamp_json c src sz mt n k) p)"
  using assms by (auto simp: manifest_json_def stamp_json_def plan_json_def)

lemma written_manifest_is_done:
  assumes "fs_read t p = Some (json_dumps indent2_layout (manifest_json E s q))" "json_ok (manifest_json E s q)"
  shows "already_done t p s = Inr True"
proof -
  have "json_loads (json_dumps indent2_layout (manifest_json E s q)) = Some (manifest_json E s q)"
    using json_loads_dumps_ws [OF good_layouts(3) assms(2), of "[]"] by simp
  then show ?thesis using assms(1)
    by (simp add: already_done_def manifest_json_def py_get_def field_def)
qed

lemma bnd_gets: "bnd (gets f) k w = k (f w) w"
  by (simp add: bnd_def gets_def)

lemma write_book_manifest:
  assumes "write_book E c src rel f segs cs stamp w = (Inr r, w')"
  shows "(\<exists>ws. r = Planned ((plan_of rel f segs cs)\<lparr>warnings := ws\<rparr>)) \<and>
    fs_read (tree w') (out_dir c @ rel @ [manifest]) =
      Some (json_dumps indent2_layout (manifest_json E stamp (plan_of rel f segs cs)))"
  using assms by (auto simp: write_book_def Let_def bnd_Inr_iff touch_def ret_def)

text \<open>
  C12. A book is prepared once: after a successful preparation, a run without the force
  option that finds the same source (what ffprobe says, size, time) and the manifest as it
  was written skips the book and reports the same numbers of cards and tracks. Documented
  of Python's json: the text of a float is a JSON number.
\<close>

theorem prepared_book_is_skipped:
  fixes E :: "'s yoto_env" and w :: "('s, 'x) yoto_scheme"
  assumes "prep_book E c src w = (Inr (Planned p), w1)" "\<not> dry c"
    and "\<And>x. json_ok (float_json E x)"
    and "probe (run E) src w = (Inr info, wa)" "probe (run E) src w2 = (Inr info, wb)"
    and "fs_read (tree wb) src = fs_read (tree wa) src"
    and "mtime E (outer wb) src = mtime E (outer wa) src"
    and "fs_read (tree wb) (out_dir c @ relpath (path_parent src) (library c) @ [manifest]) =
         fs_read (tree w1) (out_dir c @ relpath (path_parent src) (library c) @ [manifest])"
  shows "prep_book E (c\<lparr>force := False, dry := d\<rparr>) src w2 = (Inr (Skipped (book p) (cards p) (tracks p)), wb)"
proof -
  let ?rel = "relpath (path_parent src) (library c)"
  obtain audio dur sz f segs cs where
    a: "audio_stream info = Inr audio" and d: "format_duration info = Inr dur"
    and sz: "file_size src wa = (Inr sz, wa)" and f: "stream_facts audio dur sz info = Inr f"
    and cs: "cards_of c info f = Inr (segs, cs)"
    and fin: "finish_book E c src f sz (segs, cs) wa = (Inr (Planned p), w1)"
    using assms(1,4) by (auto simp: prep_book_def bnd_Inr_iff of_result_def file_size_def)
  define stamp where "stamp = stamp_json c src sz (mtime E (outer wa) src) (length cs) (length segs)"
  define g :: "(('s, 'x) yoto_scheme, bool) prog" where "g = (if force c then ret False
     else bnd (gets tree) (\<lambda>t. of_result (already_done t (out_dir c @ ?rel @ [manifest]) stamp)))"
  have fin': "bnd g (\<lambda>dn. if dn then ret (Skipped ?rel (length cs) (length segs))
      else if dry c then ret (Planned (plan_of ?rel f segs cs))
      else write_book E c src ?rel f segs cs stamp) wa = (Inr (Planned p), w1)"
    using fin unfolding finish_book_def Let_def prod.case bnd_gets stamp_def g_def .
  obtain dn wg where dn: "g wa = (Inr dn, wg)"
    and rest: "(if dn then ret (Skipped ?rel (length cs) (length segs))
      else if dry c then ret (Planned (plan_of ?rel f segs cs))
      else write_book E c src ?rel f segs cs stamp) wg = (Inr (Planned p), w1)"
    using fin' unfolding bnd_Inr_iff by blast
  have "\<not> dn" using rest by (cases dn) (auto simp: ret_def)
  then have "write_book E c src ?rel f segs cs stamp wg = (Inr (Planned p), w1)" using rest assms(2) by simp
  from write_book_manifest [OF this] obtain ws where
    p: "p = (plan_of ?rel f segs cs)\<lparr>warnings := ws\<rparr>"
    and m: "fs_read (tree w1) (out_dir c @ ?rel @ [manifest]) =
      Some (json_dumps indent2_layout (manifest_json E stamp (plan_of ?rel f segs cs)))" by blast
  have "json_ok (f_codec f)" using codec_json_ok [OF probe_json_ok [OF assms(4)] a f] .
  then have ok: "json_ok (manifest_json E stamp (plan_of ?rel f segs cs))"
    unfolding stamp_def using assms(3) by (intro manifest_ok) (simp_all add: plan_of_def)
  have done2: "already_done (tree wb) (out_dir c @ ?rel @ [manifest]) stamp = Inr True"
    using written_manifest_is_done [OF _ ok] m assms(8) by simp
  have sz2: "file_size src wb = (Inr sz, wb)" using sz assms(6) by (auto simp: file_size_def split: option.splits)
  have cs2: "cards_of (c\<lparr>force := False, dry := d\<rparr>) info f = Inr (segs, cs)" using cs by (simp add: cards_of_def)
  have st2: "stamp_json (c\<lparr>force := False, dry := d\<rparr>) src sz (mtime E (outer wb) src) (length cs) (length segs) = stamp"
    by (simp add: stamp_json_def stamp_def assms(7))
  have "finish_book E (c\<lparr>force := False, dry := d\<rparr>) src f sz (segs, cs) wb = (Inr (Skipped ?rel (length cs) (length segs)), wb)"
    unfolding finish_book_def Let_def prod.case bnd_gets st2
    using done2 by (simp add: bnd_gets bnd_def of_result_def ret_def)
  then have "prep_book E (c\<lparr>force := False, dry := d\<rparr>) src w2 = (Inr (Skipped ?rel (length cs) (length segs)), wb)"
    using assms(5) a \<open>format_duration info = Inr dur\<close> sz2 f cs2 by (simp add: prep_book_def bnd_def of_result_def)
  then show ?thesis by (simp add: p plan_of_def)
qed

section \<open>Concrete runs\<close>

definition demo_info :: json where
  "demo_info = JObj [(''chapters'', JArr [JObj [(''start_time'', JInt 0), (''end_time'', JInt 7200)],
     JObj [(''start_time'', JInt 7200), (''end_time'', JInt 7800), (''tags'', JObj [(''title'', JStr ''End'')])]])]"

definition demo_segments :: "segment list" where
  "demo_segments =
     [\<lparr>title = ''Chapter 1 (Part 1 of 3)'', start = 0, stop = 2400\<rparr>,
      \<lparr>title = ''Chapter 1 (Part 2 of 3)'', start = 2400, stop = 4800\<rparr>,
      \<lparr>title = ''Chapter 1 (Part 3 of 3)'', start = 4800, stop = 7200\<rparr>,
      \<lparr>title = ''End'', start = 7200, stop = 7800\<rparr>]"

lemma demo_build: "build_segments demo_info 7801 16000 = Inr demo_segments"
proof -
  have "base_segments demo_info 7801 = Inr [\<lparr>title = ''Chapter 1'', start = 0, stop = 7200\<rparr>, \<lparr>title = ''End'', start = 7200, stop = 7800\<rparr>]"
    by code_simp
  moreover have "count_parts 7200 16000 1 = 3"
    by (simp add: count_parts.simps breaches_def yoto_limits)
  moreover have "count_parts 600 16000 1 = 1"
    by (simp add: count_parts.simps breaches_def yoto_limits)
  ultimately show ?thesis
    by (simp add: build_segments_def subdivide_def duration_def Let_def demo_segments_def upt_rec show_nat.simps digit_char_def)
qed

theorem cards_within_yoto_limits_witness:
  "concat (pack_cards 16000 demo_segments) = demo_segments \<and> list_all (legal_track 16000) demo_segments"
  using cards_within_yoto_limits [OF demo_build] by blast

theorem merge_segments_glues_neighbours_witness:
  "list_all (\<lambda>m. duration m < track_seconds + 1) (merge_segments 16000 demo_segments)"
proof -
  have "list_all (legal_track 16000) demo_segments" by code_simp
  from merge_segments_glues_neighbours [OF this] show ?thesis by blast
qed

text \<open>ffprobe describes one minute of MP3; every ffmpeg run leaves the first track behind.\<close>

definition demo_src :: path where "demo_src = [''l'', ''b'', ''x.mp3'']"

definition demo_track :: path where "demo_track = [''o'', ''b'', ''Card A'', ''01 - Part 1.mp3'']"

definition demo_probe :: json where
  "demo_probe = JObj [(''streams'', JArr [JObj [(''codec_type'', JStr ''audio''), (''codec_name'', JStr ''mp3'')]]),
     (''format'', JObj [(''duration'', JInt 60)])]"

definition demo_yoto_env :: "unit yoto_env" where
  "demo_yoto_env =
     \<lparr>exec = (\<lambda>cmd s t. if hd cmd = ''ffprobe'' then (Inr (0, json_dumps compact_layout demo_probe, []), s, t)
                      else (Inr (0, [], []), s, fs_write demo_track ''x'' t)),
      mtime = (\<lambda>s p. 7), temp_dir = (\<lambda>s t. [''t'']), zip_bytes = (\<lambda>ms. []), float_json = (\<lambda>x. JInt 0)\<rparr>"

definition demo_yoto_config :: yoto_config where
  "demo_yoto_config = \<lparr>library = [''l''], out_dir = [''o''], make_zip = False, force = False, dry = False, glue = False\<rparr>"

definition demo_yoto :: "fs \<Rightarrow> unit yoto" where
  "demo_yoto t = \<lparr>outer = (), tree = fs_write demo_src ''AUDIO'' t\<rparr>"

lemma demo_ffmpeg:
  "hd cmd = ''ffmpeg'' \<Longrightarrow> run demo_yoto_env cmd w = (Inr [], w\<lparr>tree := fs_write demo_track ''x'' (tree w)\<rparr>)"
  by (simp add: run_def demo_yoto_env_def)

lemma demo_probed: "probe (run demo_yoto_env) p w = (Inr demo_probe, w)"
proof -
  have "json_loads (json_dumps compact_layout demo_probe) = Some demo_probe"
    using json_loads_dumps_ws [OF good_layouts(2), of demo_probe "[]"] by (simp add: demo_probe_def)
  then show ?thesis by (simp add: probe_def bnd_def run_def demo_yoto_env_def parse_json_def of_result_def)
qed

lemma demo_cover: "\<exists>w'. find_cover demo_yoto_env (run demo_yoto_env) d s t w = (Inr (), w')"
proof -
  have d: "draw_cover (run demo_yoto_env) img dest v = (Inr (), v\<lparr>tree := fs_write demo_track ''x'' (fs_write demo_track ''x'' (tree v))\<rparr>)"
    for img dest v
    by (simp add: draw_cover_def bnd_def demo_ffmpeg ffmpeg_head_def try_except_def ret_def)
  have e: "extract_art (run demo_yoto_env) src img v = (Inr True, v\<lparr>tree := fs_write demo_track ''x'' (tree v)\<rparr>)" for src img v
    by (simp add: extract_art_def bnd_def demo_ffmpeg ffmpeg_head_def try_except_def ret_def)
  show ?thesis
    by (simp add: find_cover_def bnd_def touch_def gets_def d e try_finally_def ret_def split: option.split)
qed

lemma demo_segments_of:
  "cards_of demo_yoto_config demo_probe \<lparr>f_duration = 60, f_codec = JStr ''mp3'', f_pass = True, f_ext = ''.mp3'', f_rate = 1 / 12\<rparr> =
     Inr ([\<lparr>title = ''Part 1'', start = 0, stop = 60\<rparr>], [[\<lparr>title = ''Part 1'', start = 0, stop = 60\<rparr>]])"
proof -
  have b: "base_segments demo_probe 60 = Inr [\<lparr>title = ''Part 1'', start = 0, stop = 60\<rparr>]" by code_simp
  have "count_parts 60 (1 / 12) 1 = 1" by (simp add: count_parts.simps breaches_def yoto_limits)
  then have s: "build_segments demo_probe 60 (1 / 12) = Inr [\<lparr>title = ''Part 1'', start = 0, stop = 60\<rparr>]"
    by (simp add: build_segments_def b subdivide_def duration_def)
  have "pack_cards (1 / 12) [\<lparr>title = ''Part 1'', start = 0, stop = 60\<rparr>] = [[\<lparr>title = ''Part 1'', start = 0, stop = 60\<rparr>]]"
    by code_simp
  with s show ?thesis by (simp add: cards_of_def demo_yoto_config_def)
qed

lemma demo_prepared:
  "\<exists>p w1. prep_book demo_yoto_env demo_yoto_config demo_src (demo_yoto []) = (Inr (Planned p), w1)"
proof -
  let ?seg = "\<lparr>title = ''Part 1'', start = 0, stop = 60\<rparr>"
  let ?f = "\<lparr>f_duration = 60, f_codec = JStr ''mp3'', f_pass = True, f_ext = ''.mp3'', f_rate = 1 / 12\<rparr>"
  let ?w = "demo_yoto []"
  have a: "audio_stream demo_probe = Inr (JObj [(''codec_type'', JStr ''audio''), (''codec_name'', JStr ''mp3'')])"
    "format_duration demo_probe = Inr 60" by code_simp+
  have f: "stream_facts (JObj [(''codec_type'', JStr ''audio''), (''codec_name'', JStr ''mp3'')]) 60 5 demo_probe = Inr ?f"
    by (simp add: stream_facts_def py_item_def passthrough_ext_def passthrough_codecs_def ext_or_m4a_def)
  have sz: "file_size demo_src ?w = (Inr 5, ?w)" by (simp add: file_size_def demo_yoto_def)
  have names: "relpath (path_parent demo_src) (library demo_yoto_config) = [''b'']"
    "card_label 0 = ''Card A''" "track_name 1 ?seg ''.mp3'' = ''01 - Part 1.mp3''"
    "[''o'', ''b'', ''Card A'', ''01 - Part 1.mp3''] = demo_track"
    by code_simp+
  have c: "out_dir demo_yoto_config = [''o'']" "make_zip demo_yoto_config = False" "force demo_yoto_config = False"
    "dry demo_yoto_config = False" by (simp_all add: demo_yoto_config_def)
  have tr: "write_track demo_yoto_env demo_src [''b''] [''o'', ''b''] ''Card A'' ?f au (1, ?seg) ([], []) v =
      (Inr ([demo_track], []), v\<lparr>tree := fs_write demo_track ''x'' (tree v)\<rparr>)" for au v
    using names(3) by (simp add: write_track_def cut_def bnd_def demo_ffmpeg ffmpeg_head_def file_size_def names ret_def Let_def)
  have card: "\<exists>v'. write_card demo_yoto_env demo_yoto_config demo_src [''b''] [''o'', ''b''] 1 ?f au (0, [?seg]) [] v = (Inr [], v')"
    for au v
    by (simp add: write_card_def bnd_def touch_def names(2) tr [simplified] c ret_def Let_def)
  have book: "\<exists>p v'. write_book demo_yoto_env demo_yoto_config demo_src [''b''] ?f [?seg] [[?seg]] stamp v = (Inr (Planned p), v')"
    for stamp v
  proof -
    let ?v = "v\<lparr>tree := fs_mkdirs [''o'', ''b''] (tree v)\<rparr>"
    obtain v1 where v1: "write_card demo_yoto_env demo_yoto_config demo_src [''b''] [''o'', ''b''] 1 ?f (author_of [''b'']) (0, [?seg]) [] ?v = (Inr [], v1)"
      using card by blast
    obtain v2 where v2: "find_cover demo_yoto_env (run demo_yoto_env) (path_parent demo_src) demo_src ([''o'', ''b''] @ [''_artwork'']) v1 = (Inr (), v2)"
      using demo_cover by blast
    show ?thesis using v1 v2 by (simp add: write_book_def Let_def c bnd_def touch_def ret_def)
  qed
  have nd: "already_done (tree ?w) ([''o''] @ [''b''] @ [manifest]) stamp = Inr False" for stamp
    by (simp add: already_done_def demo_yoto_def demo_src_def manifest_def fs_read_def)
  obtain p w1 where w1: "write_book demo_yoto_env demo_yoto_config demo_src [''b''] ?f [?seg] [[?seg]]
      (stamp_json demo_yoto_config demo_src 5 (mtime demo_yoto_env (outer ?w) demo_src) 1 1) ?w = (Inr (Planned p), w1)"
    using book by blast
  have "finish_book demo_yoto_env demo_yoto_config demo_src ?f 5 ([?seg], [[?seg]]) ?w = (Inr (Planned p), w1)"
    unfolding finish_book_def Let_def prod.case bnd_gets names c
    using nd w1 by (simp add: bnd_gets bnd_def of_result_def)
  then have "prep_book demo_yoto_env demo_yoto_config demo_src ?w = (Inr (Planned p), w1)"
    unfolding prep_book_def using a f sz demo_segments_of by (simp add: bnd_def demo_probed of_result_def)
  then show ?thesis by blast
qed

theorem prepared_book_is_skipped_witness:
  "\<exists>(w2 :: unit yoto) (p :: plan) wb. prep_book demo_yoto_env demo_yoto_config demo_src w2 = (Inr (Skipped (book p) (cards p) (tracks p)), wb)"
proof -
  obtain p w1 where w1: "prep_book demo_yoto_env demo_yoto_config demo_src (demo_yoto []) = (Inr (Planned p), w1)"
    using demo_prepared by blast
  let ?w2 = "demo_yoto (tree w1)"
  have c: "demo_yoto_config\<lparr>force := False, dry := False\<rparr> = demo_yoto_config" "\<not> dry demo_yoto_config"
    by (simp_all add: demo_yoto_config_def)
  have "json_ok (float_json demo_yoto_env x)" for x by (simp add: demo_yoto_env_def)
  moreover have "fs_read (tree ?w2) demo_src = fs_read (tree (demo_yoto [])) demo_src" by (simp add: demo_yoto_def)
  moreover have "mtime demo_yoto_env (outer ?w2) demo_src = mtime demo_yoto_env (outer (demo_yoto [])) demo_src" by simp
  moreover have "fs_read (tree ?w2) (out_dir demo_yoto_config @ relpath (path_parent demo_src) (library demo_yoto_config) @ [manifest]) =
      fs_read (tree w1) (out_dir demo_yoto_config @ relpath (path_parent demo_src) (library demo_yoto_config) @ [manifest])"
    by (simp add: demo_yoto_def demo_yoto_config_def demo_src_def)
  ultimately have "prep_book demo_yoto_env (demo_yoto_config\<lparr>force := False, dry := False\<rparr>) demo_src ?w2 =
      (Inr (Skipped (book p) (cards p) (tracks p)), ?w2)"
    using prepared_book_is_skipped [OF w1 c(2) _ demo_probed demo_probed] by blast
  then show ?thesis unfolding c(1) by blast
qed

end
