(* ===== verification/Py_Links.thy ===== *)
theory Py_Links
  imports Py_Path
begin

text \<open>
  Symbolic links in the file trees of Py_Path: \<open>Path.resolve\<close>, what a path names once links
  are followed, and the lemmas on paths without links.
\<close>

section \<open>Following links\<close>

text \<open>
  \<open>Path.resolve\<close>: links are followed component by component, within a budget of links.
\<close>

function resolve :: "fs \<Rightarrow> nat \<Rightarrow> path \<Rightarrow> path \<Rightarrow> path option" where
  "resolve t b d [] = Some d"
| "resolve t b d (c # cs) =
     (if c = ''..'' then resolve t b (if length d \<le> 1 then d else butlast d) cs
      else
        case map_of t (d @ [c]) of
          Some (NLink l) \<Rightarrow>
            (case b of
               0 \<Rightarrow> None
             | Suc b' \<Rightarrow> if l \<noteq> [] \<and> hd l = ''/'' then resolve t b' [''/''] (tl l @ cs) else resolve t b' d (l @ cs))
        | _ \<Rightarrow> resolve t b (d @ [c]) cs)"
  by pat_completeness auto
termination by (relation "measures [\<lambda>(t, b, d, cs). b, \<lambda>(t, b, d, cs). length cs]") auto

definition link_budget :: nat where "link_budget = 40"

definition resolve_path :: "fs \<Rightarrow> path \<Rightarrow> exn + path" where
  "resolve_path t p =
     (case resolve t link_budget [''/''] (tl p) of
        None \<Rightarrow> Inl (RuntimeError ''Symlink loop'') | Some q \<Rightarrow> Inr q)"

text \<open>What \<open>open\<close>, \<open>stat\<close> and their like find at a path; nothing at a dangling link or a loop of links\<close>

definition node_at :: "fs \<Rightarrow> path \<Rightarrow> node option" where
  "node_at t p = (case resolve t link_budget [''/''] (tl p) of None \<Rightarrow> None | Some q \<Rightarrow> map_of t q)"

section \<open>Paths without links\<close>

definition no_links :: "fs \<Rightarrow> path \<Rightarrow> bool" where
  "no_links t p \<longleftrightarrow> list_all (\<lambda>q. \<not> fs_is_link t q) (filter (\<lambda>q. 1 < length q) (prefixes p))"

lemma no_links_iff: "no_links t p \<longleftrightarrow> (\<forall>q. prefix q p \<longrightarrow> 1 < length q \<longrightarrow> \<not> fs_is_link t q)"
  by (auto simp: no_links_def list_all_iff)

lemma no_links_butlast: "no_links t d \<Longrightarrow> no_links t (butlast d)"
  unfolding no_links_iff by (meson prefix_order.trans prefixeq_butlast)

lemma no_links_root: "length d \<le> 1 \<Longrightarrow> no_links t d"
  unfolding no_links_iff using prefix_length_le by fastforce

lemma no_links_snoc: "no_links t d \<Longrightarrow> \<not> fs_is_link t (d @ [c]) \<Longrightarrow> no_links t (d @ [c])"
  unfolding no_links_iff by auto

lemma resolve_no_links: "resolve t b d cs = Some p \<Longrightarrow> no_links t d \<Longrightarrow> no_links t p"
proof (induction t b d cs rule: resolve.induct)
  case (2 t b d c cs)
  show ?case
  proof (cases "c = ''..''")
    case True
    then have "resolve t b (if length d \<le> 1 then d else butlast d) cs = Some p" using "2.prems"(1) by simp
    moreover have "no_links t (if length d \<le> 1 then d else butlast d)" using "2.prems"(2) no_links_butlast by auto
    ultimately show ?thesis by (rule "2.IH"(1) [OF True])
  next
    case c: False
    show ?thesis
    proof (cases "\<exists>l. map_of t (d @ [c]) = Some (NLink l)")
      case True
      then obtain l where l: "map_of t (d @ [c]) = Some (NLink l)" by blast
      obtain b' where b: "b = Suc b'" using "2.prems"(1) c l by (cases b) auto
      show ?thesis
      proof (cases "l \<noteq> [] \<and> hd l = ''/''")
        case True
        then have "resolve t b' [''/''] (tl l @ cs) = Some p" using "2.prems"(1) c l b by simp
        moreover have "no_links t [''/'']" by (rule no_links_root) simp
        ultimately show ?thesis using "2.IH"(5) c l b True by blast
      next
        case False
        then have "resolve t b' d (l @ cs) = Some p" using "2.prems"(1) c l b by auto
        then show ?thesis using "2.IH"(6) c l b False "2.prems"(2) by blast
      qed
    next
      case False
      then have r: "resolve t b (d @ [c]) cs = Some p" and nl: "\<not> fs_is_link t (d @ [c])"
        using "2.prems"(1) c by (auto simp: fs_is_link_def split: option.splits node.splits)
      show ?thesis
      proof (cases "map_of t (d @ [c])")
        case None
        then show ?thesis using "2.IH"(2) c r nl "2.prems"(2) no_links_snoc by blast
      next
        case (Some n)
        then show ?thesis using "2.IH"(3,4) c r nl "2.prems"(2) no_links_snoc False by (cases n) (blast+)
      qed
    qed
  qed
qed simp

end
