(* ===== verification/Yoto_Server.thy ===== *)
theory Yoto_Server
  imports Yoto_Prep Py_Links "HOL-Library.Product_Lexorder"
begin

text \<open>
  The server that streams Yoto cards (yoto-share/server.py): confined paths and natural
  order, the catalogue and its search, the plan of a book from several sources, the ZIP
  stream of one card with its limits and clean-up, and the request handlers. The media
  tools, the clock, the hash, URL building and the texts of the web framework are
  parameters; the bytes of a ZIP are represented by the pieces the archive is made of.
\<close>

section \<open>State\<close>

type_synonym stamp = "string \<times> int \<times> int"

text \<open>A piece of a ZIP: the header, bytes and descriptor of a member, and the directory at the end\<close>

datatype piece = Header string | Data string | Trailer string | Central "string list"

record 's srv = "'s yoto" +
  info_cache :: "(stamp \<times> json) list"
  planners :: nat
  downloads :: nat
  catalogues :: "(path \<times> rat \<times> (string \<times> string) list) list"
  pending :: "piece list"
  sent :: "piece list"
  members :: "string list"
  closed :: bool
  patience :: "nat option"

record 's srv_env =
  yoto_env :: "'s yoto_env"
  clock :: "'s \<Rightarrow> rat"
  mtime_ns :: "'s \<Rightarrow> path \<Rightarrow> int"
  sha256 :: "string \<Rightarrow> string"
  url_for :: "string \<Rightarrow> string \<Rightarrow> string"
  http_name :: "int \<Rightarrow> string"
  http_text :: "int \<Rightarrow> string"
  scanning :: "'s \<Rightarrow> bool"

definition srv_audio_exts :: "string list" where
  "srv_audio_exts = audio_exts @ [''.mp4'', ''.aac'', ''.flac'', ''.ogg'', ''.opus'', ''.wav'',
     ''.wma'', ''.aif'', ''.aiff'', ''.ape'', ''.wv'']"

definition srv_track_bytes :: rat where "srv_track_bytes = 95000000"
definition srv_card_bytes :: rat where "srv_card_bytes = 490000000"
definition download_seconds :: rat where "download_seconds = 30 * 60"

definition media_args :: "string list \<Rightarrow> string list" where
  "media_args cmd =
     (let c = hd cmd # [''-protocol_whitelist'', ''file,pipe''] @ tl cmd in
      if hd cmd = ''ffmpeg''
      then hd c # [''-nostdin'', ''-threads'', ''2'', ''-filter_threads'', ''1'', ''-filter_complex_threads'', ''1''] @ tl c
      else c)"

definition media_run :: "'s srv_env \<Rightarrow> ('s, 'x) runner" where
  "media_run E cmd w =
     (case exec (yoto_env E) (media_args cmd) (outer w) (tree w) of
        (r, s, t) \<Rightarrow>
          (rbnd r (\<lambda>(code, out, err).
             if code \<noteq> 0 then Inl (RuntimeError (hd cmd @ '' failed: '' @ last_n 500 err)) else Inr out),
           w\<lparr>outer := s, tree := t\<rparr>))"

definition abort_with :: "int \<Rightarrow> string \<Rightarrow> exn + 'a" where
  "abort_with code msg = Inl (HTTPError code msg)"

section \<open>Paths\<close>

text \<open>\<open>re.split(r"(\d+)", s)\<close> alternates text and digits, so keys compare position by position.\<close>

function natural_key :: "string \<Rightarrow> (nat \<times> string) list" where
  "natural_key s =
     (let r = dropWhile (\<lambda>c. \<not> is_digit c) s in
      (0, lower (takeWhile (\<lambda>c. \<not> is_digit c) s)) #
      (if r = [] then [] else (read_nat (takeWhile is_digit r), []) # natural_key (dropWhile is_digit r)))"
  by pat_completeness auto
termination
proof (relation "measure length", goal_cases)
  case (2 s r)
  then have r: "r \<noteq> []" "length r \<le> length s" by (simp_all add: length_dropWhile_le)
  then have "is_digit (hd r)" using 2 hd_dropWhile [of "\<lambda>c. \<not> is_digit c" s] by simp
  then have "length (dropWhile is_digit r) < length r"
    using r length_dropWhile_le [of is_digit "tl r"] by (cases r) auto
  then show ?case using r by simp
qed simp

declare natural_key.simps [simp del]

definition beneath :: "fs \<Rightarrow> path \<Rightarrow> string \<Rightarrow> exn + path" where
  "beneath t base relative =
     (let parts = to_path relative in
      if starts_with relative ''/'' \<or> list_ex (\<lambda>p. starts_with p ''.'') parts then abort_with 404 []
      else rbnd (resolve_path t (base @ parts)) (\<lambda>q.
        if is_relative_to q base then Inr q else abort_with 404 []))"

definition visible_child :: "fs \<Rightarrow> path \<Rightarrow> path \<Rightarrow> exn + path list" where
  "visible_child t base p =
     (if starts_with (path_name p) ''.'' \<or> fs_is_link t p then Inr []
      else rbnd (resolve_path t p) (\<lambda>q. Inr (if is_relative_to q base then [p] else [])))"

definition children :: "fs \<Rightarrow> path \<Rightarrow> path \<Rightarrow> exn + path list" where
  "children t base directory =
     (if \<not> fs_is_dir t directory then Inl (OSError ''Not a directory'')
      else rbnd (rmap (visible_child t base) (fs_children t directory)) (\<lambda>pss.
        Inr (sort_key (\<lambda>p. natural_key (path_str p)) (concat pss))))"

definition audio_filename :: "string \<Rightarrow> bool" where
  "audio_filename name \<longleftrightarrow>
     lower (name_suffix name) \<in> set srv_audio_exts \<and>
     \<not> list_ex (contains (lower name)) [''.tmp.'', ''.partial.'']"

definition is_audio :: "fs \<Rightarrow> path \<Rightarrow> bool" where
  "is_audio t p \<longleftrightarrow> audio_filename (path_name p) \<and> fs_is_file t p"

section \<open>The catalogue\<close>

definition catalogue_entry :: "fs \<Rightarrow> path \<Rightarrow> path \<Rightarrow> (string \<times> string) list" where
  "catalogue_entry t base parent =
     (let names = map path_name (filter (\<lambda>p. \<not> starts_with (path_name p) ''.'' \<and> is_audio t p) (fs_children t parent));
          relative = path_str (relpath parent base)
      in if names = [] then [] else [(relative, lower (relative @ '' '' @ join '' '' names))])"

definition visible_dirs :: "fs \<Rightarrow> path \<Rightarrow> path list" where
  "visible_dirs t parent = filter (\<lambda>p. \<not> starts_with (path_name p) ''.'' \<and> fs_is_dir t p) (fs_children t parent)"

definition max_depth :: "fs \<Rightarrow> nat" where
  "max_depth t = foldr (\<lambda>pn m. max (length (fst pn)) m) t 0"

lemma depth_le: "(p, n) \<in> set t \<Longrightarrow> length p \<le> max_depth t"
  unfolding max_depth_def by (induction t) auto

lemma visible_dirs_depth: "d \<in> set (visible_dirs t parent) \<Longrightarrow> length d = Suc (length parent) \<and> length d \<le> max_depth t"
  by (cases d rule: rev_cases) (auto simp: visible_dirs_def fs_children_def dest!: depth_le)

text \<open>The stack of directories to visit, its top first: the last directory found is visited next.\<close>

function scan_loop :: "fs \<Rightarrow> path \<Rightarrow> path list \<Rightarrow> (string \<times> string) list \<Rightarrow> exn + (string \<times> string) list" where
  "scan_loop t base [] acc = Inr acc"
| "scan_loop t base (parent # stack) acc =
     (if \<not> fs_is_dir t parent then Inl (OSError ''No such directory'')
      else scan_loop t base (rev (visible_dirs t parent) @ stack) (acc @ catalogue_entry t base parent))"
  by pat_completeness auto
termination
proof (relation "inv_image (mult less_than) (\<lambda>(t, base, stack, acc). mset (map (\<lambda>d. max_depth t - length d) stack))", goal_cases)
  case 1
  show ?case by (intro wf_inv_image wf_mult wf_less_than)
next
  case (2 t base parent stack acc)
  define k :: "path \<Rightarrow> nat" where "k = (\<lambda>d. max_depth t - length d)"
  have "(mset (map k stack) + mset (map k (rev (visible_dirs t parent))), mset (map k stack) + {#k parent#}) \<in> mult less_than"
    by (rule one_step_implies_mult) (use visible_dirs_depth [of _ t parent] in \<open>fastforce simp: k_def\<close>)+
  then show ?case by (simp add: k_def add.commute)
qed

definition scan_catalogue :: "fs \<Rightarrow> path \<Rightarrow> exn + (string \<times> string) list" where
  "scan_catalogue t base = scan_loop t base [base] []"

section \<open>Books\<close>

record srv_track =
  source :: path
  stamp :: stamp
  piece :: segment
  ext :: string
  copied :: bool
  est_bytes :: rat

definition track_duration :: "srv_track \<Rightarrow> rat" where
  "track_duration tr = duration (piece tr)"

record srv_book =
  bk_title :: string
  bk_author :: json
  bk_cards :: "srv_track list list"
  version :: string

definition source_stamp :: "'s srv_env \<Rightarrow> path \<Rightarrow> ('s srv, stamp) prog" where
  "source_stamp E p w =
     ((case fs_read (tree w) p of
         None \<Rightarrow> Inl (OSError ''No such file'')
       | Some c \<Rightarrow> Inr (path_str p, int (length c), mtime_ns E (outer w) p)), w)"

text \<open>\<open>lru_cache(maxsize=2048)\<close>: most recently used first; an exception is not cached\<close>

definition source_info :: "'s srv_env \<Rightarrow> stamp \<Rightarrow> ('s srv, json) prog" where
  "source_info E st =
     bnd (gets (\<lambda>w. map_of (info_cache w) st)) (\<lambda>hit.
       bnd (case hit of Some j \<Rightarrow> ret j | None \<Rightarrow> probe (media_run E) (to_path (fst st))) (\<lambda>j.
       bnd (modify (\<lambda>w. w\<lparr>info_cache := take 2048 ((st, j) # AList.delete st (info_cache w))\<rparr>)) (\<lambda>_. ret j)))"

definition audio_tags :: "json \<Rightarrow> exn + (string \<times> json) list" where
  "audio_tags info =
     rbnd (audio_stream info) (\<lambda>audio.
     rbnd (py_item info ''format'') (\<lambda>f. rbnd (py_get_or f ''tags'' (JObj [])) (\<lambda>a.
     rbnd (py_get_or audio ''tags'' (JObj [])) (\<lambda>b.
     rbnd (py_items a) (\<lambda>xs. rbnd (py_items b) (\<lambda>ys.
       Inr (dict_of_pairs (map (\<lambda>(k, v). (lower k, v)) (xs @ ys)))))))))"

fun first_tag :: "(string \<times> json) list \<Rightarrow> string list \<Rightarrow> string" where
  "first_tag tags [] = []"
| "first_tag tags (n # ns) = (case map_of tags n of Some v \<Rightarrow> py_str v | None \<Rightarrow> first_tag tags ns)"

definition tag_number :: "(string \<times> json) list \<Rightarrow> string list \<Rightarrow> nat" where
  "tag_number tags names =
     (case takeWhile is_digit (first_tag tags names) of [] \<Rightarrow> 0 | ds \<Rightarrow> read_nat ds)"

definition music_order :: "path \<Rightarrow> json \<Rightarrow> exn + nat \<times> nat \<times> (nat \<times> string) list" where
  "music_order src info =
     rbnd (audio_tags info) (\<lambda>tags.
       Inr (tag_number tags [''disc'', ''discnumber''], tag_number tags [''track'', ''tracknumber''],
            natural_key (path_name src)))"

type_synonym probed = "path \<times> stamp \<times> json"

text \<open>\<open>ordered.sort\<close>: the keys are computed first, and the sort is stable\<close>

definition in_music_order :: "probed list \<Rightarrow> exn + probed list" where
  "in_music_order items =
     rbnd (rmap (\<lambda>it. rbnd (music_order (fst it) (snd (snd it))) (\<lambda>k. Inr (k, it))) items) (\<lambda>ks.
       Inr (map snd (sort_key fst ks)))"

text \<open>A file without chapters of its own is one chapter, titled by its tags or its name.\<close>

definition whole_file :: "(string \<times> json) list \<Rightarrow> path \<Rightarrow> rat \<Rightarrow> exn + segment list" where
  "whole_file tags src dur =
     (if dur < 1 then Inr (slices dur)
      else
        rbnd (py_strip (case map_of tags ''title'' of None \<Rightarrow> JStr (path_stem src) | Some v \<Rightarrow> v)) (\<lambda>t.
          Inr [\<lparr>title = (if t \<noteq> [] then t else ''Chapter 1''), start = 0, stop = dur\<rparr>]))"

definition source_segments :: "bool \<Rightarrow> nat \<Rightarrow> (string \<times> json) list \<Rightarrow> path \<Rightarrow> json \<Rightarrow> rat \<Rightarrow> rat \<Rightarrow> exn + segment list" where
  "source_segments music nfiles tags src raw dur bps =
     rbnd (chapters_of raw) (\<lambda>cs.
       if music \<or> (\<not> truthy cs \<and> 1 < nfiles)
       then rbnd (whole_file tags src dur) (\<lambda>base. Inr (concat (map (subdivide bps) base)))
       else build_segments raw dur bps)"

definition source_rate :: "string option \<Rightarrow> int \<Rightarrow> rat \<Rightarrow> rat" where
  "source_rate x sz dur = (if x \<noteq> None then of_int sz / dur else reencoded_rate)"

definition track_at :: "path \<Rightarrow> stamp \<Rightarrow> string option \<Rightarrow> rat \<Rightarrow> segment \<Rightarrow> srv_track" where
  "track_at src st x rate s =
     \<lparr>source = src, stamp = st, piece = s, ext = ext_or_m4a x, copied = (x \<noteq> None), est_bytes = duration s * rate\<rparr>"

definition source_tracks :: "bool \<Rightarrow> nat \<Rightarrow> probed \<Rightarrow> json \<Rightarrow> exn + json \<times> srv_track list" where
  "source_tracks music nfiles it author =
     (case it of (src, st, raw) \<Rightarrow>
        rbnd (audio_stream raw) (\<lambda>audio. rbnd (format_duration raw) (\<lambda>dur.
          if dur \<le> 0 then Inl (ValueError ''Audio duration is missing or invalid'')
          else
            rbnd (audio_tags raw) (\<lambda>tags. rbnd (py_item audio ''codec_name'') (\<lambda>c. rbnd (passthrough_ext c) (\<lambda>x.
              let rate = source_rate x (fst (snd st)) dur in
              rbnd (source_segments music nfiles tags src raw dur (rate * track_bytes / srv_track_bytes)) (\<lambda>ss.
                Inr (py_or author (case map_of tags ''artist'' of None \<Rightarrow> JStr [] | Some v \<Rightarrow> v),
                     map (track_at src st x rate) ss))))))))"

fun all_tracks :: "bool \<Rightarrow> nat \<Rightarrow> probed list \<Rightarrow> json \<Rightarrow> exn + json \<times> srv_track list" where
  "all_tracks music nfiles [] author = Inr (author, [])"
| "all_tracks music nfiles (it # its) author =
     rbnd (source_tracks music nfiles it author) (\<lambda>(a, ts).
     rbnd (all_tracks music nfiles its a) (\<lambda>(b, us). Inr (b, ts @ us)))"

definition srv_fits :: "srv_track list \<Rightarrow> bool" where
  "srv_fits c \<longleftrightarrow>
     length c \<le> card_tracks \<and> sum_list (map track_duration c) \<le> card_seconds - 10 \<and>
     sum_list (map est_bytes c) \<le> srv_card_bytes"

definition card_count :: "srv_track list \<Rightarrow> nat" where
  "card_count ts =
     nat (max 1 (max \<lceil>sum_list (map track_duration ts) / card_seconds\<rceil>
       (max \<lceil>sum_list (map est_bytes ts) / srv_card_bytes\<rceil> \<lceil>of_nat (length ts) / of_nat card_tracks :: rat\<rceil>)))"

definition stamps_json :: "stamp list \<Rightarrow> json" where
  "stamps_json sts = JArr (map (\<lambda>(p, n, m). JArr [JStr p, JInt n, JInt m]) sts)"

definition plan_book :: "'s srv_env \<Rightarrow> path \<Rightarrow> path list \<Rightarrow> bool \<Rightarrow> ('s srv, srv_book) prog" where
  "plan_book E directory sources music =
     bnd (for_each sources (\<lambda>p sts. bnd (source_stamp E p) (\<lambda>st. ret (sts @ [st]))) []) (\<lambda>stamps.
     bnd (for_each stamps (\<lambda>st js. bnd (source_info E st) (\<lambda>j. ret (js @ [j]))) []) (\<lambda>infos.
     bnd (of_result (let items = zip sources (zip stamps infos) in if music then in_music_order items else Inr items)) (\<lambda>ordered.
     bnd (of_result (all_tracks music (length sources) ordered (JStr []))) (\<lambda>(author, ts).
       ret \<lparr>bk_title = safe_name (path_name directory), bk_author = author,
            bk_cards = pack_from track_duration srv_fits ts (card_count ts),
            version = take 24 (sha256 E (json_dumps default_layout (stamps_json stamps)))\<rparr>))))"

section \<open>The ZIP stream\<close>

definition put :: "piece list \<Rightarrow> ('s srv, unit) prog" where
  "put ps = modify (\<lambda>w. w\<lparr>pending := pending w @ ps\<rparr>)"

text \<open>\<open>yield sink.drain()\<close>: the client may close the generator instead of asking for more\<close>

definition yield_drain :: "('s srv, unit) prog" where
  "yield_drain w =
     (let w' = w\<lparr>sent := sent w @ pending w, pending := []\<rparr> in
      case patience w of
        None \<Rightarrow> (Inr (), w')
      | Some 0 \<Rightarrow> (Inl GeneratorExit, w')
      | Some (Suc n) \<Rightarrow> (Inr (), w'\<lparr>patience := Some n\<rparr>))"

text \<open>\<open>archive.close()\<close> writes the directory once\<close>

definition close_archive :: "'s srv \<Rightarrow> 's srv" where
  "close_archive w = (if closed w then w else w\<lparr>pending := pending w @ [Central (members w)], closed := True\<rparr>)"

definition end_member :: "string \<Rightarrow> 's srv \<Rightarrow> 's srv" where
  "end_member name w = w\<lparr>pending := pending w @ [Trailer name], members := members w @ [name]\<rparr>"

definition write_member :: "string \<Rightarrow> string \<Rightarrow> ('s srv, unit) prog" where
  "write_member name content =
     bnd (put [Header name, Data content]) (\<lambda>_. modify (end_member name))"

definition check_deadline :: "'s srv_env \<Rightarrow> rat \<Rightarrow> ('s srv, unit) prog" where
  "check_deadline E deadline w =
     (if deadline < clock E (outer w) then Inl (TimeoutError ''Card download exceeded 30 minutes'') else Inr (), w)"

function chunks_of :: "nat \<Rightarrow> string \<Rightarrow> string list" where
  "chunks_of n s = (if s = [] then [] else take (Suc n) s # chunks_of n (drop (Suc n) s))"
  by pat_completeness auto
termination by (relation "measure (\<lambda>(n, s). length s)") auto

declare chunks_of.simps [simp del]

definition read_file :: "path \<Rightarrow> ('s srv, string) prog" where
  "read_file p w =
     ((case fs_read (tree w) p of None \<Rightarrow> Inl (OSError ''No such file'') | Some c \<Rightarrow> Inr c), w)"

definition send_chunk :: "'s srv_env \<Rightarrow> rat \<Rightarrow> string \<Rightarrow> unit \<Rightarrow> ('s srv, unit) prog" where
  "send_chunk E deadline c u =
     bnd (check_deadline E deadline) (\<lambda>_. bnd (put [Data c]) (\<lambda>_. yield_drain))"

definition send_track :: "'s srv_env \<Rightarrow> rat \<Rightarrow> string \<Rightarrow> path \<Rightarrow> ('s srv, unit) prog" where
  "send_track E deadline member dest =
     bnd (put [Header member]) (\<lambda>_.
       try_finally
         (bnd (read_file dest) (\<lambda>content.
            for_each (chunks_of (1024 * 1024 - 1) content) (send_chunk E deadline) ()))
         (end_member member))"

definition instructions :: string where
  "instructions = ''Extract this ZIP, then add the numbered audio tracks to a new Yoto Make Your Own playlist.'' @ [CHR 0x0A]"

definition member_name :: "nat \<Rightarrow> srv_track \<Rightarrow> string" where
  "member_name n tr = zero_pad 3 (int n) @ '' - '' @ safe_name (title (piece tr)) @ ext tr"

definition within_yoto :: "rat \<Rightarrow> nat \<Rightarrow> nat \<times> rat \<Rightarrow> bool" where
  "within_yoto dur sz tot \<longleftrightarrow>
     0 < dur \<and> dur \<le> 3600 \<and> sz \<le> 100000000 \<and> fst tot \<le> 500000000 \<and> snd tot \<le> card_seconds"

text \<open>One track: the clock and the source are checked, it is cut, measured, sent and removed.\<close>

definition prepare_track ::
  "'s srv_env \<Rightarrow> srv_book \<Rightarrow> path \<Rightarrow> rat \<Rightarrow> nat \<Rightarrow> srv_track \<Rightarrow> nat \<times> rat \<Rightarrow> ('s srv, nat \<times> rat) prog" where
  "prepare_track E b temp deadline n tr tot =
     (let dest = temp @ [member_name n tr] in
      bnd (check_deadline E deadline) (\<lambda>_.
      bnd (source_stamp E (source tr)) (\<lambda>st.
        if st \<noteq> stamp tr then raise (RuntimeError ''Source changed during download; reload the book'')
        else
          bnd (cut (media_run E) (source tr) (piece tr) dest (ext tr) (copied tr) (bk_title b) (py_str (bk_author b)) n) (\<lambda>_.
          bnd (probe (media_run E) dest) (\<lambda>info.
          bnd (of_result (format_duration info)) (\<lambda>dur.
          bnd (file_size dest) (\<lambda>sz.
            let tot' = (fst tot + sz, snd tot + dur) in
            if within_yoto dur sz tot' then ret tot'
            else raise (RuntimeError ''Generated audio exceeds Yoto card limits''))))))))"

definition stream_track ::
  "'s srv_env \<Rightarrow> srv_book \<Rightarrow> string \<Rightarrow> path \<Rightarrow> rat \<Rightarrow> nat \<times> srv_track \<Rightarrow> nat \<times> rat \<Rightarrow> ('s srv, nat \<times> rat) prog" where
  "stream_track E b stem temp deadline ntr tot =
     (case ntr of (n, tr) \<Rightarrow>
        bnd (prepare_track E b temp deadline n tr tot) (\<lambda>tot'.
        bnd (send_track E deadline (stem @ ''/'' @ member_name n tr) (temp @ [member_name n tr])) (\<lambda>_.
        bnd yield_drain (\<lambda>_.
        bnd (touch (fs_unlink (temp @ [member_name n tr]))) (\<lambda>_. ret tot')))))"

definition send_picture :: "string \<Rightarrow> path \<Rightarrow> unit \<Rightarrow> ('s srv, unit) prog" where
  "send_picture stem p u =
     bnd (read_file p) (\<lambda>c.
     bnd (write_member (stem @ ''/_artwork/'' @ path_name p) c) (\<lambda>_. yield_drain))"

definition send_artwork :: "'s srv_env \<Rightarrow> srv_track list \<Rightarrow> string \<Rightarrow> path \<Rightarrow> ('s srv, unit) prog" where
  "send_artwork E cd stem temp =
     (let src = source (hd cd); art = temp @ [''_artwork''] in
      bnd (find_cover (yoto_env E) (media_run E) (path_parent src) src art) (\<lambda>_.
      bnd (gets (\<lambda>w. sort_key path_name (filter (\<lambda>p. ends_with (path_name p) ''.png'') (fs_children (tree w) art)))) (\<lambda>ps.
        for_each ps (send_picture stem) ())))"

definition card_stem :: "srv_book \<Rightarrow> nat \<Rightarrow> string" where
  "card_stem b i = (if length (bk_cards b) = 1 then bk_title b else bk_title b @ '' - '' @ card_label i)"

definition card_body :: "'s srv_env \<Rightarrow> srv_book \<Rightarrow> nat \<Rightarrow> rat \<Rightarrow> path \<Rightarrow> ('s srv, unit) prog" where
  "card_body E b i deadline temp =
     (let cd = bk_cards b ! i; stem = card_stem b i in
      bnd (write_member (stem @ ''/_artwork/instructions.txt'') instructions) (\<lambda>_.
      bnd yield_drain (\<lambda>_.
      bnd (for_each (enum_from 1 cd) (stream_track E b stem temp deadline) (0, 0)) (\<lambda>_.
      bnd (send_artwork E cd stem temp) (\<lambda>_.
      bnd (modify close_archive) (\<lambda>_. yield_drain))))))"

definition card_zip :: "'s srv_env \<Rightarrow> srv_book \<Rightarrow> nat \<Rightarrow> ('s srv, unit) prog" where
  "card_zip E b i =
     bnd (modify (\<lambda>w. w\<lparr>pending := [], sent := [], members := [], closed := False\<rparr>)) (\<lambda>_.
     bnd (gets (\<lambda>w. (clock E (outer w) + download_seconds, temp_dir (yoto_env E) (outer w) (tree w)))) (\<lambda>(deadline, temp).
       try_finally
         (bnd (touch (fs_mkdirs temp)) (\<lambda>_. try_finally (card_body E b i deadline temp) (drop_tree temp)))
         close_archive))"

section \<open>Requests\<close>

record http_request =
  query :: "string option"
  link_version :: "string option"
  is_head :: bool
  has_range :: bool

record view =
  v_title :: string
  v_status :: int
  v_entries :: "(string \<times> string \<times> string) list"
  v_book :: "srv_book option"
  v_relative :: string
  v_message :: string
  v_section :: string
  v_parent :: "(string \<times> string) option"
  v_query :: string

datatype response =
    Page view
  | Attachment path
  | Card_Head string
  | Card_Stream string srv_book nat
  | Healthy

record srv_config =
  lib :: path
  published :: path
  andys :: "path option"

definition endpoint_of :: "string \<Rightarrow> string" where
  "endpoint_of sec = (if sec = ''books'' then ''books'' else if sec = ''music'' then ''music'' else ''andys_music_page'')"

definition section_name :: "string \<Rightarrow> string" where
  "section_name sec =
     (if sec = ''books'' then ''Audiobooks'' else if sec = ''music'' then ''Music'' else ''Andy'' @ [CHR 0x27] @ ''s music'')"

definition parent_link :: "'s srv_env \<Rightarrow> string \<Rightarrow> string \<Rightarrow> (string \<times> string) option" where
  "parent_link E sec relative =
     (if relative = [] then None
      else
        let parent = path_parent (to_path relative);
            parent_relative = (if parent = [] then [] else path_str parent @ ''/'');
            name = (if path_name parent \<noteq> [] then path_name parent else section_name sec)
        in Some (name, url_for E (endpoint_of sec) parent_relative))"

definition page ::
  "'s srv_env \<Rightarrow> http_request \<Rightarrow> string \<Rightarrow> (string \<times> string \<times> string) list \<Rightarrow> srv_book option \<Rightarrow> string \<Rightarrow>
     string \<Rightarrow> int \<Rightarrow> string \<Rightarrow> response" where
  "page E q ttl entries bk relative msg status sec =
     Page \<lparr>v_title = ttl, v_status = status, v_entries = entries, v_book = bk, v_relative = relative, v_message = msg,
           v_section = sec, v_parent = parent_link E sec relative,
           v_query = take 100 (case query q of None \<Rightarrow> [] | Some s \<Rightarrow> s)\<rparr>"

definition cached_catalogue :: "'s srv_env \<Rightarrow> path \<Rightarrow> rat \<Rightarrow> ('s srv, (string \<times> string) list) prog" where
  "cached_catalogue E base max_age =
     bnd (gets (\<lambda>w. (map_of (catalogues w) base, clock E (outer w), scanning E (outer w)))) (\<lambda>(cached, now, busy).
       let stale = (case cached of None \<Rightarrow> True | Some (tm, _) \<Rightarrow> max_age \<le> now - tm) in
       if \<not> stale then ret (snd (the cached))
       else if busy then
         (case cached of
            None \<Rightarrow> of_result (abort_with 503 ''The library search is loading. Please try again in a moment.'')
          | Some (_, c) \<Rightarrow> ret c)
       else
         bnd (bnd (gets tree) (\<lambda>t. of_result (scan_catalogue t base))) (\<lambda>c.
         bnd (modify (\<lambda>w. w\<lparr>catalogues := AList.update base (clock E (outer w), c) (catalogues w)\<rparr>)) (\<lambda>_. ret c)))"

definition matches_in :: "(string \<times> string) list \<Rightarrow> string \<Rightarrow> string list" where
  "matches_in catalogue q =
     (let words = split_ws (lower q) in
      sort_key natural_key (map fst (filter (\<lambda>rh. list_all (contains (snd rh)) words) catalogue)))"

definition search_entries ::
  "'s srv_env \<Rightarrow> path \<Rightarrow> string \<Rightarrow> string \<Rightarrow> rat \<Rightarrow> ('s srv, (string \<times> string \<times> string) list \<times> string) prog" where
  "search_entries E base endpoint q max_age =
     bnd (cached_catalogue E base max_age) (\<lambda>c.
       let ms = matches_in c q in
       ret (map (\<lambda>rel. (rel, url_for E endpoint rel @ ''/'', [])) (take 200 ms),
            if 200 < length ms
            then ''Showing 200 of '' @ show_nat (length ms) @ '' matches. Add another word to narrow the search.'' else []))"

definition on_tree :: "(fs \<Rightarrow> exn + 'a) \<Rightarrow> ('s srv, 'a) prog" where
  "on_tree f w = (f (tree w), w)"

definition get_book :: "'s srv_env \<Rightarrow> string \<Rightarrow> path \<Rightarrow> bool \<Rightarrow> ('s srv, srv_book) prog" where
  "get_book E relative base music =
     bnd (on_tree (\<lambda>t. beneath t base relative)) (\<lambda>directory.
     bnd (on_tree (\<lambda>t. if fs_is_dir t directory then children t base directory else abort_with 404 [])) (\<lambda>items.
     bnd (gets (\<lambda>w. (filter (is_audio (tree w)) items, planners w))) (\<lambda>(sources, permits).
       if sources = [] then of_result (abort_with 404 [])
       else if permits = 0 then
         of_result (abort_with 503 ''Other books are being opened. Please try again in a moment.'')
       else
         bnd (modify (\<lambda>w. w\<lparr>planners := planners w - 1\<rparr>)) (\<lambda>_.
           try_finally (plan_book E directory sources music) (\<lambda>w. w\<lparr>planners := planners w + 1\<rparr>)))))"

definition rel_str :: "path \<Rightarrow> path \<Rightarrow> string" where
  "rel_str p base = path_str (relpath p base)"

definition if_audio :: "'s srv_env \<Rightarrow> path list \<Rightarrow> string \<Rightarrow> path \<Rightarrow> bool \<Rightarrow> ('s srv, srv_book option) prog" where
  "if_audio E items relative base music =
     bnd (gets (\<lambda>w. list_ex (is_audio (tree w)) items)) (\<lambda>some.
       if some then bnd (get_book E relative base music) (\<lambda>b. ret (Some b)) else ret None)"

definition books :: "'s srv_env \<Rightarrow> srv_config \<Rightarrow> http_request \<Rightarrow> string \<Rightarrow> ('s srv, response) prog" where
  "books E c q relative =
     bnd (on_tree (\<lambda>t. beneath t (lib c) relative)) (\<lambda>directory.
     bnd (on_tree (\<lambda>t. if fs_is_dir t directory then children t (lib c) directory else abort_with 404 [])) (\<lambda>items.
     bnd (gets (\<lambda>w. map (\<lambda>p. (path_name p, url_for E ''books'' (rel_str p (lib c)) @ ''/'', [])) (filter (fs_is_dir (tree w)) items))) (\<lambda>entries.
       let raw = (case query q of None \<Rightarrow> [] | Some s \<Rightarrow> s); qs = take 100 (lower (strip raw)) in
       if qs \<noteq> [] then
         bnd (search_entries E (lib c) ''books'' qs 0) (\<lambda>(es, msg).
           ret (page E q (''Search: '' @ take 100 raw) es None [] msg 200 ''books''))
       else
         bnd (if_audio E items relative (lib c) False) (\<lambda>b.
           ret (page E q (if relative \<noteq> [] then path_name directory else ''Audiobooks'') entries b
                  (rstrip_chars ''/'' relative) [] 200 ''books'')))))"

definition served_suffix :: "path \<Rightarrow> bool" where
  "served_suffix p \<longleftrightarrow> lower (path_suffix p) \<in> set (srv_audio_exts @ [''.zip'', ''.jpg'', ''.jpeg'', ''.png'', ''.txt''])"

definition is_picture :: "path \<Rightarrow> bool" where
  "is_picture p \<longleftrightarrow> lower (path_suffix p) \<in> set [''.jpg'', ''.jpeg'', ''.png'']"

definition music_listing :: "'s srv_env \<Rightarrow> http_request \<Rightarrow> path \<Rightarrow> string \<Rightarrow> string \<Rightarrow> string \<Rightarrow> path \<Rightarrow> ('s srv, response) prog" where
  "music_listing E q base relative endpoint sec p =
     bnd (on_tree (\<lambda>t. children t base p)) (\<lambda>items.
     bnd (if_audio E items relative base True) (\<lambda>b.
     bnd (gets (\<lambda>w. map (\<lambda>x. (path_name x, url_for E endpoint (rel_str x base) @ (if fs_is_dir (tree w) x then ''/'' else []), []))
            (filter (\<lambda>x. fs_is_dir (tree w) x \<or> (sec = ''music'' \<and> (is_audio (tree w) x \<or> is_picture x))) items))) (\<lambda>entries.
       ret (page E q (if relative \<noteq> [] then path_name p else section_name sec) entries b
              (rstrip_chars ''/'' relative) [] 200 sec))))"

definition music_page :: "'s srv_env \<Rightarrow> http_request \<Rightarrow> path \<Rightarrow> string \<Rightarrow> string \<Rightarrow> string \<Rightarrow> ('s srv, response) prog" where
  "music_page E q base relative endpoint sec =
     bnd (on_tree (\<lambda>t. beneath t base relative)) (\<lambda>p.
     bnd (gets tree) (\<lambda>t.
       if fs_is_dir t p then
         (let qs = take 100 (strip (case query q of None \<Rightarrow> [] | Some s \<Rightarrow> s)) in
          if qs \<noteq> [] then
            bnd (search_entries E base endpoint qs 60) (\<lambda>(es, msg). ret (page E q (''Search: '' @ qs) es None [] msg 200 sec))
          else music_listing E q base relative endpoint sec p)
       else if sec = ''andys'' \<or> \<not> fs_is_file t p \<or> \<not> served_suffix p then of_result (abort_with 404 [])
       else ret (Attachment p)))"

definition music :: "'s srv_env \<Rightarrow> srv_config \<Rightarrow> http_request \<Rightarrow> string \<Rightarrow> ('s srv, response) prog" where
  "music E c q relative = music_page E q (published c @ [''Music'']) relative ''music'' ''music''"

definition andys_music_page :: "'s srv_env \<Rightarrow> srv_config \<Rightarrow> http_request \<Rightarrow> string \<Rightarrow> ('s srv, response) prog" where
  "andys_music_page E c q relative =
     (case andys c of
        None \<Rightarrow> of_result (abort_with 404 [])
      | Some base \<Rightarrow> music_page E q base relative ''andys_music_page'' ''andys'')"

text \<open>The handler takes a download permit; the stream gives it back.\<close>

definition download_card :: "'s srv_env \<Rightarrow> http_request \<Rightarrow> string \<Rightarrow> nat \<Rightarrow> path \<Rightarrow> bool \<Rightarrow> ('s srv, response) prog" where
  "download_card E q relative index base mus =
     (if has_range q then
        of_result (abort_with 416 ''Generated ZIPs cannot resume. Start a new download from the book page.'')
      else
        bnd (get_book E relative base mus) (\<lambda>b.
          if length (bk_cards b) \<le> index then of_result (abort_with 404 [])
          else if link_version q \<noteq> Some (version b) then
            of_result (abort_with 409 ''This book has changed. Reopen its page for current download links.'')
          else if is_head q then ret (Card_Head (card_stem b index))
          else
            bnd (gets downloads) (\<lambda>permits.
              if permits = 0 then
                of_result (abort_with 503 ''Two cards are downloading. Please try again when one finishes.'')
              else
                bnd (modify (\<lambda>w. w\<lparr>downloads := downloads w - 1\<rparr>)) (\<lambda>_.
                  ret (Card_Stream (card_stem b index) b index)))))"

definition stream :: "'s srv_env \<Rightarrow> srv_book \<Rightarrow> nat \<Rightarrow> ('s srv, unit) prog" where
  "stream E b i = try_finally (card_zip E b i) (\<lambda>w. w\<lparr>downloads := downloads w + 1\<rparr>)"

definition download :: "'s srv_env \<Rightarrow> srv_config \<Rightarrow> http_request \<Rightarrow> string \<Rightarrow> nat \<Rightarrow> ('s srv, response) prog" where
  "download E c q relative index = download_card E q relative index (lib c) False"

definition music_download :: "'s srv_env \<Rightarrow> srv_config \<Rightarrow> http_request \<Rightarrow> string \<Rightarrow> nat \<Rightarrow> ('s srv, response) prog" where
  "music_download E c q relative index = download_card E q relative index (published c @ [''Music'']) True"

definition andys_download :: "'s srv_env \<Rightarrow> srv_config \<Rightarrow> http_request \<Rightarrow> string \<Rightarrow> nat \<Rightarrow> ('s srv, response) prog" where
  "andys_download E c q relative index =
     (case andys c of None \<Rightarrow> of_result (abort_with 404 []) | Some base \<Rightarrow> download_card E q relative index base True)"

definition home :: "'s srv_env \<Rightarrow> srv_config \<Rightarrow> http_request \<Rightarrow> ('s srv, response) prog" where
  "home E c q =
     ret (page E q ''Yoto library''
       ([(''Audiobooks'', url_for E ''books'' [], ''Browse all books and download cards''),
         (''Music'', ''/Music/'', ''Albums for your cards'')] @
        (if andys c \<noteq> None then
           [(section_name ''andys'', url_for E ''andys_music_page'' [],
             ''Search Andy'' @ [CHR 0x27] @ ''s collection and download an album for Yoto'')] else [])) None [] [] 200 ''books'')"

definition health :: "srv_config \<Rightarrow> ('s srv, response) prog" where
  "health c =
     on_tree (\<lambda>t.
       if list_all (fs_is_dir t) ([lib c, published c] @ (case andys c of None \<Rightarrow> [] | Some p \<Rightarrow> [p]))
       then Inr Healthy else Inl (OSError ''No such file or directory''))"

text \<open>The two error handlers around every route\<close>

definition handled :: "'s srv_env \<Rightarrow> http_request \<Rightarrow> ('s srv, response) prog \<Rightarrow> ('s srv, response) prog" where
  "handled E q m =
     try_except m (\<lambda>e.
       case e of
         HTTPError code msg \<Rightarrow>
           ret (page E q (http_name E code) [] None [] (if msg = [] then http_text E code else msg) code ''books'')
       | _ \<Rightarrow>
           if is_exception e then
             ret (page E q ''This book could not be prepared'' [] None []
                    ''Please retry shortly. If it keeps failing, let Andy know.'' 503 ''books'')
           else raise e)"

section \<open>What leaves the stream and the permits alone\<close>

text \<open>Media tools and file operations change the tree and the outside world only.\<close>

definition quiet :: "'s srv \<Rightarrow> 's srv \<Rightarrow> bool" where
  "quiet w w' \<longleftrightarrow> (\<exists>s t. w' = w\<lparr>outer := s, tree := t\<rparr>)"

definition permits_kept :: "'s srv \<Rightarrow> 's srv \<Rightarrow> bool" where
  "permits_kept w w' \<longleftrightarrow> downloads w' = downloads w \<and> planners w' = planners w"

lemma quiet_refl [simp]: "quiet w w"
  unfolding quiet_def by (intro exI [of _ "outer w"] exI [of _ "tree w"]) simp

lemma quiet_trans: "quiet u v \<Longrightarrow> quiet v w \<Longrightarrow> quiet u w"
proof -
  assume "quiet u v" "quiet v w"
  then obtain s t s' t' where "v = u\<lparr>outer := s, tree := t\<rparr>" "w = v\<lparr>outer := s', tree := t'\<rparr>" by (auto simp: quiet_def)
  then have "w = u\<lparr>outer := s', tree := t'\<rparr>" by simp
  then show "quiet u w" unfolding quiet_def by blast
qed

lemma quiet_orders [simp]: "reflp quiet" "transp quiet" "reflp permits_kept" "transp permits_kept"
  by (auto simp: reflp_def permits_kept_def intro!: transpI intro: quiet_trans)

lemma quiet_permits: "quiet w w' \<Longrightarrow> permits_kept w w'"
  by (auto simp: quiet_def permits_kept_def)

lemma quiet_runs [simp]: "keeps quiet (media_run E cmd)"
  by (rule keepsI) (auto simp: media_run_def quiet_def split: prod.split)

lemma quiet_touch [simp]: "keeps quiet (touch f)"
proof (rule keepsI)
  fix w :: "'a srv"
  have "snd (touch f w) = w\<lparr>outer := outer w, tree := f (tree w)\<rparr>" by (simp add: touch_def)
  then show "quiet w (snd (touch f w))" unfolding quiet_def by blast
qed

lemma quiet_reads [simp]:
  "keeps quiet (file_size p)" "keeps quiet (read_file p)" "keeps quiet (check_deadline E d)" "keeps quiet (source_stamp E p)"
  "keeps quiet (gets f)" "keeps quiet (of_result r)" "keeps quiet (ret x)" "keeps quiet (raise e)"
  by (auto simp: keeps_def file_size_def read_file_def check_deadline_def source_stamp_def gets_def of_result_def ret_def raise_def)

lemma quiet_drop: "quiet w (drop_tree d w)"
  unfolding quiet_def drop_tree_def by (intro exI [of _ "outer w"] exI) simp

lemma keeps_finally:
  assumes "transp R" "keeps R m" "\<And>w. R w (c w)"
  shows "keeps R (try_finally m c)"
proof (rule keepsI)
  fix w
  obtain r v where v: "m w = (r, v)" by fastforce
  have "R w v" by (rule keepsD [OF assms(2) v])
  then show "R w (snd (try_finally m c w))"
    using transpD [OF assms(1)] assms(3) [of v] by (simp add: try_finally_def v)
qed

lemmas quiet_bnd = keeps_bnd [OF quiet_orders(2)]
lemmas quiet_try = keeps_try_except [OF quiet_orders(2)]
lemmas quiet_finally = keeps_finally [OF quiet_orders(2)]

lemma quiet_probe [simp]: "keeps quiet (probe (media_run E) p)"
  unfolding probe_def by (intro quiet_bnd quiet_runs quiet_reads)

lemma quiet_cut [simp]: "keeps quiet (cut (media_run E) src seg dest e pt bk au n)"
  unfolding cut_def by (intro quiet_bnd quiet_runs quiet_reads)

lemma quiet_draw: "keeps quiet (draw_cover (media_run E) img dest)"
  unfolding draw_cover_def by (intro quiet_try quiet_bnd quiet_runs quiet_reads) (auto split: exn.split)

lemma quiet_modify_drop: "keeps quiet (modify (drop_tree d))"
  by (rule keepsI) (simp add: modify_def quiet_drop)

lemma quiet_extract: "keeps quiet (extract_art (media_run E) src img)"
  unfolding extract_art_def
  by (intro quiet_try quiet_bnd quiet_runs quiet_reads)
    (auto split: exn.split intro!: quiet_bnd quiet_modify_drop)

lemma quiet_find_cover [simp]: "keeps quiet (find_cover F (media_run E) d src dest)"
  unfolding find_cover_def
  by (intro quiet_bnd quiet_touch quiet_reads)
    (auto split: option.split intro!: quiet_bnd quiet_draw quiet_finally quiet_extract quiet_drop)

lemma quiet_prepare_track: "keeps quiet (prepare_track E b temp dl n tr tot)"
  unfolding prepare_track_def Let_def
  by (intro quiet_bnd quiet_reads) (auto intro!: quiet_bnd)

section \<open>The archive grows by whole members\<close>

definition is_central :: "piece \<Rightarrow> bool" where
  "is_central p = (case p of Central _ \<Rightarrow> True | _ \<Rightarrow> False)"

definition trailers :: "piece list \<Rightarrow> string list" where
  "trailers ps = concat (map (\<lambda>p. case p of Trailer n \<Rightarrow> [n] | _ \<Rightarrow> []) ps)"

lemma trailers_simps [simp]:
  "trailers [] = []" "trailers (Header n # ps) = trailers ps" "trailers (Data d # ps) = trailers ps"
  "trailers (Trailer n # ps) = n # trailers ps" "trailers (Central ms # ps) = trailers ps"
  "trailers (ps @ qs) = trailers ps @ trailers qs"
  by (simp_all add: trailers_def)

text \<open>An archive that is still open: the finished members are those whose end was written.\<close>

definition open_with :: "string list \<Rightarrow> 's srv \<Rightarrow> bool" where
  "open_with ms w \<longleftrightarrow>
     members w = ms \<and> trailers (sent w @ pending w) = ms \<and> \<not> closed w \<and> \<not> list_ex is_central (sent w @ pending w)"

text \<open>\<open>grows m ms P\<close>: from an archive with the members \<open>ms\<close> the program ends with some that satisfy \<open>P\<close>.\<close>

definition grows :: "('s srv, 'a) prog \<Rightarrow> string list \<Rightarrow> (string list \<Rightarrow> bool) \<Rightarrow> bool" where
  "grows m ms P \<longleftrightarrow>
     (\<forall>w. open_with ms w \<longrightarrow> (case m w of (r, w') \<Rightarrow> \<exists>ms'. open_with ms' w' \<and> (case r of Inl e \<Rightarrow> True | Inr x \<Rightarrow> P ms')))"

lemma growsD: "grows m ms P \<Longrightarrow> open_with ms w \<Longrightarrow> m w = (r, w') \<Longrightarrow>
    \<exists>ms'. open_with ms' w' \<and> (case r of Inl e \<Rightarrow> True | Inr x \<Rightarrow> P ms')"
  unfolding grows_def by fastforce

lemma growsI:
  "(\<And>w r w'. open_with ms w \<Longrightarrow> m w = (r, w') \<Longrightarrow> \<exists>ms'. open_with ms' w' \<and> (case r of Inl e \<Rightarrow> True | Inr x \<Rightarrow> P ms')) \<Longrightarrow>
   grows m ms P"
  unfolding grows_def by fastforce

lemma grows_bnd:
  assumes "grows m ms P" "\<And>x ms'. P ms' \<Longrightarrow> grows (f x) ms' Q"
  shows "grows (bnd m f) ms Q"
proof (rule growsI)
  fix w r w'
  assume w: "open_with ms w" and r: "bnd m f w = (r, w')"
  obtain x v where m: "m w = (x, v)" by fastforce
  from growsD [OF assms(1) w m] obtain ms1 where ms1: "open_with ms1 v" "case x of Inl e \<Rightarrow> True | Inr x \<Rightarrow> P ms1" by blast
  show "\<exists>ms'. open_with ms' w' \<and> (case r of Inl e \<Rightarrow> True | Inr x \<Rightarrow> Q ms')"
  proof (cases x)
    case (Inl e)
    then show ?thesis using m r ms1 by (auto simp: bnd_def)
  next
    case (Inr y)
    then have "f y v = (r, w')" using m r by (simp add: bnd_def)
    then show ?thesis using growsD [OF assms(2) ms1(1)] Inr ms1(2) by simp
  qed
qed

lemma grows_quiet: "keeps quiet m \<Longrightarrow> grows m ms (\<lambda>ms'. ms' = ms)"
proof (rule growsI)
  fix w r w'
  assume k: "keeps quiet m" and w: "open_with ms w" and r: "m w = (r, w')"
  have "quiet w w'" by (rule keepsD [OF k r])
  then have "open_with ms w'" using w by (auto simp: quiet_def open_with_def)
  then show "\<exists>ms'. open_with ms' w' \<and> (case r of Inl e \<Rightarrow> True | Inr x \<Rightarrow> ms' = ms)" by (auto split: sum.split)
qed

lemma grows_weaken: "grows m ms P \<Longrightarrow> (\<And>ms'. P ms' \<Longrightarrow> Q ms') \<Longrightarrow> grows m ms Q"
  unfolding grows_def by (fastforce split: sum.splits)

lemma grows_put: "(\<And>p. p \<in> set ps \<Longrightarrow> \<not> is_central p \<and> trailers [p] = []) \<Longrightarrow> grows (put ps) ms (\<lambda>ms'. ms' = ms)"
proof (rule growsI)
  fix w r w'
  assume ps: "\<And>p. p \<in> set ps \<Longrightarrow> \<not> is_central p \<and> trailers [p] = []" and w: "open_with ms w" and r: "put ps w = (r, w')"
  have "trailers ps = []" using ps by (induction ps) (auto simp: trailers_def)
  moreover have "\<not> list_ex is_central ps" using ps by (auto simp: list_ex_iff)
  ultimately have "open_with ms w'" using w r by (auto simp: open_with_def put_def modify_def)
  then show "\<exists>ms'. open_with ms' w' \<and> (case r of Inl e \<Rightarrow> True | Inr x \<Rightarrow> ms' = ms)" by (auto split: sum.split)
qed

lemma grows_yield: "grows yield_drain ms (\<lambda>ms'. ms' = ms)"
proof (rule growsI)
  fix w :: "'a srv" and r w'
  assume w: "open_with ms w" and r: "yield_drain w = (r, w')"
  have "open_with ms w'" using w r by (auto simp: open_with_def yield_drain_def Let_def split: option.splits nat.splits)
  then show "\<exists>ms'. open_with ms' w' \<and> (case r of Inl e \<Rightarrow> True | Inr x \<Rightarrow> ms' = ms)" by (auto split: sum.split)
qed

lemma open_end_member: "open_with ms w \<Longrightarrow> open_with (ms @ [n]) (end_member n w)"
  by (auto simp: open_with_def end_member_def is_central_def)

lemma grows_end_member: "grows (modify (end_member n)) ms (\<lambda>ms'. ms' = ms @ [n])"
  by (rule growsI) (auto simp: modify_def intro!: open_end_member)

lemma grows_finally_end:
  assumes "grows m ms (\<lambda>ms'. ms' = ms)"
  shows "grows (try_finally m (end_member n)) ms (\<lambda>ms'. ms' = ms @ [n])"
proof (rule growsI)
  fix w r w'
  assume w: "open_with ms w" and r: "try_finally m (end_member n) w = (r, w')"
  obtain x v where m: "m w = (x, v)" by fastforce
  then have "w' = end_member n v" "r = x" using r by (simp_all add: try_finally_def)
  with growsD [OF assms w m] show "\<exists>ms'. open_with ms' w' \<and> (case r of Inl e \<Rightarrow> True | Inr x \<Rightarrow> ms' = ms @ [n])"
    using open_end_member by (fastforce split: sum.splits)
qed

lemma grows_for_each:
  assumes "\<And>x a ms. x \<in> set xs \<Longrightarrow> grows (f x a) ms (\<lambda>ms'. ms' = ms @ g x)"
  shows "grows (for_each xs f a) ms (\<lambda>ms'. ms' = ms @ concat (map g xs))"
  using assms
proof (induction xs arbitrary: a ms)
  case Nil
  then show ?case using grows_quiet [OF quiet_reads(7)] by simp
next
  case (Cons x xs)
  show ?case unfolding for_each.simps
    by (rule grows_bnd [OF Cons.prems]) (use Cons in \<open>auto intro: grows_weaken [OF Cons.IH]\<close>)
qed

lemma grows_send_track: "grows (send_track E dl mem dest) ms (\<lambda>ms'. ms' = ms @ [mem])"
proof -
  have chunk: "grows (send_chunk E dl c u) ms (\<lambda>ms'. ms' = ms @ [])" for c u ms
    unfolding send_chunk_def
    by (rule grows_bnd [OF grows_quiet [OF quiet_reads(3)]], rule grows_bnd [OF grows_put])
      (auto simp: is_central_def intro: grows_yield)
  have chunks: "grows (for_each cs (send_chunk E dl) ()) ms (\<lambda>ms'. ms' = ms)" for cs ms
    by (rule grows_weaken [OF grows_for_each [where f = "send_chunk E dl" and g = "\<lambda>_. []"]]) (simp_all add: chunk [simplified])
  have body: "grows (bnd (read_file dest) (\<lambda>content. for_each (chunks_of (1024 * 1024 - 1) content) (send_chunk E dl) ())) ms
      (\<lambda>ms'. ms' = ms)" for ms
    by (rule grows_bnd [OF grows_quiet [OF quiet_reads(2)]]) (use chunks in simp)
  show ?thesis unfolding send_track_def
  proof (rule grows_bnd [OF grows_put])
    show "p \<in> set [Header mem] \<Longrightarrow> \<not> is_central p \<and> trailers [p] = []" for p by (simp add: is_central_def)
  qed (simp only: grows_finally_end [OF body])
qed

lemma grows_write_member: "grows (write_member n c) ms (\<lambda>ms'. ms' = ms @ [n])"
  unfolding write_member_def by (rule grows_bnd [OF grows_put]) (auto simp: is_central_def intro: grows_end_member)

lemma grows_stream_track:
  "grows (stream_track E b stem temp dl (n, tr) tot) ms (\<lambda>ms'. ms' = ms @ [stem @ ''/'' @ member_name n tr])"
  unfolding stream_track_def prod.case
  apply (rule grows_bnd [OF grows_quiet [OF quiet_prepare_track]])
  apply (rule grows_bnd [OF grows_send_track])
  apply (rule grows_bnd [OF grows_yield])
  apply (rule grows_weaken [OF grows_quiet])
   apply (intro quiet_bnd quiet_touch quiet_reads)
  apply simp
  done

lemma grows_artwork: "grows (send_artwork E cd stem temp) ms (\<lambda>ms'. \<exists>pics. ms' = ms @ pics)"
proof -
  have pic: "grows (send_picture stem p u) ms (\<lambda>ms'. ms' = ms @ [stem @ ''/_artwork/'' @ path_name p])" for p u ms
    unfolding send_picture_def
    by (rule grows_bnd [OF grows_quiet [OF quiet_reads(2)]], rule grows_bnd [OF grows_write_member])
      (auto intro: grows_weaken [OF grows_yield])
  have pics: "grows (for_each ps (send_picture stem) ()) ms (\<lambda>ms'. \<exists>pics. ms' = ms @ pics)" for ps ms
    by (rule grows_weaken [OF grows_for_each [where f = "send_picture stem" and g = "\<lambda>p. [stem @ ''/_artwork/'' @ path_name p]"]])
      (use pic in auto)
  show ?thesis unfolding send_artwork_def Let_def
    by (rule grows_bnd [OF grows_quiet [OF quiet_find_cover]], rule grows_bnd [OF grows_quiet [OF quiet_reads(5)]])
      (use pics in simp)
qed

section \<open>The whole stream\<close>

lemma grows_card_tracks:
  "grows (for_each (enum_from 1 cd) (stream_track E b stem temp dl) tot) ms
     (\<lambda>ms'. ms' = ms @ map (\<lambda>(n, tr). stem @ ''/'' @ member_name n tr) (enum_from 1 cd))"
proof (rule grows_weaken [OF grows_for_each [where f = "stream_track E b stem temp dl"
      and g = "\<lambda>(n, tr). [stem @ ''/'' @ member_name n tr]"]])
  show "grows (stream_track E b stem temp dl x a) ms (\<lambda>ms'. ms' = ms @ (case x of (n, tr) \<Rightarrow> [stem @ ''/'' @ member_name n tr]))"
    for x a ms
    by (cases x) (simp only: prod.case grows_stream_track)
  have c: "concat (map (\<lambda>(n, tr). [f n tr]) xs) = map (\<lambda>(n, tr). f n tr) xs" for f :: "nat \<Rightarrow> srv_track \<Rightarrow> string" and xs
    by (induction xs) auto
  show "ms' = ms @ concat (map (\<lambda>(n, tr). [stem @ ''/'' @ member_name n tr]) (enum_from 1 cd)) \<Longrightarrow>
      ms' = ms @ map (\<lambda>(n, tr). stem @ ''/'' @ member_name n tr) (enum_from 1 cd)" for ms'
    by (simp add: c)
qed

text \<open>The members of a complete archive: instructions, all tracks of the card in order, pictures\<close>

definition complete_members :: "srv_book \<Rightarrow> nat \<Rightarrow> string list \<Rightarrow> bool" where
  "complete_members b i ms \<longleftrightarrow>
     (\<exists>pics. ms = (card_stem b i @ ''/_artwork/instructions.txt'') #
        map (\<lambda>(n, tr). card_stem b i @ ''/'' @ member_name n tr) (enum_from 1 (bk_cards b ! i)) @ pics)"

text \<open>What the client has: no directory, or everything with the directory at the end\<close>

definition honest_stream :: "srv_book \<Rightarrow> nat \<Rightarrow> 's srv \<Rightarrow> bool" where
  "honest_stream b i w \<longleftrightarrow>
     \<not> list_ex is_central (sent w) \<or>
     (\<exists>ps ms. sent w = ps @ [Central ms] \<and> \<not> list_ex is_central ps \<and> trailers ps = ms \<and> complete_members b i ms)"

lemma card_body_stream:
  assumes w: "open_with [] w" and r: "card_body E b i dl temp w = (r, w')"
  shows "honest_stream b i w' \<and> (case r of Inl e \<Rightarrow> True | Inr x \<Rightarrow> list_ex is_central (sent w'))"
proof -
  define stem where "stem = card_stem b i"
  define cd where "cd = bk_cards b ! i"
  define pre where "pre = bnd (write_member (stem @ ''/_artwork/instructions.txt'') instructions) (\<lambda>_.
      bnd yield_drain (\<lambda>_.
      bnd (for_each (enum_from 1 cd) (stream_track E b stem temp dl) (0, 0)) (\<lambda>_. send_artwork E cd stem temp)))"
  have split: "card_body E b i dl temp = bnd pre (\<lambda>_. bnd (modify close_archive) (\<lambda>_. yield_drain))"
    by (simp add: card_body_def pre_def stem_def cd_def Let_def bnd_assoc)
  have g: "grows pre [] (complete_members b i)"
    unfolding pre_def
    apply (rule grows_bnd [OF grows_write_member])
    apply (rule grows_bnd [OF grows_yield])
    apply (rule grows_bnd [OF grows_card_tracks])
    apply (rule grows_weaken [OF grows_artwork])
    apply (auto simp: complete_members_def stem_def cd_def)
    done
  obtain x v where p: "pre w = (x, v)" by fastforce
  from growsD [OF g w p] obtain ms where ms: "open_with ms v" "case x of Inl e \<Rightarrow> True | Inr x \<Rightarrow> complete_members b i ms" by blast
  show ?thesis
  proof (cases x)
    case (Inl e)
    then have "w' = v" "r = Inl e" using r p by (simp_all add: split bnd_def)
    then show ?thesis using ms(1) by (auto simp: honest_stream_def open_with_def)
  next
    case (Inr y)
    then have y: "yield_drain (close_archive v) = (r, w')" using r p by (simp add: split bnd_def modify_def)
    have cl: "close_archive v = v\<lparr>pending := pending v @ [Central ms], closed := True\<rparr>"
      using ms(1) by (simp add: close_archive_def open_with_def)
    have s: "sent w' = (sent v @ pending v) @ [Central ms]"
      using y unfolding cl by (auto simp: yield_drain_def Let_def split: option.splits nat.splits)
    have "complete_members b i ms" using Inr ms(2) by simp
    moreover have "\<not> list_ex is_central (sent v @ pending v)" "trailers (sent v @ pending v) = ms"
      using ms(1) by (simp_all add: open_with_def)
    ultimately have "honest_stream b i w'" unfolding honest_stream_def s by blast
    moreover have "list_ex is_central (sent w')" unfolding s by (simp add: is_central_def)
    ultimately show ?thesis by (auto split: sum.split)
  qed
qed

lemma sent_close [simp]: "sent (close_archive w) = sent w" "tree (close_archive w) = tree w"
  "sent (drop_tree d w) = sent w" "downloads (close_archive w) = downloads w" "planners (close_archive w) = planners w"
  "downloads (drop_tree d w) = downloads w" "planners (drop_tree d w) = planners w"
  by (simp_all add: close_archive_def drop_tree_def)

lemma honest_cong: "sent w = sent v \<Longrightarrow> honest_stream b i w = honest_stream b i v"
  by (simp add: honest_stream_def)

section \<open>Permits\<close>

lemma permits_quiet: "keeps quiet m \<Longrightarrow> keeps permits_kept m"
  unfolding keeps_def using quiet_permits by blast

lemmas permits_bnd = keeps_bnd [OF quiet_orders(4)]
lemmas permits_finally = keeps_finally [OF quiet_orders(4)]
lemmas permits_for_each = keeps_for_each [OF quiet_orders(3,4)]

lemma permits_stream_steps [simp]:
  "keeps permits_kept (put ps)" "keeps permits_kept yield_drain" "keeps permits_kept (modify (end_member n))"
  "keeps permits_kept (modify close_archive)" "keeps permits_kept (write_member n c)"
proof -
  show p: "keeps permits_kept (put ps)" for ps
    by (rule keepsI) (simp add: put_def modify_def permits_kept_def)
  show "keeps permits_kept yield_drain"
    by (rule keepsI) (auto simp: yield_drain_def Let_def permits_kept_def split: option.split nat.split)
  show e: "keeps permits_kept (modify (end_member n))" for n
    by (rule keepsI) (simp add: modify_def end_member_def permits_kept_def)
  show "keeps permits_kept (modify close_archive)"
    by (rule keepsI) (simp add: modify_def permits_kept_def)
  show "keeps permits_kept (write_member n c)" unfolding write_member_def by (intro permits_bnd p e)
qed

lemma permits_stream_track: "keeps permits_kept (stream_track E b stem temp dl x tot)"
proof -
  have chunk: "keeps permits_kept (send_chunk E dl c u)" for c u
    unfolding send_chunk_def by (intro permits_bnd permits_quiet [OF quiet_reads(3)] permits_stream_steps)
  have send: "keeps permits_kept (send_track E dl m dest)" for m dest
    unfolding send_track_def
    by (intro permits_bnd permits_stream_steps permits_finally permits_quiet [OF quiet_reads(2)] permits_for_each chunk)
      (simp add: end_member_def permits_kept_def)
  show ?thesis unfolding stream_track_def
    by (cases x)
      (simp, intro permits_bnd permits_quiet [OF quiet_prepare_track] send permits_stream_steps permits_quiet [OF quiet_touch] permits_quiet [OF quiet_reads(7)])
qed

lemma permits_card_body: "keeps permits_kept (card_body E b i dl temp)"
proof -
  have pic: "keeps permits_kept (send_picture stem p u)" for stem p u
    unfolding send_picture_def by (intro permits_bnd permits_quiet [OF quiet_reads(2)] permits_stream_steps)
  have art: "keeps permits_kept (send_artwork E cd stem temp)" for cd stem
    unfolding send_artwork_def Let_def
    by (intro permits_bnd permits_quiet [OF quiet_find_cover] permits_quiet [OF quiet_reads(5)] permits_for_each pic)
  show ?thesis unfolding card_body_def Let_def
    by (intro permits_bnd permits_stream_steps permits_for_each permits_stream_track art)
qed

lemma permits_card_zip: "keeps permits_kept (card_zip E b i)"
  unfolding card_zip_def
  apply (intro permits_bnd)
    apply (rule keepsI, simp add: modify_def permits_kept_def)
   apply (rule permits_quiet [OF quiet_reads(5)])
  apply (rule keeps_case)
  apply (intro permits_finally permits_bnd permits_quiet [OF quiet_touch] permits_card_body)
   apply (simp_all add: permits_kept_def)
  done

lemma permits_plan_book: "keeps permits_kept (plan_book E d srcs mus)"
proof -
  have info: "keeps permits_kept (source_info E st)" for st
    unfolding source_info_def
    by (intro permits_bnd permits_quiet [OF quiet_reads(5)])
      (auto simp: modify_def permits_kept_def intro!: permits_bnd keepsI permits_quiet [OF quiet_probe]
        permits_quiet [OF quiet_reads(7)] split: option.split)
  show ?thesis unfolding plan_book_def
    apply (intro permits_bnd permits_for_each permits_quiet [OF quiet_reads(4)] permits_quiet [OF quiet_reads(7)] info
        permits_quiet [OF quiet_reads(6)])
    apply (rule keeps_case)
    apply (rule permits_quiet [OF quiet_reads(7)])
    done
qed

section \<open>Paths stay in the tree\<close>

text \<open>
  C15. A request never leaves the tree it is confined to: the path \<open>beneath\<close> returns lies
  under the base directory and has no symbolic link on it, so that what is served under
  that name is in the tree itself; a request with a hidden or parent component, or an
  absolute one, is refused with 404.
\<close>

theorem beneath_is_confined:
  "(case beneath t base relative of
      Inr p \<Rightarrow> prefix base p \<and> no_links t p \<and> \<not> list_ex (\<lambda>c. starts_with c ''.'') (to_path relative)
    | Inl e \<Rightarrow> True) \<and>
   (if list_ex (\<lambda>c. starts_with c ''.'') (to_path relative) \<or> starts_with relative ''/''
    then beneath t base relative = Inl (HTTPError 404 []) else True)"
proof -
  have root: "no_links t [''/'']" by (rule no_links_root) simp
  have "prefix base p \<and> no_links t p \<and> \<not> list_ex (\<lambda>c. starts_with c ''.'') (to_path relative)"
    if "beneath t base relative = Inr p" for p
    using that resolve_no_links [OF _ root]
    by (auto simp: beneath_def Let_def abort_with_def rbnd_Inr_iff resolve_path_def is_relative_to_prefix
        split: if_splits option.splits)
  then show ?thesis by (auto simp: beneath_def abort_with_def Let_def split: sum.split)
qed

section \<open>The stream of a card\<close>

text \<open>
  C13. A download is complete or visibly broken: whatever happens (a failing tool, a changed
  source, a limit, the deadline, a client that goes away at any yield), the client has
  either no ZIP directory at all, or a whole archive with the directory at its end that
  lists the instructions and every track of the card in order; a stream that ends normally
  has sent the directory; and nothing is left of the temporary directory.
\<close>

theorem card_stream_is_honest:
  "case card_zip E b i w of
     (r, w') \<Rightarrow>
       honest_stream b i w' \<and> (case r of Inl e \<Rightarrow> True | Inr x \<Rightarrow> list_ex is_central (sent w')) \<and>
       \<not> list_ex (\<lambda>p. is_relative_to p (temp_dir (yoto_env E) (outer w) (tree w))) (map fst (tree w'))"
proof -
  let ?d = "temp_dir (yoto_env E) (outer w) (tree w)"
  define w0 where "w0 = w\<lparr>pending := [], sent := [], members := [], closed := False\<rparr>"
  define w1 where "w1 = w0\<lparr>tree := fs_mkdirs ?d (tree w0)\<rparr>"
  have o: "open_with [] w1" by (simp add: open_with_def w1_def w0_def)
  obtain r v where v: "card_body E b i (clock E (outer w) + download_seconds) ?d w1 = (r, v)" by fastforce
  have z: "card_zip E b i w = (r, close_archive (drop_tree ?d v))"
    unfolding card_zip_def bnd_def
    using v by (simp add: modify_def gets_def try_finally_def touch_def w0_def w1_def)
  have gone: "\<not> list_ex (\<lambda>p. is_relative_to p ?d) (map fst (tree (close_archive (drop_tree ?d v))))"
    by (auto simp: drop_tree_def fs_rmtree_def list_ex_iff)
  have "sent (close_archive (drop_tree ?d v)) = sent v" by simp
  with card_body_stream [OF o v] honest_cong [OF this] gone show ?thesis unfolding z by (cases r) simp_all
qed

text \<open>
  C14. Permits are not lost: however a request for a card ends, the planning permit is back;
  a download permit is taken only by a request that starts a stream, and the stream gives
  it back whether it completes, fails or is abandoned.
\<close>

theorem permits_come_back:
  "case download_card E q relative i base mus w of
     (r, w1) \<Rightarrow>
       planners w1 = planners w \<and>
       (case r of
          Inr (Card_Stream stem b k) \<Rightarrow>
            downloads w = downloads w1 + 1 \<and>
            (case stream E b k w1 of (_, w2) \<Rightarrow> downloads w2 = downloads w \<and> planners w2 = planners w)
        | _ \<Rightarrow> downloads w1 = downloads w)"
proof -
  have st: "downloads w2 = downloads v + 1 \<and> planners w2 = planners v" if "stream E b k v = (x, w2)" for b k v x w2
  proof -
    obtain y u where y: "card_zip E b k v = (y, u)" by fastforce
    have "permits_kept v u" by (rule keepsD [OF permits_card_zip y])
    then show ?thesis using that y by (auto simp: stream_def try_finally_def permits_kept_def)
  qed
  have gb: "permits_kept v u" if "get_book E relative base mus v = (x, u)" for v x u
  proof -
    have tf: "permits_kept v u"
      if "0 < planners v" "try_finally (plan_book E d s mus) (\<lambda>w. w\<lparr>planners := Suc (planners w)\<rparr>) (v\<lparr>planners := planners v - Suc 0\<rparr>) = (x, u)"
      for d s
    proof -
      obtain y z where y: "plan_book E d s mus (v\<lparr>planners := planners v - Suc 0\<rparr>) = (y, z)" by fastforce
      have "permits_kept (v\<lparr>planners := planners v - Suc 0\<rparr>) z" by (rule keepsD [OF permits_plan_book y])
      then show ?thesis using that y by (auto simp: try_finally_def permits_kept_def)
    qed
    have refl: "permits_kept v v" by (simp add: permits_kept_def)
    show ?thesis using that tf refl
      unfolding get_book_def bnd_def
      by (auto simp: on_tree_def gets_def modify_def of_result_def abort_with_def
          split: sum.splits if_splits prod.splits)
  qed
  obtain r w1 where r: "download_card E q relative i base mus w = (r, w1)" by fastforce
  show ?thesis
  proof (cases "has_range q")
    case True
    then show ?thesis by (simp add: download_card_def of_result_def abort_with_def)
  next
    case False
    obtain x u where x: "get_book E relative base mus w = (x, u)" by fastforce
    have k: "downloads u = downloads w" "planners u = planners w" using gb [OF x] by (simp_all add: permits_kept_def)
    show ?thesis
    proof (cases x)
      case (Inl e)
      then show ?thesis using x False k by (simp add: download_card_def bnd_def)
    next
      case (Inr b)
      show ?thesis
      proof (cases "length (bk_cards b) \<le> i \<or> link_version q \<noteq> Some (version b) \<or> is_head q \<or> downloads u = 0")
        case True
        then show ?thesis using x False k Inr
          by (auto simp: download_card_def bnd_def of_result_def abort_with_def ret_def gets_def)
      next
        case ok: False
        then have d: "download_card E q relative i base mus w =
            (Inr (Card_Stream (card_stem b i) b i), u\<lparr>downloads := downloads u - 1\<rparr>)"
          using x False Inr by (simp add: download_card_def bnd_def gets_def modify_def ret_def)
        obtain y w2 where y: "stream E b i (u\<lparr>downloads := downloads u - 1\<rparr>) = (y, w2)" by fastforce
        from st [OF this] show ?thesis using ok k y by (simp add: d)
      qed
    qed
  qed
qed

section \<open>The plan of a book\<close>

lemma subdivide_ne: "subdivide bps s \<noteq> []"
proof -
  have "1 \<le> count_parts (duration s) bps 1" by (rule count_parts_ge)
  then show ?thesis by (auto simp: subdivide_def Let_def)
qed

lemma slices_ne: "slices dur \<noteq> []"
  by (auto simp: slices_def slice_count_def)

lemma base_segments_ne: "base_segments info dur = Inr ss \<Longrightarrow> ss \<noteq> []"
  using slices_ne by (auto simp: base_segments_def rbnd_Inr_iff split: if_splits)

lemma subdivided:
  assumes "base \<noteq> []" "ss = concat (map (subdivide bps) base)"
  shows "ss \<noteq> [] \<and> list_all (legal_track bps) ss"
proof
  have "subdivide bps (hd base) \<noteq> []" by (rule subdivide_ne)
  then show "ss \<noteq> []" using assms by (cases base) auto
  show "list_all (legal_track bps) ss" using assms(2) subdivide_legal by (auto simp: list_all_iff)
qed

lemma source_segments_spec:
  assumes "source_segments mus nfiles tags src raw dur bps = Inr ss"
  shows "ss \<noteq> [] \<and> list_all (legal_track bps) ss"
proof -
  have whole: "base \<noteq> []" if "whole_file tags src dur = Inr base" for base
    using that slices_ne by (auto simp: whole_file_def rbnd_Inr_iff split: if_splits)
  have build: "\<exists>base. base \<noteq> [] \<and> ts = concat (map (subdivide bps) base)" if "build_segments raw dur bps = Inr ts" for ts
    using that base_segments_ne by (auto simp: build_segments_def rbnd_Inr_iff)
  have "\<exists>base. base \<noteq> [] \<and> ss = concat (map (subdivide bps) base)"
    using assms whole build by (auto simp: source_segments_def rbnd_Inr_iff split: if_splits)
  then show ?thesis using subdivided by blast
qed

lemma srv_fits_single:
  assumes "legal_track (rate * track_bytes / srv_track_bytes) (piece tr)" "est_bytes tr = duration (piece tr) * rate"
  shows "srv_fits [tr]"
proof -
  have "duration (piece tr) * rate \<le> srv_track_bytes"
    using assms(1) by (simp add: legal_track_def yoto_limits srv_track_bytes_def mult.commute)
  then show ?thesis using assms
    by (simp add: srv_fits_def track_duration_def legal_track_def yoto_limits srv_track_bytes_def srv_card_bytes_def)
qed

definition tracks_of :: "path \<Rightarrow> srv_track list \<Rightarrow> bool" where
  "tracks_of src ts \<longleftrightarrow> ts \<noteq> [] \<and> list_all (\<lambda>t. source t = src) ts"

lemma source_tracks_spec:
  assumes "source_tracks mus nfiles it a = Inr (b, ts)"
  shows "tracks_of (fst it) ts \<and> list_all (\<lambda>t. srv_fits [t]) ts"
proof -
  obtain src st raw where it: "it = (src, st, raw)" by (cases it) auto
  obtain tags dur x ss where
    ss: "source_segments mus nfiles tags src raw dur (source_rate x (fst (snd st)) dur * track_bytes / srv_track_bytes) = Inr ss"
    and ts: "ts = map (track_at src st x (source_rate x (fst (snd st)) dur)) ss"
    using assms unfolding it source_tracks_def by (auto simp: rbnd_Inr_iff Let_def split: if_splits)
  from source_segments_spec [OF ss] show ?thesis
    unfolding ts it tracks_of_def
    by (auto simp: list_all_iff track_at_def
        intro!: srv_fits_single [where rate = "source_rate x (fst (snd st)) dur"])
qed

lemma all_tracks_spec:
  "all_tracks mus nfiles its a = Inr (b, ts) \<Longrightarrow>
     \<exists>pieces. ts = concat pieces \<and> list_all2 (\<lambda>it p. tracks_of (fst it) p) its pieces \<and> list_all (\<lambda>t. srv_fits [t]) ts"
proof (induction mus nfiles its a arbitrary: b ts rule: all_tracks.induct)
  case (1 mus nfiles a)
  then show ?case by (intro exI [of _ "[]"]) simp
next
  case (2 mus nfiles it its a)
  obtain a1 ts1 us where s: "source_tracks mus nfiles it a = Inr (a1, ts1)" and u: "all_tracks mus nfiles its a1 = Inr (b, us)"
    and ts: "ts = ts1 @ us"
    using "2.prems" by (auto simp: rbnd_Inr_iff)
  obtain ps where ps: "us = concat ps" "list_all2 (\<lambda>it p. tracks_of (fst it) p) its ps" "list_all (\<lambda>t. srv_fits [t]) us"
    using "2.IH" [OF u] by blast
  show ?case using source_tracks_spec [OF s] ps ts by (intro exI [of _ "ts1 # ps"]) simp
qed

lemma ret_Inr_iff: "ret x w = (Inr y, w') \<longleftrightarrow> y = x \<and> w' = w"
  by (auto simp: ret_def)

lemma collected:
  "for_each xs (\<lambda>x acc. bnd (f x) (\<lambda>y. ret (acc @ [y]))) acc w = (Inr ys, w') \<Longrightarrow> length ys = length acc + length xs"
proof (induction xs arbitrary: acc w)
  case (Cons x xs)
  then obtain y v where "f x w = (Inr y, v)" "for_each xs (\<lambda>x acc. bnd (f x) (\<lambda>y. ret (acc @ [y]))) (acc @ [y]) v = (Inr ys, w')"
    by (auto simp: bnd_Inr_iff ret_Inr_iff)
  from Cons.IH [OF this(2)] show ?case by simp
qed (simp add: ret_Inr_iff)

lemma music_order_mset: "in_music_order items = Inr ordered \<Longrightarrow> mset ordered = mset items"
proof -
  assume "in_music_order items = Inr ordered"
  then obtain ks where ks: "rmap (\<lambda>it. rbnd (music_order (fst it) (snd (snd it))) (\<lambda>k. Inr (k, it))) items = Inr ks"
    and o: "ordered = map snd (sort_key fst ks)"
    by (auto simp: in_music_order_def rbnd_Inr_iff)
  have "list_all2 (\<lambda>it kit. snd kit = it) items ks"
    using rmap_Inr [OF ks] by (rule list_all2_mono) (auto simp: rbnd_Inr_iff)
  then have "map snd ks = items" by (induction rule: list_all2_induct) auto
  then have "image_mset snd (mset ks) = mset items" by (metis mset_map)
  then show ?thesis by (simp add: o)
qed

text \<open>
  A book with several files loses none of them and repeats none: its tracks are those
  of each file in turn, every file contributing at least one, in the order of the files
  (for music, in an order that is a permutation of them); the cards hold exactly these
  tracks in their order, none is empty, and each one is within the limits the server
  plans with.
\<close>

theorem plan_keeps_every_file:
  assumes "plan_book E directory srcs mus w = (Inr b, w')"
  shows "\<exists>order pieces. mset order = mset srcs \<and> (mus \<or> order = srcs) \<and>
    concat (bk_cards b) = concat pieces \<and> list_all2 tracks_of order pieces \<and>
    list_all (\<lambda>c. c \<noteq> [] \<and> srv_fits c) (bk_cards b)"
proof -
  obtain stamps infos ordered author ts v1 v2 where
    st: "for_each srcs (\<lambda>p sts. bnd (source_stamp E p) (\<lambda>st. ret (sts @ [st]))) [] w = (Inr stamps, v1)" and
    inf: "for_each stamps (\<lambda>st js. bnd (source_info E st) (\<lambda>j. ret (js @ [j]))) [] v1 = (Inr infos, v2)" and
    o: "(if mus then in_music_order (zip srcs (zip stamps infos)) else Inr (zip srcs (zip stamps infos))) = Inr ordered" and
    ts: "all_tracks mus (length srcs) ordered (JStr []) = Inr (author, ts)" and
    b: "bk_cards b = pack_from track_duration srv_fits ts (card_count ts)"
    using assms unfolding plan_book_def bnd_Inr_iff
    by (auto simp: Let_def of_result_def ret_Inr_iff split: prod.splits)
  have len: "length stamps = length srcs" "length infos = length srcs" using collected [OF st] collected [OF inf] by simp_all
  then have srcs: "map fst (zip srcs (zip stamps infos)) = srcs" by simp
  have ord: "mset (map fst ordered) = mset srcs" "mus \<or> map fst ordered = srcs"
  proof -
    have "mset ordered = mset (zip srcs (zip stamps infos))" using o music_order_mset by (auto split: if_splits)
    then have "image_mset fst (mset ordered) = image_mset fst (mset (zip srcs (zip stamps infos)))" by simp
    then show "mset (map fst ordered) = mset srcs" using srcs by (metis mset_map)
    show "mus \<or> map fst ordered = srcs" using o srcs by (auto split: if_splits)
  qed
  obtain pieces where p: "ts = concat pieces" "list_all2 (\<lambda>it p. tracks_of (fst it) p) ordered pieces"
    and fit: "list_all (\<lambda>t. srv_fits [t]) ts"
    using all_tracks_spec [OF ts] by blast
  have l: "list_all2 tracks_of (map fst ordered) pieces" using p(2) by (simp add: list_all2_map1)
  have "0 < card_count ts" by (simp add: card_count_def)
  then have "concat (bk_cards b) = ts \<and> list_all srv_fits (bk_cards b) \<and> [] \<notin> set (bk_cards b)"
    unfolding b using fit by (intro pack_from_spec) (auto simp: list_all_iff)
  then show ?thesis using ord l p(1) by (intro exI [of _ "map fst ordered"] exI [of _ pieces]) (auto simp: list_all_iff)
qed

text \<open>Numbers in names count as numbers: track 2 comes before track 10.\<close>

lemma natural_key_number:
  assumes "\<not> list_ex is_digit p" "s = [] \<or> \<not> is_digit (hd s)"
  shows "natural_key (p @ show_nat m @ s) = (0, lower p) # (m, []) # natural_key s"
proof -
  have d: "list_all is_digit (show_nat m)" "show_nat m \<noteq> []" by simp_all
  have p: "\<forall>c \<in> set p. \<not> is_digit c" using assms(1) by (auto simp: list_ex_iff)
  obtain c cs where c: "show_nat m = c # cs" using d(2) by (cases "show_nat m") auto
  then have "is_digit c" using d(1) by simp
  then have t: "takeWhile (\<lambda>c. \<not> is_digit c) (p @ show_nat m @ s) = p" "dropWhile (\<lambda>c. \<not> is_digit c) (p @ show_nat m @ s) = show_nat m @ s"
    using p c by (auto simp: takeWhile_append2 dropWhile_append2)
  have s: "takeWhile is_digit (show_nat m @ s) = show_nat m" "dropWhile is_digit (show_nat m @ s) = s"
    using d(1) assms(2) by (cases s; auto simp: list_all_iff takeWhile_append2 dropWhile_append2)+
  show ?thesis using t s d(2) by (subst natural_key.simps) (simp add: Let_def)
qed

lemma natural_order:
  assumes "\<not> list_ex is_digit p" "s = [] \<or> \<not> is_digit (hd s)"
  shows "natural_key (p @ show_nat m @ s) \<le> natural_key (p @ show_nat n @ s) \<longleftrightarrow> m \<le> n"
  unfolding natural_key_number [OF assms] by (auto simp: less_eq_prod_def less_prod_def)

section \<open>A concrete plan\<close>

definition demo_srv_env :: "unit srv_env" where
  "demo_srv_env =
     \<lparr>yoto_env = demo_yoto_env, clock = (\<lambda>s. 0), mtime_ns = (\<lambda>s p. 7), sha256 = id, url_for = (\<lambda>e r. r),
      http_name = (\<lambda>c. []), http_text = (\<lambda>c. []), scanning = (\<lambda>s. False)\<rparr>"

definition demo_srv :: "unit srv" where
  "demo_srv = \<lparr>outer = (), tree = [(demo_src, NFile ''AUDIO'')], info_cache = [], planners = 2, downloads = 2,
     catalogues = [], pending = [], sent = [], members = [], closed = False, patience = None\<rparr>"

lemma demo_srv_probe: "probe (media_run demo_srv_env) p w = (Inr demo_probe, w)"
proof -
  have "json_loads (json_dumps compact_layout demo_probe) = Some demo_probe"
    using json_loads_dumps_ws [OF good_layouts(2), of demo_probe "[]"] by (simp add: demo_probe_def)
  then show ?thesis
    by (simp add: probe_def bnd_def media_run_def media_args_def demo_srv_env_def demo_yoto_env_def parse_json_def of_result_def Let_def)
qed

lemma demo_plan: "\<exists>b w'. plan_book demo_srv_env [''l'', ''b''] [demo_src] False demo_srv = (Inr b, w')"
proof -
  define st :: stamp where "st = (path_str demo_src, 5, 7)"
  define w1 where "w1 = demo_srv\<lparr>info_cache := [(st, demo_probe)]\<rparr>"
  have a: "audio_stream demo_probe = Inr (JObj [(''codec_type'', JStr ''audio''), (''codec_name'', JStr ''mp3'')])"
    "format_duration demo_probe = Inr 60" "audio_tags demo_probe = Inr []" "chapters_of demo_probe = Inr (JArr [])" by code_simp+
  have s: "source_stamp demo_srv_env demo_src demo_srv = (Inr st, demo_srv)"
    by (simp add: source_stamp_def demo_srv_def st_def fs_read_def demo_srv_env_def)
  have i: "source_info demo_srv_env st demo_srv = (Inr demo_probe, w1)"
  proof -
    have "info_cache demo_srv = []" by (simp add: demo_srv_def)
    then show ?thesis by (simp add: source_info_def bnd_def gets_def demo_srv_probe modify_def ret_def w1_def)
  qed
  have base: "base_segments demo_probe 60 = Inr [\<lparr>title = ''Part 1'', start = 0, stop = 60\<rparr>]" by code_simp
  have sz: "fst (snd st) = 5" by (simp add: st_def)
  obtain ss where ss: "source_segments False 1 [] demo_src demo_probe 60
      (source_rate (Some ''.mp3'') 5 60 * track_bytes / srv_track_bytes) = Inr ss"
    by (simp add: source_segments_def a build_segments_def base)
  have "source_tracks False 1 (demo_src, st, demo_probe) (JStr []) =
      Inr (JStr [], map (track_at demo_src st (Some ''.mp3'') (source_rate (Some ''.mp3'') 5 60)) ss)"
    using ss by (simp add: source_tracks_def a sz py_item_def passthrough_ext_def passthrough_codecs_def Let_def py_or_def)
  then obtain ts where t: "all_tracks False 1 [(demo_src, st, demo_probe)] (JStr []) = Inr (JStr [], ts)" by simp
  show ?thesis using s i t by (simp add: plan_book_def bnd_def ret_def of_result_def)
qed

theorem plan_keeps_every_file_witness:
  "\<exists>b w' pieces. plan_book demo_srv_env [''l'', ''b''] [demo_src] False demo_srv = (Inr b, w') \<and>
     concat (bk_cards b) = concat pieces \<and> list_all2 tracks_of [demo_src] pieces"
proof -
  obtain b w' where r: "plan_book demo_srv_env [''l'', ''b''] [demo_src] False demo_srv = (Inr b, w')"
    using demo_plan by blast
  from plan_keeps_every_file [OF r] r show ?thesis by auto
qed

end
