(* ===== verification/Ai_Retention.thy ===== *)
theory Ai_Retention
  imports Py_Float Py_Path
begin

text \<open>
  The pruning of agent transcripts (scripts/ai-retention.py): the usage rows read from a
  transcript, the ledger they are appended to, the removal of what is older than the
  cutoff, and the trimming of prompt histories. File times, the Hermes database and its
  command line are parameters. Links are left aside in walks, and text is bytes.
\<close>

section \<open>State\<close>

record 's ret_env =
  home :: path
  ledger_dir :: path
  mtime :: "path \<Rightarrow> rat"
  mtime_num :: "path \<Rightarrow> json"
  hermes_found :: bool
  hermes_rows :: "'s \<Rightarrow> rat \<Rightarrow> exn + json list list"
  hermes_run :: "string list \<Rightarrow> 's \<Rightarrow> fs \<Rightarrow> (exn + int) \<times> 's \<times> fs"

text \<open>The tree, the archive state of the ledger, the statistics, and the rest of the world\<close>

record 's ret_world =
  files :: fs
  archived :: json
  items :: nat
  total_bytes :: nat
  beyond :: 's

definition edit :: "(fs \<Rightarrow> fs) \<Rightarrow> ('s ret_world, unit) prog" where
  "edit f = modify (\<lambda>w. w\<lparr>files := f (files w)\<rparr>)"

section \<open>Transcripts\<close>

text \<open>Lines of a text file, each with its newline\<close>

fun newline_split :: "string \<Rightarrow> string \<Rightarrow> string list" where
  "newline_split cur [] = (if cur = [] then [] else [rev cur])"
| "newline_split cur (c # cs) =
     (if c = CHR 0x0A then rev (c # cur) # newline_split [] cs else newline_split (c # cur) cs)"

definition file_lines :: "string \<Rightarrow> string list" where
  "file_lines s = newline_split [] (universal s)"

definition jsonl :: "string \<Rightarrow> json list" where
  "jsonl s = concat (map (\<lambda>l. case json_loads l of None \<Rightarrow> [] | Some j \<Rightarrow> [j]) (file_lines s))"

text \<open>\<open>v or {}\<close> followed by \<open>get\<close>\<close>

definition or_dict :: "json \<Rightarrow> json" where
  "or_dict j = py_or j (JObj [])"

definition get_or_dict :: "json \<Rightarrow> string \<Rightarrow> exn + json" where
  "get_or_dict j k = rbnd (py_get j k) (\<lambda>v. Inr (or_dict v))"

definition claude_usage :: "bool \<Rightarrow> json \<Rightarrow> json \<Rightarrow> json \<Rightarrow> exn + json" where
  "claude_usage sub e m u =
     rbnd (get_or_dict u ''cache_creation'') (\<lambda>cc.
     rbnd (py_get e ''timestamp'') (\<lambda>ts. rbnd (py_get m ''model'') (\<lambda>model. rbnd (py_get m ''id'') (\<lambda>i.
     rbnd (py_get e ''requestId'') (\<lambda>rq. rbnd (py_get e ''sessionId'') (\<lambda>sid. rbnd (py_get e ''isSidechain'') (\<lambda>sc.
     rbnd (py_get_or u ''input_tokens'' (JInt 0)) (\<lambda>inp. rbnd (py_get_or u ''cache_read_input_tokens'' (JInt 0)) (\<lambda>cr.
     rbnd (if truthy cc then Inr (JInt 0) else py_get_or u ''cache_creation_input_tokens'' (JInt 0)) (\<lambda>d5.
     rbnd (py_get_or cc ''ephemeral_5m_input_tokens'' d5) (\<lambda>w5.
     rbnd (py_get_or cc ''ephemeral_1h_input_tokens'' (JInt 0)) (\<lambda>w1.
     rbnd (py_get_or u ''output_tokens'' (JInt 0)) (\<lambda>out.
       Inr (JObj [(''ts'', ts), (''model'', model), (''id'', i), (''req'', rq), (''sid'', sid),
                  (''sub'', JBool (sub \<or> truthy sc)), (''inp'', inp), (''cr'', cr), (''w5'', w5), (''w1'', w1),
                  (''out'', out)]))))))))))))))"

text \<open>The row of an entry, or none if the entry is skipped\<close>

definition claude_row :: "bool \<Rightarrow> json \<Rightarrow> exn + json option" where
  "claude_row sub e =
     rbnd (py_get e ''type'') (\<lambda>ty.
       if \<not> py_eq ty (JStr ''assistant'') then Inr None
       else
         rbnd (get_or_dict e ''message'') (\<lambda>m. rbnd (py_get m ''usage'') (\<lambda>u.
           if \<not> truthy u then Inr None
           else rbnd (py_get m ''model'') (\<lambda>md.
             if py_eq md JNull \<or> py_eq md (JStr ''<synthetic>'') then Inr None
             else rbnd (claude_usage sub e m u) (\<lambda>r. Inr (Some r))))))"

text \<open>A generator that raises has yielded the rows before: the rows, and the exception if any\<close>

fun claude_rows_of :: "bool \<Rightarrow> json list \<Rightarrow> json list \<times> exn option" where
  "claude_rows_of sub [] = ([], None)"
| "claude_rows_of sub (e # es) =
     (case claude_row sub e of
        Inl x \<Rightarrow> ([], Some x)
      | Inr r \<Rightarrow> (case claude_rows_of sub es of (rs, x) \<Rightarrow> (case r of None \<Rightarrow> (rs, x) | Some j \<Rightarrow> (j # rs, x))))"

definition claude_rows :: "path \<Rightarrow> string \<Rightarrow> json list \<times> exn option" where
  "claude_rows p content = claude_rows_of (contains (path_str p) ''/subagents/'') (jsonl content)"

text \<open>One limit window: \<open>win[str(w["window_minutes"])] = [used, resets]\<close>\<close>

definition add_window :: "json \<Rightarrow> string \<Rightarrow> (string \<times> json) list \<Rightarrow> exn + (string \<times> json) list" where
  "add_window rl slot win =
     rbnd (py_get rl slot) (\<lambda>w.
       if \<not> truthy w then Inr win
       else rbnd (py_get w ''window_minutes'') (\<lambda>wm.
         if \<not> truthy wm then Inr win
         else rbnd (py_get w ''used_percent'') (\<lambda>u. rbnd (py_get w ''resets_at'') (\<lambda>r.
           Inr (AList.update (py_str wm) (JArr [u, r]) win)))))"

definition codex_usage :: "string \<Rightarrow> json \<Rightarrow> json \<Rightarrow> json \<Rightarrow> exn + json" where
  "codex_usage sid model e p =
     rbnd (get_or_dict p ''info'') (\<lambda>info. rbnd (get_or_dict p ''rate_limits'') (\<lambda>rl.
     rbnd (add_window rl ''primary'' []) (\<lambda>w1. rbnd (add_window rl ''secondary'' w1) (\<lambda>win.
     rbnd (get_or_dict info ''last_token_usage'') (\<lambda>lu. rbnd (py_get e ''timestamp'') (\<lambda>ts.
     rbnd (py_get rl ''plan_type'') (\<lambda>plan.
     rbnd (get_or_dict info ''total_token_usage'') (\<lambda>tt. rbnd (py_get tt ''total_tokens'') (\<lambda>tot.
     rbnd (py_get_or lu ''input_tokens'' (JInt 0)) (\<lambda>inp. rbnd (py_get_or lu ''cached_input_tokens'' (JInt 0)) (\<lambda>cached.
     rbnd (py_get_or lu ''output_tokens'' (JInt 0)) (\<lambda>out. rbnd (py_get_or lu ''reasoning_output_tokens'' (JInt 0)) (\<lambda>rsn.
       Inr (JObj [(''ts'', ts), (''model'', model), (''sid'', JStr sid), (''plan'', plan), (''win'', JObj win),
                  (''total'', tot), (''inp'', inp), (''cached'', cached), (''out'', out), (''rsn'', rsn)]))))))))))))))"

text \<open>One entry: the model in force afterwards, and the row if there is one\<close>

definition codex_entry :: "string \<Rightarrow> json \<Rightarrow> json \<Rightarrow> exn + json \<times> json option" where
  "codex_entry sid model e =
     rbnd (get_or_dict e ''payload'') (\<lambda>p. rbnd (py_get e ''type'') (\<lambda>ty.
       if py_eq ty (JStr ''turn_context'')
       then rbnd (py_get p ''model'') (\<lambda>m. Inr (py_or m model, None))
       else rbnd (py_get p ''type'') (\<lambda>pt.
         if \<not> py_eq pt (JStr ''token_count'') then Inr (model, None)
         else rbnd (codex_usage sid model e p) (\<lambda>r. Inr (model, Some r)))))"

fun codex_rows_of :: "string \<Rightarrow> json \<Rightarrow> json list \<Rightarrow> json list \<times> exn option" where
  "codex_rows_of sid model [] = ([], None)"
| "codex_rows_of sid model (e # es) =
     (case codex_entry sid model e of
        Inl x \<Rightarrow> ([], Some x)
      | Inr (m, r) \<Rightarrow>
          (case codex_rows_of sid m es of (rs, x) \<Rightarrow> (case r of None \<Rightarrow> (rs, x) | Some j \<Rightarrow> (j # rs, x))))"

definition codex_rows :: "path \<Rightarrow> string \<Rightarrow> json list \<times> exn option" where
  "codex_rows p content = codex_rows_of (path_name p) JNull (jsonl content)"

section \<open>The ledger\<close>

definition state_path :: "'s ret_env \<Rightarrow> path" where
  "state_path E = ledger_dir E @ [''archived.json'']"

definition calls_path :: "'s ret_env \<Rightarrow> string \<Rightarrow> path" where
  "calls_path E kind = ledger_dir E @ [kind @ ''-calls.jsonl'']"

definition load_state :: "fs \<Rightarrow> path \<Rightarrow> json" where
  "load_state t p =
     (case fs_read t p of
        None \<Rightarrow> JObj []
      | Some s \<Rightarrow> (case json_loads s of None \<Rightarrow> JObj [] | Some j \<Rightarrow> j))"

definition open_ledger :: "'s ret_env \<Rightarrow> ('s ret_world, unit) prog" where
  "open_ledger E =
     bnd (edit (fs_mkdirs (ledger_dir E))) (\<lambda>_.
       modify (\<lambda>w. w\<lparr>archived := load_state (files w) (state_path E)\<rparr>))"

definition row_line :: "json \<Rightarrow> string" where
  "row_line r = json_dumps compact_layout r @ [CHR 0x0A]"

definition rows_text :: "json list \<Rightarrow> string" where
  "rows_text rs = concat (map row_line rs)"

definition ledger_key :: "string \<Rightarrow> path \<Rightarrow> string" where
  "ledger_key kind p = kind @ '':'' @ path_str p"

definition read_text :: "path \<Rightarrow> ('s ret_world, string) prog" where
  "read_text p w = ((case fs_read (files w) p of None \<Rightarrow> Inl (OSError ''No such file'') | Some c \<Rightarrow> Inr c), w)"

definition set_state :: "string \<Rightarrow> json \<Rightarrow> 's ret_world \<Rightarrow> 's ret_world" where
  "set_state k v w = w\<lparr>archived := JObj (AList.update k v (obj_of (archived w)))\<rparr>"

text \<open>\<open>Ledger.archive\<close>: nothing to do for a file archived at its time; else append all its rows\<close>

definition archive ::
  "'s ret_env \<Rightarrow> bool \<Rightarrow> string \<Rightarrow> path \<Rightarrow> (string \<Rightarrow> json list \<times> exn option) \<Rightarrow> ('s ret_world, nat) prog" where
  "archive E dry kind p rows =
     bnd (bnd (gets archived) (\<lambda>st. of_result (py_get st (ledger_key kind p)))) (\<lambda>old.
       if py_eq old (mtime_num E p) then ret 0
       else if dry then ret 0
       else
         bnd (edit (fs_append (calls_path E kind) [])) (\<lambda>_.
         bnd (read_text p) (\<lambda>content.
           case rows content of
             (rs, x) \<Rightarrow>
               bnd (edit (fs_append (calls_path E kind) (rows_text rs))) (\<lambda>_.
                 case x of
                   Some e \<Rightarrow> raise e
                 | None \<Rightarrow> bnd (modify (set_state (ledger_key kind p) (mtime_num E p))) (\<lambda>_. ret (length rs))))))"

definition key_target :: "string \<Rightarrow> exn + path" where
  "key_target k =
     (case partition_char (CHR '':'') k of
        (_, True, p) \<Rightarrow> Inr (to_path p) | _ \<Rightarrow> Inl (IndexError ''list index out of range''))"

definition live_entry :: "fs \<Rightarrow> string \<times> json \<Rightarrow> exn + (string \<times> json) list" where
  "live_entry t kv =
     (if starts_with (fst kv) ''hermes:'' then Inr [kv]
      else rbnd (key_target (fst kv)) (\<lambda>p. Inr (if fs_exists t p then [kv] else [])))"

definition save :: "'s ret_env \<Rightarrow> bool \<Rightarrow> ('s ret_world, unit) prog" where
  "save E dry =
     (if dry then ret ()
      else
        bnd (bnd (gets (\<lambda>w. (archived w, files w))) (\<lambda>(st, t).
               of_result (rbnd (py_items st) (\<lambda>kvs. rbnd (rmap (live_entry t) kvs) (\<lambda>es. Inr (JObj (concat es))))))) (\<lambda>live.
        bnd (edit (fs_write (with_suffix (state_path E) ''.json.tmp'') (json_dumps default_layout live))) (\<lambda>_.
          edit (fs_rename (with_suffix (state_path E) ''.json.tmp'') (state_path E)))))"

section \<open>Removal\<close>

definition newest_mtime :: "'s ret_env \<Rightarrow> fs \<Rightarrow> path \<Rightarrow> rat" where
  "newest_mtime E t d = foldl (\<lambda>m p. if m < mtime E p then mtime E p else m) (mtime E d) (walk_files t d)"

definition size_of :: "fs \<Rightarrow> path \<Rightarrow> nat" where
  "size_of t p =
     (let len = (\<lambda>q. case fs_read t q of None \<Rightarrow> 0 | Some c \<Rightarrow> length c) in
      if fs_is_dir t p then sum_list (map len (walk_files t p)) else len p)"

definition remove_path :: "path \<Rightarrow> bool \<Rightarrow> ('s ret_world, unit) prog" where
  "remove_path p dry =
     bnd (modify (\<lambda>w. w\<lparr>items := items w + 1, total_bytes := total_bytes w + size_of (files w) p\<rparr>)) (\<lambda>_.
       if dry then ret () else edit (\<lambda>t. if fs_is_dir t p then fs_rmtree p t else fs_unlink p t))"

text \<open>Bottom up: a directory that has become empty is removed before its parent is looked at.\<close>

definition prune_empty_dirs :: "path \<Rightarrow> bool \<Rightarrow> ('s ret_world, unit) prog" where
  "prune_empty_dirs base dry =
     edit (\<lambda>t. if dry \<or> \<not> fs_is_dir t base then t
               else fold (\<lambda>d t. if fs_children t d = [] then fs_unlink d t else t)
                      (rev (sort_key length (walk_dirs t base))) t)"

text \<open>The time of a history line, if it can be read\<close>

definition line_time :: "string \<Rightarrow> rat \<Rightarrow> string \<Rightarrow> rat option" where
  "line_time fld scale line =
     (case json_loads line of
        None \<Rightarrow> None
      | Some j \<Rightarrow>
          (case rbnd (py_get j fld) py_float_of of Inl _ \<Rightarrow> None | Inr x \<Rightarrow> Some (x / scale)))"

definition expired :: "string \<Rightarrow> rat \<Rightarrow> rat \<Rightarrow> string \<Rightarrow> bool" where
  "expired fld scale cutoff line = (case line_time fld scale line of None \<Rightarrow> False | Some t \<Rightarrow> t < cutoff)"

definition trim_history :: "path \<Rightarrow> string \<Rightarrow> rat \<Rightarrow> rat \<Rightarrow> bool \<Rightarrow> ('s ret_world, nat) prog" where
  "trim_history p fld scale cutoff dry =
     bnd (gets (\<lambda>w. fs_exists (files w) p)) (\<lambda>there.
       if \<not> there then ret 0
       else
         bnd (read_text p) (\<lambda>content.
           let lines = file_lines content;
               keep = filter (\<lambda>l. \<not> expired fld scale cutoff l) lines;
               dropped = length lines - length keep;
               tmp = butlast p @ [path_name p @ ''.ai-retention.tmp'']
           in
           if dropped \<noteq> 0 \<and> \<not> dry then
             bnd (edit (fs_write tmp (concat keep))) (\<lambda>_.
             bnd (edit (fs_rename tmp p)) (\<lambda>_. ret dropped))
           else ret dropped))"

section \<open>Hermes\<close>

definition hermes_key :: "json list \<Rightarrow> string" where
  "hermes_key r = ''hermes:'' @ py_str (r ! 0) @ '':'' @ py_str (r ! 1) @ '':'' @ py_str (r ! 3)"

definition hermes_columns :: "string list" where
  "hermes_columns = [''sid'', ''model'', ''provider'', ''task'', ''calls'', ''inp'', ''out'', ''cr'', ''cw'', ''rsn'', ''first'', ''last'']"

definition hermes_command :: "int \<Rightarrow> bool \<Rightarrow> string list" where
  "hermes_command days dry =
     [''hermes'', ''sessions'', ''prune'', ''--older-than'', show_int days, ''--include-archived'',
      if dry then ''--dry-run'' else ''--yes'']"

definition run_hermes :: "'s ret_env \<Rightarrow> string list \<Rightarrow> ('s ret_world, int) prog" where
  "run_hermes E cmd w =
     (case hermes_run E cmd (beyond w) (files w) of (r, s, t) \<Rightarrow> (r, w\<lparr>beyond := s, files := t\<rparr>))"

definition note_hermes :: "'s ret_env \<Rightarrow> json list \<Rightarrow> unit \<Rightarrow> ('s ret_world, unit) prog" where
  "note_hermes E r u =
     bnd (edit (fs_append (calls_path E ''hermes'') (row_line (JObj (zip hermes_columns r))))) (\<lambda>_.
       modify (set_state (hermes_key r) (JInt 1)))"

definition hermes :: "'s ret_env \<Rightarrow> int \<Rightarrow> rat \<Rightarrow> bool \<Rightarrow> ('s ret_world, unit) prog" where
  "hermes E days cutoff dry =
     bnd (gets (\<lambda>w. (fs_exists (files w) (home E @ [''.hermes'', ''state.db'']), hermes_rows E (beyond w) cutoff, archived w))) (\<lambda>(db, rows, st).
       if \<not> db \<or> \<not> hermes_found E then ret ()
       else
         bnd (of_result rows) (\<lambda>rs.
         bnd (if dry then ret ()
              else
                bnd (edit (fs_append (calls_path E ''hermes'') [])) (\<lambda>_.
                  for_each (filter (\<lambda>r. hermes_key r \<notin> fst ` set (obj_of st)) rs) (note_hermes E) ())) (\<lambda>_.
         bnd (run_hermes E (hermes_command days dry)) (\<lambda>code.
           if \<not> dry \<and> code = 0
           then bnd (run_hermes E [''hermes'', ''sessions'', ''optimize'']) (\<lambda>_. ret ()) else ret ()))))"

section \<open>The run\<close>

definition is_jsonl :: "path \<Rightarrow> bool" where
  "is_jsonl p = ends_with (path_name p) ''.jsonl''"

definition claude_file :: "'s ret_env \<Rightarrow> bool \<Rightarrow> rat \<Rightarrow> path \<Rightarrow> nat \<Rightarrow> ('s ret_world, nat) prog" where
  "claude_file E dry early p n =
     (if contains (path_str (path_parent p)) ''/memory'' then ret n
      else if is_jsonl p \<and> mtime E p < early then
        bnd (archive E dry ''claude'' p (claude_rows p)) (\<lambda>k. ret (n + k))
      else ret n)"

definition archive_claude :: "'s ret_env \<Rightarrow> bool \<Rightarrow> rat \<Rightarrow> nat \<Rightarrow> path \<Rightarrow> ('s ret_world, nat) prog" where
  "archive_claude E dry early n base =
     bnd (gets (\<lambda>w. walk_files (files w) base)) (\<lambda>ps. for_each ps (claude_file E dry early) n)"

definition prune_job :: "'s ret_env \<Rightarrow> bool \<Rightarrow> rat \<Rightarrow> path \<Rightarrow> unit \<Rightarrow> ('s ret_world, unit) prog" where
  "prune_job E dry cutoff d u =
     bnd (gets (\<lambda>w. fs_is_dir (files w) d \<and> newest_mtime E (files w) d < cutoff)) (\<lambda>old.
       if old then remove_path d dry else ret ())"

definition prune_jobs :: "'s ret_env \<Rightarrow> bool \<Rightarrow> rat \<Rightarrow> path \<Rightarrow> ('s ret_world, unit) prog" where
  "prune_jobs E dry cutoff jobs =
     bnd (gets (\<lambda>w. if fs_is_dir (files w) jobs then fs_children (files w) jobs else [])) (\<lambda>ds.
       for_each ds (prune_job E dry cutoff) ())"

definition codex_file :: "'s ret_env \<Rightarrow> bool \<Rightarrow> rat \<Rightarrow> path \<Rightarrow> nat \<Rightarrow> ('s ret_world, nat) prog" where
  "codex_file E dry cutoff p n =
     (if is_jsonl p \<and> mtime E p < cutoff then
        bnd (archive E dry ''codex'' p (codex_rows p)) (\<lambda>k.
        bnd (remove_path p dry) (\<lambda>_. ret (n + k)))
      else ret n)"

definition prune_codex :: "'s ret_env \<Rightarrow> bool \<Rightarrow> rat \<Rightarrow> path \<Rightarrow> nat \<Rightarrow> ('s ret_world, nat) prog" where
  "prune_codex E dry cutoff base n =
     bnd (bnd (gets (\<lambda>w. walk_files (files w) base)) (\<lambda>ps. for_each ps (codex_file E dry cutoff) n)) (\<lambda>k.
     bnd (prune_empty_dirs base dry) (\<lambda>_. ret k))"

definition prune_log :: "'s ret_env \<Rightarrow> bool \<Rightarrow> rat \<Rightarrow> path \<Rightarrow> unit \<Rightarrow> ('s ret_world, unit) prog" where
  "prune_log E dry cutoff p u = (if mtime E p < cutoff then remove_path p dry else ret ())"

record summary =
  s_claude :: nat
  s_codex :: nat
  s_history :: nat

definition retain :: "'s ret_env \<Rightarrow> int \<Rightarrow> bool \<Rightarrow> rat \<Rightarrow> ('s ret_world, summary) prog" where
  "retain E days dry now =
     (let cutoff = now - of_int days * 86400; early = now - (of_int days - 3) * 86400;
          below = (\<lambda>ps. home E @ ps)
      in
      bnd (open_ledger E) (\<lambda>_.
      bnd (archive_claude E dry early 0 (below [''.claude'', ''projects''])) (\<lambda>a.
      bnd (archive_claude E dry early a (below [''.claude'', ''jobs''])) (\<lambda>claude.
      bnd (prune_jobs E dry cutoff (below [''.claude'', ''jobs''])) (\<lambda>_.
      bnd (prune_codex E dry cutoff (below [''.codex'', ''sessions'']) 0) (\<lambda>b.
      bnd (prune_codex E dry cutoff (below [''.codex'', ''archived_sessions'']) b) (\<lambda>codex.
      bnd (trim_history (below [''.claude'', ''history.jsonl'']) ''timestamp'' 1000 cutoff dry) (\<lambda>h1.
      bnd (trim_history (below [''.codex'', ''history.jsonl'']) ''ts'' 1 cutoff dry) (\<lambda>h2.
      bnd (gets (\<lambda>w. walk_files (files w) (below [''.hermes'', ''logs'']))) (\<lambda>logs.
      bnd (for_each logs (prune_log E dry cutoff) ()) (\<lambda>_.
      bnd (save E dry) (\<lambda>_.
      bnd (hermes E days cutoff dry) (\<lambda>_.
      bnd (save E dry) (\<lambda>_.
        ret \<lparr>s_claude = claude, s_codex = codex, s_history = h1 + h2\<rparr>))))))))))))))"

section \<open>Nothing is removed before its usage is archived\<close>

definition ledger_text :: "'s ret_env \<Rightarrow> string \<Rightarrow> 's ret_world \<Rightarrow> string" where
  "ledger_text E kind w = (case fs_read (files w) (calls_path E kind) of None \<Rightarrow> [] | Some c \<Rightarrow> c)"

definition recorded :: "'s ret_env \<Rightarrow> 's ret_world \<Rightarrow> path \<Rightarrow> json" where
  "recorded E w p = field (obj_of (archived w)) (ledger_key ''codex'' p)"

definition usage_kept :: "'s ret_env \<Rightarrow> 's ret_world \<Rightarrow> 's ret_world \<Rightarrow> path \<Rightarrow> bool" where
  "usage_kept E w0 w p \<longleftrightarrow>
     py_eq (recorded E w0 p) (mtime_num E p) \<or>
     (case fs_read (files w0) p of
        None \<Rightarrow> True
      | Some c \<Rightarrow> snd (codex_rows p c) = None \<and> sublist (rows_text (fst (codex_rows p c))) (ledger_text E ''codex'' w))"

definition may_go :: "'s ret_env \<Rightarrow> bool \<Rightarrow> rat \<Rightarrow> path \<Rightarrow> 's ret_world \<Rightarrow> 's ret_world \<Rightarrow> path \<Rightarrow> bool" where
  "may_go E dry cutoff base w0 w p \<longleftrightarrow>
     \<not> dry \<and> is_jsonl p \<and> mtime E p < cutoff \<and> p \<in> set (walk_files (files w0) base) \<and> usage_kept E w0 w p"

definition prune_inv :: "'s ret_env \<Rightarrow> bool \<Rightarrow> rat \<Rightarrow> path \<Rightarrow> 's ret_world \<Rightarrow> 's ret_world \<Rightarrow> bool" where
  "prune_inv E dry cutoff base w0 w \<longleftrightarrow>
     (\<forall>q. q \<noteq> calls_path E ''codex'' \<longrightarrow>
        map_of (files w) q = map_of (files w0) q \<or> map_of (files w) q = None \<and> may_go E dry cutoff base w0 w q) \<and>
     (\<forall>q\<in>set (walk_files (files w0) base). py_eq (recorded E w q) (mtime_num E q) \<longrightarrow> usage_kept E w0 w q)"

lemma usage_kept_cong:
  "ledger_text E ''codex'' w = ledger_text E ''codex'' w' \<Longrightarrow> usage_kept E w0 w p = usage_kept E w0 w' p"
  unfolding usage_kept_def by (simp only:)

lemma ledger_text_set_state [simp]: "ledger_text E kind (set_state k v w) = ledger_text E kind w"
  by (simp add: ledger_text_def set_state_def)

lemma usage_kept_mono:
  "usage_kept E w0 w p \<Longrightarrow> prefix (ledger_text E ''codex'' w) (ledger_text E ''codex'' w') \<Longrightarrow> usage_kept E w0 w' p"
  by (auto simp: usage_kept_def split: option.splits intro: sublist_order.order_trans prefix_imp_sublist)

lemma prune_inv_grow:
  assumes "prune_inv E dry cutoff base w0 w" "prefix (ledger_text E ''codex'' w) (ledger_text E ''codex'' w')"
    "archived w' = archived w" "\<And>q. q \<noteq> calls_path E ''codex'' \<Longrightarrow> map_of (files w') q = map_of (files w) q"
  shows "prune_inv E dry cutoff base w0 w'"
  using assms usage_kept_mono [of E w0 w _ w'] unfolding prune_inv_def may_go_def recorded_def
  by metis

lemma fs_append_ledger:
  "ledger_text E kind (w\<lparr>files := fs_append (calls_path E kind) s (files w)\<rparr>) = ledger_text E kind w @ s"
  by (simp add: ledger_text_def fs_append_def)

lemma prune_inv_append:
  "prune_inv E dry cutoff base w0 w \<Longrightarrow>
     prune_inv E dry cutoff base w0 (w\<lparr>files := fs_append (calls_path E ''codex'') s (files w)\<rparr>)"
  by (erule prune_inv_grow) (simp_all add: fs_append_ledger map_of_fs_append)

lemma recorded_set_state:
  "archived w = JObj d \<Longrightarrow> recorded E (set_state (ledger_key ''codex'' p) v w) q =
     (if ledger_key ''codex'' q = ledger_key ''codex'' p then v else recorded E w q)"
  by (simp add: recorded_def set_state_def field_def update_conv')

lemma ledger_key_eq: "ledger_key k q = ledger_key k p \<longleftrightarrow> path_str q = path_str p"
  by (simp add: ledger_key_def)

lemma prune_inv_set_state:
  assumes inv: "prune_inv E dry cutoff base w0 w" and d: "archived w = JObj d"
    and inj: "distinct (map path_str (walk_files (files w0) base))" and p: "p \<in> set (walk_files (files w0) base)"
    and kept: "usage_kept E w0 w p"
  shows "prune_inv E dry cutoff base w0 (set_state (ledger_key ''codex'' p) v w)" (is "prune_inv E dry cutoff base w0 ?w")
proof -
  have grow: "usage_kept E w0 ?w q = usage_kept E w0 w q" for q
    by (simp add: usage_kept_def ledger_text_def set_state_def split: option.splits)
  have "q = p" if "q \<in> set (walk_files (files w0) base)" "path_str q = path_str p" for q
    using inj p that unfolding distinct_map by (metis inj_on_def)
  then show ?thesis
    using inv kept unfolding prune_inv_def may_go_def grow recorded_set_state [OF d] ledger_key_eq
    by (auto simp: set_state_def)
qed

lemma keeps_inv_archive:
  assumes inj: "distinct (map path_str (walk_files (files w0) base))" and p: "p \<in> set (walk_files (files w0) base)"
    and C: "\<not> is_relative_to (calls_path E ''codex'') base"
    and inv: "prune_inv E dry cutoff base w0 w" and run: "archive E dry ''codex'' p (codex_rows p) w = (r, w')"
  shows "prune_inv E dry cutoff base w0 w' \<and> (\<not> dry \<longrightarrow> isl r \<or> usage_kept E w0 w' p)"
proof (cases "py_get (archived w) (ledger_key ''codex'' p)")
  case (Inl e)
  with run inv show ?thesis by (auto simp: archive_def bnd_def prog_defs)
next
  case (Inr old)
  then obtain d where d: "archived w = JObj d" and old: "old = field d (ledger_key ''codex'' p)"
    by (auto simp: py_get_def split: json.splits)
  have rec: "recorded E w p = old" by (simp add: recorded_def d old)
  show ?thesis
  proof (cases "py_eq old (mtime_num E p)")
    case True
    with run Inr have "w' = w" by (simp add: archive_def bnd_def prog_defs)
    moreover have "usage_kept E w0 w p" using inv p True rec unfolding prune_inv_def by metis
    ultimately show ?thesis using inv by simp
  next
    case False
    show ?thesis
    proof (cases dry)
      case True
      with run Inr False inv show ?thesis by (auto simp: archive_def bnd_def prog_defs)
    next
      case nodry: False
      let ?A = "\<lambda>s w. w\<lparr>files := fs_append (calls_path E ''codex'') s (files w)\<rparr>"
      have w1: "prune_inv E dry cutoff base w0 (?A [] w)" using inv by (rule prune_inv_append)
      have pC: "p \<noteq> calls_path E ''codex''" using p C by (auto simp: walk_files_def dest: fs_below_relative)
      show ?thesis
      proof (cases "fs_read (files (?A [] w)) p")
        case None
        with run Inr False nodry w1 show ?thesis
          by (auto simp: archive_def bnd_def prog_defs edit_def read_text_def)
      next
        case (Some c)
        then have "map_of (files w) p \<noteq> None" using pC by (auto simp: fs_read_def map_of_fs_append split: option.splits)
        then have "map_of (files w) p = map_of (files w0) p" using inv pC unfolding prune_inv_def by metis
        with Some pC have c0: "fs_read (files w0) p = Some c" by (simp add: fs_read_def map_of_fs_append)
        obtain rs x where rs: "codex_rows p c = (rs, x)" by fastforce
        let ?w2 = "?A (rows_text rs) (?A [] w)"
        have w2: "prune_inv E dry cutoff base w0 ?w2" using w1 by (rule prune_inv_append)
        have run2: "(r, w') = (case x of Some e \<Rightarrow> (Inl e, ?w2)
            | None \<Rightarrow> (Inr (length rs), set_state (ledger_key ''codex'' p) (mtime_num E p) ?w2))"
          using run Inr False nodry Some rs
          by (simp add: archive_def bnd_def prog_defs edit_def read_text_def split: option.splits)
        show ?thesis
        proof (cases x)
          case (Some e)
          with run2 w2 show ?thesis by simp
        next
          case None
          have led: "ledger_text E ''codex'' ?w2 = ledger_text E ''codex'' (?A [] w) @ rows_text rs"
            by (rule fs_append_ledger)
          then have k: "usage_kept E w0 ?w2 p" using c0 rs None
            unfolding usage_kept_def led by (simp add: suffix_imp_sublist)
          have d2: "archived ?w2 = JObj d" using d by simp
          have "prune_inv E dry cutoff base w0 (set_state (ledger_key ''codex'' p) (mtime_num E p) ?w2)"
            by (rule prune_inv_set_state [OF w2 d2 inj p k])
          moreover have "usage_kept E w0 (set_state (ledger_key ''codex'' p) (mtime_num E p) ?w2) p"
            using k usage_kept_cong [OF ledger_text_set_state] by metis
          ultimately show ?thesis using run2 None by simp
        qed
      qed
    qed
  qed
qed


lemma keeps_inv_remove:
  assumes p: "p \<in> set (walk_files (files w0) base)" and C: "\<not> is_relative_to (calls_path E ''codex'') base"
    and inv: "prune_inv E dry cutoff base w0 w" and old: "is_jsonl p" "mtime E p < cutoff"
    and kept: "\<not> dry \<longrightarrow> usage_kept E w0 w p" and run: "remove_path p dry w = (r, w')"
  shows "prune_inv E dry cutoff base w0 w'"
proof -
  have pC: "p \<noteq> calls_path E ''codex''" using p C by (auto simp: walk_files_def dest: fs_below_relative)
  have "fs_is_file (files w0) p" using p by (simp add: walk_files_def)
  then have nd: "\<not> fs_is_dir (files w) p" using inv pC unfolding prune_inv_def
    by (auto simp: fs_is_file_def fs_is_dir_def split: option.splits)
  have led: "ledger_text E ''codex'' w' = ledger_text E ''codex'' w"
    and arc: "archived w' = archived w"
    and fs: "map_of (files w') q = (if q = p \<and> \<not> dry then None else map_of (files w) q)" for q
    using run nd pC by (auto simp: remove_path_def bnd_def prog_defs edit_def ledger_text_def split: if_splits)
  have k: "usage_kept E w0 w' q = usage_kept E w0 w q" for q by (rule usage_kept_cong [OF led])
  show ?thesis using inv kept old p unfolding prune_inv_def may_go_def k fs recorded_def arc by auto
qed

lemma keeps_inv_codex_file:
  assumes "distinct (map path_str (walk_files (files w0) base))" "p \<in> set (walk_files (files w0) base)"
    "\<not> is_relative_to (calls_path E ''codex'') base"
  shows "keeps (\<lambda>w w'. prune_inv E dry cutoff base w0 w \<longrightarrow> prune_inv E dry cutoff base w0 w') (codex_file E dry cutoff p n)"
proof (rule keepsI, rule impI)
  fix w
  assume inv: "prune_inv E dry cutoff base w0 w"
  obtain a w1 where a: "archive E dry ''codex'' p (codex_rows p) w = (a, w1)" by fastforce
  note step = keeps_inv_archive [OF assms inv a]
  show "prune_inv E dry cutoff base w0 (snd (codex_file E dry cutoff p n w))"
  proof (cases "is_jsonl p \<and> mtime E p < cutoff")
    case False
    then have "codex_file E dry cutoff p n w = (Inr n, w)" unfolding codex_file_def by (simp only: if_False ret_def)
    with inv show ?thesis by simp
  next
    case old: True
    show ?thesis
    proof (cases a)
      case (Inl e)
      with a step old show ?thesis by (simp add: codex_file_def bnd_def)
    next
      case (Inr k)
      obtain b w2 where b: "remove_path p dry w1 = (b, w2)" by fastforce
      have "prune_inv E dry cutoff base w0 w2"
        by (rule keeps_inv_remove [OF assms(2,3) _ _ _ _ b]) (use step old Inr in auto)
      with a b Inr old show ?thesis by (cases b) (simp_all add: codex_file_def bnd_def ret_def)
    qed
  qed
qed

lemma fold_rmdir_reads:
  "\<forall>d\<in>set ds. fs_read t d = None \<Longrightarrow>
     fs_read (fold (\<lambda>d t. if fs_children t d = [] then fs_unlink d t else t) ds t) q = fs_read t q"
  by (induction ds arbitrary: t) auto

lemma prune_empty_dirs_reads: "fs_read (files (snd (prune_empty_dirs base dry w))) q = fs_read (files w) q"
proof -
  have "\<forall>d\<in>set (rev (sort_key length (walk_dirs (files w) base))). fs_read (files w) d = None"
    by (auto simp: walk_dirs_def fs_is_dir_def fs_read_def)
  from fold_rmdir_reads [OF this] show ?thesis by (simp add: prune_empty_dirs_def edit_def modify_def)
qed

lemma prune_empty_dirs_total: "fst (prune_empty_dirs base dry w) = Inr ()"
  by (simp add: prune_empty_dirs_def edit_def modify_def)

text \<open>
  C16. Whatever way the pruning of a Codex directory ends, by returning or by an exception
  half-way, a rollout that was there and is gone was a \<open>.jsonl\<close> file below that directory,
  older than the cutoff, the run was no dry run, and its usage is safe: either the ledger had
  recorded it at its time before the run, or all its rows were read without an exception and
  stand in the ledger, in one piece.
\<close>

theorem codex_usage_outlives_rollouts:
  fixes E :: "'s ret_env" and w :: "'s ret_world"
  assumes "distinct (map path_str (walk_files (files w) base))"
    and "\<not> is_relative_to (calls_path E ''codex'') base"
    and run: "prune_codex E dry cutoff base n w = (r, w')"
    and c: "fs_read (files w) p = Some c" and gone: "fs_read (files w') p = None" and p: "p \<noteq> calls_path E ''codex''"
  shows "\<not> dry \<and> is_jsonl p \<and> mtime E p < cutoff \<and> is_relative_to p base \<and>
      (py_eq (recorded E w p) (mtime_num E p) \<or>
       snd (codex_rows p c) = None \<and> sublist (rows_text (fst (codex_rows p c))) (ledger_text E ''codex'' w'))"
proof -
  let ?I = "prune_inv E dry cutoff base w"
  have I0: "?I w" by (simp add: prune_inv_def usage_kept_def)
  obtain a w1 where a: "for_each (walk_files (files w) base) (codex_file E dry cutoff) n w = (a, w1)" by fastforce
  have "keeps (\<lambda>w w'. ?I w \<longrightarrow> ?I w') (for_each (walk_files (files w) base) (codex_file E dry cutoff) n)"
    by (rule keeps_for_each) (auto simp: reflp_def transp_def intro!: keeps_inv_codex_file assms(1,2))
  from keepsD [OF this a] I0 have I1: "?I w1" by simp
  have reads: "fs_read (files w') q = fs_read (files w1) q" for q
    using run a prune_empty_dirs_reads [of base dry w1 q] prune_empty_dirs_total [of base dry w1]
    by (cases a) (auto simp: prune_codex_def bnd_def prog_defs split: prod.splits sum.splits)
  then have led: "ledger_text E ''codex'' w' = ledger_text E ''codex'' w1" by (simp add: ledger_text_def)
  have "map_of (files w1) p \<noteq> map_of (files w) p" using gone c unfolding reads by (auto simp: fs_read_def)
  then have "may_go E dry cutoff base w w1 p" using I1 p unfolding prune_inv_def by blast
  then show ?thesis using c unfolding may_go_def usage_kept_def led
    by (auto simp: walk_files_def dest: fs_below_relative)
qed

definition rollout_env :: "unit ret_env" where
  "rollout_env = \<lparr>home = [''/'', ''h''], ledger_dir = [''/'', ''l''], mtime = (\<lambda>_. 0), mtime_num = (\<lambda>_. JInt 0),
     hermes_found = False, hermes_rows = (\<lambda>_ _. Inr []), hermes_run = (\<lambda>_ s t. (Inr 0, s, t))\<rparr>"

definition rollout :: string where
  "rollout = ''{\"type\":\"event_msg\",\"payload\":{\"type\":\"token_count\"}}'' @ [CHR 0x0A]"

definition rollout_world :: "unit ret_world" where
  "rollout_world = \<lparr>files = [([''/'', ''s''], NDir), ([''/'', ''s'', ''a.jsonl''], NFile rollout)], archived = JObj [],
     items = 0, total_bytes = 0, beyond = ()\<rparr>"

theorem codex_usage_outlives_rollouts_witness:
  "(let w = rollout_world; p = [''/'', ''s'', ''a.jsonl''];
        w' = snd (prune_codex rollout_env False 5 [''/'', ''s''] 0 w) in
      fs_read (files w') p = None \<and> sublist (rows_text (fst (codex_rows p rollout))) (ledger_text rollout_env ''codex'' w') \<and>
      rows_text (fst (codex_rows p rollout)) \<noteq> [])"
proof -
  let ?p = "[''/'', ''s'', ''a.jsonl'']" and ?x = "prune_codex rollout_env False 5 [''/'', ''s''] 0 rollout_world"
  have d: "distinct (map path_str (walk_files (files rollout_world) [''/'', ''s'']))" by code_simp
  have b: "\<not> is_relative_to (calls_path rollout_env ''codex'') [''/'', ''s'']" by code_simp
  have c: "fs_read (files rollout_world) ?p = Some rollout" by code_simp
  have g: "fs_read (files (snd ?x)) ?p = None" by code_simp
  have n: "?p \<noteq> calls_path rollout_env ''codex''" by code_simp
  have r: "\<not> py_eq (recorded rollout_env rollout_world ?p) (mtime_num rollout_env ?p)" by code_simp
  have ne: "rows_text (fst (codex_rows ?p rollout)) \<noteq> []" by code_simp
  show ?thesis
    using codex_usage_outlives_rollouts [OF d b surjective_pairing c g n] g r ne unfolding Let_def by blast
qed

section \<open>A dry run\<close>

definition same_files :: "'s ret_world \<Rightarrow> 's ret_world \<Rightarrow> bool" where
  "same_files w w' \<longleftrightarrow> fs_read (files w') = fs_read (files w)"

lemma same_files_order: "reflp same_files" "transp same_files"
  by (auto simp: same_files_def reflp_def transp_def)

lemmas same_files_pure = keeps_pure [OF same_files_order(1)]
lemmas same_files_bnd = keeps_bnd [OF same_files_order(2)]

lemma same_files_for_each: "(\<And>x a. keeps same_files (f x a)) \<Longrightarrow> keeps same_files (for_each xs f a)"
  by (rule keeps_for_each [OF same_files_order])

lemma same_files_modify: "(\<And>w. fs_read (files (f w)) = fs_read (files w)) \<Longrightarrow> keeps same_files (modify f)"
  by (simp add: keeps_def same_files_def modify_def)

lemma same_files_archive: "keeps same_files (archive E True kind p rows)"
  by (auto simp: archive_def same_files_pure intro!: same_files_bnd split: if_splits)

lemma same_files_remove: "keeps same_files (remove_path p True)"
  by (auto simp: remove_path_def same_files_pure intro!: same_files_bnd same_files_modify)

lemma same_files_trim: "keeps same_files (trim_history p fld scale cutoff True)"
proof -
  have r: "keeps same_files (read_text p)" by (simp add: keeps_def same_files_def read_text_def)
  show ?thesis unfolding trim_history_def Let_def
    by (intro same_files_bnd same_files_pure) (auto intro!: same_files_bnd same_files_pure r)
qed

lemma same_files_open: "keeps same_files (open_ledger E)"
  unfolding open_ledger_def edit_def
  by (intro same_files_bnd same_files_modify) (simp_all add: fun_eq_iff)

lemma same_files_claude: "keeps same_files (archive_claude E True early n base)"
  by (auto simp: archive_claude_def claude_file_def same_files_pure same_files_archive
      intro!: same_files_bnd same_files_for_each)

lemma same_files_jobs: "keeps same_files (prune_jobs E True cutoff jobs)"
  by (auto simp: prune_jobs_def prune_job_def same_files_pure same_files_remove
      intro!: same_files_bnd same_files_for_each)

lemma same_files_codex: "keeps same_files (prune_codex E True cutoff base n)"
proof -
  have "keeps same_files (prune_empty_dirs base True)"
    by (simp add: keeps_def same_files_def fun_eq_iff prune_empty_dirs_reads)
  then show ?thesis
    by (auto simp: prune_codex_def codex_file_def same_files_pure same_files_archive same_files_remove
        intro!: same_files_bnd same_files_for_each)
qed

lemma same_files_log: "keeps same_files (prune_log E True cutoff p u)"
  by (simp add: prune_log_def same_files_pure same_files_remove)

lemma same_files_hermes:
  assumes "\<And>s t. fs_read (snd (snd (hermes_run E (hermes_command days True) s t))) = fs_read t"
  shows "keeps same_files (hermes E days cutoff True)"
proof -
  have "keeps same_files (run_hermes E (hermes_command days True))"
    using assms by (simp add: keeps_def same_files_def run_hermes_def split_beta)
  then show ?thesis
    by (auto simp: hermes_def same_files_pure intro!: same_files_bnd)
qed

text \<open>
  A dry run of the whole pruning, successful or not, leaves the content of every file as
  it was, provided the Hermes command line given \<open>--dry-run\<close> does.
\<close>

theorem dry_run_changes_no_file:
  fixes E :: "'s ret_env" and w :: "'s ret_world"
  assumes "\<And>s t. fs_read (snd (snd (hermes_run E (hermes_command days True) s t))) = fs_read t"
  shows "fs_read (files (snd (retain E days True now w))) p = fs_read (files w) p"
proof -
  have "keeps same_files (retain E days True now)"
    unfolding retain_def Let_def
    by (intro same_files_bnd same_files_open same_files_claude same_files_jobs same_files_codex same_files_trim
        same_files_for_each same_files_log same_files_hermes same_files_pure assms) (simp_all add: save_def same_files_pure)
  then show ?thesis by (simp add: keeps_def same_files_def)
qed

theorem dry_run_changes_no_file_witness:
  "fs_read (files (snd (retain rollout_env 30 True 9000000 rollout_world))) [''/'', ''s'', ''a.jsonl''] = Some rollout"
proof -
  have "fs_read (files rollout_world) [''/'', ''s'', ''a.jsonl''] = Some rollout" by code_simp
  then show ?thesis
    using dry_run_changes_no_file [of rollout_env 30 9000000 rollout_world "[''/'', ''s'', ''a.jsonl'']"]
    by (simp add: rollout_env_def)
qed

section \<open>Trimming a history\<close>

fun good_lines :: "string list \<Rightarrow> bool" where
  "good_lines [] = True"
| "good_lines (l # ls) \<longleftrightarrow>
     l \<noteq> [] \<and> CHR 0x0D \<notin> set l \<and> CHR 0x0A \<notin> set (butlast l) \<and> (last l = CHR 0x0A \<or> ls = []) \<and> good_lines ls"

lemma newline_split_good:
  "CHR 0x0D \<notin> set cur \<Longrightarrow> CHR 0x0A \<notin> set cur \<Longrightarrow> CHR 0x0D \<notin> set s \<Longrightarrow> good_lines (newline_split cur s)"
  by (induction cur s rule: newline_split.induct) (auto simp: butlast_append dest: in_set_butlastD list.set_sel(2) [rotated])

lemma good_file_lines: "good_lines (file_lines s)"
  by (simp add: file_lines_def newline_split_good universal_no_cr)

lemma good_lines_filter: "good_lines ls \<Longrightarrow> good_lines (filter P ls)"
  by (induction ls) auto

lemma newline_split_piece: "CHR 0x0A \<notin> set xs \<Longrightarrow> newline_split cur (xs @ rest) = newline_split (rev xs @ cur) rest"
  by (induction xs arbitrary: cur) auto

lemma newline_split_concat: "good_lines ls \<Longrightarrow> newline_split [] (concat ls) = ls"
proof (induction ls)
  case (Cons l ls)
  show ?case
  proof (cases "last l = CHR 0x0A")
    case True
    with Cons.prems have l: "l = butlast l @ [CHR 0x0A]" by (metis append_butlast_last_id good_lines.simps(2))
    have "newline_split [] (concat (l # ls)) = newline_split [] (butlast l @ (CHR 0x0A # concat ls))"
      using l by (metis append.assoc append_Cons append_Nil concat.simps(2))
    also have "\<dots> = rev (CHR 0x0A # rev (butlast l)) # newline_split [] (concat ls)"
      using Cons.prems by (simp add: newline_split_piece)
    finally show ?thesis using Cons l by simp
  next
    case False
    with Cons.prems have "ls = []" "CHR 0x0A \<notin> set l" "l \<noteq> []"
      by (auto, metis append_butlast_last_id rotate1.simps(2) set_ConsD set_rotate1)
    then show ?thesis using newline_split_piece [of l "[]" "[]"] by simp
  qed
qed simp

lemma file_lines_concat:
  assumes "good_lines ls"
  shows "file_lines (concat ls) = ls"
proof -
  have "CHR 0x0D \<notin> set (concat ls)" using assms by (induction ls) auto
  with assms show ?thesis by (simp add: file_lines_def universal_id newline_split_concat)
qed

lemma trim_kept_lines: "file_lines (concat (filter P (file_lines c))) = filter P (file_lines c)"
  by (intro file_lines_concat good_lines_filter good_file_lines)

lemma trim_history_run:
  fixes w :: "'s ret_world"
  shows "case (trim_history p fld scale cutoff False w, fs_read (files w) p) of
      ((r, w'), Some c) \<Rightarrow>
        r = Inr (length (filter (expired fld scale cutoff) (file_lines c))) \<and>
        map_option file_lines (fs_read (files w') p) = Some (filter (\<lambda>l. \<not> expired fld scale cutoff l) (file_lines c)) \<and>
        (q = p \<or> q = butlast p @ [path_name p @ ''.ai-retention.tmp''] \<or> fs_read (files w') q = fs_read (files w) q)
    | ((r, w'), None) \<Rightarrow> w' = w"
proof (cases "fs_read (files w) p")
  case None
  then show ?thesis
    by (auto simp: trim_history_def bnd_def prog_defs read_text_def)
next
  case (Some c)
  let ?P = "\<lambda>l. \<not> expired fld scale cutoff l" and ?tmp = "butlast p @ [path_name p @ ''.ai-retention.tmp'']"
  have cnt: "length (file_lines c) - length (filter ?P (file_lines c)) = length (filter (expired fld scale cutoff) (file_lines c))"
    using sum_length_filter_compl [of "expired fld scale cutoff" "file_lines c"] by simp
  have none: "filter ?P (file_lines c) = file_lines c" if "filter (expired fld scale cutoff) (file_lines c) = []"
    using that by (auto simp: filter_empty_conv filter_id_conv)
  have tmp: "?tmp \<noteq> p" by (auto simp: path_name_def) (metis append_self_conv butlast_snoc last_snoc list.distinct(1))+
  note simps = trim_history_def bnd_def prog_defs read_text_def fs_exists_read [OF Some] Some Let_def cnt edit_def
  show ?thesis
  proof (cases "filter (expired fld scale cutoff) (file_lines c) = []")
    case True
    then show ?thesis by (simp add: simps none)
  next
    case False
    have w: "fs_read (fs_write ?tmp (concat (filter ?P (file_lines c))) (files w)) ?tmp = Some (concat (filter ?P (file_lines c)))"
      by simp
    from False cnt have "length (filter ?P (file_lines c)) < length (file_lines c)" by (cases "filter (expired fld scale cutoff) (file_lines c)") simp_all
    then show ?thesis
      by (simp add: simps fs_read_rename [OF w] trim_kept_lines)
  qed
qed

text \<open>
  Trimming a history returns how many of its lines are expired; afterwards the file's
  lines are the others, in their order, each as it was (a line whose time cannot be read is
  one of them). No other file changes except the temporary one. A history that
  is missing, or is no file, is left alone.
\<close>

theorem trim_history_keeps_the_rest:
  fixes w :: "'s ret_world"
  shows "let old = (\<lambda>l. case line_time fld scale l of None \<Rightarrow> False | Some t \<Rightarrow> t < cutoff) in
    case (trim_history p fld scale cutoff False w, fs_read (files w) p) of
      ((r, w'), Some c) \<Rightarrow>
        r = Inr (length (filter old (file_lines c))) \<and>
        map_option file_lines (fs_read (files w') p) = Some (filter (\<lambda>l. \<not> old l) (file_lines c)) \<and>
        (q = p \<or> q = butlast p @ [path_name p @ ''.ai-retention.tmp''] \<or> fs_read (files w') q = fs_read (files w) q)
    | ((r, w'), None) \<Rightarrow> w' = w"
  unfolding Let_def expired_def [symmetric] by (rule trim_history_run)

end
