(* ===== verification/Json_Lines.thy ===== *)
theory Json_Lines
  imports Py_Json
begin

text \<open>
  Files of JSON documents, one per line: a printed document holds no control character, so
  lines written one after the other read back as they are.
\<close>

section \<open>Lines that survive a text file\<close>

definition printable :: "string \<Rightarrow> bool" where
  "printable s \<longleftrightarrow> list_all (\<lambda>c. \<not> is_ctrl c) s"

lemma printable_simps [simp]:
  "printable []" "printable (c # s) \<longleftrightarrow> \<not> is_ctrl c \<and> printable s" "printable (s @ t) \<longleftrightarrow> printable s \<and> printable t"
  "printable (if b then s else t) \<longleftrightarrow> (if b then printable s else printable t)"
  by (simp_all add: printable_def)

lemma printable_concat: "(\<And>x. x \<in> set xs \<Longrightarrow> printable (f x)) \<Longrightarrow> printable (concat (map f xs))"
  by (induction xs) auto

lemma ctrl_lits [simp]:
  "\<not> is_ctrl (CHR 0x5C)" "\<not> is_ctrl (CHR 0x22)" "\<not> is_ctrl (CHR '' '')" "\<not> is_ctrl (CHR '','')" "\<not> is_ctrl (CHR '':'')"
  "\<not> is_ctrl (CHR ''{'')" "\<not> is_ctrl (CHR ''}'')" "\<not> is_ctrl (CHR ''['')" "\<not> is_ctrl (CHR '']'')" "\<not> is_ctrl (CHR ''-'')" "\<not> is_ctrl (CHR ''.'')"
  "\<not> is_ctrl (CHR ''n'')" "\<not> is_ctrl (CHR ''u'')" "\<not> is_ctrl (CHR ''l'')" "\<not> is_ctrl (CHR ''t'')" "\<not> is_ctrl (CHR ''r'')"
  "\<not> is_ctrl (CHR ''e'')" "\<not> is_ctrl (CHR ''f'')" "\<not> is_ctrl (CHR ''a'')" "\<not> is_ctrl (CHR ''s'')" "\<not> is_ctrl (CHR ''b'')"
  "\<not> is_ctrl (CHR ''0'')"
  by (simp_all add: is_ctrl_def)

lemma nibble_printable [simp]: "\<not> is_ctrl (nibble b0 b1 b2 b3)"
  by (cases b0; cases b1; cases b2; cases b3) (simp_all add: nibble_def hex_digits_def is_ctrl_def)

lemma esc_char_printable: "printable (esc_char c)"
  unfolding esc_char_def by (simp split: char.splits)

lemma digits_printable: "list_all is_digit s \<Longrightarrow> printable s"
proof -
  have "\<not> is_ctrl c" if "is_digit c" for c using that by (auto simp: is_digit_def is_ctrl_def)
  then show "list_all is_digit s \<Longrightarrow> printable s" by (auto simp: printable_def list_all_iff)
qed

lemma number_printable [simp]: "printable (show_nat n)" "printable (show_int i)" "printable (show_dec m k)"
proof -
  show nat: "printable (show_nat n)" for n by (rule digits_printable) simp
  then show "printable (show_int i)" by (simp add: show_int_def)
  have "printable (replicate k (CHR ''0''))" for k by (induction k) simp_all
  with nat show "printable (show_dec m k)" by (simp add: show_dec_def Let_def)
qed

lemma quote_printable [simp]: "printable (quote s)"
  by (simp add: quote_def printable_concat esc_char_printable)

definition flat_layout :: "layout \<Rightarrow> bool" where
  "flat_layout L \<longleftrightarrow> (\<forall>d. nl L d = []) \<and> printable (isep L @ ksep L)"

lemma dumps_printable:
  shows "flat_layout L \<Longrightarrow> printable (dumps_at L d j)"
    and "flat_layout L \<Longrightarrow> printable (dump_items L d js)"
    and "flat_layout L \<Longrightarrow> printable (dump_members L d kvs)"
  by (induction L d j and L d js and L d kvs rule: dumps_at_dump_items_dump_members.induct)
     (auto simp: flat_layout_def)

lemma json_dumps_printable: "printable (json_dumps default_layout j)"
  unfolding json_dumps_def by (rule dumps_printable) (simp add: flat_layout_def default_layout_def)

lemma printable_no_break: "printable s \<Longrightarrow> c \<in> set s \<Longrightarrow> \<not> is_line_break c"
  by (auto simp: printable_def list_all_iff is_line_break_def is_ctrl_def)

text \<open>Lines, each ended by a line feed, read back\<close>

definition clean_line :: "string \<Rightarrow> bool" where
  "clean_line l \<longleftrightarrow> l \<noteq> [] \<and> \<not> is_space (hd l) \<and> \<not> is_space (last l) \<and> printable l"

lemma splitlines_piece: "printable l \<Longrightarrow> lines_aux False cur (l @ s) = lines_aux False (rev l @ cur) s"
proof (induction l arbitrary: cur)
  case (Cons c l)
  then have "\<not> is_line_break c" using printable_no_break [of "c # l" c] by simp
  moreover from this have "c \<noteq> CHR 0x0D" by (auto simp: is_line_break_def)
  ultimately show ?case using Cons by simp
qed simp

lemma lines_aux_lines:
  assumes "list_all clean_line ls"
  shows "lines_aux False [] (concat (map (\<lambda>l. l @ [CHR 0x0A]) ls)) = ls"
  using assms
proof (induction ls)
  case (Cons l ls)
  then have p: "printable l" by (simp add: clean_line_def)
  show ?case using Cons by (simp add: splitlines_piece [OF p] is_line_break_def)
qed simp

text \<open>Stripping takes away the last line feed only.\<close>

lemma splitlines_strip_lines:
  assumes "list_all clean_line ls"
  shows "splitlines (strip (concat (map (\<lambda>l. l @ [CHR 0x0A]) ls))) = ls"
proof (cases ls rule: rev_cases)
  case (snoc ks k)
  let ?s = "concat (map (\<lambda>l. l @ [CHR 0x0A]) ks) @ k"
  have k: "clean_line k" and ks: "list_all clean_line ks" using assms snoc by auto
  have s: "?s \<noteq> []" "\<not> is_space (hd ?s)" using k ks by (cases ks; auto simp: clean_line_def)+
  from s have "\<not> is_space (hd (?s @ [CHR 0x0A]))" unfolding hd_append2 [OF s(1)] by simp
  then have "lstrip (?s @ [CHR 0x0A]) = ?s @ [CHR 0x0A]" by (intro lstrip_id disjI2)
  moreover have "rstrip (?s @ [CHR 0x0A]) = rstrip ?s" by (rule rstrip_append_space) (simp add: is_space_def)
  moreover have "rstrip ?s = ?s" using k by (intro rstrip_id) (simp add: clean_line_def)
  ultimately have strip: "strip (?s @ [CHR 0x0A]) = ?s" by (simp only: strip_def)
  have app: "lines_aux False [] (concat (map (\<lambda>l. l @ [CHR 0x0A]) ks) @ k) = ks @ [k]"
    using ks
  proof (induction ks)
    case Nil
    then show ?case using k splitlines_piece [of k "[]" "[]"] by (simp add: clean_line_def)
  next
    case (Cons l ks)
    then have p: "printable l" by (simp add: clean_line_def)
    show ?case using Cons by (simp add: splitlines_piece [OF p] is_line_break_def)
  qed
  show ?thesis using strip app snoc by (simp add: splitlines_def)
qed (simp add: splitlines_def)

lemma printable_no_cr: "printable s \<Longrightarrow> CHR 0x0D \<notin> set s"
  by (auto simp: printable_def list_all_iff is_ctrl_def)

lemma universal_lines:
  assumes "list_all clean_line ls"
  shows "universal (concat (map (\<lambda>l. l @ [CHR 0x0A]) ls)) = concat (map (\<lambda>l. l @ [CHR 0x0A]) ls)"
  by (rule universal_id) (use assms printable_no_cr in \<open>auto simp: list_all_iff clean_line_def\<close>)

lemma clean_json_line:
  assumes "kvs \<noteq> []"
  shows "clean_line (json_dumps default_layout (JObj kvs))"
  using assms json_dumps_printable [of "JObj kvs"]
  by (auto simp: clean_line_def json_dumps_def default_layout_def is_space_def)

end
