(* ===== verification/Py_Time.thy ===== *)
theory Py_Time
  imports Py_Text
begin

text \<open>
  The calendar of \<open>datetime\<close>: leap years, lengths of months, weekdays by the ordinal of
  a date, the English names \<open>strftime\<close> writes, and instants with their ISO 8601 text and
  its parser.
\<close>

record wall_time =
  wt_year :: nat
  wt_month :: nat
  wt_day :: nat
  wt_hour :: nat
  wt_minute :: nat
  wt_second :: nat

text \<open>\<open>date.weekday()\<close> from the proleptic Gregorian ordinal, Monday being 0\<close>

definition days_before_year :: "nat \<Rightarrow> nat" where
  "days_before_year y = (let z = y - 1 in z * 365 + z div 4 - z div 100 + z div 400)"

definition leap :: "nat \<Rightarrow> bool" where
  "leap y \<longleftrightarrow> y mod 4 = 0 \<and> (y mod 100 \<noteq> 0 \<or> y mod 400 = 0)"

definition month_length :: "nat \<Rightarrow> nat \<Rightarrow> nat" where
  "month_length y m = (if m = 2 then (if leap y then 29 else 28) else if m \<in> set [4, 6, 9, 11] then 30 else 31)"

definition days_before_month :: "nat \<Rightarrow> nat \<Rightarrow> nat" where
  "days_before_month y m =
     [0, 31, 59, 90, 120, 151, 181, 212, 243, 273, 304, 334] ! (m - 1) + (if 2 < m \<and> leap y then 1 else 0)"

definition weekday :: "wall_time \<Rightarrow> nat" where
  "weekday t = (days_before_year (wt_year t) + days_before_month (wt_year t) (wt_month t) + wt_day t + 6) mod 7"

definition weekday_name :: "nat \<Rightarrow> string" where
  "weekday_name d = [''Monday'', ''Tuesday'', ''Wednesday'', ''Thursday'', ''Friday'', ''Saturday'', ''Sunday''] ! d"

definition month_name :: "nat \<Rightarrow> string" where
  "month_name m =
     [''January'', ''February'', ''March'', ''April'', ''May'', ''June'', ''July'', ''August'', ''September'',
      ''October'', ''November'', ''December''] ! (m - 1)"

section \<open>Dates of day numbers\<close>

text \<open>
  The year of a day counted from 1 January of the year 1, and the day within that year, by
  cycles of 400, 100, 4 and 1 years, as \<open>datetime\<close> computes them.
\<close>

definition year_and_day :: "nat \<Rightarrow> nat \<times> nat" where
  "year_and_day n =
     (let n400 = n div 146097; r400 = n mod 146097;
          n100 = r400 div 36524; r100 = r400 mod 36524;
          n4 = r100 div 1461; r4 = r100 mod 1461;
          n1 = r4 div 365; r1 = r4 mod 365;
          y = 400 * n400 + 100 * n100 + 4 * n4 + n1
      in if n1 = 4 \<or> n100 = 4 then (y, 365) else (Suc y, r1))"

definition month_of_day :: "nat \<Rightarrow> nat \<Rightarrow> nat" where
  "month_of_day y d = length (takeWhile (\<lambda>m. days_before_month y m \<le> d) [1..<13])"

definition date_of_day :: "nat \<Rightarrow> nat \<times> nat \<times> nat" where
  "date_of_day n =
     (case year_and_day n of (y, d) \<Rightarrow>
        (y, month_of_day y d, Suc (d - days_before_month y (month_of_day y d))))"

definition day_of_date :: "nat \<times> nat \<times> nat \<Rightarrow> nat" where
  "day_of_date = (\<lambda>(y, m, d). days_before_year y + days_before_month y m + d - 1)"

definition valid_date :: "nat \<times> nat \<times> nat \<Rightarrow> bool" where
  "valid_date = (\<lambda>(y, m, d). 1 \<le> y \<and> y \<le> 9999 \<and> 1 \<le> m \<and> m \<le> 12 \<and> 1 \<le> d \<and> d \<le> month_length y m)"


lemma div_parts: "x = k * q + r \<Longrightarrow> r < k \<Longrightarrow> x div k = (q :: nat)"
  by simp

lemma mod_parts: "x = k * q + r \<Longrightarrow> x mod k = r mod (k :: nat)"
  by simp

lemma div_cycles:
  assumes "b < 4" "c \<le> 24" "e < (4 :: nat)"
  shows "(400 * a + 100 * b + 4 * c + e) div 4 = 100 * a + 25 * b + c"
    "(400 * a + 100 * b + 4 * c + e) div 100 = 4 * a + b"
    "(400 * a + 100 * b + 4 * c + e) div 400 = a"
proof -
  show "(400 * a + 100 * b + 4 * c + e) div 4 = 100 * a + 25 * b + c"
    by (rule div_parts [of _ _ _ e]) (use assms in simp_all)
  show "(400 * a + 100 * b + 4 * c + e) div 100 = 4 * a + b"
    by (rule div_parts [of _ _ _ "4 * c + e"]) (use assms in simp_all)
  show "(400 * a + 100 * b + 4 * c + e) div 400 = a"
    by (rule div_parts [of _ _ _ "100 * b + 4 * c + e"]) (use assms in simp_all)
qed

lemma leap_cycles:
  assumes "b < 4" "c \<le> (24 :: nat)"
  shows "leap (400 * a + 100 * b + 4 * c + 4) \<longleftrightarrow> c < 24 \<or> b = 3"
proof -
  let ?y = "400 * a + 100 * b + 4 * c + 4"
  have "?y mod 4 = 0" by (subst mod_parts [of _ 4 "100 * a + 25 * b + c + 1" 0]) simp_all
  moreover have "?y mod 100 = (4 * c + 4) mod 100" by (rule mod_parts [of _ 100 "4 * a + b"]) simp
  moreover have "?y mod 400 = (100 * b + 4 * c + 4) mod 400" by (rule mod_parts [of _ 400 a]) simp
  ultimately have y: "leap ?y \<longleftrightarrow> (4 * c + 4) mod 100 \<noteq> 0 \<or> (100 * b + 4 * c + 4) mod 400 = 0"
    by (simp only: leap_def) simp
  show ?thesis
  proof (cases "c = 24")
    case True
    from assms(1) have "b = 0 \<or> b = 1 \<or> b = 2 \<or> b = 3" by linarith
    then show ?thesis using y True by (elim disjE) simp_all
  next
    case False
    with assms(2) have "4 * c + 4 < 100" by simp
    with False assms(2) show ?thesis unfolding y by simp
  qed
qed

lemma year_and_day_inverse:
  assumes "year_and_day n = (y, d)"
  shows "1 \<le> y" "days_before_year y + d = n" "d < (if leap y then 366 else 365)"
proof -
  define a r where "a = n div 146097" and "r = n mod 146097"
  define b s where "b = r div 36524" and "s = r mod 36524"
  define c t where "c = s div 1461" and "t = s mod 1461"
  define e u where "e = t div 365" and "u = t mod 365"
  have r: "n = 146097 * a + r" "r < 146097" and s: "r = 36524 * b + s" "s < 36524"
    and t: "s = 1461 * c + t" "t < 1461" and u: "t = 365 * e + u" "u < 365"
    by (simp_all add: a_def r_def b_def s_def c_def t_def e_def u_def)
  have b: "b \<le> 4" "b = 4 \<Longrightarrow> s = 0" using r(2) s by linarith+
  have c: "c \<le> 24" using s(2) t by linarith
  have e: "e \<le> 4" "e = 4 \<Longrightarrow> u = 0" using t(2) u by linarith+
  have yd: "(y, d) = (if e = 4 \<or> b = 4 then (400 * a + 100 * b + 4 * c + e, 365) else (Suc (400 * a + 100 * b + 4 * c + e), u))"
    using assms unfolding year_and_day_def Let_def
    by (simp only: a_def r_def b_def s_def c_def t_def e_def u_def)
  consider (four) "e = 4" "b < 4" | (hundred) "b = 4" "c = 0" "e = 0" "t = 0" | (plain) "e < 4" "b < 4"
  proof (cases "b = 4")
    case True
    with b(2) t(1) u(1) hundred show ?thesis by simp
  next
    case False
    with b(1) e(1) four plain show ?thesis by linarith
  qed
  then have "1 \<le> y \<and> days_before_year y + d = n \<and> d < (if leap y then 366 else 365)"
  proof cases
    case plain
    let ?z = "400 * a + 100 * b + 4 * c + e"
    have y: "y = Suc ?z" "d = u" using yd plain by auto
    have "days_before_year y = 146097 * a + 36524 * b + 1461 * c + 365 * e"
      by (simp only: days_before_year_def y diff_Suc_1 Let_def div_cycles [OF plain(2) c plain(1)]) simp
    with y u r(1) s(1) t(1) show ?thesis by auto
  next
    case four
    let ?z = "400 * a + 100 * b + 4 * c + (3 :: nat)"
    have u0: "u = 0" using e four by simp
    have y: "y = Suc ?z" "d = 365" using yd four by auto
    have "days_before_year y = 146097 * a + 36524 * b + 1461 * c + 365 * 3"
      by (simp only: days_before_year_def y diff_Suc_1 Let_def div_cycles [OF four(2) c, of 3, simplified]) simp
    moreover have "leap y"
    proof -
      have "c < 24 \<or> b = 3" using r(2) s t(1) u(1) four b(1) by linarith
      then show ?thesis using leap_cycles [OF four(2) c, of a] by (simp add: y ac_simps)
    qed
    ultimately show ?thesis using y u0 u(1) four r(1) s(1) t(1) by auto
  next
    case hundred
    let ?z = "400 * a + 399"
    have y: "y = Suc ?z" "d = 365" using yd hundred by auto
    have "days_before_year y = 146097 * a + 145731"
      using div_cycles [of 3 24 3 a] unfolding days_before_year_def y by simp
    moreover have "leap y" using leap_cycles [of 3 24 a] by (simp add: y)
    moreover have "u = 0" using hundred u(1) by simp
    ultimately show ?thesis using y hundred r(1) s(1) t(1) u(1) by auto
  qed
  then show "1 \<le> y" "days_before_year y + d = n" "d < (if leap y then 366 else 365)" by auto
qed

lemma months: "[1..<13] = [1, 2, 3, 4, 5, 6, 7, 8, 9, 10, 11, 12::nat]"
  by code_simp

lemma month_of_day_bounds:
  assumes "d < (if leap y then 366 else 365)"
  shows "1 \<le> month_of_day y d" "month_of_day y d \<le> 12" "days_before_month y (month_of_day y d) \<le> d"
    "d < days_before_month y (month_of_day y d) + month_length y (month_of_day y d)"
  using assms unfolding month_of_day_def months
  by (auto simp: days_before_month_def month_length_def split: if_splits)

lemma date_of_day_inverse: "day_of_date (date_of_day n) = n"
proof -
  obtain y d where yd: "year_and_day n = (y, d)" by fastforce
  note i = year_and_day_inverse [OF yd]
  show ?thesis using i(2) month_of_day_bounds(3) [OF i(3)] by (simp add: day_of_date_def date_of_day_def yd)
qed

text \<open>The last day of the year 9999 is the last one.\<close>

lemma date_of_day_valid:
  assumes "n < 3652059"
  shows "valid_date (date_of_day n)"
proof -
  obtain y d where yd: "year_and_day n = (y, d)" by fastforce
  note i = year_and_day_inverse [OF yd]
  have "y \<le> 9999"
  proof (rule ccontr)
    assume "\<not> y \<le> 9999"
    then have "10000 \<le> y" by simp
    then have "3652059 \<le> days_before_year y"
      unfolding days_before_year_def Let_def by linarith
    with i(2) assms show False by simp
  qed
  with i(1) month_of_day_bounds [OF i(3)] show ?thesis by (simp add: valid_date_def date_of_day_def yd)
qed

section \<open>Instants\<close>

text \<open>
  An aware \<open>datetime\<close> is a wall clock time and its offset from UTC, both in
  microseconds, the wall clock counted from 1970; a naive one has no offset.
\<close>

record datetime =
  dt_local :: int
  dt_offset :: "int option"

definition day_us :: int where "day_us = 86400000000"
definition minute_us :: int where "minute_us = 60000000"
definition hour_us :: int where "hour_us = 3600000000"

text \<open>1 January 1970, counted from 1 January of the year 1\<close>

definition epoch_day :: int where "epoch_day = 719162"

definition in_calendar :: "int \<Rightarrow> bool" where
  "in_calendar t \<longleftrightarrow> 0 \<le> t div day_us + epoch_day \<and> t div day_us + epoch_day < 3652059"

definition date_at :: "int \<Rightarrow> nat \<times> nat \<times> nat" where
  "date_at t = date_of_day (nat (t div day_us + epoch_day))"

text \<open>The last \<open>w\<close> digits\<close>

primrec pad_digits :: "nat \<Rightarrow> nat \<Rightarrow> string" where
  "pad_digits 0 n = []"
| "pad_digits (Suc w) n = pad_digits w (n div 10) @ [digit_char (n mod 10)]"

text \<open>\<open>isoformat()\<close> in UTC\<close>

definition iso_clock :: "nat \<Rightarrow> string" where
  "iso_clock us =
     (let s = us div 1000000; f = us mod 1000000 in
      pad_digits 2 (s div 3600) @ '':'' @ pad_digits 2 (s div 60 mod 60) @ '':'' @ pad_digits 2 (s mod 60) @
      (if f = 0 then [] else ''.'' @ pad_digits 6 f))"

definition iso_date :: "nat \<times> nat \<times> nat \<Rightarrow> string" where
  "iso_date = (\<lambda>(y, m, d). pad_digits 4 y @ ''-'' @ pad_digits 2 m @ ''-'' @ pad_digits 2 d)"

definition iso_utc :: "int \<Rightarrow> string" where
  "iso_utc t = iso_date (date_at t) @ ''T'' @ iso_clock (nat (t mod day_us)) @ ''+00:00''"

text \<open>
  \<open>datetime.fromisoformat\<close> of the extended format, with any one byte between the date and
  the time. The compact format and the week dates it reads as well are not modelled.
\<close>

definition read_digits :: "nat \<Rightarrow> string \<Rightarrow> nat option" where
  "read_digits w s = (if length s = w \<and> list_all is_digit s then Some (read_nat s) else None)"

definition parse_date :: "string \<Rightarrow> nat option" where
  "parse_date s =
     (case (read_digits 4 (take 4 s), read_digits 2 (take 2 (drop 5 s)), read_digits 2 (drop 8 s)) of
        (Some y, Some m, Some d) \<Rightarrow>
          if take 1 (drop 4 s) = ''-'' \<and> take 1 (drop 7 s) = ''-'' \<and> valid_date (y, m, d)
          then Some (day_of_date (y, m, d)) else None
      | _ \<Rightarrow> None)"

definition after_colon :: "string \<Rightarrow> nat option" where
  "after_colon s = (case s of [] \<Rightarrow> Some 0 | c # r \<Rightarrow> if c = CHR '':'' then read_digits 2 r else None)"

definition fraction_us :: "string \<Rightarrow> nat option" where
  "fraction_us s =
     (case s of
        [] \<Rightarrow> Some 0
      | c # r \<Rightarrow>
          if c \<in> set ''.,'' \<and> r \<noteq> [] \<and> list_all is_digit r
          then Some (read_nat (take 6 (r @ replicate 6 (CHR ''0'')))) else None)"

definition parse_clock :: "string \<Rightarrow> nat option" where
  "parse_clock s =
     (case (read_digits 2 (take 2 s), after_colon (take 3 (drop 2 s)), after_colon (take 3 (drop 5 s)), fraction_us (drop 8 s)) of
        (Some h, Some m, Some c, Some f) \<Rightarrow>
          if h < 24 \<and> m < 60 \<and> c < 60 then Some (((h * 60 + m) * 60 + c) * 1000000 + f) else None
      | _ \<Rightarrow> None)"

definition parse_offset :: "string \<Rightarrow> int option option" where
  "parse_offset s =
     (case s of
        [] \<Rightarrow> Some None
      | c # r \<Rightarrow>
          if c = CHR ''Z'' then (if r = [] then Some (Some 0) else None)
          else map_option (\<lambda>us. Some (if c = CHR ''-'' then - int us else int us)) (parse_clock r))"

definition fromisoformat :: "string \<Rightarrow> datetime option" where
  "fromisoformat s =
     (case parse_date (take 10 s) of
        None \<Rightarrow> None
      | Some n \<Rightarrow>
          (let midnight = (int n - epoch_day) * day_us; r = drop 10 s; body = drop 1 r;
               clock = takeWhile (\<lambda>c. c \<notin> set ''+-Z'') body
           in if r = [] then Some \<lparr>dt_local = midnight, dt_offset = None\<rparr>
              else
                (case (parse_clock clock, parse_offset (drop (length clock) body)) of
                   (Some us, Some off) \<Rightarrow> Some \<lparr>dt_local = midnight + int us, dt_offset = off\<rparr>
                 | _ \<Rightarrow> None)))"

lemma length_pad_digits [simp]: "length (pad_digits w n) = w"
  by (induction w arbitrary: n) simp_all

lemma pad_digits_digits [simp]: "list_all is_digit (pad_digits w n)"
  by (induction w arbitrary: n) simp_all

lemma read_pad_digits: "read_nat (pad_digits w n) = n mod 10 ^ w"
proof (induction w arbitrary: n)
  case (Suc w)
  have "read_nat (pad_digits (Suc w) n) = 10 * (n div 10 mod 10 ^ w) + n mod 10"
    by (simp add: read_nat_snoc Suc)
  also have "\<dots> = n mod 10 ^ Suc w" by (simp add: mod_mult2_eq)
  finally show ?case .
qed (simp add: read_nat_def)

lemma read_digits_pad [simp]: "n < 10 ^ w \<Longrightarrow> read_digits w (pad_digits w n) = Some n"
  by (simp add: read_digits_def read_pad_digits)

lemma pad_digits_inj: "pad_digits w m = pad_digits w n \<Longrightarrow> m < 10 ^ w \<Longrightarrow> n < 10 ^ w \<Longrightarrow> m = n"
  by (metis read_pad_digits mod_less)

lemma parse_iso_date: "valid_date d \<Longrightarrow> parse_date (iso_date d) = Some (day_of_date d)"
proof -
  assume v: "valid_date d"
  obtain y m k where d: "d = (y, m, k)" by (cases d)
  have "month_length y m \<le> 31" by (simp add: month_length_def)
  with v d have "y < 10 ^ 4" "m < 10 ^ 2" "k < 10 ^ 2" by (auto simp: valid_date_def)
  with v show ?thesis by (simp add: d iso_date_def parse_date_def)
qed

lemma length_iso_date [simp]: "length (iso_date d) = 10"
  by (simp add: iso_date_def split: prod.split)

lemma seconds_parts: "(s div 3600 * 60 + s div 60 mod 60) * 60 + s mod 60 = (s :: nat)"
  using div_mult2_eq [of s 60 60] div_mult_mod_eq [of "s div 60" 60] div_mult_mod_eq [of s 60] by simp

lemma parse_iso_clock:
  assumes "us < 86400000000"
  shows "parse_clock (iso_clock us) = Some us"
proof -
  define s f where "s = us div 1000000" and "f = us mod 1000000"
  have u: "us = s * 1000000 + f" "f < 10 ^ 6" "s < 86400" using assms by (simp_all add: s_def f_def)
  then have s: "s div 3600 < 24" "s div 60 mod 60 < 60" "s mod 60 < 60" by auto
  have b: "s div 3600 < 10 ^ 2" "s div 60 mod 60 < 10 ^ 2" "s mod 60 < 10 ^ 2" using s by simp_all
  have frac: "fraction_us (if f = 0 then [] else ''.'' @ pad_digits 6 f) = Some f"
  proof (cases "f = 0")
    case False
    have ne: "pad_digits 6 f \<noteq> []" by (metis length_pad_digits list.size(3) zero_neq_numeral)
    have "f mod 1000000 = f" using u(2) by simp
    with False ne show ?thesis
      by (simp only: fraction_us_def if_False append.simps list.case) (simp add: read_pad_digits del: pad_digits.simps)
  qed (simp add: fraction_us_def)
  note seconds_parts [of s]
  then show ?thesis
    using frac s b u(1) unfolding iso_clock_def Let_def s_def [symmetric] f_def [symmetric]
    by (simp add: parse_clock_def after_colon_def)
qed

lemma clock_chars: "c \<in> set (iso_clock us) \<Longrightarrow> c \<notin> set ''+-Z''"
proof -
  assume c: "c \<in> set (iso_clock us)"
  have "is_digit x \<Longrightarrow> x \<notin> set ''+-Z''" for x by (auto simp: is_digit_def)
  moreover have "c \<in> set '':.'' \<or> is_digit c"
    using c pad_digits_digits unfolding iso_clock_def Let_def list_all_iff by (auto split: if_splits)
  ultimately show ?thesis by auto
qed

theorem fromisoformat_iso:
  assumes "in_calendar t"
  shows "fromisoformat (iso_utc t) = Some \<lparr>dt_local = t, dt_offset = Some 0\<rparr>"
proof -
  define n where "n = nat (t div day_us + epoch_day)"
  define us where "us = nat (t mod day_us)"
  have n: "int n = t div day_us + epoch_day" "n < 3652059" using assms by (simp_all add: in_calendar_def n_def nat_less_iff)
  have us: "int us = t mod day_us" "us < 86400000000" by (simp_all add: us_def day_us_def nat_less_iff)
  have tail: "takeWhile (\<lambda>c. c \<notin> set ''+-Z'') (iso_clock us @ ''+00:00'') = iso_clock us"
    using clock_chars by (subst takeWhile_append2) auto
  have off: "parse_offset ''+00:00'' = Some (Some 0)"
    by (simp add: parse_offset_def parse_clock_def after_colon_def fraction_us_def read_digits_def
      read_nat_def digit_val_def is_digit_def)
  have at: "date_at t = date_of_day n" by (simp only: date_at_def n_def)
  have d: "parse_date (iso_date (date_at t)) = Some n"
    unfolding at parse_iso_date [OF date_of_day_valid [OF n(2)]] date_of_day_inverse ..
  have "fromisoformat (iso_utc t) = Some \<lparr>dt_local = (int n - epoch_day) * day_us + int us, dt_offset = Some 0\<rparr>"
    unfolding fromisoformat_def iso_utc_def us_def [symmetric]
    by (simp add: d off tail [simplified] parse_iso_clock [OF us(2)] Let_def)
  then show ?thesis using n(1) us(1) by simp
qed

text \<open>\<open>strftime("%Y%m%dT%H%M%SZ")\<close> of the wall clock\<close>

definition compact_time :: "int \<Rightarrow> string" where
  "compact_time t =
     (let s = nat (t mod day_us) div 1000000 in
      case date_at t of (y, m, d) \<Rightarrow>
        pad_digits 4 y @ pad_digits 2 m @ pad_digits 2 d @ ''T'' @
        pad_digits 2 (s div 3600) @ pad_digits 2 (s div 60 mod 60) @ pad_digits 2 (s mod 60) @ ''Z'')"

definition whole_second :: "int \<Rightarrow> bool" where
  "whole_second t \<longleftrightarrow> t mod 1000000 = 0"

lemma length_compact_time [simp]: "length (compact_time t) = 16"
  by (simp add: compact_time_def Let_def split: prod.split)

lemma seconds_of_day: "nat (t mod day_us) div 1000000 < 86400"
  by (simp add: day_us_def nat_less_iff less_mult_imp_div_less)

lemma date_at_bounds:
  assumes "in_calendar t" "date_at t = (y, m, d)"
  shows "y < 10 ^ 4" "m < 10 ^ 2" "d < 10 ^ 2" "int (day_of_date (y, m, d)) = t div day_us + epoch_day"
proof -
  define n where "n = nat (t div day_us + epoch_day)"
  have n: "int n = t div day_us + epoch_day" "n < 3652059"
    using assms by (simp_all add: in_calendar_def n_def nat_less_iff)
  have v: "valid_date (y, m, d)" "day_of_date (y, m, d) = n"
    using date_of_day_valid [OF n(2)] date_of_day_inverse [of n] assms(2) by (simp_all add: date_at_def n_def)
  have "month_length y m \<le> 31" by (simp add: month_length_def)
  with v n(1) show "y < 10 ^ 4" "m < 10 ^ 2" "d < 10 ^ 2" "int (day_of_date (y, m, d)) = t div day_us + epoch_day"
    by (auto simp: valid_date_def)
qed

lemma whole_seconds:
  assumes "whole_second t"
  shows "t mod day_us = int (nat (t mod day_us) div 1000000) * 1000000"
proof -
  have "t mod day_us mod 1000000 = t mod 1000000" by (rule mod_mod_cancel) (simp add: day_us_def)
  then have "t mod day_us = t mod day_us div 1000000 * 1000000"
    using assms div_mult_mod_eq [of "t mod day_us" 1000000] by (simp add: whole_second_def)
  moreover have "0 \<le> t mod day_us" by (simp add: day_us_def)
  ultimately show ?thesis by (simp add: zdiv_int)
qed

lemma compact_time_inj:
  assumes "compact_time a = compact_time b" "in_calendar a" "in_calendar b" "whole_second a" "whole_second b"
  shows "a = b"
proof -
  obtain y m d y' m' d' where at: "date_at a = (y, m, d)" "date_at b = (y', m', d')" by (metis prod_cases3)
  define s s' where "s = nat (a mod day_us) div 1000000" and "s' = nat (b mod day_us) div 1000000"
  have eqs: "pad_digits 4 y = pad_digits 4 y'" "pad_digits 2 m = pad_digits 2 m'" "pad_digits 2 d = pad_digits 2 d'"
      "pad_digits 2 (s div 3600) = pad_digits 2 (s' div 3600)"
      "pad_digits 2 (s div 60 mod 60) = pad_digits 2 (s' div 60 mod 60)" "pad_digits 2 (s mod 60) = pad_digits 2 (s' mod 60)"
    using assms(1) by (simp_all add: compact_time_def at Let_def s_def [symmetric] s'_def [symmetric] del: pad_digits.simps)
  note ba = date_at_bounds [OF assms(2) at(1)] and bb = date_at_bounds [OF assms(3) at(2)]
  have "y = y'" "m = m'" "d = d'"
    using pad_digits_inj [OF eqs(1) ba(1) bb(1)] pad_digits_inj [OF eqs(2) ba(2) bb(2)] pad_digits_inj [OF eqs(3) ba(3) bb(3)] .
  then have days: "a div day_us = b div day_us" using ba(4) bb(4) by simp
  have lt: "s < 86400" "s' < 86400" using seconds_of_day by (simp_all add: s_def s'_def)
  then have "s div 3600 = s' div 3600" "s div 60 mod 60 = s' div 60 mod 60" "s mod 60 = s' mod 60"
    using pad_digits_inj [OF eqs(4)] pad_digits_inj [OF eqs(5)] pad_digits_inj [OF eqs(6)] by (auto simp: less_mult_imp_div_less)
  then have "s = s'" using seconds_parts [of s] seconds_parts [of s'] by metis
  moreover have "a mod day_us = int s * 1000000" "b mod day_us = int s' * 1000000"
    using whole_seconds [OF assms(4)] whole_seconds [OF assms(5)] by (simp_all only: s_def s'_def)
  ultimately show ?thesis using days by (metis div_mult_mod_eq)
qed

end
