(* ===== verification/Rtrfm_Nowplaying.thy ===== *)
theory Rtrfm_Nowplaying
  imports Py_Dyn Py_Path Py_Url Json_Lines Py_Time
begin

text \<open>
  The now-playing service (rtrfm-nowplaying/server.py): the show on air according to
  Airnet, the tracklists kept per show, the current track, one round of the two background
  threads and their interleaving, and the answers to requests. The network, the clock, the
  audio tools and the order in which pooled requests finish are parameters.
\<close>

section \<open>State\<close>

text \<open>A moment in the station's time zone: year, month, day, hour, minute, second, microsecond\<close>

type_synonym moment = "nat list"

record 's rt_env =
  state_dir :: path
  clock :: "'s \<Rightarrow> moment \<times> 's"
  fetch :: "string \<Rightarrow> 's \<Rightarrow> (exn + string) \<times> 's"
  finish_order :: "nat \<Rightarrow> 's \<Rightarrow> nat list \<times> 's"
  temp_path :: "'s \<Rightarrow> path \<times> 's"
  run_tool :: "string list \<Rightarrow> 's \<Rightarrow> fs \<Rightarrow> (exn + int \<times> string) \<times> 's \<times> fs"

record now_playing =
  np_artist :: json
  np_title :: json
  np_show :: json
  np_show_end :: json
  np_last_updated :: json
  np_source :: string

record 's rt_world =
  tree :: fs
  np :: now_playing
  outside :: 's

definition ask :: "('s \<Rightarrow> 'a \<times> 's) \<Rightarrow> ('s rt_world, 'a) prog" where
  "ask f w = (case f (outside w) of (x, s) \<Rightarrow> (Inr x, w\<lparr>outside := s\<rparr>))"

section \<open>The show on air\<close>

definition api_base :: string where
  "api_base = ''https://airnet.org.au/rest/stations/6RTR''"

definition api_get :: "'s rt_env \<Rightarrow> string \<Rightarrow> ('s rt_world, json) prog" where
  "api_get E url =
     bnd (bnd (ask (fetch E url)) of_result) (\<lambda>body.
       case json_loads body of None \<Rightarrow> raise JSONDecodeError | Some j \<Rightarrow> ret j)"

text \<open>\<open>datetime.strptime(s, "%Y-%m-%d %H:%M:%S")\<close>\<close>

definition num_field :: "nat \<Rightarrow> string \<Rightarrow> (nat \<times> string) option" where
  "num_field k s =
     (let d = takeWhile is_digit (take k s) in if d = [] then None else Some (read_nat d, drop (length d) s))"

definition sep_field :: "char \<Rightarrow> string \<Rightarrow> string option" where
  "sep_field c s = (case s of [] \<Rightarrow> None | x # xs \<Rightarrow> if x = c then Some xs else None)"

definition day_field :: "string \<Rightarrow> (nat \<times> string) option" where
  "day_field s = (case s of c # cs \<Rightarrow> if c = CHR '' '' then num_field 1 cs else num_field 2 s | [] \<Rightarrow> None)"

definition space_field :: "string \<Rightarrow> string option" where
  "space_field s = (if s \<noteq> [] \<and> is_space (hd s) then Some (dropWhile is_space s) else None)"

definition valid_moment :: "moment \<Rightarrow> bool" where
  "valid_moment t =
     (case t of
        [y, mo, d, h, mi, s, us] \<Rightarrow>
          1 \<le> y \<and> y \<le> 9999 \<and> 1 \<le> mo \<and> mo \<le> 12 \<and> 1 \<le> d \<and> d \<le> month_length y mo \<and>
          h < 24 \<and> mi < 60 \<and> s < 60 \<and> us < 1000000
      | _ \<Rightarrow> False)"

definition obind :: "'a option \<Rightarrow> ('a \<Rightarrow> 'b option) \<Rightarrow> 'b option" where
  "obind m f = (case m of None \<Rightarrow> None | Some x \<Rightarrow> f x)"

definition strptime :: "string \<Rightarrow> moment option" where
  "strptime s =
     (if length (takeWhile is_digit (take 4 s)) \<noteq> 4 then None
      else
        obind (num_field 4 s) (\<lambda>(y, s). obind (sep_field (CHR ''-'') s) (\<lambda>s.
        obind (num_field 2 s) (\<lambda>(mo, s). obind (sep_field (CHR ''-'') s) (\<lambda>s.
        obind (day_field s) (\<lambda>(d, s). obind (space_field s) (\<lambda>s.
        obind (num_field 2 s) (\<lambda>(h, s). obind (sep_field (CHR '':'') s) (\<lambda>s.
        obind (num_field 2 s) (\<lambda>(mi, s). obind (sep_field (CHR '':'') s) (\<lambda>s.
        obind (num_field 2 s) (\<lambda>(sec, s).
          if s = [] \<and> valid_moment [y, mo, d, h, mi, sec, 0] then Some [y, mo, d, h, mi, sec, 0] else None))))))))))))"

definition parse_airnet_dt :: "json \<Rightarrow> exn + moment option" where
  "parse_airnet_dt j =
     (if \<not> truthy j then Inr None
      else
        case j of
          JStr s \<Rightarrow> (case strptime s of
              None \<Rightarrow> Inl (ValueError ''time data does not match format'') | Some t \<Rightarrow> Inr (Some t))
        | _ \<Rightarrow> Inl (TypeError ''strptime() argument 1 must be str''))"

definition isoformat :: "moment \<Rightarrow> string" where
  "isoformat t =
     zero_pad 4 (int (t ! 0)) @ ''-'' @ zero_pad 2 (int (t ! 1)) @ ''-'' @ zero_pad 2 (int (t ! 2)) @ ''T'' @ zero_pad 2 (int (t ! 3)) @ '':'' @ zero_pad 2 (int (t ! 4)) @ '':'' @
     zero_pad 2 (int (t ! 5)) @ (if t ! 6 = 0 then [] else ''.'' @ zero_pad 6 (int (t ! 6))) @ ''+08:00''"

definition on_air :: "moment \<Rightarrow> moment option \<Rightarrow> moment option \<Rightarrow> bool" where
  "on_air now start stop = (case (start, stop) of (Some a, Some b) \<Rightarrow> a \<le> now \<and> now \<le> b | _ \<Rightarrow> False)"

text \<open>One program's episodes, in order, up to the one on air\<close>

fun pick_episode :: "json \<Rightarrow> json \<Rightarrow> moment \<Rightarrow> json list \<Rightarrow> exn + json option" where
  "pick_episode slug name now [] = Inr None"
| "pick_episode slug name now (ep # eps) =
     rbnd (py_get ep ''start'') (\<lambda>s. rbnd (parse_airnet_dt s) (\<lambda>start.
     rbnd (py_get ep ''end'') (\<lambda>e. rbnd (parse_airnet_dt e) (\<lambda>stop.
       if on_air now start stop
       then rbnd (py_item ep ''end'') (\<lambda>e. Inr (Some (JObj [(''slug'', slug), (''show'', name), (''end'', e)])))
       else pick_episode slug name now eps))))"

text \<open>The exceptions the two requests name\<close>

definition is_fetch_error :: "exn \<Rightarrow> bool" where
  "is_fetch_error e =
     (case e of URLError _ _ _ \<Rightarrow> True | HTTPError _ _ \<Rightarrow> True | JSONDecodeError \<Rightarrow> True | _ \<Rightarrow> False)"

definition is_episode_error :: "exn \<Rightarrow> bool" where
  "is_episode_error e = (is_fetch_error e \<or> (case e of KeyError _ \<Rightarrow> True | _ \<Rightarrow> False))"

definition fetch_current_episode ::
  "'s rt_env \<Rightarrow> json \<Rightarrow> json \<Rightarrow> moment \<Rightarrow> ('s rt_world, json option) prog" where
  "fetch_current_episode E slug name now =
     try_except
       (bnd (api_get E (api_base @ ''/programs/'' @ py_str slug @ ''/episodes'')) (\<lambda>episodes.
         of_result (rbnd (py_iter episodes) (pick_episode slug name now))))
       (\<lambda>e. if is_episode_error e then ret None else raise e)"

definition program_slug :: "json \<Rightarrow> exn + (json \<times> json) list" where
  "program_slug p =
     rbnd (py_get_or p ''archived'' (JBool False)) (\<lambda>a.
       if truthy a then Inr []
       else rbnd (py_get p ''slug'') (\<lambda>s.
         if \<not> truthy s then Inr []
         else rbnd (py_item p ''slug'') (\<lambda>s. rbnd (py_item p ''name'') (\<lambda>n. Inr [(s, n)]))))"

text \<open>Every submitted request runs; results are looked at in the order they finished.\<close>

fun run_pool :: "'s rt_env \<Rightarrow> moment \<Rightarrow> (json \<times> json) list \<Rightarrow> 's rt_world \<Rightarrow> (exn + json option) list \<times> 's rt_world" where
  "run_pool E now [] w = ([], w)"
| "run_pool E now ((slug, name) # ps) w =
     (case fetch_current_episode E slug name now w of
        (r, w1) \<Rightarrow> (case run_pool E now ps w1 of (rs, w2) \<Rightarrow> (r # rs, w2)))"

fun first_result :: "(exn + json option) list \<Rightarrow> exn + json option" where
  "first_result [] = Inr None"
| "first_result (Inl e # rs) = Inl e"
| "first_result (Inr None # rs) = first_result rs"
| "first_result (Inr (Some r) # rs) = Inr (Some r)"

definition discover_current_show :: "'s rt_env \<Rightarrow> ('s rt_world, json option) prog" where
  "discover_current_show E =
     bnd (ask (clock E)) (\<lambda>now.
     bnd (try_except (bnd (api_get E (api_base @ ''/programs'')) (\<lambda>j. ret (Some j)))
            (\<lambda>e. if is_fetch_error e then ret None else raise e)) (\<lambda>programs.
       case programs of
         None \<Rightarrow> ret None
       | Some ps \<Rightarrow>
           bnd (of_result (rbnd (py_iter ps) (rmap program_slug))) (\<lambda>slugs.
           bnd (\<lambda>w. case run_pool E now (concat slugs) w of (rs, w') \<Rightarrow> (Inr rs, w')) (\<lambda>rs.
           bnd (ask (finish_order E (length rs))) (\<lambda>ord.
             of_result (first_result (map ((!) rs) ord)))))))"

section \<open>Tracklists\<close>

definition list_dir :: "'s rt_env \<Rightarrow> path" where
  "list_dir E = state_dir E @ [''tracklists'']"

definition open_store :: "'s rt_env \<Rightarrow> ('s rt_world, unit) prog" where
  "open_store E = modify (\<lambda>w. w\<lparr>tree := fs_mkdirs (list_dir E) (tree w)\<rparr>)"

definition is_alnum_text :: "string \<Rightarrow> bool" where
  "is_alnum_text s \<longleftrightarrow> s \<noteq> [] \<and> list_all (\<lambda>c. is_word c \<and> c \<noteq> CHR ''_'') s"

definition safe_piece :: "json \<Rightarrow> exn + string" where
  "safe_piece j =
     (case j of
        JStr c \<Rightarrow> Inr (if is_alnum_text c \<or> contains '' -_'' c then c else ''_'')
      | _ \<Rightarrow> Inl (no_attribute j ''isalnum''))"

definition list_name :: "json \<Rightarrow> exn + string" where
  "list_name show_name = rbnd (py_iter show_name) (\<lambda>cs. rbnd (rmap safe_piece cs) (\<lambda>ps. Inr (strip (concat ps))))"

definition path_for :: "'s rt_env \<Rightarrow> json \<Rightarrow> exn + path" where
  "path_for E show_name = rbnd (list_name show_name) (\<lambda>s. Inr (list_dir E @ [s @ ''.jsonl'']))"

definition list_text :: "fs \<Rightarrow> path \<Rightarrow> exn + string" where
  "list_text t p = (case fs_read t p of None \<Rightarrow> Inl (OSError ''cannot read'') | Some c \<Rightarrow> Inr (universal c))"

definition list_lines :: "fs \<Rightarrow> path \<Rightarrow> exn + string list" where
  "list_lines t p = rbnd (list_text t p) (\<lambda>s. Inr (splitlines (strip s)))"

definition same_track :: "json \<Rightarrow> json \<Rightarrow> json \<Rightarrow> exn + bool" where
  "same_track prev artist title =
     rbnd (py_get prev ''artist'') (\<lambda>a. if \<not> py_eq a artist then Inr False
       else rbnd (py_get prev ''title'') (\<lambda>t. Inr (py_eq t title)))"

definition is_repeat :: "fs \<Rightarrow> path \<Rightarrow> json \<Rightarrow> json \<Rightarrow> exn + bool" where
  "is_repeat t p artist title =
     (if \<not> fs_exists t p then Inr False
      else rbnd (list_lines t p) (\<lambda>ls.
        if ls = [] then Inr False
        else case json_loads (last ls) of None \<Rightarrow> Inr False | Some j \<Rightarrow> same_track j artist title))"

definition track_json :: "json \<Rightarrow> json \<Rightarrow> string \<Rightarrow> json" where
  "track_json artist title time = JObj [(''artist'', artist), (''title'', title), (''time'', JStr time)]"

definition track_line :: "json \<Rightarrow> string" where
  "track_line j = json_dumps default_layout j @ [CHR 0x0A]"

definition append_track :: "'s rt_env \<Rightarrow> json \<Rightarrow> json \<Rightarrow> json \<Rightarrow> ('s rt_world, unit) prog" where
  "append_track E show_name artist title =
     bnd (of_result (path_for E show_name)) (\<lambda>p.
     bnd (bnd (gets tree) (\<lambda>t. of_result (is_repeat t p artist title))) (\<lambda>rep.
       if rep then ret ()
       else bnd (ask (clock E)) (\<lambda>now.
         modify (\<lambda>w. w\<lparr>tree := fs_append p (track_line (track_json artist title (isoformat now))) (tree w)\<rparr>))))"

text \<open>A date filter that is empty or absent keeps everything.\<close>

definition keep_track :: "string option \<Rightarrow> json \<Rightarrow> exn + bool" where
  "keep_track date j =
     (case date of
        None \<Rightarrow> Inr True
      | Some d \<Rightarrow>
          if d = [] then Inr True
          else rbnd (py_get_or j ''time'' (JStr [])) (\<lambda>v.
            case v of JStr s \<Rightarrow> Inr (starts_with s d) | _ \<Rightarrow> Inl (no_attribute v ''startswith'')))"

fun read_tracks :: "string option \<Rightarrow> string list \<Rightarrow> exn + json list" where
  "read_tracks date [] = Inr []"
| "read_tracks date (l # ls) =
     (case json_loads l of
        None \<Rightarrow> read_tracks date ls
      | Some j \<Rightarrow>
          rbnd (keep_track date j) (\<lambda>k. rbnd (read_tracks date ls) (\<lambda>js. Inr (if k then j # js else js))))"

definition get_tracks :: "'s rt_env \<Rightarrow> fs \<Rightarrow> json \<Rightarrow> string option \<Rightarrow> exn + json list" where
  "get_tracks E t show_name date =
     rbnd (path_for E show_name) (\<lambda>p.
       if \<not> fs_exists t p then Inr [] else rbnd (list_lines t p) (read_tracks date))"

definition list_shows :: "'s rt_env \<Rightarrow> fs \<Rightarrow> string list" where
  "list_shows E t =
     map name_stem (sort (filter (\<lambda>n. ends_with n ''.jsonl'') (map path_name (fs_children t (list_dir E)))))"

definition shows_on :: "'s rt_env \<Rightarrow> fs \<Rightarrow> string \<Rightarrow> exn + json list" where
  "shows_on E t date =
     rbnd (rmap (\<lambda>sh. rbnd (get_tracks E t (JStr sh) (Some date)) (\<lambda>tr.
             Inr (if tr = [] then [] else [JObj [(''show'', JStr sh), (''tracks'', JArr tr)]]))) (list_shows E t))
       (\<lambda>rs. Inr (concat rs))"

section \<open>Now playing\<close>

definition np_start :: now_playing where
  "np_start = \<lparr>np_artist = JStr [], np_title = JStr [], np_show = JStr ''RTRFM 92.1'', np_show_end = JNull,
     np_last_updated = JNull, np_source = ''startup''\<rparr>"

text \<open>The separator is an em dash between blanks.\<close>

definition np_state :: "now_playing \<Rightarrow> json" where
  "np_state n =
     (let a = np_artist n; t = np_title n in
      if truthy a \<and> truthy t then JStr (py_str a @ '' '' @ [CHR 0xE2, CHR 0x80, CHR 0x94] @ '' '' @ py_str t)
      else if truthy a then a else if truthy t then t else np_show n)"

definition np_get :: "now_playing \<Rightarrow> json" where
  "np_get n = JObj [(''state'', np_state n), (''artist'', np_artist n), (''title'', np_title n), (''show'', np_show n),
     (''source'', JStr (np_source n)), (''last_updated'', np_last_updated n)]"

definition update_track :: "'s rt_env \<Rightarrow> json \<Rightarrow> json \<Rightarrow> ('s rt_world, bool) prog" where
  "update_track E artist title =
     bnd (gets np) (\<lambda>n.
       if py_eq artist (np_artist n) \<and> py_eq title (np_title n) then ret False
       else bnd (ask (clock E)) (\<lambda>now.
         bnd (modify (\<lambda>w. w\<lparr>np := (np w)\<lparr>np_artist := artist, np_title := title, np_source := ''shazam'',
                np_last_updated := JStr (isoformat now)\<rparr>\<rparr>)) (\<lambda>_. ret True)))"

definition update_show :: "json \<Rightarrow> json \<Rightarrow> ('s rt_world, unit) prog" where
  "update_show show_name show_end = modify (\<lambda>w. w\<lparr>np := (np w)\<lparr>np_show := show_name, np_show_end := show_end\<rparr>\<rparr>)"

section \<open>Fingerprints\<close>

definition run_cmd :: "'s rt_env \<Rightarrow> string list \<Rightarrow> ('s rt_world, int \<times> string) prog" where
  "run_cmd E cmd w =
     (case run_tool E cmd (outside w) (tree w) of (r, s, t) \<Rightarrow> (r, w\<lparr>outside := s, tree := t\<rparr>))"

definition ffmpeg_command :: "path \<Rightarrow> string list" where
  "ffmpeg_command wav =
     [''ffmpeg'', ''-y'', ''-i'', ''https://live.rtrfm.com.au/stream1'', ''-t'', ''15'', ''-ac'', ''1'', ''-ar'', ''16000'',
      ''-f'', ''wav'', path_str wav]"

definition songrec_command :: "path \<Rightarrow> string list" where
  "songrec_command wav = [''songrec'', ''audio-file-to-recognized-song'', path_str wav]"

definition read_match :: "string \<Rightarrow> exn + (json \<times> json) option" where
  "read_match out =
     (case json_loads out of
        None \<Rightarrow> Inl JSONDecodeError
      | Some data \<Rightarrow>
          rbnd (py_get data ''track'') (\<lambda>track.
            if \<not> truthy track then Inr None
            else rbnd (py_get_or track ''subtitle'' (JStr [])) (\<lambda>a.
                 rbnd (py_get_or track ''title'' (JStr [])) (\<lambda>t. Inr (Some (a, t))))))"

definition is_fingerprint_error :: "exn \<Rightarrow> bool" where
  "is_fingerprint_error e =
     (case e of TimeoutExpired \<Rightarrow> True | JSONDecodeError \<Rightarrow> True | KeyError _ \<Rightarrow> True | _ \<Rightarrow> False)"

definition recognise :: "'s rt_env \<Rightarrow> path \<Rightarrow> ('s rt_world, (json \<times> json) option) prog" where
  "recognise E wav =
     try_except
       (bnd (run_cmd E (ffmpeg_command wav)) (\<lambda>(code, _).
         if code \<noteq> 0 then ret None
         else bnd (run_cmd E (songrec_command wav)) (\<lambda>(code, out).
           if code \<noteq> 0 then ret None else of_result (read_match out))))
       (\<lambda>e. if is_fingerprint_error e then ret None else raise e)"

definition fingerprint :: "'s rt_env \<Rightarrow> ('s rt_world, (json \<times> json) option) prog" where
  "fingerprint E =
     bnd (ask (temp_path E)) (\<lambda>wav.
     bnd (modify (\<lambda>w. w\<lparr>tree := fs_write wav [] (tree w)\<rparr>)) (\<lambda>_.
       try_finally (recognise E wav) (\<lambda>w. w\<lparr>tree := fs_unlink wav (tree w)\<rparr>)))"

section \<open>The background threads\<close>

text \<open>One round of each loop, before its pause; what it raises is logged.\<close>

definition logged :: "('s rt_world, unit) prog \<Rightarrow> ('s rt_world, unit) prog" where
  "logged m = try_except m (\<lambda>e. if is_exception e then ret () else raise e)"

definition fingerprint_round :: "'s rt_env \<Rightarrow> ('s rt_world, unit) prog" where
  "fingerprint_round E =
     logged (bnd (fingerprint E) (\<lambda>match.
       case match of
         None \<Rightarrow> ret ()
       | Some (a, t) \<Rightarrow>
           bnd (update_track E a t) (\<lambda>changed.
             if changed then bnd (gets (\<lambda>w. np_show (np w))) (\<lambda>sh. append_track E sh a t) else ret ())))"

definition show_still_on :: "'s rt_env \<Rightarrow> ('s rt_world, bool) prog" where
  "show_still_on E =
     bnd (gets (\<lambda>w. np_show_end (np w))) (\<lambda>e.
       if \<not> truthy e then ret False
       else bnd (of_result (parse_airnet_dt e)) (\<lambda>stop.
         case stop of None \<Rightarrow> ret False | Some t \<Rightarrow> bnd (ask (clock E)) (\<lambda>now. ret (now \<le> t))))"

definition discovery_round :: "'s rt_env \<Rightarrow> ('s rt_world, unit) prog" where
  "discovery_round E =
     logged (bnd (show_still_on E) (\<lambda>still.
       if still then ret ()
       else bnd (discover_current_show E) (\<lambda>found.
         case found of
           None \<Rightarrow> ret ()
         | Some sh \<Rightarrow>
             bnd (of_result (py_item sh ''show'')) (\<lambda>name.
             bnd (of_result (py_get sh ''end'')) (\<lambda>stop. update_show name stop)))))"

section \<open>Requests\<close>

record rt_response =
  r_status :: nat
  r_headers :: "(string \<times> string) list"
  r_body :: string

definition respond :: "nat \<Rightarrow> json option \<Rightarrow> rt_response" where
  "respond status data =
     (let body = (case data of None \<Rightarrow> [] | Some j \<Rightarrow> json_dumps default_layout j) in
      \<lparr>r_status = status,
       r_headers = [(''Access-Control-Allow-Origin'', ''*''), (''Access-Control-Allow-Methods'', ''GET, OPTIONS''),
          (''Access-Control-Allow-Headers'', ''Content-Type'')] @
          (if data = None then [] else [(''Content-Type'', ''application/json'')]) @
          [(''Content-Length'', show_nat (length body))],
       r_body = body\<rparr>)"

definition tracklist_response :: "'s rt_env \<Rightarrow> fs \<Rightarrow> now_playing \<Rightarrow> string option \<Rightarrow> string option \<Rightarrow> exn + json" where
  "tracklist_response E t n date show_name =
     (let given = (\<lambda>x. case x of None \<Rightarrow> False | Some s \<Rightarrow> s \<noteq> []) in
      if given date \<and> \<not> given show_name then
        rbnd (shows_on E t (the date)) (\<lambda>rs. Inr (JObj [(''date'', JStr (the date)), (''shows'', JArr rs)]))
      else
        (let sh = (if given show_name then JStr (the show_name) else np_show n) in
         rbnd (get_tracks E t sh date) (\<lambda>tr.
           Inr (JObj ([(''show'', sh), (''tracks'', JArr tr)] @ (if given date then [(''date'', JStr (the date))] else []))))))"

definition do_get :: "'s rt_env \<Rightarrow> string \<Rightarrow> 's rt_world \<Rightarrow> exn + rt_response" where
  "do_get E target w =
     (let p = target_path target; q = target_query target in
      if p = ''/health'' then Inr (respond 200 (Some (JObj [(''status'', JStr ''ok'')])))
      else if p = ''/'' \<or> p = ''/now-playing'' then Inr (respond 200 (Some (np_get (np w))))
      else if p = ''/tracklist'' then
        rbnd (tracklist_response E (tree w) (np w) (query_value q ''date'') (query_value q ''show'')) (\<lambda>j.
          Inr (respond 200 (Some j)))
      else if p = ''/shows'' then
        Inr (respond 200 (Some (JObj [(''shows'', JArr (map JStr (list_shows E (tree w))))])))
      else Inr (respond 404 (Some (JObj [(''error'', JStr ''not found'')]))))"

definition do_options :: rt_response where
  "do_options = respond 204 None"

section \<open>A log that skips repeats\<close>

text \<open>
  What the service expects of its tracklists: adding an entry to a slot appends it unless it
  is the same as the slot's last entry, other slots are not touched, and the state stays sound.
\<close>

fun no_repeats :: "('e \<Rightarrow> 'e \<Rightarrow> bool) \<Rightarrow> 'e list \<Rightarrow> bool" where
  "no_repeats same (x # y # xs) \<longleftrightarrow> \<not> same x y \<and> no_repeats same (y # xs)"
| "no_repeats same _ = True"

lemma no_repeats_snoc: "no_repeats same (xs @ [e]) \<longleftrightarrow> no_repeats same xs \<and> (xs = [] \<or> \<not> same (last xs) e)"
  by (induction same xs rule: no_repeats.induct) auto

definition log_add :: "('e \<Rightarrow> 'e \<Rightarrow> bool) \<Rightarrow> 'e \<Rightarrow> 'e list \<Rightarrow> 'e list" where
  "log_add same e xs = (if xs \<noteq> [] \<and> same (last xs) e then xs else xs @ [e])"

locale repeat_log =
  fixes sound :: "'s \<Rightarrow> bool"
    and slot :: "'k \<Rightarrow> 'p"
    and entries :: "'s \<Rightarrow> 'p \<Rightarrow> 'e list"
    and add :: "'k \<Rightarrow> 'e \<Rightarrow> 's \<Rightarrow> 's"
    and same :: "'e \<Rightarrow> 'e \<Rightarrow> bool"
    and entry_ok :: "'e \<Rightarrow> bool"
  assumes sound_add: "sound s \<Longrightarrow> entry_ok e \<Longrightarrow> sound (add k e s)"
    and entries_add: "sound s \<Longrightarrow> entry_ok e \<Longrightarrow>
      entries (add k e s) p = (if p = slot k then log_add same e (entries s p) else entries s p)"
begin

definition add_all :: "('k \<times> 'e) list \<Rightarrow> 's \<Rightarrow> 's" where
  "add_all kes s = fold (\<lambda>(k, e). add k e) kes s"

lemma sound_add_all: "sound s \<Longrightarrow> list_all (\<lambda>ke. entry_ok (snd ke)) kes \<Longrightarrow> sound (add_all kes s)"
  unfolding add_all_def by (induction kes arbitrary: s) (auto simp: sound_add)

lemma no_repeats_add:
  "sound s \<Longrightarrow> entry_ok e \<Longrightarrow> no_repeats same (entries s p) \<Longrightarrow> no_repeats same (entries (add k e s) p)"
  by (auto simp: entries_add log_add_def no_repeats_snoc)

lemma entries_grow: "sound s \<Longrightarrow> entry_ok e \<Longrightarrow> prefix (entries s p) (entries (add k e s) p)"
  by (simp add: entries_add log_add_def)

lemma log_refines:
  "sound s \<Longrightarrow> list_all (\<lambda>ke. entry_ok (snd ke)) kes \<Longrightarrow>
     entries (add_all kes s) p = fold (log_add same) (map snd (filter (\<lambda>ke. slot (fst ke) = p) kes)) (entries s p)"
proof (induction kes arbitrary: s)
  case (Cons ke kes)
  obtain k e where ke: "ke = (k, e)" by (cases ke)
  then have "entries (add_all kes (add k e s)) p =
      fold (log_add same) (map snd (filter (\<lambda>ke. slot (fst ke) = p) kes)) (entries (add k e s) p)"
    using Cons by (intro Cons.IH) (auto simp: sound_add)
  then show ?case using Cons.prems ke by (auto simp: add_all_def entries_add)
qed (simp add: add_all_def)

end

section \<open>The tracklist files\<close>

definition entry_ok :: "json \<Rightarrow> bool" where
  "entry_ok j \<longleftrightarrow> (\<exists>a t m. j = track_json a t m \<and> json_ok a \<and> json_ok t)"

definition log_text :: "json list \<Rightarrow> string" where
  "log_text es = concat (map track_line es)"

text \<open>The file of a show whose name is a text\<close>

definition show_slot :: "'s rt_env \<Rightarrow> string \<Rightarrow> path" where
  "show_slot E name = (case path_for E (JStr name) of Inr p \<Rightarrow> p | Inl _ \<Rightarrow> [])"

definition file_tracks :: "fs \<Rightarrow> path \<Rightarrow> json list" where
  "file_tracks t p =
     (if \<not> fs_exists t p then []
      else case rbnd (list_lines t p) (read_tracks None) of Inr js \<Rightarrow> js | Inl _ \<Rightarrow> [])"

definition sound_file :: "fs \<Rightarrow> path \<Rightarrow> bool" where
  "sound_file t p \<longleftrightarrow>
     (case map_of t p of
        None \<Rightarrow> True
      | Some n \<Rightarrow> \<exists>es. n = NFile (log_text es) \<and> list_all entry_ok es)"

definition sound_lists :: "'s rt_env \<Rightarrow> fs \<Rightarrow> bool" where
  "sound_lists E t \<longleftrightarrow> (\<forall>n. sound_file t (list_dir E @ [n @ ''.jsonl'']))"

lemma path_for_total: "path_for E (JStr s) = Inr (show_slot E s)"
proof -
  have "rmap safe_piece (map (\<lambda>c. JStr [c]) s) = Inr (map (\<lambda>c. case safe_piece (JStr [c]) of Inr x \<Rightarrow> x | _ \<Rightarrow> []) s)"
    by (induction s) (auto simp: safe_piece_def)
  then show ?thesis by (simp add: show_slot_def path_for_def list_name_def py_iter_def)
qed

lemma path_for_slot: "path_for E j = Inr p \<Longrightarrow> \<exists>n. p = list_dir E @ [n @ ''.jsonl'']"
  by (auto simp: path_for_def rbnd_Inr_iff)

lemma show_slot_in: "\<exists>n. show_slot E s = list_dir E @ [n @ ''.jsonl'']"
  by (rule path_for_slot [OF path_for_total])

lemma entry_reads: "entry_ok j \<Longrightarrow> json_loads (json_dumps default_layout j) = Some j"
  by (rule json_loads_dumps [OF good_layouts(1)]) (auto simp: entry_ok_def track_json_def)

lemma entry_clean: "entry_ok j \<Longrightarrow> clean_line (json_dumps default_layout j)"
  by (auto simp: entry_ok_def track_json_def intro: clean_json_line)

lemma log_text_lines: "log_text es = concat (map (\<lambda>l. l @ [CHR 0x0A]) (map (json_dumps default_layout) es))"
  by (simp add: log_text_def track_line_def [abs_def] comp_def)

lemma list_lines_log:
  assumes "map_of t p = Some (NFile (log_text es))" "list_all entry_ok es"
  shows "list_lines t p = Inr (map (json_dumps default_layout) es)"
proof -
  have c: "list_all clean_line (map (json_dumps default_layout) es)"
    using assms(2) by (auto simp: list_all_iff entry_clean)
  have "fs_read t p = Some (log_text es)" using assms(1) by (simp add: fs_read_def)
  then show ?thesis using universal_lines [OF c] splitlines_strip_lines [OF c]
    by (simp add: list_lines_def list_text_def log_text_lines)
qed

lemma read_tracks_log: "list_all entry_ok es \<Longrightarrow> read_tracks None (map (json_dumps default_layout) es) = Inr es"
  by (induction es) (auto simp: entry_reads keep_track_def)

lemma file_tracks_log:
  "map_of t p = Some (NFile (log_text es)) \<Longrightarrow> list_all entry_ok es \<Longrightarrow> file_tracks t p = es"
  by (simp add: file_tracks_def list_lines_log read_tracks_log fs_exists_def)

definition same_entry :: "json \<Rightarrow> json \<Rightarrow> bool" where
  "same_entry x y \<longleftrightarrow> py_eq (field (obj_of x) ''artist'') (field (obj_of y) ''artist'') \<and>
     py_eq (field (obj_of x) ''title'') (field (obj_of y) ''title'')"

lemma same_track_entry:
  "entry_ok x \<Longrightarrow> same_track x a t = Inr (same_entry x (track_json a t m))"
  by (auto simp: entry_ok_def track_json_def same_track_def same_entry_def py_get_def field_def)

lemma sound_fileE:
  assumes "sound_file t p"
  obtains "map_of t p = None" "file_tracks t p = []"
    | es where "map_of t p = Some (NFile (log_text es))" "list_all entry_ok es" "file_tracks t p = es"
proof (cases "map_of t p")
  case None
  then show ?thesis by (intro that(1)) (simp_all add: file_tracks_def fs_exists_def)
next
  case (Some n)
  with assms obtain es where es: "map_of t p = Some (NFile (log_text es))" "list_all entry_ok es"
    by (auto simp: sound_file_def)
  then show ?thesis by (intro that(2) file_tracks_log)
qed

lemma is_repeat_log:
  assumes "sound_file t p"
  shows "is_repeat t p a ti = Inr (file_tracks t p \<noteq> [] \<and> same_entry (last (file_tracks t p)) (track_json a ti m))"
  using assms
proof (cases rule: sound_fileE)
  case 1
  then show ?thesis by (simp add: is_repeat_def fs_exists_def)
next
  case (2 es)
  show ?thesis
  proof (cases "es = []")
    case True
    with 2 show ?thesis by (simp add: is_repeat_def fs_exists_def list_lines_log)
  next
    case False
    then have l: "entry_ok (last es)" using 2(2) by (auto simp: list_all_iff)
    from 2 False show ?thesis
      by (simp add: is_repeat_def fs_exists_def list_lines_log last_map entry_reads [OF l] same_track_entry [OF l])
  qed
qed

definition add_at :: "path \<Rightarrow> json \<Rightarrow> fs \<Rightarrow> fs" where
  "add_at p e t =
     (case is_repeat t p (field (obj_of e) ''artist'') (field (obj_of e) ''title'') of
        Inr False \<Rightarrow> fs_append p (track_line e) t
      | _ \<Rightarrow> t)"

lemma file_tracks_cong: "map_of t p = map_of t' p \<Longrightarrow> file_tracks t p = file_tracks t' p"
  by (simp add: file_tracks_def fs_exists_def list_lines_def list_text_def fs_read_def)

lemma sound_file_cong: "map_of t p = map_of t' p \<Longrightarrow> sound_file t p = sound_file t' p"
  by (simp add: sound_file_def)

lemma add_at_sound:
  assumes s: "sound_file t p" and e: "entry_ok e"
  shows "sound_file (add_at p e t) p" and "file_tracks (add_at p e t) p = log_add same_entry e (file_tracks t p)"
proof -
  obtain a ti m where ej: "e = track_json a ti m" using e by (auto simp: entry_ok_def)
  then have a: "field (obj_of e) ''artist'' = a" "field (obj_of e) ''title'' = ti"
    by (simp_all add: track_json_def field_def)
  let ?rep = "file_tracks t p \<noteq> [] \<and> same_entry (last (file_tracks t p)) e"
  have r: "is_repeat t p a ti = Inr ?rep" unfolding ej by (rule is_repeat_log [OF s])
  have "sound_file (add_at p e t) p \<and> file_tracks (add_at p e t) p = log_add same_entry e (file_tracks t p)"
  proof (cases ?rep)
    case True
    then have "add_at p e t = t" unfolding add_at_def a r by simp
    with s True show ?thesis by (simp add: log_add_def)
  next
    case False
    then have "?rep = False" by blast
    then have add: "add_at p e t = fs_append p (track_line e) t" unfolding add_at_def a r by (simp only: sum.case bool.case)
    obtain es where es: "fs_read t p = None \<and> es = [] \<or> map_of t p = Some (NFile (log_text es))"
        "list_all entry_ok es" "file_tracks t p = es"
      using s by (cases rule: sound_fileE) (auto simp: fs_read_def)
    have m: "map_of (add_at p e t) p = Some (NFile (log_text (es @ [e])))"
      using es(1) by (auto simp: add fs_append_def fs_read_def log_text_def)
    have ok: "list_all entry_ok (es @ [e])" using es(2) e by simp
    show ?thesis using False es(3) file_tracks_log [OF m ok] m ok
      by (auto simp: sound_file_def log_add_def)
  qed
  then show "sound_file (add_at p e t) p" "file_tracks (add_at p e t) p = log_add same_entry e (file_tracks t p)"
    by simp_all
qed

lemma add_at_other: "q \<noteq> p \<Longrightarrow> map_of (add_at p e t) q = map_of t q"
  by (simp add: add_at_def map_of_fs_append split: sum.splits bool.splits)

lemma add_at_lists:
  assumes "sound_lists E t" "entry_ok e" "p = list_dir E @ [n @ ''.jsonl'']"
  shows "sound_lists E (add_at p e t)"
    and "file_tracks (add_at p e t) q = (if q = p then log_add same_entry e (file_tracks t q) else file_tracks t q)"
proof -
  have sp: "sound_file t p" using assms(1,3) by (simp add: sound_lists_def)
  note p = add_at_sound [OF sp assms(2)]
  have o: "sound_file (add_at p e t) q = sound_file t q" "file_tracks (add_at p e t) q = file_tracks t q" if "q \<noteq> p" for q
    using sound_file_cong [OF add_at_other [OF that]] file_tracks_cong [OF add_at_other [OF that]] by simp_all
  show "sound_lists E (add_at p e t)" using assms(1) p(1) o(1) unfolding sound_lists_def by metis
  show "file_tracks (add_at p e t) q = (if q = p then log_add same_entry e (file_tracks t q) else file_tracks t q)"
    using p(2) o(2) by simp
qed

interpretation tracklists: repeat_log "sound_lists E" "show_slot E" file_tracks "\<lambda>name. add_at (show_slot E name)"
  same_entry entry_ok for E :: "'s rt_env"
proof unfold_locales
  fix t e name p
  assume a: "sound_lists E t" "entry_ok e"
  obtain n where n: "show_slot E name = list_dir E @ [n @ ''.jsonl'']" using show_slot_in by blast
  show "sound_lists E (add_at (show_slot E name) e t)" by (rule add_at_lists(1) [OF a n])
  show "file_tracks (add_at (show_slot E name) e t) p =
      (if p = show_slot E name then log_add same_entry e (file_tracks t p) else file_tracks t p)"
    by (rule add_at_lists(2) [OF a n])
qed

text \<open>Appending a track is adding an entry to the log.\<close>

lemma append_track_adds:
  assumes "sound_lists E (tree w)" "path_for E sh = Inr p" "append_track E sh a ti w = (r, w')"
  shows "r = Inr () \<and> np w' = np w \<and> (\<exists>m. tree w' = add_at p (track_json a ti m) (tree w))"
proof -
  obtain n where n: "p = list_dir E @ [n @ ''.jsonl'']" using assms(2) path_for_slot by blast
  then have s: "sound_file (tree w) p" using assms(1) by (simp add: sound_lists_def)
  have a: "field (obj_of (track_json a ti m)) ''artist'' = a" "field (obj_of (track_json a ti m)) ''title'' = ti" for m
    by (simp_all add: track_json_def field_def)
  obtain b where b: "is_repeat (tree w) p a ti = Inr b" using is_repeat_log [OF s] by blast
  obtain now s' where c: "clock E (outside w) = (now, s')" by fastforce
  have add: "add_at p (track_json a ti m) (tree w) = (case b of False \<Rightarrow> fs_append p (track_line (track_json a ti m)) (tree w) | True \<Rightarrow> tree w)" for m
    unfolding add_at_def a b by (simp only: sum.case)
  have run: "append_track E sh a ti w = (Inr (), w) \<and> b \<or>
      append_track E sh a ti w = (Inr (), w\<lparr>outside := s', tree := fs_append p (track_line (track_json a ti (isoformat now))) (tree w)\<rparr>) \<and> \<not> b"
    using assms(2) b c by (cases b) (simp_all add: append_track_def bnd_def prog_defs ask_def)
  have "\<exists>m. tree w' = add_at p (track_json a ti m) (tree w)" using run assms(3) unfolding add
    by (cases b) (auto intro!: exI [of _ "isoformat now"])
  moreover have "r = Inr () \<and> np w' = np w" using run assms(3) by auto
  ultimately show ?thesis by blast
qed

lemma append_track_bad_name:
  "path_for E sh = Inl e \<Longrightarrow> append_track E sh a ti w = (Inl e, w)"
  by (simp add: append_track_def bnd_def prog_defs)

definition on_date :: "string option \<Rightarrow> json \<Rightarrow> bool" where
  "on_date date j =
     (case date of None \<Rightarrow> True
      | Some d \<Rightarrow> d = [] \<or> (case field (obj_of j) ''time'' of JStr s \<Rightarrow> starts_with s d | _ \<Rightarrow> False))"

lemma read_tracks_date:
  "list_all entry_ok es \<Longrightarrow> read_tracks date (map (json_dumps default_layout) es) = Inr (filter (on_date date) es)"
proof (induction es)
  case (Cons e es)
  then have k: "keep_track date e = Inr (on_date date e)"
    by (auto simp: entry_ok_def track_json_def keep_track_def on_date_def py_get_or_def field_def split: option.splits)
  show ?case using Cons by (simp add: entry_reads k)
qed simp

lemma get_tracks_log:
  assumes "sound_lists E t"
  shows "get_tracks E t (JStr name) date = Inr (filter (on_date date) (file_tracks t (show_slot E name)))"
proof -
  obtain n where n: "show_slot E name = list_dir E @ [n @ ''.jsonl'']" using show_slot_in by blast
  then have "sound_file t (show_slot E name)" using assms by (simp add: sound_lists_def)
  then show ?thesis
    by (cases rule: sound_fileE)
       (auto simp: get_tracks_def path_for_total fs_exists_def list_lines_log read_tracks_date)
qed

text \<open>
  C17. The tracklist store refines a list of entries per file. On sound files, appending a
  track to a show returns, leaves the files sound, adds the entry to the end of the show's
  list unless artist and title are those of its last entry, and changes no other list; what is
  read for any show and date afterwards is the part of its list whose time starts with the date.
\<close>

theorem tracklist_store_refines_logs:
  fixes E :: "'s rt_env" and w :: "'s rt_world"
  assumes "sound_lists E (tree w)" "json_ok artist" "json_ok title"
    and run: "append_track E (JStr name) artist title w = (r, w')"
  shows "r = Inr () \<and> sound_lists E (tree w') \<and>
    (\<exists>m. \<forall>p. file_tracks (tree w') p =
       (if p = show_slot E name then log_add same_entry (track_json artist title m) (file_tracks (tree w) p)
        else file_tracks (tree w) p)) \<and>
    get_tracks E (tree w') (JStr other) date = Inr (filter (on_date date) (file_tracks (tree w') (show_slot E other)))"
proof -
  obtain m where m: "r = Inr ()" "tree w' = add_at (show_slot E name) (track_json artist title m) (tree w)"
    using append_track_adds [OF assms(1) path_for_total run] by blast
  have e: "entry_ok (track_json artist title m)" using assms(2,3) by (auto simp: entry_ok_def)
  have s: "sound_lists E (tree w')" unfolding m(2) by (rule tracklists.sound_add [OF assms(1) e])
  show ?thesis using m(1) s tracklists.entries_add [OF assms(1) e] get_tracks_log [OF s] unfolding m(2) by blast
qed

definition radio_env :: "unit rt_env" where
  "radio_env = \<lparr>state_dir = [''/'', ''r''], clock = (\<lambda>s. ([2026, 3, 14, 20, 5, 0, 0], s)), fetch = (\<lambda>_ s. (Inr ''[]'', s)),
     finish_order = (\<lambda>n s. ([0..<n], s)), temp_path = (\<lambda>s. ([''/'', ''t'', ''a.wav''], s)),
     run_tool = (\<lambda>cmd s t. (if hd cmd = ''ffmpeg'' then Inr (0, [])
        else Inr (0, ''{\"track\":{\"subtitle\":\"A\",\"title\":\"B\"}}''), s, t))\<rparr>"

definition radio_world :: "unit rt_world" where
  "radio_world = \<lparr>tree = [], np = np_start, outside = ()\<rparr>"

lemma radio_sound: "sound_lists radio_env (tree radio_world)"
  by (simp add: sound_lists_def sound_file_def radio_world_def)

theorem tracklist_store_refines_logs_witness:
  "(let w' = snd (append_track radio_env (JStr ''X'') (JStr ''A'') (JStr ''B'') radio_world) in
      \<exists>m. file_tracks (tree w') (show_slot radio_env ''X'') = [track_json (JStr ''A'') (JStr ''B'') m])"
proof -
  have "file_tracks (tree radio_world) (show_slot radio_env ''X'') = []"
    by (simp add: file_tracks_def fs_exists_def radio_world_def)
  moreover have "json_ok (JStr ''A'')" "json_ok (JStr ''B'')" by simp_all
  note tracklist_store_refines_logs [OF radio_sound this surjective_pairing, of "''X''" "''X''" None]
  ultimately show ?thesis by (metis (no_types, lifting) log_add_def append_Nil)
qed

section \<open>The two threads together\<close>

text \<open>
  The listening thread after each of its critical sections: it waits, has a match, has seen
  that the track is new, or has read the show the track goes to. The other thread may change
  the show between any two of them. Requests only read.
\<close>

datatype listener = Waiting | Matched json json | Fresh json json | Placing json json json

inductive rt_step :: "'s rt_env \<Rightarrow> listener \<times> 's rt_world \<Rightarrow> listener \<times> 's rt_world \<Rightarrow> bool" for E where
  no_match: "fingerprint E w = (r, w') \<Longrightarrow> \<forall>m. r \<noteq> Inr (Some m) \<Longrightarrow> rt_step E (Waiting, w) (Waiting, w')"
| heard: "fingerprint E w = (Inr (Some (a, t)), w') \<Longrightarrow> rt_step E (Waiting, w) (Matched a t, w')"
| stale: "update_track E a t w = (Inr False, w') \<Longrightarrow> rt_step E (Matched a t, w) (Waiting, w')"
| fresh: "update_track E a t w = (Inr True, w') \<Longrightarrow> rt_step E (Matched a t, w) (Fresh a t, w')"
| name_show: "rt_step E (Fresh a t, w) (Placing (np_show (np w)) a t, w)"
| place: "append_track E sh a t w = (r, w') \<Longrightarrow> rt_step E (Placing sh a t, w) (Waiting, w')"
| discover: "discovery_round E w = (r, w') \<Longrightarrow> rt_step E (l, w) (l, w')"

inductive_cases rt_stepE: "rt_step E (l, w) (l', w')"

text \<open>The tools and the temporary file leave the directory of tracklists alone.\<close>

definition tools_keep_lists :: "'s rt_env \<Rightarrow> bool" where
  "tools_keep_lists E \<longleftrightarrow>
     (\<forall>cmd s t n. map_of (snd (snd (run_tool E cmd s t))) (list_dir E @ [n]) = map_of t (list_dir E @ [n])) \<and>
     (\<forall>s n. fst (temp_path E s) \<noteq> list_dir E @ [n])"

definition same_lists :: "'s rt_env \<Rightarrow> 's rt_world \<Rightarrow> 's rt_world \<Rightarrow> bool" where
  "same_lists E w w' \<longleftrightarrow> (\<forall>n. map_of (tree w') (list_dir E @ [n]) = map_of (tree w) (list_dir E @ [n]))"

lemma same_lists_order: "reflp (same_lists E)" "transp (same_lists E)"
  by (auto simp: same_lists_def reflp_def transp_def)

lemmas lists_pure = keeps_pure [OF same_lists_order(1)]
lemmas lists_bnd = keeps_bnd [OF same_lists_order(2)]
lemmas lists_try = keeps_try_except [OF same_lists_order(2)]

lemma lists_ask: "keeps (same_lists E) (ask f)"
  by (simp add: keeps_def same_lists_def ask_def split_beta)

lemma lists_recognise:
  fixes E :: "'a rt_env"
  assumes "tools_keep_lists E"
  shows "keeps (same_lists E) (recognise E wav)"
proof -
  have cmd: "keeps (same_lists E) (run_cmd E c)" for c
    using assms by (simp add: keeps_def same_lists_def run_cmd_def tools_keep_lists_def split_beta)
  show ?thesis unfolding recognise_def
  proof (rule lists_try [OF lists_bnd [OF cmd]])
    fix x :: "int \<times> string"
    have "keeps (same_lists E) (case y of (code, out) \<Rightarrow> if code \<noteq> 0 then ret None else of_result (read_match out))" for y
      by (cases y) (simp add: lists_pure)
    then have "keeps (same_lists E) (bnd (run_cmd E (songrec_command wav)) (\<lambda>(code, out).
        if code \<noteq> 0 then ret None else of_result (read_match out)))"
      by (rule lists_bnd [OF cmd])
    then show "keeps (same_lists E) (case x of (code, _) \<Rightarrow> if code \<noteq> 0 then ret None
        else bnd (run_cmd E (songrec_command wav)) (\<lambda>(code, out). if code \<noteq> 0 then ret None else of_result (read_match out)))"
      by (cases x) (simp add: lists_pure)
  qed (simp add: lists_pure)
qed

lemma fingerprint_run:
  assumes "temp_path E (outside w) = (wav, s)" "recognise E wav (w\<lparr>outside := s, tree := fs_write wav [] (tree w)\<rparr>) = (r, w2)"
  shows "fingerprint E w = (r, w2\<lparr>tree := fs_unlink wav (tree w2)\<rparr>)"
  using assms by (simp add: fingerprint_def bnd_def ask_def modify_def try_finally_def)

lemma lists_fingerprint:
  fixes E :: "'a rt_env"
  assumes "tools_keep_lists E"
  shows "keeps (same_lists E) (fingerprint E)"
proof (rule keepsI)
  fix w :: "'a rt_world"
  obtain wav s where wav: "temp_path E (outside w) = (wav, s)" by fastforce
  then have ne: "list_dir E @ [n] \<noteq> wav" for n using assms unfolding tools_keep_lists_def by (metis fst_conv)
  obtain r w2 where r: "recognise E wav (w\<lparr>outside := s, tree := fs_write wav [] (tree w)\<rparr>) = (r, w2)" by fastforce
  have "same_lists E (w\<lparr>outside := s, tree := fs_write wav [] (tree w)\<rparr>) w2"
    by (rule keepsD [OF lists_recognise [OF assms] r])
  then show "same_lists E w (snd (fingerprint E w))"
    unfolding fingerprint_run [OF wav r] by (simp add: same_lists_def ne)
qed

lemma lists_api: "keeps (same_lists E) (api_get E url)"
  by (auto simp: api_get_def lists_ask lists_pure intro!: lists_bnd split: option.splits)

lemma lists_episode: "keeps (same_lists E) (fetch_current_episode E slug name now)"
  by (auto simp: fetch_current_episode_def lists_api lists_pure intro!: lists_bnd lists_try)

lemma lists_pool: "same_lists E w (snd (run_pool E now ps w))"
proof (induction E now ps w rule: run_pool.induct)
  case (1 E now w)
  then show ?case by (simp add: same_lists_def)
next
  case (2 E now slug name ps w)
  obtain r w1 where f: "fetch_current_episode E slug name now w = (r, w1)" by fastforce
  then have "same_lists E w w1" using lists_episode keepsD by metis
  with 2 [OF f [symmetric]] f show ?case by (auto simp: same_lists_def split: prod.splits)
qed

lemma lists_discover: "keeps (same_lists E) (discover_current_show E)"
proof -
  have p: "keeps (same_lists E) (\<lambda>w. case run_pool E now ps w of (rs, w') \<Rightarrow> (Inr rs, w'))" for now ps
    using lists_pool [of E _ now ps] by (simp add: keeps_def split_beta)
  show ?thesis
    unfolding discover_current_show_def
    by (auto simp: lists_ask lists_api lists_pure p intro!: lists_bnd lists_try split: option.splits)
qed

lemma lists_discovery: "keeps (same_lists E) (discovery_round E)"
proof -
  have "keeps (same_lists E) (update_show a b)" for a b
    by (simp add: keeps_def same_lists_def update_show_def modify_def)
  then show ?thesis
    by (auto simp: discovery_round_def logged_def show_still_on_def lists_pure lists_ask lists_discover
        intro!: lists_bnd lists_try split: option.splits)
qed

lemma lists_update_track: "keeps (same_lists E) (update_track E a t)"
proof -
  have "keeps (same_lists E) (modify (\<lambda>w. w\<lparr>np := f w\<rparr>))" for f
    by (simp add: keeps_def same_lists_def modify_def)
  then show ?thesis
    by (auto simp: update_track_def lists_pure lists_ask intro!: lists_bnd)
qed

lemma json_ok_field: "json_ok (JObj d) \<Longrightarrow> json_ok (field d k)"
  by (auto simp: field_def split: option.splits dest: map_of_SomeD)

lemma json_ok_get: "json_ok j \<Longrightarrow> py_get j k = Inr v \<Longrightarrow> json_ok v"
  by (auto simp: py_get_def intro: json_ok_field split: json.splits)

lemma json_ok_get_or: "json_ok j \<Longrightarrow> json_ok d \<Longrightarrow> py_get_or j k d = Inr v \<Longrightarrow> json_ok v"
  by (auto simp: py_get_or_def split: json.splits option.splits dest: map_of_SomeD)

lemma read_match_ok: "read_match out = Inr (Some (a, t)) \<Longrightarrow> json_ok a \<and> json_ok t"
  by (auto simp: read_match_def rbnd_Inr_iff split: option.splits if_splits
      intro: json_ok_get json_ok_get_or dest!: json_loads_ok) (meson json_ok.simps json_ok_get json_ok_get_or)+

lemma fingerprint_ok:
  assumes "fingerprint E w = (Inr (Some (a, t)), w')"
  shows "json_ok a \<and> json_ok t"
proof -
  obtain wav s where wav: "temp_path E (outside w) = (wav, s)" by fastforce
  obtain r w2 where r: "recognise E wav (w\<lparr>outside := s, tree := fs_write wav [] (tree w)\<rparr>) = (r, w2)" by fastforce
  have "r = Inr (Some (a, t))" using assms fingerprint_run [OF wav r] by simp
  with r have "\<exists>out. read_match out = Inr (Some (a, t))"
    by (auto simp: recognise_def try_except_def bnd_def prog_defs split: prod.splits sum.splits if_splits)
  then show ?thesis using read_match_ok by blast
qed

text \<open>What the listening thread carries was read from a document.\<close>

fun carried_ok :: "listener \<Rightarrow> bool" where
  "carried_ok Waiting = True"
| "carried_ok (Matched a t) = (json_ok a \<and> json_ok t)"
| "carried_ok (Fresh a t) = (json_ok a \<and> json_ok t)"
| "carried_ok (Placing sh a t) = (json_ok a \<and> json_ok t)"

definition lists_kept :: "'s rt_env \<Rightarrow> 's rt_world \<Rightarrow> 's rt_world \<Rightarrow> bool" where
  "lists_kept E w0 w \<longleftrightarrow> sound_lists E (tree w) \<and>
     (\<forall>name. prefix (file_tracks (tree w0) (show_slot E name)) (file_tracks (tree w) (show_slot E name)) \<and>
        (no_repeats same_entry (file_tracks (tree w0) (show_slot E name)) \<longrightarrow>
         no_repeats same_entry (file_tracks (tree w) (show_slot E name))))"

lemma lists_kept_same:
  assumes "lists_kept E w0 w" "same_lists E w w'"
  shows "lists_kept E w0 w'"
proof -
  have "map_of (tree w') (list_dir E @ [n]) = map_of (tree w) (list_dir E @ [n])" for n
    using assms(2) unfolding same_lists_def by blast
  then have "sound_file (tree w') (list_dir E @ [n]) = sound_file (tree w) (list_dir E @ [n])"
    "file_tracks (tree w') (list_dir E @ [n]) = file_tracks (tree w) (list_dir E @ [n])" for n
    using sound_file_cong file_tracks_cong by blast+
  then show ?thesis using assms(1) show_slot_in [of E] unfolding lists_kept_def sound_lists_def by metis
qed

lemma lists_kept_append:
  assumes k: "lists_kept E w0 w" and ok: "json_ok a" "json_ok t" and run: "append_track E sh a t w = (r, w')"
  shows "lists_kept E w0 w'"
proof (cases "path_for E sh")
  case (Inl e)
  with run append_track_bad_name [OF Inl] k show ?thesis by simp
next
  case (Inr p)
  have s: "sound_lists E (tree w)" using k by (simp add: lists_kept_def)
  obtain m where m: "tree w' = add_at p (track_json a t m) (tree w)"
    using append_track_adds [OF s Inr run] by blast
  obtain n where n: "p = list_dir E @ [n @ ''.jsonl'']" using path_for_slot [OF Inr] by blast
  have e: "entry_ok (track_json a t m)" using ok by (auto simp: entry_ok_def)
  note add = add_at_lists [OF s e n, folded m]
  have "prefix (file_tracks (tree w) q) (file_tracks (tree w') q)" for q by (simp add: add(2) log_add_def)
  moreover have "no_repeats same_entry (file_tracks (tree w) q) \<Longrightarrow> no_repeats same_entry (file_tracks (tree w') q)" for q
    by (auto simp: add(2) log_add_def no_repeats_snoc)
  ultimately show ?thesis using k add(1) unfolding lists_kept_def by (meson prefix_order.trans)
qed

lemma rt_step_kept:
  assumes "rt_step E x y" "tools_keep_lists E" "lists_kept E w0 (snd x)" "carried_ok (fst x)"
  shows "lists_kept E w0 (snd y) \<and> carried_ok (fst y)"
  using assms
proof (cases rule: rt_step.cases)
  case (no_match w r w')
  then show ?thesis using assms keepsD [OF lists_fingerprint] lists_kept_same by fastforce
next
  case (heard w a t w')
  then show ?thesis using assms keepsD [OF lists_fingerprint] lists_kept_same fingerprint_ok by fastforce
next
  case (stale a t w w')
  then show ?thesis using assms keepsD [OF lists_update_track] lists_kept_same by fastforce
next
  case (fresh a t w w')
  then show ?thesis using assms keepsD [OF lists_update_track] lists_kept_same by fastforce
next
  case (name_show a t w)
  then show ?thesis using assms by simp
next
  case (place sh a t w r w')
  then show ?thesis using assms lists_kept_append by fastforce
next
  case (discover w r w' l)
  then show ?thesis using assms keepsD [OF lists_discovery] lists_kept_same by fastforce
qed

text \<open>
  C18. However the two threads interleave, and whatever the network, the audio tools and the
  clock answer, from sound tracklist files the service reaches only sound ones: every file is
  lines of track objects, a tracklist never loses or changes an entry it has, and no tracklist
  comes to have the same artist and title twice in a row.
\<close>

theorem tracklists_stay_sound:
  fixes E :: "'s rt_env" and w0 :: "'s rt_world"
  assumes "tools_keep_lists E" "sound_lists E (tree w0)" and run: "(rt_step E)\<^sup>*\<^sup>* (Waiting, w0) (l, w)"
  shows "sound_lists E (tree w) \<and>
    prefix (file_tracks (tree w0) (show_slot E name)) (file_tracks (tree w) (show_slot E name)) \<and>
    (if no_repeats same_entry (file_tracks (tree w0) (show_slot E name))
     then no_repeats same_entry (file_tracks (tree w) (show_slot E name)) else True)"
proof -
  have "lists_kept E w0 (snd y) \<and> carried_ok (fst y)" if "(rt_step E)\<^sup>*\<^sup>* (Waiting, w0) y" for y
    using that
  proof (induction rule: rtranclp_induct)
    case base
    then show ?case using assms(2) by (simp add: lists_kept_def)
  next
    case (step y z)
    then show ?case using rt_step_kept assms(1) by blast
  qed
  from this [OF run] show ?thesis by (auto simp: lists_kept_def)
qed

definition radio_fresh :: "unit rt_world" where
  "radio_fresh = snd (update_track radio_env (JStr ''A'') (JStr ''B'') radio_world)"

definition radio_placed :: "unit rt_world" where
  "radio_placed = snd (append_track radio_env (np_show (np radio_fresh)) (JStr ''A'') (JStr ''B'') radio_fresh)"

lemma radio_match: "read_match ''{\"track\":{\"subtitle\":\"A\",\"title\":\"B\"}}'' = Inr (Some (JStr ''A'', JStr ''B''))"
  by code_simp

lemma radio_heard: "fingerprint radio_env radio_world = (Inr (Some (JStr ''A'', JStr ''B'')), radio_world)"
  by (simp add: fingerprint_def recognise_def bnd_def prog_defs ask_def run_cmd_def try_finally_def try_except_def
      radio_env_def radio_world_def ffmpeg_command_def songrec_command_def radio_match fs_write_def fs_unlink_def)

lemma radio_updated: "update_track radio_env (JStr ''A'') (JStr ''B'') radio_world = (Inr True, radio_fresh)"
  "tree radio_fresh = []" "np_show (np radio_fresh) = JStr ''RTRFM 92.1''"
  by (simp_all add: radio_fresh_def update_track_def bnd_def prog_defs ask_def radio_env_def radio_world_def np_start_def py_eq_def)

lemma radio_tools: "tools_keep_lists radio_env"
  by (simp add: tools_keep_lists_def radio_env_def list_dir_def)

theorem tracklists_stay_sound_witness:
  "sound_lists radio_env (tree radio_placed) \<and>
   map (\<lambda>e. field (obj_of e) ''title'') (file_tracks (tree radio_placed) (show_slot radio_env ''RTRFM 92.1'')) = [JStr ''B'']"
proof -
  have 1: "rt_step radio_env (Waiting, radio_world) (Matched (JStr ''A'') (JStr ''B''), radio_world)"
    by (rule heard [OF radio_heard])
  have 2: "rt_step radio_env (Matched (JStr ''A'') (JStr ''B''), radio_world) (Fresh (JStr ''A'') (JStr ''B''), radio_fresh)"
    by (rule fresh [OF radio_updated(1)])
  have 3: "rt_step radio_env (Fresh (JStr ''A'') (JStr ''B''), radio_fresh)
      (Placing (np_show (np radio_fresh)) (JStr ''A'') (JStr ''B''), radio_fresh)" by (rule name_show)
  have 4: "rt_step radio_env (Placing (np_show (np radio_fresh)) (JStr ''A'') (JStr ''B''), radio_fresh) (Waiting, radio_placed)"
    by (rule place) (unfold radio_placed_def, rule surjective_pairing)
  from 1 2 3 4 have run: "(rt_step radio_env)\<^sup>*\<^sup>* (Waiting, radio_world) (Waiting, radio_placed)"
    by (meson converse_rtranclp_into_rtranclp rtranclp.rtrancl_refl)
  note t0 = radio_updated(2) and sh = radio_updated(3)
  have s0: "sound_lists radio_env (tree radio_fresh)" by (simp add: t0 sound_lists_def sound_file_def)
  have r: "append_track radio_env (np_show (np radio_fresh)) (JStr ''A'') (JStr ''B'') radio_fresh =
      (fst (append_track radio_env (np_show (np radio_fresh)) (JStr ''A'') (JStr ''B'') radio_fresh), radio_placed)"
    unfolding radio_placed_def by (rule surjective_pairing)
  obtain m where m: "tree radio_placed = add_at (show_slot radio_env ''RTRFM 92.1'') (track_json (JStr ''A'') (JStr ''B'') m) []"
    using append_track_adds [OF s0 path_for_total r [unfolded sh]] t0 by auto
  have e: "entry_ok (track_json (JStr ''A'') (JStr ''B'') m)"
    unfolding entry_ok_def by (intro exI conjI, rule refl) simp_all
  have "file_tracks (tree radio_placed) (show_slot radio_env ''RTRFM 92.1'') = [track_json (JStr ''A'') (JStr ''B'') m]"
    using tracklists.entries_add [OF s0 [unfolded t0] e] by (simp add: m log_add_def file_tracks_def fs_exists_def)
  then have "map (\<lambda>e. field (obj_of e) ''title'') (file_tracks (tree radio_placed) (show_slot radio_env ''RTRFM 92.1'')) = [JStr ''B'']"
    by (simp add: track_json_def field_def)
  with tracklists_stay_sound [OF radio_tools radio_sound run] show ?thesis by blast
qed

section \<open>Listed names\<close>

definition safe_char :: "char \<Rightarrow> char" where
  "safe_char c = (if is_word c \<and> c \<noteq> CHR ''_'' \<or> c \<in> set '' -_'' then c else CHR ''_'')"

definition show_stem :: "string \<Rightarrow> string" where
  "show_stem name = strip (map safe_char name)"

lemma contains_single: "contains s [c] \<longleftrightarrow> c \<in> set s"
proof -
  have "find_from i [c] s = None \<longleftrightarrow> c \<notin> set s" for i
    by (induction s arbitrary: i) (auto simp: starts_with_def)
  then show ?thesis by (simp add: contains_def find_sub_def)
qed

lemma list_name_text: "list_name (JStr name) = Inr (show_stem name)"
proof -
  have "rmap safe_piece (map (\<lambda>c. JStr [c]) name) = Inr (map (\<lambda>c. [safe_char c]) name)"
    by (induction name) (simp_all add: safe_piece_def safe_char_def is_alnum_text_def contains_single)
  then show ?thesis by (simp add: list_name_def py_iter_def show_stem_def concat_map_singleton)
qed

lemma show_slot_stem: "show_slot E name = list_dir E @ [show_stem name @ ''.jsonl'']"
  by (simp add: show_slot_def path_for_def list_name_text)

lemma show_stem_idem: "show_stem (show_stem name) = show_stem name"
proof -
  have "safe_char c = c" if "c \<in> set (show_stem name)" for c
    using that set_strip by (fastforce simp: show_stem_def safe_char_def)
  then have "map safe_char (show_stem name) = show_stem name" by (simp add: map_idI)
  then show ?thesis by (metis show_stem_def strip_idem)
qed

lemma name_stem_jsonl:
  assumes "s \<noteq> []"
  shows "name_stem (s @ ''.jsonl'') = s"
proof -
  have r: "rev (s @ ''.jsonl'') = rev ''jsonl'' @ CHR ''.'' # rev s" by simp
  have t: "takeWhile (\<lambda>c. c \<noteq> CHR ''.'') (rev (s @ ''.jsonl'')) = rev ''jsonl''" by simp
  have d: "dropWhile (\<lambda>c. c \<noteq> CHR ''.'') (rev (s @ ''.jsonl'')) = CHR ''.'' # rev s" by simp
  have "name_suffix (s @ ''.jsonl'') = ''.jsonl''"
    unfolding name_suffix_def Let_def t d using assms by simp
  then show ?thesis by (simp add: name_stem_def)
qed

text \<open>
  A name the service lists leads to the tracklist it stands for: if a show has a
  tracklist and its name is not only blanks, the name of its file is listed, and a request
  for the listed name reads the same file as a request for the show.
\<close>

theorem listed_names_lead_back:
  assumes "fs_exists t (show_slot E name)" and ne: "show_stem name \<noteq> []"
  shows "show_stem name \<in> set (list_shows E t) \<and>
    get_tracks E t (JStr (show_stem name)) date = get_tracks E t (JStr name) date"
proof -
  let ?p = "show_slot E name"
  have p: "?p = list_dir E @ [show_stem name @ ''.jsonl'']" by (rule show_slot_stem)
  have "?p \<in> set (map fst t)" using assms(1) by (auto simp: fs_exists_def dest: map_of_SomeD intro: rev_image_eqI)
  then have "?p \<in> set (fs_children t (list_dir E))" by (simp add: fs_children_def p)
  then have "path_name ?p \<in> set (map path_name (fs_children t (list_dir E)))" by simp
  moreover have n: "path_name ?p = show_stem name @ ''.jsonl''" by (simp add: p path_name_def list_dir_def)
  moreover have "ends_with (show_stem name @ ''.jsonl'') ''.jsonl''" by (simp add: ends_with_def starts_with_def)
  ultimately have "show_stem name @ ''.jsonl'' \<in> set (filter (\<lambda>n. ends_with n ''.jsonl'') (map path_name (fs_children t (list_dir E))))"
    by (simp only: n set_filter mem_Collect_eq)
  then have "name_stem (show_stem name @ ''.jsonl'') \<in> set (list_shows E t)"
    unfolding list_shows_def set_map set_sort by (rule imageI)
  moreover have "show_slot E (show_stem name) = ?p" by (simp add: show_slot_stem show_stem_idem)
  ultimately show ?thesis by (simp add: name_stem_jsonl [OF ne] get_tracks_def path_for_total)
qed

theorem listed_names_lead_back_witness:
  "show_stem ''Drive: AM'' \<in> set (list_shows radio_env [(show_slot radio_env ''Drive: AM'', NFile [])]) \<and>
   show_stem ''Drive: AM'' = ''Drive_ AM''"
proof -
  have e: "show_stem ''Drive: AM'' = ''Drive_ AM''" by code_simp
  have "fs_exists [(show_slot radio_env ''Drive: AM'', NFile [])] (show_slot radio_env ''Drive: AM'')" by (simp add: fs_exists_def)
  from listed_names_lead_back [OF this, of None] e show ?thesis by simp
qed

end
