(* ===== verification/Toml_Merge.thy ===== *)
theory Toml_Merge
  imports Agent_Config Py_Dyn Json_Lines
begin

text \<open>
  The merge of managed table keys into the Codex configuration (merge-toml-settings.py): it
  edits lines and leaves all others as they are. \<open>tomllib.loads\<close> is a parameter, used by
  the script only to validate the text and to read the present notify command. Publication
  follows the protocol of Agent_Config, with a lock of its own.
\<close>

section \<open>Values\<close>

fun toml_value :: "json \<Rightarrow> exn + string"
  and toml_items :: "json list \<Rightarrow> exn + string list"
  and toml_entries :: "(string \<times> json) list \<Rightarrow> exn + string list" where
  "toml_value (JStr s) = Inr (quote s)"
| "toml_value (JBool b) = Inr (if b then ''true'' else ''false'')"
| "toml_value (JInt i) = Inr (show_int i)"
| "toml_value (JDec m k) = Inr (show_dec m k)"
| "toml_value (JArr xs) = rbnd (toml_items xs) (\<lambda>ts. Inr (''['' @ join '', '' ts @ '']''))"
| "toml_value (JObj d) = rbnd (toml_entries d) (\<lambda>ts. Inr (''{ '' @ join '', '' ts @ '' }''))"
| "toml_value JNull = Inl (ValueError ''unsupported TOML value: None'')"
| "toml_items [] = Inr []"
| "toml_items (x # xs) = rbnd (toml_value x) (\<lambda>t. rbnd (toml_items xs) (\<lambda>ts. Inr (t # ts)))"
| "toml_entries [] = Inr []"
| "toml_entries ((k, x) # d) =
     rbnd (toml_value x) (\<lambda>t. rbnd (toml_entries d) (\<lambda>ts. Inr ((quote k @ '' = '' @ t) # ts)))"

section \<open>Tables\<close>

definition table_rx :: rx where
  "table_rx =
     rseq [RTextStart, rspaces, RLit ''['', ropt (RLit ''[''), RGroup 1 (rplus (none_of '']'')), RLit '']'',
           ropt (RLit '']''), rspaces, ropt (RSeq (RLit ''#'') (RStar dot)), RDollar]"

definition table_name :: "string \<Rightarrow> string option" where
  "table_name line =
     (case re_match table_rx (rstrip_chars [CHR 0x0A] line) of None \<Rightarrow> None | Some m \<Rightarrow> Some (group_text m 1))"

definition root_section :: string where "root_section = ''__root__''"
definition remove_key :: string where "remove_key = ''__remove_sections__''"

text \<open>The lines between which a table's keys are: after the header, up to the next one\<close>

definition table_bounds :: "string list \<Rightarrow> string \<Rightarrow> (int \<times> nat) option" where
  "table_bounds lines sec =
     (if sec = root_section then Some (- 1, length (takeWhile (\<lambda>l. table_name l = None) lines))
      else
        (let i = length (takeWhile (\<lambda>l. table_name l \<noteq> Some sec) lines) in
         if i < length lines
         then Some (int i, Suc i + length (takeWhile (\<lambda>l. table_name l = None) (drop (Suc i) lines)))
         else None))"

definition is_removed :: "string list \<Rightarrow> string \<Rightarrow> bool" where
  "is_removed sections name = list_ex (\<lambda>s. name = s \<or> starts_with name (s @ ''.'')) sections"

fun headers_from :: "nat \<Rightarrow> string list \<Rightarrow> (nat \<times> string) list" where
  "headers_from i [] = []"
| "headers_from i (l # ls) =
     (case table_name l of None \<Rightarrow> headers_from (Suc i) ls | Some n \<Rightarrow> (i, n) # headers_from (Suc i) ls)"

fun removed_ranges :: "nat \<Rightarrow> string list \<Rightarrow> (nat \<times> string) list \<Rightarrow> (nat \<times> nat) list" where
  "removed_ranges n sections [] = []"
| "removed_ranges n sections ((i, name) # hs) =
     (if is_removed sections name then [(i, case hs of [] \<Rightarrow> n | (j, _) # _ \<Rightarrow> j)] else []) @ removed_ranges n sections hs"

definition del_slice :: "nat \<times> nat \<Rightarrow> 'a list \<Rightarrow> 'a list" where
  "del_slice r xs = take (fst r) xs @ drop (snd r) xs"

definition remove_tables :: "string list \<Rightarrow> string list \<Rightarrow> string list" where
  "remove_tables sections lines =
     foldl (\<lambda>ls r. del_slice r ls) lines (rev (removed_ranges (length lines) sections (headers_from 0 lines)))"

section \<open>Keys\<close>

definition key_rx :: "string \<Rightarrow> rx" where
  "key_rx key = rseq [RTextStart, rspaces, RLit key, rspaces, RLit ''='']"

definition is_key :: "string \<Rightarrow> string \<Rightarrow> bool" where
  "is_key key line \<longleftrightarrow> re_match (key_rx key) line \<noteq> None"

definition ends_line :: "string \<Rightarrow> bool" where
  "ends_line l \<longleftrightarrow> ends_with l [CHR 0x0A] \<or> ends_with l [CHR 0x0D]"

text \<open>
  The replacement of the first line with the key, or its insertion at the end of the table. A
  table that ends in an unfinished line gets its line feed first; for an empty root table
  the index of that line is \<open>-1\<close>, the last line of the whole file.
\<close>

definition set_line :: "string list \<Rightarrow> int \<times> nat \<Rightarrow> string \<Rightarrow> string \<Rightarrow> exn + string list" where
  "set_line lines bounds key r =
     (case find (\<lambda>i. is_key key (lines ! i)) [nat (fst bounds + 1)..<snd bounds] of
        Some i \<Rightarrow> Inr (lines[i := r])
      | None \<Rightarrow>
          (let en = snd bounds; k = (if en = 0 then length lines - 1 else en - 1) in
           if fst bounds < int en then
             if lines = [] then Inl (IndexError ''list index out of range'')
             else
               (let ls = (if ends_line (lines ! k) then lines else lines[k := lines ! k @ [CHR 0x0A]])
                in Inr (take en ls @ [r] @ drop en ls))
           else Inr (take en lines @ [r] @ drop en lines)))"

definition key_line :: "string \<Rightarrow> string \<Rightarrow> string" where
  "key_line key value = key @ '' = '' @ value @ [CHR 0x0A]"

fun set_keys :: "string \<Rightarrow> int \<times> nat \<Rightarrow> (string \<times> json) list \<Rightarrow> string list \<Rightarrow> exn + string list" where
  "set_keys sec bounds [] lines = Inr lines"
| "set_keys sec bounds ((key, v) # kvs) lines =
     rbnd (toml_value v) (\<lambda>t.
     rbnd (set_line lines (case table_bounds lines sec of None \<Rightarrow> bounds | Some b \<Rightarrow> b) key (key_line key t)) (\<lambda>ls.
       set_keys sec bounds kvs ls))"

text \<open>A table that is missing is added at the end, after a blank line.\<close>

definition add_table :: "string \<Rightarrow> string list \<Rightarrow> (int \<times> nat) \<times> string list" where
  "add_table sec lines =
     (case table_bounds lines sec of
        Some b \<Rightarrow> (b, lines)
      | None \<Rightarrow>
          (let ls = (if lines \<noteq> [] \<and> strip (last lines) \<noteq> [] then lines @ [[CHR 0x0A]] else lines) @
                    [''['' @ sec @ '']'' @ [CHR 0x0A]]
           in ((int (length ls) - 1, length ls), ls)))"

fun set_sections :: "(string \<times> json) list \<Rightarrow> string list \<Rightarrow> exn + string list" where
  "set_sections [] lines = Inr lines"
| "set_sections ((sec, values) # rest) lines =
     (if sec = remove_key then set_sections rest lines
      else
        case values of
          JObj kvs \<Rightarrow>
            (case add_table sec lines of
               (bounds, ls) \<Rightarrow> rbnd (set_keys sec bounds kvs ls) (set_sections rest))
        | _ \<Rightarrow> Inl (ValueError (''section '' @ repr_str sec @ '' must contain an object'')))"

definition str_of :: "json \<Rightarrow> string" where
  "str_of j = (case j of JStr s \<Rightarrow> s | _ \<Rightarrow> [])"

definition is_str :: "json \<Rightarrow> bool" where
  "is_str j = (case j of JStr _ \<Rightarrow> True | _ \<Rightarrow> False)"

definition toml_merge_text :: "string \<Rightarrow> (string \<times> json) list \<Rightarrow> exn + string" where
  "toml_merge_text text settings =
     (let rem = (case map_of settings remove_key of None \<Rightarrow> JArr [] | Some j \<Rightarrow> j) in
      if \<not> is_arr rem \<or> \<not> list_all is_str (arr_of rem)
      then Inl (ValueError ''section '__remove_sections__' must contain a string list'')
      else
        rbnd (set_sections settings (remove_tables (map str_of (arr_of rem)) (splitlines_keep text))) (\<lambda>ls.
          Inr (concat ls)))"

section \<open>The file\<close>

definition settings_lock :: string where
  "settings_lock = ''.homelab-managed-settings.lock''"

definition toml_view :: "string option \<Rightarrow> string" where
  "toml_view c = universal (empty_view c)"

definition is_managed_notify :: "json \<Rightarrow> bool" where
  "is_managed_notify j =
     (case j of
        JArr [a, b] \<Rightarrow> ends_with (py_str a) ''/bin/ai-gotify-notify'' \<and> py_eq b (JStr ''codex-notify'')
      | _ \<Rightarrow> False)"

definition check_notify :: "(string \<times> json) list \<Rightarrow> (string \<times> json) list \<Rightarrow> exn + unit" where
  "check_notify settings parsed =
     (case (case map_of settings root_section of None \<Rightarrow> JObj [] | Some j \<Rightarrow> j) of
        JObj root \<Rightarrow>
          (let desired = field root ''notify''; existing = field parsed ''notify'' in
           if desired \<noteq> JNull \<and> existing \<noteq> JNull \<and> \<not> py_eq existing desired \<and> \<not> is_managed_notify existing
           then Inl (ValueError ''refusing to replace unrelated top-level Codex notify command'')
           else Inr ())
      | _ \<Rightarrow> Inl (ValueError ''section '__root__' must contain an object''))"

definition toml_transform ::
  "(string \<Rightarrow> exn + (string \<times> json) list) \<Rightarrow> (string \<times> json) list \<Rightarrow> string option \<Rightarrow> exn + string" where
  "toml_transform loads settings original =
     (let text = toml_view original in
      rbnd (loads text) (\<lambda>parsed.
      rbnd (check_notify settings parsed) (\<lambda>_.
      rbnd (toml_merge_text text settings) (\<lambda>merged.
      rbnd (loads merged) (\<lambda>_. Inr merged)))))"

definition toml_merge_file ::
  "(string \<Rightarrow> exn + (string \<times> json) list) \<Rightarrow> string \<Rightarrow> path \<Rightarrow> path \<Rightarrow> interference \<Rightarrow> (cfg_world, bool) prog" where
  "toml_merge_file loads settings_text p tmp i =
     (case json_loads settings_text of
        None \<Rightarrow> raise (ValueError ''Expecting value'')
      | Some (JObj settings) \<Rightarrow>
          managed_update settings_lock toml_view (toml_transform loads settings) ''config: '' p tmp i
      | Some _ \<Rightarrow> raise (ValueError ''managed settings must be a JSON object''))"

section \<open>What the patterns accept\<close>

lemma is_key_iff:
  "is_key key line \<longleftrightarrow> (\<exists>v w t. line = v @ key @ w @ CHR ''='' # t \<and> list_all is_space v \<and> list_all is_space w)"
    (is "_ \<longleftrightarrow> ?R")
proof -
  let ?m = "set (rx_match (key_rx key) (None, line, []))"
  have ex: "is_key key line \<longleftrightarrow> (\<exists>q. q \<in> ?m)"
    by (cases "rx_match (key_rx key) (None, line, [])") (auto simp: is_key_def re_match_def)
  show ?thesis
  proof
    assume "is_key key line"
    then obtain q where "q \<in> ?m" using ex by blast
    then obtain z a b c d where z: "z \<in> set (rx_match RTextStart (None, line, []))" and a: "a \<in> set (rx_match rspaces z)"
      and b: "b \<in> set (rx_match (RLit key) a)" and c: "c \<in> set (rx_match rspaces b)" and d: "d \<in> set (rx_match (RLit ''='') c)"
      unfolding key_rx_def by (meson rseqD)
    note a = a [unfolded startD [OF z]]
    have r: "rest_of (None, line, []) = line" by (simp add: rest_of_def)
    from starD [OF a [unfolded rspaces_def]] litD [OF b] starD [OF c [unfolded rspaces_def]] litD [OF d]
    show ?R unfolding r by (metis append_Cons append_Nil)
  next
    assume ?R
    then obtain v w t where l: "line = v @ key @ w @ CHR ''='' # t" "list_all is_space v" "list_all is_space w" by blast
    have r: "rest_of (None, line, []) = v @ (key @ w @ CHR ''='' # t)" by (simp add: rest_of_def l)
    obtain a where a: "a \<in> set (rx_match rspaces (None, line, []))" "rest_of a = key @ w @ CHR ''='' # t"
      using starI [OF r l(2)] unfolding rspaces_def by blast
    obtain b where b: "b \<in> set (rx_match (RLit key) a)" "rest_of b = w @ CHR ''='' # t" using litI [OF a(2)] by blast
    obtain c where c: "c \<in> set (rx_match rspaces b)" "rest_of c = CHR ''='' # t"
      using starI [OF b(2) l(3)] unfolding rspaces_def by blast
    obtain d where d: "d \<in> set (rx_match (RLit ''='') c)" using litI [of c "''=''" t] c(2) by auto
    have "(None, line, []) \<in> set (rx_match RTextStart (None, line, []))" by simp
    then have "d \<in> ?m" unfolding key_rx_def
      by (intro rseqI [OF _ rseqI [OF a(1) rseqI [OF b(1) rseqI [OF c(1) rseqI [OF d rseq_nilI]]]]])
    then show "is_key key line" using ex by blast
  qed
qed






definition good_key :: "string \<Rightarrow> bool" where
  "good_key key \<longleftrightarrow> key \<noteq> [] \<and> hd key \<noteq> CHR ''['' \<and> list_all (\<lambda>c. \<not> is_space c \<and> c \<noteq> CHR ''='') key"




lemma not_key_blank: "good_key key \<Longrightarrow> \<not> is_key key [CHR 0x0A]"
  unfolding is_key_iff by (auto simp: good_key_def Cons_eq_append_conv append_eq_Cons_conv)




section \<open>Tables as blocks of lines\<close>

abbreviation free :: "string \<Rightarrow> bool" where "free l \<equiv> table_name l = None"












section \<open>Keys that are set stay set\<close>











section \<open>Values are one line\<close>


lemma ctrl_eq [simp]: "\<not> is_ctrl (CHR ''='')"
  by (simp add: is_ctrl_def)


section \<open>All keys of all tables\<close>















section \<open>Removed tables\<close>

text \<open>The reference: a pass over the lines that remembers whether the current table is dropped\<close>

fun keep_tables :: "string list \<Rightarrow> bool \<Rightarrow> string list \<Rightarrow> string list" where
  "keep_tables sections dropping [] = []"
| "keep_tables sections dropping (l # ls) =
     (let d = (case table_name l of None \<Rightarrow> dropping | Some n \<Rightarrow> is_removed sections n)
      in if d then keep_tables sections d ls else l # keep_tables sections d ls)"

lemma keep_tables_free:
  "keep_tables sections False ls = takeWhile free ls @ keep_tables sections False (dropWhile free ls)"
  by (induction ls) (auto simp: Let_def)

lemma keep_tables_dropping:
  "keep_tables sections True ls = keep_tables sections False (dropWhile free ls)"
  by (induction ls) (auto simp: Let_def split: option.splits)

lemma next_header:
  "n = i + length ls \<Longrightarrow> (case headers_from i ls of [] \<Rightarrow> n | (j, _) # _ \<Rightarrow> j) = i + length (takeWhile free ls)"
  by (induction ls arbitrary: i) (auto split: option.splits)

lemma removed_ranges_keep:
  "foldr del_slice (removed_ranges (length xs + length ls) sections (headers_from (length xs) ls)) (xs @ ls) =
     xs @ keep_tables sections False ls"
proof (induction ls arbitrary: xs)
  case (Cons l ls)
  let ?R = "removed_ranges (length xs + length (l # ls)) sections (headers_from (Suc (length xs)) ls)"
  have IH: "foldr del_slice ?R (xs @ l # ls) = xs @ [l] @ keep_tables sections False ls"
    using Cons.IH [of "xs @ [l]"] by simp
  show ?case
  proof (cases "table_name l")
    case None
    then show ?thesis using IH by simp
  next
    case (Some n)
    show ?thesis
    proof (cases "is_removed sections n")
      case False
      then show ?thesis using IH Some by simp
    next
      case True
      let ?j = "Suc (length xs) + length (takeWhile free ls)"
      have j: "(case headers_from (Suc (length xs)) ls of [] \<Rightarrow> Suc (length xs + length ls) | (j, _) # _ \<Rightarrow> j) = ?j"
        by (rule next_header) simp
      have "foldr del_slice (removed_ranges (length xs + length (l # ls)) sections (headers_from (length xs) (l # ls))) (xs @ l # ls) =
          del_slice (length xs, ?j) (xs @ [l] @ keep_tables sections False ls)"
        using Some True IH j by simp
      also have "\<dots> = xs @ keep_tables sections False (dropWhile free ls)"
        unfolding keep_tables_free [of sections ls] by (simp add: del_slice_def)
      finally show ?thesis using Some True by (simp add: keep_tables_dropping)
    qed
  qed
qed simp

lemma remove_tables_keep: "remove_tables sections lines = keep_tables sections False lines"
  using removed_ranges_keep [of "[]" lines sections] by (simp add: remove_tables_def foldl_conv_foldr)



section \<open>Texts and lines\<close>





section \<open>The merge settles\<close>




section \<open>An empty configuration\<close>

lemma merge_empty_root:
  assumes "toml_value v = Inr t"
  shows "toml_merge_text [] ((remove_key, JArr (map JStr rem)) # (root_section, JObj ((key, v) # kvs)) # rest) =
    Inl (IndexError ''list index out of range'')"
proof -
  have ne: "root_section \<noteq> remove_key" by (simp add: root_section_def remove_key_def)
  have "set_sections ((remove_key, JArr (map JStr rem)) # (root_section, JObj ((key, v) # kvs)) # rest) [] =
      Inl (IndexError ''list index out of range'')"
    using assms ne by (simp add: add_table_def table_bounds_def set_line_def)
  moreover have "remove_tables xs [] = []" for xs by (simp add: remove_tables_keep)
  moreover have "list_all is_str (map JStr rem)" by (simp add: list_all_iff is_str_def)
  ultimately show ?thesis by (simp add: toml_merge_text_def Let_def splitlines_keep_def is_arr_def)
qed

text \<open>
  C20. On a machine without a Codex configuration the merge fails: the activation creates an
  empty file, and settings that set a root key before any table is added (as the sorted
  settings of the repository do) index the last line of no lines. The run raises
  \<open>IndexError\<close>, takes its lock and changes nothing else, whatever the managed value is.
\<close>

theorem toml_merge_fails_on_empty:
  assumes "json_loads settings = Some (JObj ((remove_key, JArr (map JStr rem)) # (root_section, JObj ((key, v) # kvs)) # rest))"
    and "toml_value v = Inr t" "loads [] = Inr []" "p \<noteq> []" "map_of (tree w) p = Some (NFile [])"
  shows "toml_merge_file loads settings p tmp i w =
    (Inl (IndexError ''list index out of range''), take_lock settings_lock p w)"
proof -
  let ?S = "(remove_key, JArr (map JStr rem)) # (root_section, JObj ((key, v) # kvs)) # rest"
  have m: "map_of (tree (take_lock settings_lock p w)) p = Some (NFile [])"
    using take_lock_target(1) [OF assms(4)] assms(5) by simp
  have ne: "root_section \<noteq> remove_key" by (simp add: root_section_def remove_key_def)
  have "check_notify ?S [] = Inr ()" using ne by (simp add: check_notify_def Let_def field_def)
  then have "toml_transform loads ?S (Some []) = Inl (IndexError ''list index out of range'')"
    using assms(3) merge_empty_root [OF assms(2)] by (simp add: toml_transform_def toml_view_def empty_view_def)
  then show ?thesis
    using assms(1) m by (simp add: toml_merge_file_def managed_update_def read_opt_def fs_is_link_def)
qed

definition demo_settings :: string where
  "demo_settings = ''{\"__remove_sections__\":[\"a.b\"],\"__root__\":{\"model\":\"m\"},\"features\":{\"memories\":true}}''"

theorem toml_merge_fails_on_empty_witness:
  "fst (toml_merge_file (\<lambda>_. Inr []) demo_settings [''h'', ''c.toml''] [''h'', ''t''] \<lparr>before = id, late = id\<rparr>
     \<lparr>tree = [([''h'', ''c.toml''], NFile [])], modes = []\<rparr>) = Inl (IndexError ''list index out of range'')"
proof -
  have j: "json_loads demo_settings = Some (JObj ((remove_key, JArr (map JStr [''a.b''])) #
      (root_section, JObj ((''model'', JStr ''m'') # [])) # [(''features'', JObj [(''memories'', JBool True)])]))"
    by code_simp
  show ?thesis
    by (subst toml_merge_fails_on_empty [OF j toml_value.simps(1)]) simp_all
qed


end
