(* ===== verification/Voice_Diary.thy ===== *)
theory Voice_Diary
  imports Py_Regex Py_Dyn Py_Path Py_Float Py_Time
begin

text \<open>
  The voice diary (voice-diary-ingest.py): recordings a phone drops into a directory are
  transcribed, and archived in the inbox as a pair of audio and transcript. The whisper
  service, ffprobe, the clocks, the time zone database and the table of media types are
  parameters. Every change of the tree is remembered, so that a statement can speak about each
  tree a crash could leave; a file being written is first empty.
\<close>

section \<open>Settings, services and the world\<close>

record upload =
  up_body :: string
  up_type :: string
  up_length :: string

record 's diary_env =
  inbox_dir :: path
  phone_dir :: path
  from_inbox :: bool
  whisper_model :: string
  whisper_prompt :: string
  phone_min_age :: int
  ffprobe_duration :: "path \<Rightarrow> 's \<Rightarrow> (exn + int \<times> string) \<times> 's"
  post_upload :: "upload \<Rightarrow> 's \<Rightarrow> (exn + string) \<times> 's"
  uuid_hex :: "'s \<Rightarrow> string \<times> 's"
  time_now :: "'s \<Rightarrow> rat \<times> 's"
  write_clock :: "'s \<Rightarrow> rat"
  local_time :: "rat \<Rightarrow> wall_time"
  guess_type :: "string \<Rightarrow> string option"

record 's diary =
  outside :: 's
  tree :: fs
  mtimes :: "path \<Rightarrow> rat"
  trail :: "fs list"

definition audio_suffixes :: "string list" where
  "audio_suffixes = [''.m4a'', ''.mp3'', ''.wav'', ''.ogg'', ''.opus'', ''.aac'', ''.flac'', ''.mp4'']"

definition drop_dir :: "'s diary_env \<Rightarrow> path" where
  "drop_dir E = (if from_inbox E then inbox_dir E else phone_dir E)"

definition min_age :: "'s diary_env \<Rightarrow> int" where
  "min_age E = (if from_inbox E then 0 else phone_min_age E)"

section \<open>Times\<close>

text \<open>\<open>strftime("%Y-%m-%d_%H%M%S")\<close>, and the two times of the header\<close>

definition stamp_text :: "wall_time \<Rightarrow> string" where
  "stamp_text t =
     show_nat (wt_year t) @ ''-'' @ zero_pad 2 (int (wt_month t)) @ ''-'' @ zero_pad 2 (int (wt_day t)) @ ''_'' @
     zero_pad 2 (int (wt_hour t)) @ zero_pad 2 (int (wt_minute t)) @ zero_pad 2 (int (wt_second t))"

definition title_time :: "wall_time \<Rightarrow> string" where
  "title_time t =
     show_nat (wt_year t) @ ''-'' @ zero_pad 2 (int (wt_month t)) @ ''-'' @ zero_pad 2 (int (wt_day t)) @ '' '' @
     zero_pad 2 (int (wt_hour t)) @ '':'' @ zero_pad 2 (int (wt_minute t))"

definition spoken_time :: "wall_time \<Rightarrow> string" where
  "spoken_time t =
     weekday_name (weekday t) @ '' '' @ show_nat (wt_day t) @ '' '' @ month_name (wt_month t) @ '' '' @
     show_nat (wt_year t) @ '', '' @
     show_nat (if wt_hour t mod 12 = 0 then 12 else wt_hour t mod 12) @ '':'' @ zero_pad 2 (int (wt_minute t)) @
     (if wt_hour t < 12 then '' AM'' else '' PM'')"

section \<open>Tidying a transcript\<close>

definition norm_line :: "string \<Rightarrow> string" where
  "norm_line s =
     strip (re_sub (RSet (\<lambda>c. \<not> (is_lower c \<or> is_digit c \<or> c = CHR '' ''))) (\<lambda>_. []) (lower s))"

text \<open>A line is an echo if it is recent, or one of the two contains the other and that is long.\<close>

definition echoes :: "string \<Rightarrow> string \<Rightarrow> bool" where
  "echoes n r \<longleftrightarrow>
     r \<noteq> [] \<and> n \<noteq> [] \<and>
     (n = r \<or>
      (case (if length n \<le> length r then (n, r) else (r, n)) of
         (shorter, longer) \<Rightarrow> 12 \<le> length shorter \<and> contains longer shorter))"

definition is_echo :: "string \<Rightarrow> string list \<Rightarrow> bool" where
  "is_echo n recent = list_ex (echoes n) recent"

definition dedupe_window :: nat where "dedupe_window = 12"

fun drop_echoes :: "string list \<Rightarrow> string list \<Rightarrow> string list" where
  "drop_echoes recent [] = []"
| "drop_echoes recent (line # lines) =
     (let n = norm_line line in
      if n \<noteq> [] \<and> is_echo n recent then drop_echoes recent lines
      else line # drop_echoes (last_n dedupe_window (recent @ [n])) lines)"

definition speech_lines :: "string \<Rightarrow> string list" where
  "speech_lines raw = filter (\<lambda>l. l \<noteq> []) (map strip (splitlines raw))"

text \<open>Corrections of the fixed cast of names, in the order of the table\<close>

definition whole_word :: "rx \<Rightarrow> rx" where
  "whole_word r = rseq [RWordB, r, RWordB]"

definition name_fixes :: "(rx \<times> string) list" where
  "name_fixes =
     [(ralts (rseq [RLitI ''G'', ropt (RLitI ''a''), RLitI ''linda'']) [RLitI ''Gelinda'', RLitI ''Gerlinda''], ''Gerlinde''),
      (ralts (rseq [RLitI ''Dak'', ralts (RLitI ''y'') [RLitI ''ie'', RLitI ''ey'']]) [RLitI ''Dacky'', RLitI ''Dackie''], ''Dacre''),
      (ralts (RLitI ''Vania'') [RLitI ''Vanja''], ''Vanya'')]"

definition fix_names :: "string \<Rightarrow> string" where
  "fix_names text = foldl (\<lambda>t (r, correct). re_sub (whole_word r) (\<lambda>_. correct) t) text name_fixes"

text \<open>One line of text, without stray spaces before punctuation and contractions\<close>

definition space_before :: "rx \<Rightarrow> rx" where
  "space_before r = RSeq rspaces1 (RGroup 1 r)"

definition contraction :: rx where
  "contraction =
     rseq [RLit [CHR 0x27],
           ralts (RLitI ''s'') [RLitI ''t'', RLitI ''re'', RLitI ''ve'', RLitI ''ll'', RLitI ''d'', RLitI ''m''], RWordB]"

definition polish :: "string list \<Rightarrow> string" where
  "polish lines =
     (let one = strip (re_sub rspaces1 (\<lambda>_. '' '') (join '' '' lines));
          close = (\<lambda>r t. re_sub (space_before r) (\<lambda>m. group_text m 1) t)
      in fix_names
           (close (rseq [RLitI (''n'' @ [CHR 0x27] @ ''t''), RWordB])
              (close contraction (close (one_of '',.!?;:'') one))))"

definition topic_markers :: "string list" where
  "topic_markers =
     [''anyway'', ''so anyway'', ''but anyway'', ''right'', ''all right'', ''alright'', ''okay so'', ''okay'',
      ''ok'', ''now'', ''what else'', ''oh'', ''moving on'', ''the other thing'', ''also'', ''next'']"

definition topic_marker_rx :: rx where
  "topic_marker_rx =
     rseq [RTextStart, ralts (RLitI (hd topic_markers)) (map RLitI (tl topic_markers)), RWordB,
           ropt (one_of '',.''), RAlt (RSet is_space) RDollar]"

definition starts_topic :: "string \<Rightarrow> bool" where
  "starts_topic s \<longleftrightarrow> re_match topic_marker_rx s \<noteq> None"

definition min_words_before_break :: nat where "min_words_before_break = 60"
definition max_words_per_paragraph :: nat where "max_words_per_paragraph = 200"

definition sentences :: "string \<Rightarrow> string list" where
  "sentences text =
     filter (\<lambda>s. s \<noteq> [])
       (map strip (re_split (RSeq (RBehind (\<lambda>c. c \<in> set ''.!?'')) rspaces1) text))"

definition num_words :: "string \<Rightarrow> nat" where
  "num_words s = length (split_ws s)"

text \<open>The loop over the sentences, with the paragraph being filled and its number of words\<close>

fun fill_paragraphs :: "string list \<Rightarrow> nat \<Rightarrow> string list \<Rightarrow> string list" where
  "fill_paragraphs cur n [] = (if cur = [] then [] else [join '' '' cur])"
| "fill_paragraphs cur n (s # ss) =
     (if cur \<noteq> [] \<and> (starts_topic s \<and> min_words_before_break \<le> n \<or> max_words_per_paragraph \<le> n)
      then join '' '' cur # fill_paragraphs [s] (num_words s) ss
      else fill_paragraphs (cur @ [s]) (n + num_words s) ss)"

definition fold_tail :: "string list \<Rightarrow> string list" where
  "fold_tail paras =
     (if 1 < length paras \<and> num_words (last paras) < 25
      then butlast (butlast paras) @ [last (butlast paras) @ '' '' @ last paras]
      else paras)"

definition paragraphs :: "string \<Rightarrow> string list" where
  "paragraphs text = fold_tail (fill_paragraphs [] 0 (sentences text))"

definition tidy :: "string \<Rightarrow> string" where
  "tidy raw =
     join [CHR 0x0A, CHR 0x0A] (paragraphs (polish (drop_echoes [] (speech_lines raw))))"

section \<open>The whisper request\<close>

definition crlf :: string where "crlf = [CHR 0x0D, CHR 0x0A]"

definition form_field :: "string \<Rightarrow> string \<Rightarrow> string \<Rightarrow> string" where
  "form_field bound name v =
     ''--'' @ bound @ crlf @ ''Content-Disposition: form-data; name='' @ [CHR 0x22] @ name @ [CHR 0x22] @
     crlf @ crlf @ v @ crlf"

definition upload_of :: "'s diary_env \<Rightarrow> string \<Rightarrow> string \<Rightarrow> string \<Rightarrow> upload" where
  "upload_of E bound name audio =
     (let ctype = (case guess_type E name of Some c \<Rightarrow> if c = [] then ''application/octet-stream'' else c
                   | None \<Rightarrow> ''application/octet-stream'');
          fields = [(''model'', whisper_model E), (''response_format'', ''json'')] @
                   (if whisper_prompt E = [] then [] else [(''prompt'', whisper_prompt E)]);
          head = concat (map (\<lambda>(f, v). form_field bound f v) fields) @
                 ''--'' @ bound @ crlf @ ''Content-Disposition: form-data; name='' @ [CHR 0x22] @ ''file'' @ [CHR 0x22] @
                 ''; filename='' @ [CHR 0x22] @ name @ [CHR 0x22] @ crlf @
                 ''Content-Type: '' @ ctype @ crlf @ crlf;
          body = head @ audio @ crlf @ ''--'' @ bound @ ''--'' @ crlf
      in \<lparr>up_body = body, up_type = ''multipart/form-data; boundary='' @ bound, up_length = show_nat (length body)\<rparr>)"

text \<open>The text of the reply: a document that is not JSON and an empty text are errors.\<close>

definition read_reply :: "string \<Rightarrow> exn + string" where
  "read_reply payload =
     (case json_loads payload of
        None \<Rightarrow> Inl (RuntimeError (''non-JSON response: '' @ take 300 payload))
      | Some j \<Rightarrow>
          rbnd (py_get j ''text'') (\<lambda>v. rbnd (strip_or_empty v) (\<lambda>s.
            if s = [] then Inl (RuntimeError (''empty transcript in response: '' @ take 300 payload)) else Inr s)))"

definition service :: "('s \<Rightarrow> (exn + 'a) \<times> 's) \<Rightarrow> ('s diary, 'a) prog" where
  "service f w = (case f (outside w) of (r, s) \<Rightarrow> (r, w\<lparr>outside := s\<rparr>))"

definition sampled :: "('s \<Rightarrow> 'a \<times> 's) \<Rightarrow> ('s diary, 'a) prog" where
  "sampled f = service (\<lambda>s. case f s of (x, s') \<Rightarrow> (Inr x, s'))"

definition missing_file :: exn where
  "missing_file = OSError ''No such file or directory''"

definition stat_mtime :: "path \<Rightarrow> ('s diary, rat) prog" where
  "stat_mtime p w = ((if fs_exists (tree w) p then Inr (mtimes w p) else Inl missing_file), w)"

definition read_bytes :: "path \<Rightarrow> ('s diary, string) prog" where
  "read_bytes p w = ((case fs_read (tree w) p of Some c \<Rightarrow> Inr c | None \<Rightarrow> Inl missing_file), w)"

definition transcribe :: "'s diary_env \<Rightarrow> path \<Rightarrow> ('s diary, string) prog" where
  "transcribe E p =
     bnd (sampled (uuid_hex E)) (\<lambda>u.
     bnd (read_bytes p) (\<lambda>audio.
     bnd (service (post_upload E (upload_of E (''----voicediary'' @ u) (path_name p) audio))) (\<lambda>payload.
       of_result (read_reply payload))))"

text \<open>A recording whose container is not closed yet\<close>

definition is_unfinalized_mp4 :: "'s diary_env \<Rightarrow> path \<Rightarrow> ('s diary, bool) prog" where
  "is_unfinalized_mp4 E p =
     (if lower (path_suffix p) \<notin> set [''.m4a'', ''.mp4''] then ret False
      else
        bnd (try_except (service (ffprobe_duration E p))
               (\<lambda>e. if e = TimeoutExpired then raise (RuntimeError (''ffprobe timed out reading '' @ path_name p))
                    else raise e)) (\<lambda>(code, err).
          ret (code \<noteq> 0 \<and> contains (lower err) ''moov atom not found'')))"

section \<open>One recording\<close>

definition change :: "(fs \<Rightarrow> fs) \<Rightarrow> ('s diary, unit) prog" where
  "change f w = (Inr (), w\<lparr>tree := f (tree w), trail := tree w # trail w\<rparr>)"

definition set_mtime :: "path \<Rightarrow> rat \<Rightarrow> ('s diary, unit) prog" where
  "set_mtime p m w = (Inr (), w\<lparr>mtimes := (mtimes w)(p := m)\<rparr>)"

definition write_text :: "'s diary_env \<Rightarrow> path \<Rightarrow> string \<Rightarrow> ('s diary, unit) prog" where
  "write_text E p c =
     bnd (change (fs_write p [])) (\<lambda>_.
     bnd (change (fs_write p c)) (\<lambda>_.
     bnd (gets (\<lambda>w. write_clock E (outside w))) (set_mtime p)))"

text \<open>\<open>shutil.copy2\<close> copies the modification time as well.\<close>

definition copy2 :: "path \<Rightarrow> path \<Rightarrow> ('s diary, unit) prog" where
  "copy2 a b =
     bnd (read_bytes a) (\<lambda>c.
     bnd (change (fs_write b [])) (\<lambda>_.
     bnd (change (fs_write b c)) (\<lambda>_.
     bnd (gets (\<lambda>w. mtimes w a)) (set_mtime b))))"

definition rename :: "path \<Rightarrow> path \<Rightarrow> ('s diary, unit) prog" where
  "rename a b = bnd (change (fs_rename a b)) (\<lambda>_. bnd (gets (\<lambda>w. mtimes w a)) (set_mtime b))"

definition stamp_of :: "'s diary_env \<Rightarrow> rat \<Rightarrow> string" where
  "stamp_of E m = stamp_text (local_time E m)"

definition header_text :: "wall_time \<Rightarrow> nat \<Rightarrow> string \<Rightarrow> string" where
  "header_text t n name =
     ''# Voice note '' @ title_time t @ [CHR 0x0A, CHR 0x0A] @ ''*Recorded '' @ spoken_time t @ ''. '' @ show_nat n @
     '' words. Source: `'' @ name @ ''`.*'' @ [CHR 0x0A, CHR 0x0A]"

definition md_name :: "string \<Rightarrow> string" where "md_name stamp = stamp @ ''.md''"
definition partial_name :: "string \<Rightarrow> string" where "partial_name n = ''.'' @ n @ ''.partial''"

definition archive_pair :: "'s diary_env \<Rightarrow> path \<Rightarrow> string \<Rightarrow> string \<Rightarrow> ('s diary, unit) prog" where
  "archive_pair E src stamp text =
     (let audio = stamp @ lower (path_suffix src);
          tmp_md = inbox_dir E @ [partial_name (md_name stamp)];
          tmp_audio = inbox_dir E @ [partial_name audio];
          target_audio = inbox_dir E @ [audio] in
      bnd (write_text E tmp_md text) (\<lambda>_.
      bnd (gets (\<lambda>w. fs_exists (tree w) target_audio)) (\<lambda>there.
      bnd (if there then ret ()
           else bnd (copy2 src tmp_audio) (\<lambda>_. rename tmp_audio target_audio)) (\<lambda>_.
        rename tmp_md (inbox_dir E @ [md_name stamp])))))"

text \<open>The reasons not to touch a recording yet, or at all\<close>

definition is_due :: "'s diary_env \<Rightarrow> path \<Rightarrow> string \<Rightarrow> ('s diary, bool) prog" where
  "is_due E src stamp =
     bnd (gets (\<lambda>w. fs_exists (tree w) (inbox_dir E @ [md_name stamp]))) (\<lambda>known.
     if known then ret False
     else if from_inbox E \<and> path_stem src \<noteq> stamp then ret False
     else
       bnd (sampled (time_now E)) (\<lambda>now.
       bnd (stat_mtime src) (\<lambda>m.
       if now - m < of_int (min_age E) then ret False
       else if from_inbox E then ret True
       else bnd (is_unfinalized_mp4 E src) (\<lambda>open_still. ret (\<not> open_still)))))"

definition entry_text :: "'s diary_env \<Rightarrow> path \<Rightarrow> rat \<Rightarrow> string \<Rightarrow> string" where
  "entry_text E src m raw =
     header_text (local_time E m) (num_words (tidy raw)) (path_name src) @ tidy raw @ [CHR 0x0A]"

definition process :: "'s diary_env \<Rightarrow> path \<Rightarrow> ('s diary, bool) prog" where
  "process E src =
     bnd (stat_mtime src) (\<lambda>m.
     bnd (is_due E src (stamp_of E m)) (\<lambda>due.
     if \<not> due then ret False
     else
       bnd (transcribe E src) (\<lambda>raw.
       bnd (stat_mtime src) (\<lambda>m'.
       bnd (archive_pair E src (stamp_of E m) (entry_text E src m' raw)) (\<lambda>_. ret True)))))"

section \<open>The run\<close>

definition is_ingest_failure :: "exn \<Rightarrow> bool" where
  "is_ingest_failure e =
     (case e of URLError _ _ _ \<Rightarrow> True | HTTPError _ _ \<Rightarrow> True | RuntimeError _ \<Rightarrow> True | OSError _ \<Rightarrow> True
      | TimeoutError _ \<Rightarrow> True | ConnectionError _ \<Rightarrow> True | RemoteDisconnected _ \<Rightarrow> True | _ \<Rightarrow> False)"

definition is_hidden :: "path \<Rightarrow> path \<Rightarrow> bool" where
  "is_hidden d p = list_ex (\<lambda>x. starts_with x ''.'') (drop (length d) p)"

definition recordings :: "'s diary_env \<Rightarrow> 's diary \<Rightarrow> path list" where
  "recordings E w =
     (let d = drop_dir E in
      filter (\<lambda>p. \<not> is_hidden d p)
        (sort_key (mtimes w) (filter (\<lambda>p. lower (path_suffix p) \<in> set audio_suffixes) (walk_files (tree w) d))))"

definition ingest_one :: "'s diary_env \<Rightarrow> path \<Rightarrow> nat \<times> nat \<Rightarrow> ('s diary, nat \<times> nat) prog" where
  "ingest_one E src c =
     try_except (bnd (process E src) (\<lambda>b. ret (if b then (Suc (fst c), snd c) else c)))
       (\<lambda>e. if is_ingest_failure e then ret (fst c, Suc (snd c)) else raise e)"

definition ingest :: "'s diary_env \<Rightarrow> ('s diary, nat) prog" where
  "ingest E =
     bnd (gets (\<lambda>w. fs_is_dir (tree w) (drop_dir E))) (\<lambda>there.
     if \<not> there then ret 1
     else
       bnd (change (fs_mkdirs (inbox_dir E))) (\<lambda>_.
       bnd (gets (recordings E)) (\<lambda>sources.
       bnd (for_each sources (ingest_one E) (0, 0)) (\<lambda>(n_ok, n_failed).
         ret (if n_failed = 0 then 0 else 1)))))"

section \<open>What a run changes\<close>

text \<open>
  A state of the archive is sound after another if every file that was there, apart from
  temporary ones, is as it was, and every transcript that is new has its audio beside it.
\<close>

definition is_partial :: "path \<Rightarrow> bool" where
  "is_partial p \<longleftrightarrow> p \<noteq> [] \<and> ends_with (last p) ''.partial''"

definition keeps_others :: "fs \<Rightarrow> fs \<Rightarrow> bool" where
  "keeps_others t0 t \<longleftrightarrow> (\<forall>p n. map_of t0 p = Some n \<and> \<not> is_partial p \<longrightarrow> map_of t p = Some n)"

definition audio_first :: "path \<Rightarrow> fs \<Rightarrow> fs \<Rightarrow> bool" where
  "audio_first ib t0 t \<longleftrightarrow>
     (\<forall>n. fs_exists t (ib @ [md_name n]) \<and> \<not> fs_exists t0 (ib @ [md_name n]) \<longrightarrow>
        (\<exists>sfx\<in>set audio_suffixes. fs_exists t (ib @ [n @ sfx])))"

definition sound_after :: "path \<Rightarrow> fs \<Rightarrow> fs \<Rightarrow> bool" where
  "sound_after ib t0 t \<longleftrightarrow> keeps_others t0 t \<and> audio_first ib t0 t"

definition archives :: "path \<Rightarrow> 's diary \<Rightarrow> 's diary \<Rightarrow> bool" where
  "archives ib w w' \<longleftrightarrow>
     (\<exists>new. trail w' = new @ trail w \<and> (\<forall>t\<in>set (tree w' # new). sound_after ib (tree w) t)) \<and>
     (\<forall>p. fs_exists (tree w) p \<and> \<not> is_partial p \<longrightarrow> mtimes w' p = mtimes w p)"

lemma partial_names [simp]:
  "\<not> is_partial (ib @ [md_name n])"
  "is_partial (ib @ [partial_name n])"
  by (simp_all add: is_partial_def md_name_def partial_name_def ends_with_def starts_with_def)

lemma audio_not_partial: "sfx \<in> set audio_suffixes \<Longrightarrow> \<not> is_partial (ib @ [n @ sfx])"
  by (auto simp: is_partial_def audio_suffixes_def ends_with_def starts_with_def)

lemma audio_not_md: "sfx \<in> set audio_suffixes \<Longrightarrow> n @ sfx \<noteq> md_name m"
proof
  assume s: "sfx \<in> set audio_suffixes" and "n @ sfx = md_name m"
  then have "rev (n @ sfx) = rev (md_name m)" by simp
  with s show False by (auto simp: audio_suffixes_def md_name_def)
qed

lemma partial_not_md [simp]: "partial_name n \<noteq> md_name m"
proof
  assume "partial_name n = md_name m"
  then have "rev (partial_name n) = rev (md_name m)" by simp
  then show False by (simp add: partial_name_def md_name_def)
qed

lemma partial_inj [simp]: "partial_name a = partial_name b \<longleftrightarrow> a = b"
  by (simp add: partial_name_def)

lemma sound_refl [simp]: "sound_after ib t t"
  by (auto simp: sound_after_def keeps_others_def audio_first_def)

lemma sound_trans: "sound_after ib a b \<Longrightarrow> sound_after ib b c \<Longrightarrow> sound_after ib a c"
proof -
  assume ab: "sound_after ib a b" and bc: "sound_after ib b c"
  have keep: "fs_exists b p \<Longrightarrow> \<not> is_partial p \<Longrightarrow> fs_exists c p" for p
    using bc by (auto simp: sound_after_def keeps_others_def fs_exists_def)
  have "\<exists>sfx\<in>set audio_suffixes. fs_exists c (ib @ [n @ sfx])"
    if n: "fs_exists c (ib @ [md_name n])" "\<not> fs_exists a (ib @ [md_name n])" for n
  proof (cases "fs_exists b (ib @ [md_name n])")
    case True
    then obtain sfx where sfx: "sfx \<in> set audio_suffixes" "fs_exists b (ib @ [n @ sfx])"
      using ab n(2) unfolding sound_after_def audio_first_def by blast
    show ?thesis using keep [OF sfx(2) audio_not_partial [OF sfx(1)]] sfx(1) by blast
  next
    case False
    then show ?thesis using bc n(1) by (simp add: sound_after_def audio_first_def)
  qed
  moreover have "keeps_others a c" using ab bc by (simp add: sound_after_def keeps_others_def)
  ultimately show ?thesis by (simp add: sound_after_def audio_first_def)
qed

lemma archives_refl: "archives ib w w"
  by (auto simp: archives_def intro!: exI [of _ "[]"])

lemma archives_exists: "archives ib a b \<Longrightarrow> fs_exists (tree a) p \<Longrightarrow> \<not> is_partial p \<Longrightarrow> fs_exists (tree b) p"
  by (auto simp: archives_def sound_after_def keeps_others_def fs_exists_def)

lemma archives_trans:
  assumes ab: "archives ib a b" and bc: "archives ib b c"
  shows "archives ib a c"
proof -
  from ab obtain u where u: "trail b = u @ trail a" "\<forall>t\<in>set (tree b # u). sound_after ib (tree a) t"
    by (auto simp: archives_def)
  from bc obtain v where v: "trail c = v @ trail b" "\<forall>t\<in>set (tree c # v). sound_after ib (tree b) t"
    by (auto simp: archives_def)
  have "\<forall>t\<in>set (tree c # v @ u). sound_after ib (tree a) t"
    using u(2) v(2) sound_trans [of ib "tree a" "tree b"] by auto
  moreover have "mtimes c p = mtimes a p" if "fs_exists (tree a) p" "\<not> is_partial p" for p
    using that ab bc archives_exists [OF ab that] by (simp add: archives_def)
  ultimately show ?thesis using u(1) v(1) by (auto simp: archives_def intro!: exI [of _ "v @ u"])
qed

text \<open>Everything before the archiving of a recording leaves the files alone.\<close>

definition same_files :: "'s diary \<Rightarrow> 's diary \<Rightarrow> bool" where
  "same_files w w' \<longleftrightarrow> tree w' = tree w \<and> mtimes w' = mtimes w \<and> trail w' = trail w"

interpretation same: step_relation same_files
  by unfold_locales (auto simp: same_files_def)

interpretation archive: step_relation "archives ib" for ib
  by unfold_locales (rule archives_refl, rule archives_trans)

lemma same_files_archives: "same_files w w' \<Longrightarrow> archives ib w w'"
  by (auto simp: same_files_def archives_def intro!: exI [of _ "[]"])

lemma keeps_service: "keeps same_files (service f)"
  by (auto simp: keeps_def service_def same_files_def split: prod.split)

lemma keeps_stat: "keeps same_files (stat_mtime p)" "keeps same_files (read_bytes p)"
  by (auto simp: keeps_def stat_mtime_def read_bytes_def same_files_def)

lemma keeps_transcribe: "keeps same_files (transcribe E p)"
  unfolding transcribe_def sampled_def
  by (intro same.seq keeps_service keeps_stat same.pure)

lemma keeps_unfinalized: "keeps same_files (is_unfinalized_mp4 E p)"
  unfolding is_unfinalized_mp4_def
  by (auto intro!: same.seq same.handler keeps_service same.pure simp: split_beta)


text \<open>The two kinds of change, and the archiving of a recording that can be read\<close>

lemma sound_write: "is_partial p \<Longrightarrow> sound_after ib t (fs_write p c t)"
  by (auto simp: sound_after_def keeps_others_def audio_first_def fs_exists_def split: if_splits)

lemma sound_rename:
  assumes a: "is_partial a" and b: "\<not> fs_exists t b"
    and md: "\<And>n. b = ib @ [md_name n] \<Longrightarrow> \<exists>sfx\<in>set audio_suffixes. fs_exists t (ib @ [n @ sfx])"
  shows "sound_after ib t (fs_rename a b t)"
proof -
  have keep: "keeps_others t (fs_rename a b t)"
    using a b by (auto simp: keeps_others_def map_of_fs_rename fs_exists_def split: option.splits)
  have "\<exists>sfx\<in>set audio_suffixes. fs_exists (fs_rename a b t) (ib @ [n @ sfx])"
    if n: "fs_exists (fs_rename a b t) (ib @ [md_name n])" "\<not> fs_exists t (ib @ [md_name n])" for n
  proof -
    have "b = ib @ [md_name n]" using n by (auto simp: fs_exists_def map_of_fs_rename split: option.splits if_splits)
    from md [OF this] obtain sfx where sfx: "sfx \<in> set audio_suffixes" "fs_exists t (ib @ [n @ sfx])" by blast
    have "fs_exists (fs_rename a b t) (ib @ [n @ sfx])"
      using keep sfx(2) audio_not_partial [OF sfx(1)] by (auto simp: keeps_others_def fs_exists_def)
    with sfx(1) show ?thesis by blast
  qed
  with keep show ?thesis by (simp add: sound_after_def audio_first_def)
qed

fun each_after :: "path \<Rightarrow> fs list \<Rightarrow> bool" where
  "each_after ib (t' # t # ts) \<longleftrightarrow> sound_after ib t t' \<and> each_after ib (t # ts)"
| "each_after ib ts \<longleftrightarrow> True"

lemma each_after_all: "each_after ib (ts @ [t0]) \<Longrightarrow> t \<in> set (ts @ [t0]) \<Longrightarrow> sound_after ib t0 t"
proof (induction ts arbitrary: t)
  case (Cons x xs)
  from Cons.prems(1) have "each_after ib (xs @ [t0])" "sound_after ib (hd (xs @ [t0])) x" by (cases xs; simp)+
  then show ?case using Cons sound_trans [of ib t0 "hd (xs @ [t0])" x]
    by (metis Cons.IH append_is_Nil_conv hd_in_set list.distinct(1) set_ConsD append_Cons)
qed simp

lemma archive_pair_run:
  assumes c: "fs_read (tree w) src = Some c" and s: "lower (path_suffix src) \<in> set audio_suffixes"
    and src: "\<not> is_partial src"
    and new: "\<not> fs_exists (tree w) (inbox_dir E @ [md_name stamp])"
  shows "\<exists>w'. archive_pair E src stamp text w = (Inr (), w') \<and> archives (inbox_dir E) w w' \<and>
    fs_read (tree w') (inbox_dir E @ [md_name stamp]) = Some text \<and>
    (let au = inbox_dir E @ [stamp @ lower (path_suffix src)] in
      if fs_exists (tree w) au then map_of (tree w') au = map_of (tree w) au
      else fs_read (tree w') au = Some c \<and> mtimes w' au = mtimes w src)"
proof -
  define sfx where "sfx = lower (path_suffix src)"
  define ib where "ib = inbox_dir E"
  define A where "A = ib @ [stamp @ sfx]"
  define M where "M = ib @ [md_name stamp]"
  define TM where "TM = ib @ [partial_name (md_name stamp)]"
  define TA where "TA = ib @ [partial_name (stamp @ sfx)]"
  note paths = A_def M_def TM_def TA_def
  have sA: "sfx \<in> set audio_suffixes" using s by (simp add: sfx_def)
  have part: "is_partial TM" "is_partial TA" "\<not> is_partial A" "\<not> is_partial M"
    using audio_not_partial [OF sA] by (simp_all add: paths)
  have ne: "TM \<noteq> TA" "A \<noteq> M" using audio_not_md [OF sA] by (simp_all add: paths) metis
  have dist: "TM \<noteq> A" "TM \<noteq> M" "TA \<noteq> A" "TA \<noteq> M" "src \<noteq> TM" "src \<noteq> TA"
    using part src by auto
  note neq = ne dist ne [symmetric] dist [symmetric]
  let ?t0 = "tree w"
  let ?t1 = "fs_write TM [] ?t0"
  let ?t2 = "fs_write TM text ?t1"
  have M0: "\<not> fs_exists ?t0 M" using new by (simp add: M_def ib_def)
  have mA: "n = stamp" if "M = ib @ [md_name n]" for n using that by (simp add: M_def md_name_def)
  have s12: "sound_after ib ?t0 ?t1" "sound_after ib ?t1 ?t2" using part(1) by (simp_all add: sound_write)
  have run: "archive_pair E src stamp text =
      bnd (write_text E TM text) (\<lambda>_. bnd (gets (\<lambda>w. fs_exists (tree w) A)) (\<lambda>there.
        bnd (if there then ret () else bnd (copy2 src TA) (\<lambda>_. rename TA A)) (\<lambda>_. rename TM M)))"
    unfolding archive_pair_def Let_def paths sfx_def ib_def by (rule refl)
  note evals = bnd_def write_text_def change_def set_mtime_def gets_def ret_def copy2_def rename_def read_bytes_def
  show ?thesis
  proof (cases "fs_exists ?t0 A")
    case True
    let ?t3 = "fs_rename TM M ?t2"
    obtain m where w': "archive_pair E src stamp text w = (Inr (), w\<lparr>tree := ?t3, trail := [?t2, ?t1, ?t0] @ trail w,
        mtimes := (mtimes w)(TM := m, M := m)\<rparr>)"
      using True neq by (simp add: run evals fs_exists_def)
    have "sound_after ib ?t2 ?t3"
    proof (rule sound_rename [OF part(1)])
      show "\<not> fs_exists ?t2 M" using M0 neq by (simp add: fs_exists_def)
      show "\<exists>sfx\<in>set audio_suffixes. fs_exists ?t2 (ib @ [n @ sfx])" if "M = ib @ [md_name n]" for n
        using True mA [OF that] sA neq unfolding A_def by (intro bexI [of _ sfx]) (auto simp: fs_exists_def)
    qed
    with s12 have "each_after ib ([?t3, ?t2, ?t1] @ [?t0])" by simp
    from each_after_all [OF this] have "\<forall>t\<in>set (?t3 # [?t2, ?t1, ?t0]). sound_after ib ?t0 t" by simp
    then have "archives ib w (w\<lparr>tree := ?t3, trail := [?t2, ?t1, ?t0] @ trail w, mtimes := (mtimes w)(TM := m, M := m)\<rparr>)"
      using part(1) M0 unfolding archives_def
      by (intro conjI exI [of _ "[?t2, ?t1, ?t0]"]) auto
    moreover have "map_of ?t3 M = Some (NFile text)" "map_of ?t3 A = map_of ?t0 A"
      using neq by (simp_all add: map_of_fs_rename)
    ultimately show ?thesis using True w' by (auto simp: Let_def A_def M_def ib_def sfx_def fs_read_def)
  next
    case False
    let ?t3 = "fs_write TA [] ?t2"
    let ?t4 = "fs_write TA c ?t3"
    let ?t5 = "fs_rename TA A ?t4"
    let ?t6 = "fs_rename TM M ?t5"
    let ?tr = "[?t5, ?t4, ?t3, ?t2, ?t1, ?t0]"
    let ?ms = "\<lambda>m. (mtimes w)(TM := m, TA := mtimes w src, A := mtimes w src, M := m)"
    have rd: "fs_read ?t2 src = Some c" using c neq by simp
    have ex: "\<not> fs_exists ?t2 A" using False neq by (simp add: fs_exists_def)
    obtain m where w': "archive_pair E src stamp text w =
        (Inr (), w\<lparr>tree := ?t6, trail := ?tr @ trail w, mtimes := ?ms m\<rparr>)"
      using rd ex neq by (simp add: run evals)
    have m5: "map_of ?t5 p = (if p = A then Some (NFile c) else if p = TA then None else map_of ?t2 p)" for p
      using neq by (simp add: map_of_fs_rename)
    have "sound_after ib ?t2 ?t3" "sound_after ib ?t3 ?t4" using part(2) by (simp_all add: sound_write)
    moreover have "sound_after ib ?t4 ?t5"
    proof (rule sound_rename [OF part(2)])
      show "\<not> fs_exists ?t4 A" using False neq by (simp add: fs_exists_def)
      show "\<exists>sfx\<in>set audio_suffixes. fs_exists ?t4 (ib @ [n @ sfx])" if "A = ib @ [md_name n]" for n
        using that audio_not_md [OF sA] by (simp add: A_def)
    qed
    moreover have "sound_after ib ?t5 ?t6"
    proof (rule sound_rename [OF part(1)])
      show "\<not> fs_exists ?t5 M" using M0 neq by (simp add: fs_exists_def m5)
      show "\<exists>sfx\<in>set audio_suffixes. fs_exists ?t5 (ib @ [n @ sfx])" if "M = ib @ [md_name n]" for n
        using mA [OF that] sA m5 [of A] unfolding A_def by (intro bexI [of _ sfx]) (auto simp: fs_exists_def)
    qed
    ultimately have "each_after ib ([?t6, ?t5, ?t4, ?t3, ?t2, ?t1] @ [?t0])" using s12 by simp
    from each_after_all [OF this] have "\<forall>t\<in>set (?t6 # ?tr). sound_after ib ?t0 t" by simp
    moreover have "\<forall>p. fs_exists ?t0 p \<and> \<not> is_partial p \<longrightarrow> ?ms m p = mtimes w p"
      using part M0 False by auto
    ultimately have "archives ib w (w\<lparr>tree := ?t6, trail := ?tr @ trail w, mtimes := ?ms m\<rparr>)"
      unfolding archives_def by (intro conjI exI [of _ ?tr]) auto
    moreover have "map_of ?t6 M = Some (NFile text)" "map_of ?t6 A = Some (NFile c)"
      using neq m5 [of TM] m5 [of A] by (simp_all add: map_of_fs_rename [of TM])
    moreover have "?ms m A = mtimes w src" using neq by simp
    ultimately show ?thesis using False w' by (auto simp: Let_def A_def M_def ib_def sfx_def fs_read_def)
  qed
qed

section \<open>One recording\<close>

lemma bnd_cases:
  assumes "bnd m f w = (r, w')"
  obtains e where "m w = (Inl e, w')" "r = Inl e" | x w1 where "m w = (Inr x, w1)" "f x w1 = (r, w')"
  using assms by (auto simp: bnd_def split: prod.splits sum.splits)

lemma transcribe_read: "transcribe E p w = (Inr raw, w') \<Longrightarrow> \<exists>c. fs_read (tree w) p = Some c"
proof -
  assume "transcribe E p w = (Inr raw, w')"
  then obtain u w1 audio w2 where "sampled (uuid_hex E) w = (Inr u, w1)" "read_bytes p w1 = (Inr audio, w2)"
    unfolding transcribe_def by (auto simp: bnd_Inr_iff)
  then show ?thesis using keepsD [OF keeps_service, of "\<lambda>s. case uuid_hex E s of (x, s') \<Rightarrow> (Inr x, s')" w]
    by (auto simp: sampled_def read_bytes_def same_files_def split: option.splits)
qed

text \<open>
  A recording is left alone, with a reason or an exception, or it is archived; what comes
  before the archiving changes no file.
\<close>

definition left_alone :: "'s diary \<Rightarrow> exn + bool \<Rightarrow> 's diary \<Rightarrow> bool" where
  "left_alone w r w' \<longleftrightarrow> same_files w w' \<and> r \<noteq> Inr True"

definition md_of :: "'s diary_env \<Rightarrow> 's diary \<Rightarrow> path \<Rightarrow> path" where
  "md_of E w src = inbox_dir E @ [md_name (stamp_of E (mtimes w src))]"

definition audio_of :: "'s diary_env \<Rightarrow> 's diary \<Rightarrow> path \<Rightarrow> path" where
  "audio_of E w src = inbox_dir E @ [stamp_of E (mtimes w src) @ lower (path_suffix src)]"

lemma same_filesD: "same_files w w' \<Longrightarrow> tree w' = tree w" "same_files w w' \<Longrightarrow> mtimes w' = mtimes w"
  by (simp_all add: same_files_def)

lemma stat_Inr: "stat_mtime p w = (Inr m, w') \<Longrightarrow> m = mtimes w p \<and> w' = w \<and> fs_exists (tree w) p"
  by (auto simp: stat_mtime_def split: if_splits)

lemma stat_Inl: "stat_mtime p w = (Inl e, w') \<Longrightarrow> w' = w \<and> e = missing_file"
  by (auto simp: stat_mtime_def split: if_splits)

lemma keeps_due: "keeps same_files (is_due E src stamp)"
  unfolding is_due_def sampled_def
  by (auto intro!: same.seq same.pure keeps_service keeps_stat keeps_unfinalized)

lemma due_new: "is_due E src stamp w = (Inr True, w') \<Longrightarrow> \<not> fs_exists (tree w) (inbox_dir E @ [md_name stamp])"
  by (auto simp: is_due_def bnd_def gets_def ret_def)

lemma process_cases:
  assumes run: "process E src w = (r, w')"
  obtains (skipped) "left_alone w r w'"
  | (archived) w1 c raw where "same_files w w1" "fs_read (tree w) src = Some c"
      "\<not> fs_exists (tree w) (md_of E w src)"
      "bnd (archive_pair E src (stamp_of E (mtimes w src)) (entry_text E src (mtimes w src) raw)) (\<lambda>_. ret True) w1 = (r, w')"
proof -
  have alone: thesis if "same_files w w'" "r \<noteq> Inr True" using skipped that by (simp add: left_alone_def)
  let ?stamp = "stamp_of E (mtimes w src)"
  let ?archive = "\<lambda>m m' raw. bnd (archive_pair E src (stamp_of E m) (entry_text E src m' raw)) (\<lambda>_. ret True)"
  from run [unfolded process_def] show thesis
  proof (rule bnd_cases)
    show thesis if "stat_mtime src w = (Inl e, w')" "r = Inl e" for e
      using alone stat_Inl [OF that(1)] that(2) by (simp add: same_files_def)
  next
    fix m w1 assume "stat_mtime src w = (Inr m, w1)" and rest: "bnd (is_due E src (stamp_of E m)) (\<lambda>due. if \<not> due then ret False
      else bnd (transcribe E src) (\<lambda>raw. bnd (stat_mtime src) (\<lambda>m'. ?archive m m' raw))) w1 = (r, w')"
    then have m: "m = mtimes w src" "w1 = w" using stat_Inr by blast+
    from rest [unfolded m] show thesis
    proof (rule bnd_cases)
      show thesis if "is_due E src ?stamp w = (Inl e, w')" "r = Inl e" for e
        using alone keepsD [OF keeps_due that(1)] that(2) by simp
    next
      fix due w2 assume d: "is_due E src ?stamp w = (Inr due, w2)" and rest: "(if \<not> due then ret False
        else bnd (transcribe E src) (\<lambda>raw. bnd (stat_mtime src) (\<lambda>m'. ?archive (mtimes w src) m' raw))) w2 = (r, w')"
      note s2 = keepsD [OF keeps_due d]
      show thesis
      proof (cases due)
        case False
        then show thesis using rest alone s2 by (auto simp: ret_def)
      next
        case True
        with rest have "bnd (transcribe E src) (\<lambda>raw. bnd (stat_mtime src) (\<lambda>m'. ?archive (mtimes w src) m' raw)) w2 = (r, w')"
          by simp
        then show thesis
        proof (rule bnd_cases)
          show thesis if "transcribe E src w2 = (Inl e, w')" "r = Inl e" for e
            using alone same.trans [OF s2 keepsD [OF keeps_transcribe that(1)]] that(2) by simp
        next
          fix raw w3 assume t: "transcribe E src w2 = (Inr raw, w3)"
            and rest: "bnd (stat_mtime src) (\<lambda>m'. ?archive (mtimes w src) m' raw) w3 = (r, w')"
          note s3 = same.trans [OF s2 keepsD [OF keeps_transcribe t]]
          obtain c where c: "fs_read (tree w) src = Some c" using transcribe_read [OF t] same_filesD(1) [OF s2] by auto
          then have "stat_mtime src w3 = (Inr (mtimes w src), w3)"
            using fs_exists_read [OF c] same_filesD [OF s3] by (simp add: stat_mtime_def)
          with rest have "?archive (mtimes w src) (mtimes w src) raw w3 = (r, w')" by (simp add: bnd_def)
          then show thesis using archived [OF s3 c] due_new [of E src ?stamp w w2] d True by (simp add: md_of_def)
        qed
      qed
    qed
  qed
qed

text \<open>The two outcomes for a recording with the suffix of an audio file\<close>

definition is_audio :: "path \<Rightarrow> bool" where
  "is_audio p \<longleftrightarrow> lower (path_suffix p) \<in> set audio_suffixes"

lemma audio_path_not_partial: "is_audio p \<Longrightarrow> \<not> is_partial p"
proof
  assume a: "is_audio p" and "is_partial p"
  then obtain n where n: "p \<noteq> []" "last p = n @ ''.partial''" by (auto simp: is_partial_def ends_with_suffix)
  have "name_suffix (n @ ''.partial'') = ''.partial'' \<or> name_suffix (n @ ''.partial'') = []"
    by (simp add: name_suffix_def Let_def)
  then have "lower (path_suffix p) = ''.partial'' \<or> lower (path_suffix p) = []"
    using n by (auto simp: path_suffix_def path_name_def lower_def lower_char_def is_upper_def)
  with a show False by (auto simp: is_audio_def audio_suffixes_def)
qed

lemma process_archives: "is_audio src \<Longrightarrow> keeps (archives (inbox_dir E)) (process E src)"
proof (rule keepsI)
  fix w :: "'a diary" assume a: "is_audio src"
  obtain r w' where run: "process E src w = (r, w')" by fastforce
  then show "archives (inbox_dir E) w (snd (process E src w))"
  proof (cases rule: process_cases)
    case skipped
    then show ?thesis using run same_files_archives by (auto simp: left_alone_def)
  next
    case (archived w1 c raw)
    let ?stamp = "stamp_of E (mtimes w src)"
    have "\<exists>w2. archive_pair E src ?stamp (entry_text E src (mtimes w src) raw) w1 = (Inr (), w2) \<and> archives (inbox_dir E) w1 w2"
      using archive_pair_run [of w1 src c E ?stamp] archived(2,3) same_filesD [OF archived(1)] a audio_path_not_partial [OF a]
      unfolding is_audio_def md_of_def by (metis (no_types, lifting))
    then have "archives (inbox_dir E) w1 w'" using archived(4) by (auto simp: bnd_def ret_def)
    then show ?thesis using archive.trans [OF same_files_archives [OF archived(1)]] run by simp
  qed
qed

lemma process_True:
  assumes a: "is_audio src" and run: "process E src w = (Inr True, w')"
  obtains c raw where "fs_read (tree w) src = Some c" "\<not> fs_exists (tree w) (md_of E w src)"
    "fs_read (tree w') (md_of E w src) = Some (entry_text E src (mtimes w src) raw)"
    "fs_exists (tree w) (audio_of E w src) \<Longrightarrow> map_of (tree w') (audio_of E w src) = map_of (tree w) (audio_of E w src)"
    "\<not> fs_exists (tree w) (audio_of E w src) \<Longrightarrow>
       fs_read (tree w') (audio_of E w src) = Some c \<and> mtimes w' (audio_of E w src) = mtimes w src"
  using run
proof (cases rule: process_cases)
  case skipped
  then show ?thesis by (simp add: left_alone_def)
next
  case (archived w1 c raw)
  let ?stamp = "stamp_of E (mtimes w src)"
  from archive_pair_run [of w1 src c E ?stamp "entry_text E src (mtimes w src) raw"] archived(2,3) same_filesD [OF archived(1)] a audio_path_not_partial [OF a]
  obtain w2 where w2: "archive_pair E src ?stamp (entry_text E src (mtimes w src) raw) w1 = (Inr (), w2)"
    "fs_read (tree w2) (md_of E w src) = Some (entry_text E src (mtimes w src) raw)"
    "if fs_exists (tree w) (audio_of E w src) then map_of (tree w2) (audio_of E w src) = map_of (tree w) (audio_of E w src)
      else fs_read (tree w2) (audio_of E w src) = Some c \<and> mtimes w2 (audio_of E w src) = mtimes w src"
    unfolding is_audio_def md_of_def audio_of_def Let_def by (metis (no_types, lifting))
  then have "w2 = w'" using archived(4) by (auto simp: bnd_def ret_def)
  with that [OF archived(2,3)] w2(2,3) show ?thesis by (simp split: if_splits)
qed

section \<open>The run\<close>

lemma recordings_audio: "p \<in> set (recordings E w) \<Longrightarrow> is_audio p \<and> fs_is_file (tree w) p"
  by (auto simp: recordings_def Let_def is_audio_def walk_files_def)

lemma keeps_ingest_one: "is_audio p \<Longrightarrow> keeps (archives (inbox_dir E)) (ingest_one E p c)"
  unfolding ingest_one_def
  by (auto intro!: archive.handler archive.seq archive.pure process_archives)

lemma mkdirs_sound: "sound_after ib t (fs_mkdirs ib t)"
proof -
  have "ib @ [x] \<notin> set (prefixes ib)" for x using prefix_length_le [of "ib @ [x]" ib] by auto
  moreover have "set (tl (prefixes ib)) \<subseteq> set (prefixes ib)" by (cases "prefixes ib") auto
  ultimately have "ib @ [x] \<notin> set (tl (prefixes ib))" for x by blast
  then show ?thesis
    by (auto simp: sound_after_def keeps_others_def audio_first_def fs_exists_def map_of_fs_mkdirs split: if_splits)
qed

lemma ingest_archives: "archives (inbox_dir E) w (snd (ingest E w))"
proof -
  have mk: "keeps (archives (inbox_dir E)) (change (fs_mkdirs (inbox_dir E)))"
    using mkdirs_sound by (auto simp: keeps_def change_def archives_def intro!: exI [of _ "[_]"])
  have loop: "archives (inbox_dir E) w1 (snd (for_each (recordings E w1) (ingest_one E) c w1))" for w1 c
  proof -
    have "keeps (archives (inbox_dir E)) (for_each (recordings E w1) (ingest_one E) c)"
      using recordings_audio [of _ E w1] by (intro archive.loop keeps_ingest_one) blast
    then show ?thesis by (simp add: keeps_def)
  qed
  have "keeps (archives (inbox_dir E)) (bnd (gets (recordings E)) (\<lambda>sources.
      bnd (for_each sources (ingest_one E) (0, 0)) (\<lambda>(n_ok, n_failed). ret (if n_failed = 0 then 0 else 1))))"
  proof (rule keepsI)
    fix w1
    show "archives (inbox_dir E) w1 (snd (bnd (gets (recordings E)) (\<lambda>sources.
      bnd (for_each sources (ingest_one E) (0, 0)) (\<lambda>(n_ok, n_failed). ret (if n_failed = 0 then 0 else 1))) w1))"
      using loop [of w1 "(0, 0)"] by (auto simp: bnd_def gets_def ret_def split: prod.splits sum.splits)
  qed
  note step = archive.seq [OF mk this]
  have "keeps (archives (inbox_dir E)) (ingest E)"
    unfolding ingest_def by (rule archive.seq [OF archive.pure(3)]) (simp add: archive.pure step)
  then show ?thesis by (simp add: keeps_def)
qed

text \<open>
  C21. Nothing is lost and no transcript comes without its audio. In the tree a run of the
  ingest leaves, and in every tree a crash during the run could leave, each file and
  directory that existed before is exactly as it was (temporary files apart), so nothing in
  the drop directory is touched; and next to each transcript in the inbox that the run added
  there is an audio file with the same stamp.
\<close>

theorem voice_ingest_is_safe:
  assumes "ingest E w = (r, w')" "trail w = []" "t \<in> set (tree w' # trail w')"
  shows "(\<forall>p n. map_of (tree w) p = Some n \<and> \<not> is_partial p \<longrightarrow> map_of t p = Some n) \<and>
    (\<forall>n. fs_exists t (inbox_dir E @ [n @ ''.md'']) \<and> \<not> fs_exists (tree w) (inbox_dir E @ [n @ ''.md'']) \<longrightarrow>
       (\<exists>sfx\<in>set audio_suffixes. fs_exists t (inbox_dir E @ [n @ sfx])))"
proof -
  have "sound_after (inbox_dir E) (tree w) t"
    using ingest_archives [of E w] assms by (auto simp: archives_def)
  then show ?thesis by (simp add: sound_after_def keeps_others_def audio_first_def md_name_def)
qed

section \<open>Every recording is archived\<close>

text \<open>Services that answer, and recordings that have settled\<close>

definition answers :: "'s diary_env \<Rightarrow> bool" where
  "answers E \<longleftrightarrow>
     (\<forall>u s. \<exists>payload raw s'. post_upload E u s = (Inr payload, s') \<and> read_reply payload = Inr raw) \<and>
     (\<forall>p s. \<exists>err s'. ffprobe_duration E p s = (Inr (0, err), s'))"

definition settled :: "'s diary_env \<Rightarrow> rat \<Rightarrow> bool" where
  "settled E m \<longleftrightarrow> (\<forall>s. of_int (min_age E) \<le> fst (time_now E s) - m)"

lemma sampled_run: "sampled f w = (Inr (fst (f (outside w))), w\<lparr>outside := snd (f (outside w))\<rparr>)"
  by (simp add: sampled_def service_def split: prod.split)

lemma same_outside: "same_files w (w\<lparr>outside := s\<rparr>)"
  by (simp add: same_files_def)

lemma unfinalized_run:
  assumes "answers E"
  shows "\<exists>w1. is_unfinalized_mp4 E p w = (Inr False, w1) \<and> same_files w w1"
proof (cases "lower (path_suffix p) \<in> set [''.m4a'', ''.mp4'']")
  case False
  then show ?thesis by (simp add: is_unfinalized_mp4_def ret_def same.refl)
next
  case True
  obtain err s' where "ffprobe_duration E p (outside w) = (Inr (0, err), s')" using assms unfolding answers_def by blast
  then show ?thesis using True same_outside [of w s']
    by (simp add: is_unfinalized_mp4_def bnd_def try_except_def service_def ret_def)
qed

lemma transcribe_run:
  assumes "answers E" "fs_read (tree w) p = Some c"
  shows "\<exists>raw w1. transcribe E p w = (Inr raw, w1) \<and> same_files w w1"
proof -
  define w0 where "w0 = w\<lparr>outside := snd (uuid_hex E (outside w))\<rparr>"
  let ?up = "upload_of E (''----voicediary'' @ fst (uuid_hex E (outside w))) (path_name p) c"
  obtain payload raw s' where r: "post_upload E ?up (outside w0) = (Inr payload, s')" "read_reply payload = Inr raw"
    using assms(1) unfolding answers_def by blast
  have "transcribe E p w = (Inr raw, w0\<lparr>outside := s'\<rparr>)"
    using r assms(2) by (simp add: transcribe_def bnd_def sampled_run read_bytes_def service_def of_result_def w0_def)
  then show ?thesis by (auto simp: same_files_def w0_def)
qed

lemma due_run:
  assumes E: "answers E" "settled E (mtimes w src)" and src: "fs_exists (tree w) src"
    and new: "\<not> fs_exists (tree w) (inbox_dir E @ [md_name stamp])"
    and own: "from_inbox E \<Longrightarrow> path_stem src = stamp"
  shows "\<exists>w1. is_due E src stamp w = (Inr True, w1) \<and> same_files w w1"
proof -
  define w0 where "w0 = w\<lparr>outside := snd (time_now E (outside w))\<rparr>"
  obtain w1 where w1: "is_unfinalized_mp4 E src w0 = (Inr False, w1)" "same_files w0 w1"
    using unfinalized_run [OF E(1)] by blast
  have s0: "same_files w w0" by (simp add: w0_def same_outside)
  have "\<not> fst (time_now E (outside w)) - mtimes w src < of_int (min_age E)"
    using E(2) by (auto simp: settled_def not_less)
  then have "is_due E src stamp w = (Inr True, if from_inbox E then w0 else w1)"
    using src new own w1(1)
    by (auto simp: is_due_def bnd_def gets_def sampled_run stat_mtime_def ret_def w0_def)
  then show ?thesis using same.trans [OF s0 w1(2)] s0 by (auto split: if_splits)
qed

lemma process_run:
  assumes E: "answers E" "settled E (mtimes w src)" and a: "is_audio src" and c: "fs_read (tree w) src = Some c"
    and own: "from_inbox E \<Longrightarrow> path_stem src = stamp_of E (mtimes w src)"
  shows "\<exists>b w'. process E src w = (Inr b, w') \<and> (b \<longleftrightarrow> \<not> fs_exists (tree w) (md_of E w src)) \<and> fs_exists (tree w') (md_of E w src)"
proof (cases "fs_exists (tree w) (md_of E w src)")
  case True
  have "process E src w = (Inr False, w)"
    using True fs_exists_read [OF c] by (simp add: process_def bnd_def stat_mtime_def is_due_def gets_def ret_def md_of_def)
  with True show ?thesis by blast
next
  case False
  let ?stamp = "stamp_of E (mtimes w src)"
  obtain w1 where w1: "is_due E src ?stamp w = (Inr True, w1)" "same_files w w1"
    using due_run [OF E fs_exists_read [OF c], of ?stamp] False own by (auto simp: md_of_def)
  obtain raw w2 where w2: "transcribe E src w1 = (Inr raw, w2)" "same_files w1 w2"
    using transcribe_run [OF E(1), of w1 src c] c same_filesD [OF w1(2)] by auto
  note s = same.trans [OF w1(2) w2(2)]
  let ?text = "entry_text E src (mtimes w src) raw"
  obtain w3 where w3: "archive_pair E src ?stamp ?text w2 = (Inr (), w3)" "fs_read (tree w3) (md_of E w src) = Some ?text"
    using archive_pair_run [of w2 src c E ?stamp ?text] c a False audio_path_not_partial [OF a] same_filesD [OF s]
    by (auto simp: is_audio_def md_of_def)
  have "process E src w = (Inr True, w3)"
    using w1 w2 w3 fs_exists_read [OF c] same_filesD [OF s] by (simp add: process_def bnd_def stat_mtime_def ret_def)
  with w3 False show ?thesis by (auto intro: fs_exists_read)
qed

lemma archives_read: "archives ib w0 w \<Longrightarrow> fs_read (tree w0) p = Some c \<Longrightarrow> \<not> is_partial p \<Longrightarrow> fs_read (tree w) p = Some c"
  by (auto simp: archives_def sound_after_def keeps_others_def fs_read_def split: option.splits node.splits)

lemma archives_mtime: "archives ib w0 w \<Longrightarrow> fs_read (tree w0) p = Some c \<Longrightarrow> \<not> is_partial p \<Longrightarrow> mtimes w p = mtimes w0 p"
  using fs_exists_read by (auto simp: archives_def)






lemma zero_pad_digits: "c \<in> set (zero_pad k (int n)) \<Longrightarrow> is_digit c"
  using show_nat_digits [of c n] is_digit_char [of 0]
  by (auto simp: zero_pad_def Let_def digit_char_def)

lemma stamp_plain: "CHR ''.'' \<notin> set (stamp_text t) \<and> stamp_text t \<noteq> []"
  using zero_pad_digits [of "CHR ''.''"] show_nat_digits [of "CHR ''.''"] by (auto simp: stamp_text_def is_digit_def)

lemma suffix_of_pair:
  assumes "CHR ''.'' \<notin> set st" "st \<noteq> []" "s \<in> set audio_suffixes"
  shows "name_suffix (st @ s) = s \<and> name_stem (st @ s) = st"
proof -
  have "name_suffix (st @ s) = s"
    using assms(2,3) by (auto simp: audio_suffixes_def name_suffix_def Let_def Suc_le_eq)
  then show ?thesis by (simp add: name_stem_def)
qed

text \<open>
  C23. Recovery refills the gap. Once a recording has been archived, the inbox can stand in for
  the drop directory: if its transcript is deleted, the run in recovery mode accepts the
  archived audio, maps it to the very same stamp, transcribes it, and writes the transcript
  under the old name.
\<close>

theorem recovery_refills:
  assumes run: "process E src w = (Inr True, w')" and a: "is_audio src"
    and fresh: "\<not> fs_exists (tree w) (audio_of E w src)"
    and E: "answers E" "settled (E\<lparr>from_inbox := True\<rparr>) (mtimes w src)"
  shows "case process (E\<lparr>from_inbox := True\<rparr>) (audio_of E w src) (w'\<lparr>tree := fs_unlink (md_of E w src) (tree w')\<rparr>) of
    (r, w2) \<Rightarrow> r = Inr True \<and> fs_exists (tree w2) (md_of E w src)"
proof -
  let ?E = "E\<lparr>from_inbox := True\<rparr>" and ?A = "audio_of E w src" and ?stamp = "stamp_of E (mtimes w src)"
  let ?w = "w'\<lparr>tree := fs_unlink (md_of E w src) (tree w')\<rparr>"
  from process_True [OF a run] fresh obtain c where c: "fs_read (tree w') ?A = Some c" "mtimes w' ?A = mtimes w src"
    by metis
  have sA: "lower (path_suffix src) \<in> set audio_suffixes" using a by (simp add: is_audio_def)
  have sfx: "name_suffix (?stamp @ s) = s \<and> name_stem (?stamp @ s) = ?stamp" if "s \<in> set audio_suffixes" for s
    using suffix_of_pair that stamp_plain by (simp add: stamp_of_def)
  have ne: "?A \<noteq> md_of E w src" using audio_not_md [OF sA] by (simp add: audio_of_def md_of_def)
  have m: "mtimes ?w ?A = mtimes w src" using c(2) by simp
  have st: "stamp_of ?E x = stamp_of E x" for x by (simp add: stamp_of_def)
  have md: "md_of ?E ?w ?A = md_of E w src" using m st by (simp add: md_of_def)
  have name: "path_name ?A = ?stamp @ lower (path_suffix src)"
  proof -
    have "?stamp @ lower (path_suffix src) \<noteq> ''/''" using sA by (auto simp: audio_suffixes_def append_eq_Cons_conv)
    then show ?thesis by (simp add: path_name_def audio_of_def)
  qed
  have "path_suffix ?A = lower (path_suffix src)" using sfx [OF sA] by (simp only: path_suffix_def [of ?A] name)
  then have au: "is_audio ?A" using sA by (simp add: is_audio_def)
  have "answers ?E" using E(1) by (simp add: answers_def upload_of_def)
  moreover have "fs_read (tree ?w) ?A = Some c" using c(1) ne by simp
  moreover have "path_stem ?A = stamp_of ?E (mtimes ?w ?A)" "is_audio ?A"
    using sfx [OF sA] m st au unfolding path_stem_def name by simp_all
  ultimately obtain b w2 where "process ?E ?A ?w = (Inr b, w2)" "b \<longleftrightarrow> \<not> fs_exists (tree ?w) (md_of E w src)"
    "fs_exists (tree w2) (md_of E w src)"
    using process_run [of ?E ?w ?A c] E(2) m md by auto
  then show ?thesis by (simp add: fs_exists_def)
qed

lemma sentence_breaks:
  "q \<in> set (rx_match (RSeq (RBehind P) rspaces1) p) \<Longrightarrow>
     \<exists>w. rest_of p = w @ rest_of q \<and> w \<noteq> [] \<and> list_all is_space w"
proof -
  assume "q \<in> set (rx_match (RSeq (RBehind P) rspaces1) p)"
  then obtain x where "x \<in> set (rx_match (RBehind P) p)" "q \<in> set (rx_match rspaces1 x)" by (blast dest: rx_seqD)
  moreover from this(1) have "x = p" by (auto split: option.splits if_splits)
  ultimately show ?thesis using plusD unfolding rspaces1_def by blast
qed

lemma words_in_sentences: "words_in (sentences text) = split_ws text"
  unfolding sentences_def words_in_strip by (rule re_split_words) (rule sentence_breaks)

section \<open>Paragraphs\<close>

lemma words_in_fill: "words_in (fill_paragraphs cur n ss) = words_in (cur @ ss)"
proof (induction cur n ss rule: fill_paragraphs.induct)
  case (1 cur n)
  then show ?case using split_ws_join [of "'' ''" cur] by (simp add: is_space_def)
next
  case (2 cur n s ss)
  then show ?case using split_ws_join [of "'' ''" cur] by (auto simp: is_space_def)
qed

lemma last_two: "1 < length xs \<Longrightarrow> xs = butlast (butlast xs) @ [last (butlast xs), last xs]"
proof -
  assume "1 < length xs"
  then have "xs \<noteq> []" "butlast xs \<noteq> []" by (auto simp: butlast_conv_take)
  then show ?thesis by (metis append_butlast_last_id append.assoc append_Cons append_Nil)
qed

lemma words_in_fold_tail: "words_in (fold_tail paras) = words_in paras"
proof (cases "1 < length paras \<and> num_words (last paras) < 25")
  case True
  have "words_in paras = words_in (butlast (butlast paras)) @ split_ws (last (butlast paras)) @ split_ws (last paras)"
    using last_two [of paras] True words_in_simps by (metis append_Nil2)
  moreover have "split_ws (last (butlast paras) @ '' '' @ last paras) = split_ws (last (butlast paras)) @ split_ws (last paras)"
    by (rule split_ws_gap) (simp_all add: is_space_def)
  ultimately show ?thesis using True by (simp add: fold_tail_def)
qed (auto simp: fold_tail_def)

definition longest :: "string list \<Rightarrow> nat" where
  "longest ss = foldr max (map num_words ss) 0"

lemma num_words_join: "num_words (join '' '' cur) = length (words_in cur)"
  using split_ws_join [of "'' ''" cur] by (simp add: num_words_def is_space_def)

lemma fill_sizes:
  assumes "n = length (words_in cur)" "n < max_words_per_paragraph + k" "\<forall>s\<in>set ss. num_words s \<le> k"
  shows "list_all (\<lambda>p. min_words_before_break \<le> num_words p) (butlast (fill_paragraphs cur n ss)) \<and>
    list_all (\<lambda>p. num_words p < max_words_per_paragraph + k) (fill_paragraphs cur n ss)"
  using assms
proof (induction cur n ss rule: fill_paragraphs.induct)
  case (1 cur n)
  then show ?case by (simp add: num_words_join)
next
  case (2 cur n s ss)
  show ?case
  proof (cases "cur \<noteq> [] \<and> (starts_topic s \<and> min_words_before_break \<le> n \<or> max_words_per_paragraph \<le> n)")
    case True
    have "num_words s = length (words_in [s])" by (simp add: num_words_def)
    moreover have "num_words s < max_words_per_paragraph + k" using "2.prems"(3) by (auto simp: max_words_per_paragraph_def)
    ultimately have "list_all (\<lambda>p. min_words_before_break \<le> num_words p) (butlast (fill_paragraphs [s] (num_words s) ss)) \<and>
        list_all (\<lambda>p. num_words p < max_words_per_paragraph + k) (fill_paragraphs [s] (num_words s) ss)"
      using "2.IH"(1) [OF True] "2.prems"(3) by simp
    moreover have "min_words_before_break \<le> num_words (join '' '' cur)"
      using True "2.prems"(1) by (auto simp: num_words_join min_words_before_break_def max_words_per_paragraph_def)
    ultimately show ?thesis using True "2.prems"(1,2) by (simp add: num_words_join)
  next
    case False
    have "n + num_words s = length (words_in (cur @ [s]))" using "2.prems"(1) by (simp add: num_words_def)
    moreover have "n + num_words s < max_words_per_paragraph + k"
    proof (cases "cur = []")
      case True
      then show ?thesis using "2.prems"(1,3) by (auto simp: max_words_per_paragraph_def)
    next
      case c: False
      with False have "n < max_words_per_paragraph" by auto
      then show ?thesis using "2.prems"(3) by auto
    qed
    moreover have "fill_paragraphs cur n (s # ss) = fill_paragraphs (cur @ [s]) (n + num_words s) ss"
      by (simp only: fill_paragraphs.simps if_not_P [OF False])
    ultimately show ?thesis using "2.IH"(2) [OF False] "2.prems"(3) by (simp del: words_in_simps)
  qed
qed

lemma longest_ge: "s \<in> set ss \<Longrightarrow> num_words s \<le> longest ss"
  by (induction ss) (auto simp: longest_def)

lemma butlast_sizes: "list_all P (butlast xs) \<Longrightarrow> list_all P (butlast (butlast xs))"
  by (auto simp: list_all_iff dest: in_set_butlastD)

text \<open>
  C24. Paragraphs. Breaking a transcript into paragraphs keeps all its words in their order;
  every paragraph except the last has at least 60 words, and none has 225 words more than the
  longest sentence.
\<close>

theorem paragraphs_read_well:
  "split_ws (join [CHR 0x0A, CHR 0x0A] (paragraphs text)) = split_ws text \<and>
   list_all (\<lambda>p. 60 \<le> length (split_ws p)) (butlast (paragraphs text)) \<and>
   list_all (\<lambda>p. length (split_ws p) < 225 + longest (sentences text)) (paragraphs text)"
proof -
  let ?ps = "fill_paragraphs [] 0 (sentences text)" and ?k = "longest (sentences text)"
  have words: "words_in (paragraphs text) = split_ws text"
    by (simp add: paragraphs_def words_in_fold_tail words_in_fill words_in_sentences)
  have sizes: "list_all (\<lambda>p. 60 \<le> num_words p) (butlast ?ps)" "list_all (\<lambda>p. num_words p < 200 + ?k) ?ps"
    using fill_sizes [of 0 "[]" ?k "sentences text"] longest_ge
    by (simp_all add: min_words_before_break_def max_words_per_paragraph_def)
  have "list_all (\<lambda>p. 60 \<le> num_words p) (butlast (paragraphs text)) \<and>
      list_all (\<lambda>p. num_words p < 225 + ?k) (paragraphs text)"
  proof (cases "1 < length ?ps \<and> num_words (last ?ps) < 25")
    case True
    have "list_all (\<lambda>p. num_words p < 200 + ?k) (butlast (butlast ?ps) @ [last (butlast ?ps), last ?ps])"
      using sizes(2) last_two [of ?ps] True by metis
    moreover have "num_words (last (butlast ?ps) @ '' '' @ last ?ps) = num_words (last (butlast ?ps)) + num_words (last ?ps)"
      using split_ws_gap [of "'' ''" "last (butlast ?ps)" "last ?ps"] by (simp add: num_words_def is_space_def)
    ultimately show ?thesis using True butlast_sizes [OF sizes(1)] by (auto simp: paragraphs_def fold_tail_def list_all_iff)
  next
    case False
    then show ?thesis using sizes by (auto simp: paragraphs_def fold_tail_def list_all_iff)
  qed
  then show ?thesis using words split_ws_join [of "[CHR 0x0A, CHR 0x0A]" "paragraphs text"]
    by (simp add: num_words_def is_space_def)
qed

text \<open>
  What the deduplication keeps: lines in their order, none of which echoes one of the twelve
  kept before it.
\<close>

fun echo_free :: "string list \<Rightarrow> string list \<Rightarrow> bool" where
  "echo_free recent [] \<longleftrightarrow> True"
| "echo_free recent (l # ls) \<longleftrightarrow>
     (norm_line l = [] \<or> \<not> is_echo (norm_line l) recent) \<and>
     echo_free (last_n dedupe_window (recent @ [norm_line l])) ls"

lemma drop_echoes_spec: "subseq (drop_echoes recent ls) ls \<and> echo_free recent (drop_echoes recent ls)"
  by (induction recent ls rule: drop_echoes.induct) (auto simp: Let_def)

text \<open>
  Two recordings whose times fall in the same second share a stamp, and the second is taken
  for the first: once one has been archived, the other is skipped for good.
\<close>

theorem same_second_is_lost:
  assumes "process E p w = (Inr True, w')" "is_audio p" "is_audio q" "fs_read (tree w) q = Some c"
    and "stamp_of E (mtimes w q) = stamp_of E (mtimes w p)"
  shows "process E q w' = (Inr False, w')"
proof -
  have ar: "archives (inbox_dir E) w w'" using keepsD [OF process_archives [OF assms(2)] assms(1)] .
  note nq = audio_path_not_partial [OF assms(3)]
  have q: "fs_exists (tree w') q" "mtimes w' q = mtimes w q"
    using archives_read [OF ar assms(4) nq] archives_mtime [OF ar assms(4) nq] fs_exists_read by blast+
  have "fs_exists (tree w') (md_of E w p)" using process_True [OF assms(2,1)] fs_exists_read by metis
  then have "is_due E q (stamp_of E (mtimes w q)) w' = (Inr False, w')"
    using assms(5) by (simp add: is_due_def bnd_def gets_def ret_def md_of_def)
  with q show ?thesis by (simp add: process_def bnd_def stat_mtime_def ret_def)
qed

section \<open>A run on one recording\<close>

definition demo_reply :: string where
  \<open>demo_reply = ''{"text": "hello"}''\<close>

definition demo_env :: "unit diary_env" where
  "demo_env =
     \<lparr>inbox_dir = [''/'', ''inbox''], phone_dir = [''/'', ''drop''], from_inbox = False, whisper_model = ''large'',
      whisper_prompt = [], phone_min_age = 60, ffprobe_duration = (\<lambda>_ s. (Inr (0, []), s)),
      post_upload = (\<lambda>_ s. (Inr demo_reply, s)), uuid_hex = (\<lambda>s. (''00'', s)), time_now = (\<lambda>s. (1000, s)),
      write_clock = (\<lambda>_. 1000),
      local_time = (\<lambda>m. \<lparr>wt_year = 2026, wt_month = 9, wt_day = 10, wt_hour = 16, wt_minute = nat \<lfloor>m\<rfloor> div 60,
        wt_second = nat \<lfloor>m\<rfloor> mod 60\<rparr>), guess_type = (\<lambda>_. None)\<rparr>"

definition demo_file :: path where "demo_file = [''/'', ''drop'', ''My recording 4.m4a'']"

definition demo_world :: "unit diary" where
  "demo_world =
     \<lparr>outside = (),
      tree = [([''/''], NDir), ([''/'', ''drop''], NDir), (demo_file, NFile ''audio''), ([''/'', ''inbox''], NDir)],
      mtimes = (\<lambda>_. 125), trail = []\<rparr>"

lemma demo_answers: "answers demo_env" "answers (demo_env\<lparr>from_inbox := b\<rparr>)"
proof -
  have "read_reply demo_reply = Inr ''hello''" by code_simp
  then show "answers demo_env" "answers (demo_env\<lparr>from_inbox := b\<rparr>)" by (auto simp: answers_def demo_env_def)
qed

lemma demo_settled: "settled demo_env (mtimes demo_world p)" "settled (demo_env\<lparr>from_inbox := b\<rparr>) (mtimes demo_world p)"
  by (simp_all add: settled_def demo_env_def demo_world_def min_age_def)


lemma demo_facts:
  "is_audio demo_file" "fs_read (tree demo_world) demo_file = Some ''audio''"
  "\<not> fs_exists (tree demo_world) (md_of demo_env demo_world demo_file)"
  "\<not> fs_exists (tree demo_world) (audio_of demo_env demo_world demo_file)"
  "stamp_of demo_env 125 = ''2026-09-10_160205''"
  by code_simp+

theorem voice_ingest_is_safe_witness:
  "map_of (tree (snd (ingest demo_env demo_world))) demo_file = Some (NFile ''audio'')"
proof -
  have "\<not> is_partial demo_file" using audio_path_not_partial [OF demo_facts(1)] .
  moreover have "map_of (tree demo_world) demo_file = Some (NFile ''audio'')" by code_simp
  moreover have "ingest demo_env demo_world = (fst (ingest demo_env demo_world), snd (ingest demo_env demo_world))" by simp
  ultimately show ?thesis
    using voice_ingest_is_safe [of demo_env demo_world _ _ "tree (snd (ingest demo_env demo_world))"]
    by (metis demo_world_def diary.select_convs(4) list.set_intros(1))
qed


theorem recovery_refills_witness:
  "\<exists>w'. process demo_env demo_file demo_world = (Inr True, w') \<and>
    fst (process (demo_env\<lparr>from_inbox := True\<rparr>) (audio_of demo_env demo_world demo_file)
      (w'\<lparr>tree := fs_unlink (md_of demo_env demo_world demo_file) (tree w')\<rparr>)) = Inr True"
proof -
  obtain w' where w': "process demo_env demo_file demo_world = (Inr True, w')"
    using process_run [OF demo_answers(1) demo_settled(1) demo_facts(1,2)] demo_facts(3)
    by (auto simp: demo_env_def)
  from recovery_refills [OF w' demo_facts(1,4) demo_answers(1) demo_settled(2)] w' show ?thesis
    by (auto split: prod.splits)
qed

theorem same_second_is_lost_witness:
  "\<exists>w'. process demo_env demo_file demo_world = (Inr True, w') \<and> process demo_env demo_file w' = (Inr False, w')"
proof -
  obtain w' where w': "process demo_env demo_file demo_world = (Inr True, w')"
    using process_run [OF demo_answers(1) demo_settled(1) demo_facts(1,2)] demo_facts(3)
    by (auto simp: demo_env_def)
  from same_second_is_lost [OF w' demo_facts(1,1,2)] w' show ?thesis by simp
qed

end
