(* ===== verification/Audio_Audit.thy ===== *)
theory Audio_Audit
  imports Py_Float Py_Path "HOL-Library.Word"
begin

text \<open>
  The audit of audiobook files (audio-silence-audit.py): spans of decoded silence, gaps in the
  packet timeline, and drift between the duration of the header and that of the audio. What
  ffprobe and ffmpeg print is a parameter. Samples are 16-bit words read from the bytes; the
  test against the threshold in decibels is computed with rationals, and proved to be the
  test on the logarithm. Times are exact.
\<close>

section \<open>Results and tools\<close>

record silence_run =
  start_s :: rat
  end_s :: rat
  duration_s :: rat

text \<open>What a tool prints, its exit status, and its error output\<close>

record tool_output =
  out_text :: string
  out_code :: int
  out_errors :: string

record audit_env =
  probe_duration :: "path \<Rightarrow> tool_output"
  probe_packets :: "path \<Rightarrow> tool_output"
  decode_pcm :: "path \<Rightarrow> tool_output"

record audit_options =
  sample_rate :: nat
  threshold_dbfs :: rat
  min_silence :: rat
  min_timestamp_gap :: rat
  max_duration_drift :: rat
  skip_rms :: bool
  only_suspicious :: bool
  as_json :: bool
  recursive :: bool

definition listen_suffixes :: "string list" where
  "listen_suffixes = [''.m4b'', ''.m4a'', ''.mp3'', ''.aac'', ''.flac'', ''.ogg'', ''.opus'', ''.wav'']"

definition format_hms :: "rat \<Rightarrow> string" where
  "format_hms seconds =
     (let total = round_even seconds; rem = total mod 3600 in
      zero_pad 2 (total div 3600) @ '':'' @ zero_pad 2 (rem div 60) @ '':'' @ zero_pad 2 (rem mod 60))"

definition ffprobe_duration :: "audit_env \<Rightarrow> path \<Rightarrow> rat option" where
  "ffprobe_duration E p =
     (let r = probe_duration E p in
      if out_code r \<noteq> 0 \<or> strip (out_text r) = [] then None else py_float (strip (out_text r)))"

section \<open>The packet timeline\<close>

text \<open>A line of two comma-separated numbers: the time a packet starts and how long it lasts\<close>

definition read_packet :: "string \<Rightarrow> (rat \<times> rat) option" where
  "read_packet raw =
     (case split_on (CHR '','') (strip raw) of
        a # b # _ \<Rightarrow>
          if a = [] \<or> b = [] then None
          else (case (py_float a, py_float b) of (Some pts, Some d) \<Rightarrow> Some (pts, d) | _ \<Rightarrow> None)
      | _ \<Rightarrow> None)"

record timeline =
  gap_runs :: "silence_run list"
  packet_count :: nat
  packet_seconds :: rat
  prev_end :: "rat option"
  timeline_end :: rat

definition timeline_start :: timeline where
  "timeline_start =
     \<lparr>gap_runs = [], packet_count = 0, packet_seconds = 0, prev_end = None, timeline_end = 0\<rparr>"

definition make_run :: "rat \<Rightarrow> rat \<Rightarrow> silence_run" where
  "make_run a b = \<lparr>start_s = a, end_s = b, duration_s = b - a\<rparr>"

definition see_packet :: "rat \<Rightarrow> rat \<times> rat \<Rightarrow> timeline \<Rightarrow> timeline" where
  "see_packet min_gap p st =
     (case p of (pts, d) \<Rightarrow>
        st\<lparr>gap_runs := gap_runs st @ (case prev_end st of
             Some e \<Rightarrow> if min_gap \<le> pts - e then [make_run e pts] else [] | None \<Rightarrow> []),
           packet_seconds := packet_seconds st + d, prev_end := Some (pts + d), timeline_end := pts + d,
           packet_count := Suc (packet_count st)\<rparr>)"

definition see_line :: "rat \<Rightarrow> string \<Rightarrow> timeline \<Rightarrow> timeline" where
  "see_line min_gap raw st = (case read_packet raw of None \<Rightarrow> st | Some p \<Rightarrow> see_packet min_gap p st)"

definition text_lines :: "string \<Rightarrow> string list" where
  "text_lines s = split_on (CHR 0x0A) (universal s)"

definition scan_packet_timeline :: "audit_env \<Rightarrow> path \<Rightarrow> rat \<Rightarrow> exn + timeline" where
  "scan_packet_timeline E p min_gap =
     (let r = probe_packets E p; st = fold (see_line min_gap) (text_lines (out_text r)) timeline_start in
      if out_code r \<noteq> 0
      then Inl (RuntimeError (''ffprobe packet scan failed for '' @ path_str p @ '': '' @ strip (out_errors r)))
      else Inr st)"

definition total_seconds :: "silence_run list \<Rightarrow> rat" where
  "total_seconds rs = sum_list (map duration_s rs)"

section \<open>The decoded audio\<close>

text \<open>Little-endian 16-bit samples; an odd byte at the end is dropped.\<close>

definition sample_of :: "char \<Rightarrow> char \<Rightarrow> int" where
  "sample_of lo hi = sint (word_of_nat (of_char lo + 256 * of_char hi) :: 16 word)"

fun unpack_samples :: "string \<Rightarrow> int list" where
  "unpack_samples (lo # hi # rest) = sample_of lo hi # unpack_samples rest"
| "unpack_samples _ = []"

definition energy :: "int list \<Rightarrow> rat" where
  "energy xs = of_int (sum_list (map (\<lambda>x. x * x) xs)) / of_nat (length xs)"

text \<open>
  \<open>dbfs <= threshold\<close> without the logarithm: for a threshold p/q, the mean square relative to
  full scale, to the power 10 q, is compared with 10 to the power p.
\<close>

definition is_quiet :: "rat \<Rightarrow> rat \<Rightarrow> bool" where
  "is_quiet threshold e =
     (if e = 0 then threshold \<ge> - 120
      else (case quotient_of threshold of (p, q) \<Rightarrow> (e / 2 ^ 30) ^ nat (10 * q) \<le> pow10 p))"

text \<open>The windows one second long: reading stops at the end, or at a window without a sample.\<close>

function pcm_windows :: "nat \<Rightarrow> string \<Rightarrow> int list list" where
  "pcm_windows rate s =
     (if rate = 0 \<or> length s < 2 then []
      else unpack_samples (take (2 * rate) s) # pcm_windows rate (drop (2 * rate) s))"
  by pat_completeness auto
termination by (relation "measure (\<lambda>(rate, s). length s)") auto

declare pcm_windows.simps [simp del]

record scan_state =
  quiet_runs :: "silence_run list"
  quiet_start :: "rat option"
  scan_time :: rat
  windows_seen :: nat

definition scan_start :: scan_state where
  "scan_start = \<lparr>quiet_runs = [], quiet_start = None, scan_time = 0, windows_seen = 0\<rparr>"

definition close_run :: "rat \<Rightarrow> scan_state \<Rightarrow> scan_state" where
  "close_run min_len st =
     (case quiet_start st of
        None \<Rightarrow> st
      | Some a \<Rightarrow>
          st\<lparr>quiet_runs := quiet_runs st @
               (if min_len \<le> scan_time st - a then [make_run a (scan_time st)] else []),
             quiet_start := None\<rparr>)"

definition see_window :: "audit_options \<Rightarrow> int list \<Rightarrow> scan_state \<Rightarrow> scan_state" where
  "see_window A xs st =
     (let st' = (if is_quiet (threshold_dbfs A) (energy xs)
                 then (if quiet_start st = None then st\<lparr>quiet_start := Some (scan_time st)\<rparr> else st)
                 else close_run (min_silence A) st)
      in st'\<lparr>scan_time := scan_time st' + of_nat (length xs) / of_nat (sample_rate A),
             windows_seen := Suc (windows_seen st')\<rparr>)"

definition scan_decoded_audio :: "audit_env \<Rightarrow> audit_options \<Rightarrow> path \<Rightarrow> exn + rat \<times> silence_run list \<times> nat" where
  "scan_decoded_audio E A p =
     (let r = decode_pcm E p;
          st = close_run (min_silence A)
                 (fold (see_window A) (pcm_windows (sample_rate A) (out_text r)) scan_start)
      in if out_code r \<noteq> 0
         then Inl (RuntimeError (''ffmpeg failed for '' @ path_str p @ '': '' @ strip (out_errors r)))
         else Inr (scan_time st, quiet_runs st, windows_seen st))"

section \<open>One file, and the report\<close>

record audit_report =
  report_path :: path
  header_seconds :: "rat option"
  decoded_seconds :: "rat option"
  decoded_drift :: "rat option"
  packet_drift :: "rat option"
  packets :: timeline
  silences :: "silence_run list"
  suspicious :: bool
  windows_scanned :: nat

definition drifts :: "rat \<Rightarrow> rat option \<Rightarrow> bool" where
  "drifts limit d = (case d of None \<Rightarrow> False | Some x \<Rightarrow> limit \<le> \<bar>x\<bar>)"

definition scan_file :: "audit_env \<Rightarrow> audit_options \<Rightarrow> path \<Rightarrow> exn + audit_report" where
  "scan_file E A p =
     (let header = ffprobe_duration E p in
      rbnd (scan_packet_timeline E p (min_timestamp_gap A)) (\<lambda>tl.
      rbnd (if skip_rms A then Inr (None, [], 0)
            else rbnd (scan_decoded_audio E A p) (\<lambda>(d, runs, n). Inr (Some d, runs, n))) (\<lambda>(decoded, runs, n).
      let dd = (case (header, decoded) of (Some h, Some d) \<Rightarrow> Some (h - d) | _ \<Rightarrow> None);
          pd = map_option (\<lambda>h. h - packet_seconds tl) header
      in Inr \<lparr>report_path = p, header_seconds = header, decoded_seconds = decoded, decoded_drift = dd,
              packet_drift = pd, packets = tl, silences = runs,
              suspicious = (runs \<noteq> [] \<or> gap_runs tl \<noteq> [] \<or> drifts (max_duration_drift A) dd \<or>
                            drifts (max_duration_drift A) pd),
              windows_scanned = n\<rparr>)))"

definition is_listenable :: "fs \<Rightarrow> path \<Rightarrow> bool" where
  "is_listenable t p \<longleftrightarrow> fs_is_file t p \<and> lower (path_suffix p) \<in> set listen_suffixes"

definition iter_audio_files :: "fs \<Rightarrow> bool \<Rightarrow> path list \<Rightarrow> path list" where
  "iter_audio_files t deep paths =
     sort (concat (map (\<lambda>p.
       if is_listenable t p then [p]
       else if \<not> fs_is_dir t p then []
       else filter (is_listenable t) (if deep then fs_below t p else fs_children t p)) paths))"

definition signed_hms :: "rat option \<Rightarrow> string" where
  "signed_hms d =
     (case d of
        None \<Rightarrow> ''-None''
      | Some x \<Rightarrow> (if 0 \<le> x then ''+'' else ''-'') @ format_hms \<bar>x\<bar>)"

definition run_line :: "string \<Rightarrow> silence_run \<Rightarrow> string" where
  "run_line label r =
     ''  '' @ label @ '': '' @ format_hms (start_s r) @ '' -> '' @ format_hms (end_s r) @
     '' ('' @ format_hms (duration_s r) @ '')''"

definition run_lines :: "string \<Rightarrow> silence_run list \<Rightarrow> string list" where
  "run_lines label rs =
     (if rs = [] then [''  '' @ label @ '': none above threshold''] else map (run_line label) rs)"

definition report_lines :: "audit_report \<Rightarrow> string list" where
  "report_lines r =
     [path_str (report_path r)] @
     (case decoded_seconds r of None \<Rightarrow> [] | Some d \<Rightarrow> [''  decoded: '' @ format_hms d]) @
     (case header_seconds r of None \<Rightarrow> []
      | Some h \<Rightarrow> [''  header : '' @ format_hms h @
          (if decoded_seconds r = None then [] else '' (decoded drift '' @ signed_hms (decoded_drift r) @ '')'')]) @
     [''  packet : '' @ format_hms (packet_seconds (packets r)) @ '' ('' @
        (if packet_drift r = None then [] else ''header drift '' @ signed_hms (packet_drift r) @ '', '') @
        ''timeline end '' @ format_hms (timeline_end (packets r)) @ '')''] @
     run_lines ''gap    '' (gap_runs (packets r)) @ run_lines ''silence'' (silences r) @ [[]]"

datatype audit_output = NoFiles | Reports "audit_report list" | Printed "string list"

definition audit :: "audit_env \<Rightarrow> audit_options \<Rightarrow> fs \<Rightarrow> path list \<Rightarrow> exn + int \<times> audit_output" where
  "audit E A t paths =
     (let targets = iter_audio_files t (recursive A) paths in
      if targets = [] then Inr (1, NoFiles)
      else
        rbnd (rmap (scan_file E A) targets) (\<lambda>results.
        let shown = (if only_suspicious A then filter suspicious results else results) in
        Inr (0, if as_json A then Reports shown else Printed (concat (map report_lines shown)))))"

section \<open>The threshold in decibels\<close>

definition dbfs :: "rat \<Rightarrow> real" where
  "dbfs e = (if e = 0 then - 120 else 20 * log 10 (sqrt (of_rat e) / 32768))"

lemma log_full_scale:
  assumes "0 < (x :: real)"
  shows "20 * log 10 (sqrt x / 32768) = 10 * log 10 (x / 2 ^ 30)"
proof -
  have sq: "x / 2 ^ 30 = (sqrt x / 32768) ^ 2" using assms by (simp add: power_divide)
  have "log 10 ((sqrt x / 32768) ^ 2) = real 2 * log 10 (sqrt x / 32768)"
    using assms by (intro log_nat_power) simp
  then show ?thesis unfolding sq by simp
qed

lemma of_rat_pow10: "(of_rat (pow10 p) :: real) = 10 powr of_int p"
proof (cases "0 \<le> p")
  case True
  then show ?thesis by (simp add: pow10_def of_rat_power powr_realpow [symmetric])
next
  case False
  then have "(10::real) ^ nat (- p) = 10 powr (- of_int p)" by (simp add: powr_realpow [symmetric])
  then show ?thesis using False by (simp add: pow10_def of_rat_divide of_rat_power powr_minus_divide)
qed

lemma is_quiet_dbfs:
  assumes "0 \<le> e"
  shows "is_quiet thr e \<longleftrightarrow> dbfs e \<le> of_rat thr"
proof (cases "e = 0")
  case True
  have "(- 120 :: real) \<le> of_rat thr \<longleftrightarrow> - 120 \<le> thr"
    using of_rat_less_eq [of "- 120" thr, where ?'a = real] by simp
  with True show ?thesis by (simp add: is_quiet_def dbfs_def)
next
  case False
  with assms have e: "0 < e" by simp
  obtain p q where pq: "quotient_of thr = (p, q)" by fastforce
  then have q: "0 < q" and thr: "thr = of_int p / of_int q"
    using quotient_of_denom_pos quotient_of_div by blast+
  let ?x = "of_rat e / 2 ^ 30 :: real"
  have x: "0 < ?x" using e by simp
  have "dbfs e = 10 * log 10 ?x" using e by (simp only: dbfs_def False if_False log_full_scale zero_less_of_rat_iff)
  then have "dbfs e \<le> of_rat thr \<longleftrightarrow> 10 * log 10 ?x \<le> of_int p / of_int q"
    by (simp only: thr of_rat_divide of_rat_of_int_eq)
  also have "\<dots> \<longleftrightarrow> of_int (10 * q) * log 10 ?x \<le> of_int p"
    using q by (simp add: pos_le_divide_eq ac_simps)
  also have "of_int (10 * q) * log 10 ?x = log 10 (?x ^ nat (10 * q))"
    using x q by (simp add: log_nat_power)
  also have "log 10 (?x ^ nat (10 * q)) \<le> of_int p \<longleftrightarrow> ?x ^ nat (10 * q) \<le> 10 powr of_int p"
    using x by (simp add: log_le_iff)
  also have "\<dots> \<longleftrightarrow> (of_rat ((e / 2 ^ 30) ^ nat (10 * q)) :: real) \<le> of_rat (pow10 p)"
    by (simp add: of_rat_pow10 of_rat_power of_rat_divide)
  also have "\<dots> \<longleftrightarrow> is_quiet thr e" using False by (simp add: is_quiet_def pq of_rat_less_eq)
  finally show ?thesis by simp
qed

lemma energy_nonneg: "0 \<le> energy xs"
proof -
  have "0 \<le> sum_list (map (\<lambda>x. x * x) xs)" by (rule sum_list_nonneg) auto
  then show ?thesis by (simp add: energy_def)
qed

section \<open>Silences are the maximal quiet spans\<close>

text \<open>The spans of consecutive quiet windows that end before window j, and cannot begin earlier\<close>

definition streak :: "(nat \<Rightarrow> bool) \<Rightarrow> nat \<Rightarrow> nat \<Rightarrow> bool" where
  "streak q i j \<longleftrightarrow> i < j \<and> (\<forall>k\<in>{i..<j}. q k) \<and> (i = 0 \<or> \<not> q (i - 1))"

fun streak_start :: "(nat \<Rightarrow> bool) \<Rightarrow> nat \<Rightarrow> nat option" where
  "streak_start q 0 = None"
| "streak_start q (Suc j) =
     (if q j then (case streak_start q j of None \<Rightarrow> Some j | Some i \<Rightarrow> Some i) else None)"

lemma streak_start_None: "streak_start q j = None \<longleftrightarrow> j = 0 \<or> \<not> q (j - 1)"
  by (cases j) (auto split: option.splits)

lemma filter_streak: "filter (\<lambda>i. streak q i j) [0..<j] = (case streak_start q j of None \<Rightarrow> [] | Some i \<Rightarrow> [i])"
proof (induction j)
  case (Suc j)
  have "filter (\<lambda>i. streak q i (Suc j)) [0..<Suc j] =
      (if q j then filter (\<lambda>i. streak q i j) [0..<j] @ (if streak_start q j = None then [j] else []) else [])"
  proof (cases "q j")
    case True
    have "streak q i (Suc j) = streak q i j" if "i < j" for i
      using that True by (auto simp: streak_def less_Suc_eq)
    then have "filter (\<lambda>i. streak q i (Suc j)) [0..<j] = filter (\<lambda>i. streak q i j) [0..<j]"
      by (intro filter_cong) auto
    moreover have "streak q j (Suc j) \<longleftrightarrow> streak_start q j = None"
      using True streak_start_None [of q j] by (auto simp: streak_def)
    ultimately show ?thesis using True by simp
  next
    case False
    then have "\<not> streak q i (Suc j)" if "i \<le> j" for i using that by (auto simp: streak_def)
    then show ?thesis using False by (auto simp: filter_empty_conv)
  qed
  with Suc show ?case by (auto split: option.splits)
qed simp

text \<open>The spans reported as ending at window j, of those at least so long\<close>

definition spans_ending :: "(nat \<Rightarrow> bool) \<Rightarrow> (nat \<Rightarrow> rat) \<Rightarrow> rat \<Rightarrow> nat \<Rightarrow> silence_run list" where
  "spans_ending q T min_len j =
     map (\<lambda>i. make_run (T i) (T j)) (filter (\<lambda>i. streak q i j \<and> min_len \<le> T j - T i) [0..<j])"

lemma spans_ending_start:
  "spans_ending q T min_len j =
     (case streak_start q j of None \<Rightarrow> [] | Some i \<Rightarrow> if min_len \<le> T j - T i then [make_run (T i) (T j)] else [])"
proof -
  have "filter (\<lambda>i. streak q i j \<and> min_len \<le> T j - T i) [0..<j] =
      filter (\<lambda>i. min_len \<le> T j - T i) (filter (\<lambda>i. streak q i j) [0..<j])"
    unfolding filter_filter by (rule filter_cong) auto
  then show ?thesis by (simp add: spans_ending_def filter_streak split: option.split)
qed

definition window_time :: "audit_options \<Rightarrow> int list list \<Rightarrow> nat \<Rightarrow> rat" where
  "window_time A ws k = sum_list (map (\<lambda>xs. of_nat (length xs) / of_nat (sample_rate A)) (take k ws))"

definition window_quiet :: "audit_options \<Rightarrow> int list list \<Rightarrow> nat \<Rightarrow> bool" where
  "window_quiet A ws k \<longleftrightarrow> is_quiet (threshold_dbfs A) (energy (ws ! k))"

lemma scan_invariant:
  assumes "k \<le> length ws"
  shows "fold (see_window A) (take k ws) scan_start =
    \<lparr>quiet_runs = concat (map (\<lambda>j. if window_quiet A ws j then [] else
        spans_ending (window_quiet A ws) (window_time A ws) (min_silence A) j) [0..<k]),
     quiet_start = map_option (window_time A ws) (streak_start (window_quiet A ws) k),
     scan_time = window_time A ws k, windows_seen = k\<rparr>"
  using assms
proof (induction k)
  case 0
  then show ?case by (simp add: scan_start_def window_time_def)
next
  case (Suc k)
  then have t: "take (Suc k) ws = take k ws @ [ws ! k]" by (simp add: take_Suc_conv_app_nth)
  have T: "window_time A ws (Suc k) = window_time A ws k + of_nat (length (ws ! k)) / of_nat (sample_rate A)"
    by (simp add: window_time_def t)
  have q: "is_quiet (threshold_dbfs A) (energy (ws ! k)) \<longleftrightarrow> window_quiet A ws k" by (simp add: window_quiet_def)
  show ?case using Suc
    by (auto simp: t T q see_window_def Let_def close_run_def spans_ending_start split: option.splits)
qed

text \<open>
  The times of the windows come from their lengths. A silence is a span of windows that are
  all at or below the threshold, with a louder window or the end of the audio on either side.
\<close>

definition loudness_at :: "int list list \<Rightarrow> nat \<Rightarrow> real" where
  "loudness_at ws k = dbfs (energy (ws ! k))"

text \<open>
  C25. The silences of a file are exactly its maximal quiet spans. The scan reports, in order,
  one run for each pair of window indices i < j such that every window from i to j - 1 has at
  most the threshold in dBFS (20 times the decimal logarithm of the root mean square relative
  to full scale), the windows on either side, if any, have more, and the span lasts at least
  the minimum; and it reports the duration and the number of windows.
\<close>

theorem silences_are_maximal_quiet_spans:
  "scan_decoded_audio E A p =
    (let r = decode_pcm E p; ws = pcm_windows (sample_rate A) (out_text r); T = window_time A ws; n = length ws;
         loud = (\<lambda>k. of_rat (threshold_dbfs A) < loudness_at ws k);
         spans = concat (map (\<lambda>j. filter (\<lambda>(i, j). list_all (\<lambda>k. \<not> loud k) [i..<j] \<and> (if i = 0 then True else loud (i - 1)) \<and>
                     (if j = n then True else loud j) \<and> min_silence A \<le> T j - T i) (map (\<lambda>i. (i, j)) [0..<j])) [0..<Suc n])
     in if out_code r \<noteq> 0 then Inl (RuntimeError (''ffmpeg failed for '' @ path_str p @ '': '' @ strip (out_errors r)))
        else Inr (T n, map (\<lambda>(i, j). make_run (T i) (T j)) spans, n))"
proof -
  define ws where "ws = pcm_windows (sample_rate A) (out_text (decode_pcm E p))"
  define T where "T = window_time A ws"
  define n where "n = length ws"
  let ?q = "window_quiet A ws" and ?loud = "\<lambda>k. of_rat (threshold_dbfs A) < loudness_at ws k"
  have q: "?q k \<longleftrightarrow> \<not> ?loud k" for k
    using is_quiet_dbfs [OF energy_nonneg, of "threshold_dbfs A" "ws ! k"]
    by (auto simp: window_quiet_def loudness_at_def not_less)
  let ?found = "\<lambda>j. map (\<lambda>(i, j). make_run (T i) (T j)) (filter (\<lambda>(i, j). list_all (\<lambda>k. \<not> ?loud k) [i..<j] \<and>
      (if i = 0 then True else ?loud (i - 1)) \<and> (if j = n then True else ?loud j) \<and> min_silence A \<le> T j - T i)
      (map (\<lambda>i. (i, j)) [0..<j]))"
  have found: "?found j = (if j \<noteq> n \<and> ?q j then [] else spans_ending ?q T (min_silence A) j)" for j
  proof (cases "j \<noteq> n \<and> ?q j")
    case True
    then show ?thesis using q by (simp add: filter_empty_conv)
  next
    case False
    have "filter (\<lambda>i. list_all (\<lambda>k. \<not> ?loud k) [i..<j] \<and> (if i = 0 then True else ?loud (i - 1)) \<and>
        (if j = n then True else ?loud j) \<and> min_silence A \<le> T j - T i) [0..<j] =
        filter (\<lambda>i. streak ?q i j \<and> min_silence A \<le> T j - T i) [0..<j]"
      using False q by (intro filter_cong) (auto simp: streak_def list_all_iff)
    then show ?thesis unfolding if_not_P [OF False] by (simp add: spans_ending_def filter_map comp_def)
  qed
  have "fold (see_window A) ws scan_start = fold (see_window A) (take n ws) scan_start" by (simp add: n_def)
  also note scan_invariant [of n ws A]
  finally have st: "fold (see_window A) ws scan_start =
    \<lparr>quiet_runs = concat (map (\<lambda>j. if ?q j then [] else spans_ending ?q T (min_silence A) j) [0..<n]),
     quiet_start = map_option T (streak_start ?q n), scan_time = T n, windows_seen = n\<rparr>"
    unfolding T_def n_def by simp
  have "concat (map ?found [0..<Suc n]) =
      concat (map (\<lambda>j. if ?q j then [] else spans_ending ?q T (min_silence A) j) [0..<n]) @ spans_ending ?q T (min_silence A) n"
  proof -
    have "map ?found [0..<n] = map (\<lambda>j. if ?q j then [] else spans_ending ?q T (min_silence A) j) [0..<n]"
      by (rule map_cong) (simp_all only: found atLeastLessThan_iff set_upt refl, simp_all)
    moreover have "?found n = spans_ending ?q T (min_silence A) n" using found [of n] by (simp only: simp_thms if_False)
    ultimately show ?thesis by (simp only: upt_Suc_append [OF le0] map_append list.map concat_append concat.simps append_Nil2)
  qed
  then have runs: "close_run (min_silence A) (fold (see_window A) ws scan_start) =
     \<lparr>quiet_runs = concat (map ?found [0..<Suc n]), quiet_start = None, scan_time = T n, windows_seen = n\<rparr>"
    by (simp add: st close_run_def spans_ending_start split: option.split)
  have "map (\<lambda>(i, j). make_run (T i) (T j)) (concat (map (\<lambda>j. filter P (map (\<lambda>i. (i, j)) [0..<j])) js)) =
      concat (map (\<lambda>j. map (\<lambda>(i, j). make_run (T i) (T j)) (filter P (map (\<lambda>i. (i, j)) [0..<j]))) js)" for P js
    by (simp add: map_concat comp_def)
  note here = this [of "\<lambda>(i, j). list_all (\<lambda>k. \<not> ?loud k) [i..<j] \<and> (if i = 0 then True else ?loud (i - 1)) \<and>
    (if j = n then True else ?loud j) \<and> min_silence A \<le> T j - T i" "[0..<Suc n]"]
  show ?thesis
    unfolding scan_decoded_audio_def Let_def ws_def [symmetric] T_def [symmetric] n_def [symmetric] runs here
    by simp
qed

section \<open>The timeline accounts for every gap\<close>

definition packets_of :: "string \<Rightarrow> (rat \<times> rat) list" where
  "packets_of s = List.map_filter read_packet (text_lines s)"

text \<open>The pauses between neighbouring packets, negative where they overlap\<close>

definition pauses :: "(rat \<times> rat) list \<Rightarrow> (rat \<times> rat) list" where
  "pauses ps = map (\<lambda>(a, b). (fst a + snd a, fst b)) (zip ps (tl ps))"

lemma fold_see_line: "fold (see_line g) ls st = fold (see_packet g) (List.map_filter read_packet ls) st"
  by (induction ls arbitrary: st) (auto simp: see_line_def map_filter_simps split: option.splits)

lemma pauses_snoc: "ps \<noteq> [] \<Longrightarrow> pauses (ps @ [b]) = pauses ps @ [(fst (last ps) + snd (last ps), fst b)]"
  by (induction ps rule: induct_list012) (auto simp: pauses_def)

lemma pauses_one [simp]: "pauses [b] = []"
  by (simp add: pauses_def)

lemma timeline_invariant:
  "fold (see_packet g) ps timeline_start =
     \<lparr>gap_runs = map (\<lambda>(a, b). make_run a b) (filter (\<lambda>(a, b). g \<le> b - a) (pauses ps)), packet_count = length ps,
      packet_seconds = sum_list (map snd ps), prev_end = (if ps = [] then None else Some (fst (last ps) + snd (last ps))),
      timeline_end = (if ps = [] then 0 else fst (last ps) + snd (last ps))\<rparr>"
proof (induction ps rule: rev_induct)
  case Nil
  then show ?case by (simp add: timeline_start_def pauses_def)
next
  case (snoc b ps)
  then show ?case
    by (cases "ps = []") (auto simp: see_packet_def pauses_snoc timeline_start_def split: prod.splits)
qed

lemma timeline_sum:
  "ps \<noteq> [] \<Longrightarrow> fst (last ps) + snd (last ps) =
     fst (hd ps) + sum_list (map snd ps) + sum_list (map (\<lambda>(a, b). b - a) (pauses ps))"
proof (induction ps rule: rev_induct)
  case (snoc b ps)
  then show ?case by (cases "ps = []") (simp_all add: pauses_snoc)
qed simp

text \<open>
  The packet timeline. Lines that are not two numbers are passed over; the gaps reported
  are, in order, the pauses between neighbouring packets of at least the minimum; and the end
  of the timeline is the start of the first packet plus the audio of all packets plus all the
  pauses, so that audio and pauses account for all of it. A failing ffprobe is an error.
\<close>

theorem timeline_accounts_for_gaps:
  "scan_packet_timeline E p g =
    (let r = probe_packets E p; ps = List.map_filter read_packet (text_lines (out_text r)) in
     if out_code r \<noteq> 0
     then Inl (RuntimeError (''ffprobe packet scan failed for '' @ path_str p @ '': '' @ strip (out_errors r)))
     else Inr \<lparr>gap_runs = map (\<lambda>(a, b). make_run a b) (filter (\<lambda>(a, b). g \<le> b - a) (pauses ps)),
            packet_count = length ps, packet_seconds = sum_list (map snd ps),
            prev_end = (if ps = [] then None else Some (fst (last ps) + snd (last ps))),
            timeline_end = (if ps = [] then 0 else
              fst (hd ps) + sum_list (map snd ps) + sum_list (map (\<lambda>(a, b). b - a) (pauses ps)))\<rparr>)"
  unfolding scan_packet_timeline_def Let_def fold_see_line timeline_invariant using timeline_sum by auto

section \<open>One file that cannot be read\<close>

lemma rmap_error: "rmap f (xs @ x # ys) = Inl e" if "rmap f xs = Inr zs" "f x = Inl e"
  using that by (induction xs arbitrary: zs) (auto simp: rbnd_Inr_iff)

text \<open>
  A file on which ffmpeg or ffprobe fails ends the audit before anything is printed, so nothing
  is learnt about the files before it either.
\<close>

theorem one_bad_file_hides_all:
  assumes "iter_audio_files t (recursive A) paths = before @ bad # after"
    and "rmap (scan_file E A) before = Inr reports" "scan_file E A bad = Inl e"
  shows "audit E A t paths = Inl e"
  using rmap_error [OF assms(2,3)] by (simp add: audit_def assms(1))

end
