(* ===== verification/Chapter_Titles.thy ===== *)
theory Chapter_Titles
  imports Py_Regex
begin

text \<open>
  Chapter titles for the rebuild of audiobook chapters (audiobook-chapter-rebuild.py): titles
  in title case, the table of contents of a plain-text book, the headings in its text, and
  the chapter number a transcript of a spoken heading begins with.
\<close>

section \<open>Titles\<close>

definition minor_words :: "string list" where
  "minor_words =
     [''a'', ''an'', ''and'', ''as'', ''at'', ''but'', ''by'', ''for'', ''from'', ''if'', ''in'', ''into'', ''nor'',
      ''of'', ''off'', ''on'', ''or'', ''out'', ''over'', ''per'', ''the'', ''to'', ''up'', ''via'', ''with'']"

definition em_dash :: string where "em_dash = [CHR 0xE2, CHR 0x80, CHR 0x94]"
definition en_dash :: string where "en_dash = [CHR 0xE2, CHR 0x80, CHR 0x93]"

text \<open>The separators of a title, kept among its tokens\<close>

definition sep_rx :: rx where
  "sep_rx = RAlt rspaces1 (RAlt (one_of ''-/:!?.'') (RLit em_dash))"

definition re_split_keep :: "rx \<Rightarrow> string \<Rightarrow> string list" where
  "re_split_keep r s =
     (case find_all (Suc (length s)) r None s of
        (ms, t) \<Rightarrow> concat (map (\<lambda>m. [m_pre m, m_text m]) ms) @ [t])"

definition is_separator :: "string \<Rightarrow> bool" where
  "is_separator t \<longleftrightarrow> re_fullmatch sep_rx t \<noteq> None"

definition capitalise :: "string \<Rightarrow> string" where
  "capitalise t =
     (case dropWhile (\<lambda>c. \<not> is_alnum c) t of
        [] \<Rightarrow> t
      | c # cs \<Rightarrow> takeWhile (\<lambda>c. \<not> is_alnum c) t @ upper_char c # cs)"

definition opens_part :: "string \<Rightarrow> bool" where
  "opens_part prev \<longleftrightarrow> prev \<in> set [''-'', em_dash, '':'', ''/'', ''!'', ''?'']"

text \<open>A minor word stays as it is unless it is the first or the last word, or opens a part.\<close>

fun title_pieces :: "nat \<Rightarrow> nat \<Rightarrow> string \<Rightarrow> string list \<Rightarrow> string list" where
  "title_pieces n_words i prev [] = []"
| "title_pieces n_words i prev (t # ts) =
     (if t = [] then title_pieces n_words i prev ts
      else if is_separator t then t # title_pieces n_words i t ts
      else
        (if t \<in> set minor_words \<and> 1 < Suc i \<and> Suc i < n_words \<and> \<not> opens_part prev then t else capitalise t)
        # title_pieces n_words (Suc i) t ts)"

definition possessive_rx :: rx where
  "possessive_rx =
     rseq [RWordB, RGroup 1 (RSeq (RSet is_upper) (rplus (RSet is_alpha))), RLit [CHR 0x27, CHR ''S''], RWordB]"

definition title_case :: "string \<Rightarrow> string" where
  "title_case raw =
     (let tokens = re_split_keep sep_rx (lower (strip raw));
          n_words = length (filter (\<lambda>t. list_ex (\<lambda>c. is_lower c \<or> is_digit c) t) tokens)
      in re_sub possessive_rx (\<lambda>m. group_text m 1 @ [CHR 0x27, CHR ''s'']) (concat (title_pieces n_words 0 [] tokens)))"

definition straight_quotes :: "string \<Rightarrow> string" where
  "straight_quotes s =
     replace_all [CHR 0xE2, CHR 0x80, CHR 0x9D] [CHR 0x22]
       (replace_all [CHR 0xE2, CHR 0x80, CHR 0x9C] [CHR 0x22]
         (replace_all [CHR 0xE2, CHR 0x80, CHR 0x98] [CHR 0x27]
           (replace_all [CHR 0xE2, CHR 0x80, CHR 0x99] [CHR 0x27] s)))"

definition one_spaced :: "string \<Rightarrow> string" where
  "one_spaced s = re_sub rspaces1 (\<lambda>_. '' '') s"

definition leader_rx :: rx where
  "leader_rx =
     (let dots = rseq [RSet is_space, one_of ''-.'', rspaces] in rseq [dots, rplus dots, RDollar])"

definition clean_toc_title :: "string \<Rightarrow> string" where
  "clean_toc_title raw =
     strip_chars '' -.'' (one_spaced (re_sub leader_rx (\<lambda>_. []) (straight_quotes (replace_all ''_'' '' '' raw))))"

definition clean_manual_title :: "string \<Rightarrow> string" where
  "clean_manual_title raw =
     strip (one_spaced (replace_all en_dash ''-'' (replace_all em_dash ''-'' (straight_quotes raw))))"

definition normalize_compare_text :: "string \<Rightarrow> string" where
  "normalize_compare_text raw =
     strip (one_spaced (re_sub (rplus (RSet (\<lambda>c. \<not> (is_lower c \<or> is_digit c)))) (\<lambda>_. '' '') (lower (clean_manual_title raw))))"

section \<open>The table of contents\<close>

definition contents_rx :: rx where
  "contents_rx =
     ralts (RLitI ''contents'')
       [RLitI ''the chapters'',
        rseq [RLitI ''c'', rspaces1, RLitI ''o'', rspaces1, RLitI ''n'', rspaces1, RLitI ''t'', rspaces1, RLitI ''e'',
              rspaces1, RLitI ''n'', rspaces1, RLitI ''t'', rspaces1, RLitI ''s'']]"

definition contents_start :: rx where
  "contents_start = rseq [RLineStart, rspaces, contents_rx, rspaces, RLineEnd]"

definition contents_line :: rx where
  "contents_line = rseq [RTextStart, rspaces, contents_rx, rspaces, RDollar]"

definition first_chapter :: rx where
  "first_chapter =
     rseq [RLineStart, rspaces, RLitI ''chapter'', rplus (one_of [CHR '' '', CHR 0x09]),
           ralts (RLitI ''one'') [RLitI ''i'', RLitI ''1''], RWordB]"

definition chapter_line :: rx where
  "chapter_line =
     rseq [RTextStart, rspaces, ropt (RLit ''_''), rspaces, RLitI ''chapter'', rspaces1, RGroup 1 rdigits, rspaces,
           ropt (RLit ''_''), rspaces, RDollar]"

definition paged_line :: rx where
  "paged_line = rseq [RTextStart, rspaces, RGroup 1 (rplus_lazy dot), rspaces1, rdigits, rspaces, RDollar]"

definition numbered_line :: rx where
  "numbered_line =
     rseq [RTextStart, rspaces, RGroup 1 rdigits, ropt (RLit ''.''), rspaces1, RGroup 2 (rplus_lazy dot), rspaces1,
           ropt (rseq [ropt (RLit ''_''), RLitI ''p'', ropt (RLit ''.''), ropt (RLit ''_''), rspaces]),
           rdigits, rspaces, RDollar]"

definition toc_title :: "string \<Rightarrow> string" where
  "toc_title raw = title_case (clean_toc_title (strip raw))"

text \<open>The numbered titles of the block; a line with only a chapter number announces a title.\<close>

fun toc_entries :: "bool \<Rightarrow> (nat \<times> string) list \<Rightarrow> string list \<Rightarrow> (nat \<times> string) list" where
  "toc_entries pending acc [] = acc"
| "toc_entries pending acc (line # ls) =
     (if re_match chapter_line line \<noteq> None then toc_entries True acc ls
      else
        case (if pending then re_match paged_line line else None) of
          Some m \<Rightarrow> toc_entries False (acc @ [(Suc (length acc), toc_title (group_text m 1))]) ls
        | None \<Rightarrow>
            (case re_match numbered_line line of
               None \<Rightarrow> toc_entries pending acc ls
             | Some m \<Rightarrow> toc_entries pending (acc @ [(read_nat (group_text m 1), toc_title (group_text m 2))]) ls))"

definition indent_of :: "string \<Rightarrow> nat" where
  "indent_of line = length line - length (lstrip line)"

text \<open>The indented block after the line that announces it, up to two blank lines\<close>

fun toc_block :: "bool \<Rightarrow> nat \<Rightarrow> string list \<Rightarrow> string list" where
  "toc_block started blanks [] = []"
| "toc_block started blanks (line # ls) =
     (if strip line = [] then
        (if started \<and> 2 \<le> Suc blanks then [] else toc_block started (Suc blanks) ls)
      else if 10 \<le> indent_of line \<and> length (strip line) \<le> 80 \<and> \<not> starts_with (strip line) ''_''
      then title_case (clean_toc_title (strip line)) # toc_block True 0 ls
      else if started then [] else toc_block False 0 ls)"

definition indented_titles :: "string \<Rightarrow> exn + string list" where
  "indented_titles tail =
     (let lines = dropWhile (\<lambda>l. re_match contents_line l = None) (splitlines (filter (\<lambda>c. c \<noteq> CHR 0x0D) tail));
          titles = toc_block False 0 (tl lines)
      in if titles = [] then Inl (RuntimeError ''No chapter titles parsed from CONTENTS'') else Inr titles)"

definition parse_toc :: "string \<Rightarrow> exn + string list" where
  "parse_toc text =
     (case re_search contents_start text of
        None \<Rightarrow> Inl (RuntimeError ''Could not find CONTENTS block'')
      | Some m \<Rightarrow>
          (let tail = m_text m @ m_post m in
           case re_search first_chapter tail of
             None \<Rightarrow> indented_titles tail
           | Some e \<Rightarrow>
               (let entries = toc_entries False [] (splitlines (m_pre e)) in
                if entries = [] then indented_titles tail
                else if map fst entries \<noteq> [1..<Suc (length entries)]
                then Inl (RuntimeError ''Unexpected chapter numbering in TOC'')
                else Inr (map snd entries))))"

section \<open>Headings in the text\<close>

definition is_heading_line :: "string \<Rightarrow> bool" where
  "is_heading_line l \<longleftrightarrow> strip l \<noteq> [] \<and> 10 \<le> indent_of l \<and> length (strip l) \<le> 60"

definition is_blank :: "string \<Rightarrow> bool" where
  "is_blank l \<longleftrightarrow> strip l = []"

definition keeps_heading :: "string \<Rightarrow> string \<Rightarrow> bool" where
  "keeps_heading book title \<longleftrightarrow>
     (let n = normalize_compare_text title in
      n \<noteq> [] \<and> n \<noteq> book \<and> n \<noteq> ''transcriber notes'' \<and> \<not> ends_with title '','' \<and>
      \<not> starts_with title ''First published in '' \<and> \<not> starts_with title ''Text of this book from '' \<and>
      \<not> starts_with title ''Illustrations from '')"

text \<open>
  A block of indented short lines with two blank lines before and after it. The argument
  \<open>blanks\<close> counts the blank lines just before the lines that remain.
\<close>

function headings :: "string \<Rightarrow> nat \<Rightarrow> string list \<Rightarrow> string list" where
  "headings book blanks [] = []"
| "headings book blanks (l # ls) =
     (if \<not> is_heading_line l then headings book (if is_blank l then Suc blanks else 0) ls
      else
        (let block = map strip (takeWhile is_heading_line (l # ls)); rest = dropWhile is_heading_line (l # ls);
             title = clean_toc_title (join '' '' block)
         in (if 2 \<le> blanks \<and> 2 \<le> length (takeWhile is_blank rest) \<and> keeps_heading book title
             then [title_case title] else []) @ headings book 0 rest))"
  by pat_completeness auto
termination
  by (relation "measure (\<lambda>(book, blanks, ls). length ls)")
    (auto simp: le_imp_less_Suc length_dropWhile_le)

definition parse_heading_titles :: "string \<Rightarrow> string \<Rightarrow> exn + string list" where
  "parse_heading_titles text book_title =
     (let titles = headings (normalize_compare_text book_title) 0 (splitlines (filter (\<lambda>c. c \<noteq> CHR 0x0D) text)) in
      if titles = [] then Inl (RuntimeError ''No chapter titles parsed from heading blocks'') else Inr titles)"

section \<open>Spoken chapter numbers\<close>

definition word_numbers :: "(string \<times> nat) list" where
  "word_numbers =
     [(''one'', 1), (''two'', 2), (''three'', 3), (''four'', 4), (''five'', 5), (''six'', 6), (''seven'', 7),
      (''eight'', 8), (''nine'', 9), (''ten'', 10), (''eleven'', 11), (''twelve'', 12), (''thirteen'', 13),
      (''fourteen'', 14), (''fifteen'', 15), (''sixteen'', 16), (''seventeen'', 17), (''eighteen'', 18),
      (''nineteen'', 19), (''twenty'', 20), (''twenty one'', 21), (''twenty-one'', 21)]"

definition roman_numerals :: "(string \<times> nat) list" where
  "roman_numerals =
     [(''i'', 1), (''ii'', 2), (''iii'', 3), (''iv'', 4), (''v'', 5), (''vi'', 6), (''vii'', 7), (''viii'', 8),
      (''ix'', 9), (''x'', 10), (''xi'', 11), (''xii'', 12), (''xiii'', 13), (''xiv'', 14), (''xv'', 15),
      (''xvi'', 16), (''xvii'', 17), (''xviii'', 18), (''xix'', 19), (''xx'', 20), (''xxi'', 21), (''xxii'', 22)]"

definition chapter_rx :: rx where
  "chapter_rx = rseq [RTextStart, RLit ''chapter'', rspaces1, RGroup 1 (rplus dot), RDollar]"

definition numeral_rx :: rx where
  "numeral_rx = rseq [RTextStart, RGroup 1 (RAlt (rplus (one_of ''ivxlcdm'')) rdigits), RWordB]"

definition first_line :: "string \<Rightarrow> string" where
  "first_line transcript =
     one_spaced (re_sub (RSet (\<lambda>c. \<not> (is_lower c \<or> is_digit c \<or> c = CHR '' '' \<or> c = CHR ''-''))) (\<lambda>_. '' '')
       (lower (strip (hd (splitlines transcript)))))"

definition parse_chapter_number :: "string \<Rightarrow> nat option" where
  "parse_chapter_number transcript =
     (if strip transcript = [] then None
      else
        case re_match chapter_rx (first_line transcript) of
          None \<Rightarrow> None
        | Some m \<Rightarrow>
            (let remainder = strip (group_text m 1) in
             case find (\<lambda>(t, n). remainder = t \<or> starts_with remainder (t @ '' ''))
                    (rev (sort_key (\<lambda>(t, n). length t) (rev word_numbers))) of
               Some (t, n) \<Rightarrow> Some n
             | None \<Rightarrow>
                 (case re_match numeral_rx remainder of
                    None \<Rightarrow> None
                  | Some m \<Rightarrow>
                      (let token = group_text m 1 in
                       if list_all is_digit token then Some (read_nat token) else map_of roman_numerals token))))"

section \<open>Title case changes only case\<close>

lemma lower_upper_char [simp]: "lower_char (upper_char c) = lower_char c"
proof (cases "is_lower c")
  case True
  moreover have "list_all (\<lambda>c. lower_char (upper_char c) = lower_char c) ''abcdefghijklmnopqrstuvwxyz''" by code_simp
  ultimately show ?thesis unfolding list_all_iff is_lower_def by blast
qed (simp add: upper_char_def)

lemma lower_Nil [simp]: "lower [] = []"
  by (simp add: lower_def)

lemma lower_append [simp]: "lower (a @ b) = lower a @ lower b"
  by (simp add: lower_def)

lemma lower_capitalise [simp]: "lower (capitalise t) = lower t"
proof -
  let ?P = "\<lambda>c. \<not> is_alnum c"
  show ?thesis
  proof (cases "dropWhile ?P t")
    case (Cons c cs)
    have "t = takeWhile ?P t @ c # cs" using takeWhile_dropWhile_id [of ?P t] Cons by simp
    then have "lower t = lower (takeWhile ?P t) @ lower_char c # lower cs" by (metis lower_append lower_def list.simps(9))
    then show ?thesis using Cons by (simp add: capitalise_def lower_def)
  next
    case Nil
    then show ?thesis by (simp only: capitalise_def list.case)
  qed
qed

lemma lower_pieces: "lower (concat (title_pieces k i prev ts)) = lower (concat ts)"
  by (induction k i prev ts rule: title_pieces.induct) auto

lemma concat_split_keep: "concat (re_split_keep r s) = s"
proof -
  obtain ms t where e: "find_all (Suc (length s)) r None s = (ms, t)" by fastforce
  have "concat (concat (map (\<lambda>m. [m_pre m, m_text m]) ms) @ [t]) = concat (map (\<lambda>m. m_pre m @ m_text m) ms) @ t"
    by (induction ms) auto
  also have "\<dots> = s" by (rule find_all_split [OF e, symmetric])
  finally show ?thesis by (simp only: re_split_keep_def e prod.case)
qed

lemma possessive_lower:
  assumes q: "q \<in> set (rx_match possessive_rx p)" and g: "groups_of p = []"
  shows "\<exists>w. take (length (rest_of p) - length (rest_of q)) (rest_of p) = w @ [CHR 0x27, CHR ''S''] \<and> groups_of q = [(1, w)]"
proof -
  let ?a = "RSeq (RSet is_upper) (rplus (RSet is_alpha))"
  from q obtain x1 x2 x3 x4 where x: "x1 \<in> set (rx_match RWordB p)" "x2 \<in> set (rx_match (RGroup 1 ?a) x1)"
    "x3 \<in> set (rx_match (RLit [CHR 0x27, CHR ''S'']) x2)" "x4 \<in> set (rx_match RWordB x3)" "q \<in> set (rx_match (rseq []) x4)"
    unfolding possessive_rx_def by (blast dest: rseqD)
  have wb: "x1 = p" "q = x3" using x(1,4,5) by (auto split: if_splits)
  obtain y where y: "y \<in> set (rx_match ?a p)" "rest_of x2 = rest_of y"
    "groups_of x2 = (1, take (length (rest_of p) - length (rest_of y)) (rest_of p)) # groups_of y"
    using groupD [OF x(2)] wb(1) by blast
  from y(1) obtain z where z: "z \<in> set (rx_match (RSet is_upper) p)" "y \<in> set (rx_match (rplus (RSet is_alpha)) z)"
    by (blast dest: rx_seqD)
  obtain c where c: "rest_of p = c # rest_of z" "groups_of z = groups_of p" using setD [OF z(1)] by blast
  obtain v where v: "rest_of z = v @ rest_of y" "groups_of y = groups_of z" using plusD [OF z(2)] by blast
  have l: "rest_of x2 = [CHR 0x27, CHR ''S''] @ rest_of q" "groups_of q = groups_of x2"
    using litD [OF x(3)] wb(2) by blast+
  have cut: "take (length (a @ b) - length b) (a @ b) = a" for a b :: string by simp
  have p: "rest_of p = ((c # v) @ [CHR 0x27, CHR ''S'']) @ rest_of q" using c(1) v(1) y(2) l(1) by simp
  have "take (length (rest_of p) - length (rest_of q)) (rest_of p) = (c # v) @ [CHR 0x27, CHR ''S'']"
    unfolding p by (rule cut)
  moreover have "groups_of q = [(1, c # v)]"
    using l(2) y(3) v(2) c(2) g c(1) v(1) by simp
  ultimately show ?thesis by blast
qed

text \<open>
  C26. Title case changes nothing but case: whatever the title is, the result differs from the
  stripped title only in the case of letters, so no character, space or separator is lost,
  added or moved.
\<close>

theorem title_case_changes_only_case: "map lower_char (title_case raw) = map lower_char (strip raw)"
proof -
  let ?f = "\<lambda>m. group_text m 1 @ [CHR 0x27, CHR ''s'']"
  have "map lower_char (re_sub possessive_rx ?f s) = map lower_char s" for s
  proof (rule re_sub_view)
    fix p q assume q: "q \<in> set (rx_match possessive_rx p)" "groups_of p = []"
    obtain w where w: "take (length (rest_of p) - length (rest_of q)) (rest_of p) = w @ [CHR 0x27, CHR ''S'']" "groups_of q = [(1, w)]"
      using possessive_lower [OF q] by blast
    show "map lower_char (?f \<lparr>m_pre = [], m_text = take (length (rest_of p) - length (rest_of q)) (rest_of p), m_groups = groups_of q, m_post = []\<rparr>) =
        map lower_char (take (length (rest_of p) - length (rest_of q)) (rest_of p))"
      unfolding w by (simp add: group_text_def group_def lower_char_def is_upper_def)
  qed (simp add: group_text_def group_def)
  moreover have "map lower_char (concat (title_pieces k 0 [] (re_split_keep sep_rx (lower (strip raw))))) = map lower_char (strip raw)" for k
    using lower_pieces [of k 0 "[]" "re_split_keep sep_rx (lower (strip raw))"] lower_idem [of "strip raw"]
    by (simp only: concat_split_keep lower_def)
  ultimately show ?thesis by (simp only: title_case_def Let_def)
qed

end
