(* ===== verification/Chapter_Rebuild.thy ===== *)
theory Chapter_Rebuild
  imports Chapter_Titles Py_Float Py_Path
begin

text \<open>
  The rebuild of audiobook chapters (audiobook-chapter-rebuild.py): boundaries chosen among the
  silences whose transcripts are known, chapters made of boundaries and titles, the analysis
  of a book with its report, and the transfer of reports to Audiobookshelf. The audio tools,
  the web, the clock and the environment are parameters; the series manifest is given as the
  configuration it encodes, and log lines are left out.
\<close>

section \<open>Books, candidates and chapters\<close>





text \<open>A row of the report on candidates; it is accepted if it has a reason.\<close>

record cand_row =
  row_time :: rat
  row_number :: "nat option"
  row_text :: string
  row_reason :: "string option"

record chapter_mark =
  ch_id :: nat
  ch_start :: rat
  ch_end :: rat
  ch_title :: string

type_synonym boundaries = "(nat \<times> rat \<times> string) list"

definition round3 :: "rat \<Rightarrow> rat" where
  "round3 x = of_int (round_even (x * 1000)) / 1000"

definition cleaned_text :: "string \<Rightarrow> string" where
  "cleaned_text transcript = join '' '' (split_ws transcript)"

section \<open>Boundaries\<close>

definition make_row :: "rat \<Rightarrow> string \<Rightarrow> string option \<Rightarrow> cand_row" where
  "make_row t transcript reason =
     \<lparr>row_time = round3 t, row_number = parse_chapter_number transcript, row_text = take 240 (cleaned_text transcript),
      row_reason = reason\<rparr>"

text \<open>
  The first pass takes the spoken numbers 2, 3, ... in order and stops after the last title;
  it gives the rows it has seen and the boundaries it accepts.
\<close>

fun spoken_pass :: "nat \<Rightarrow> nat \<Rightarrow> (rat \<times> string) list \<Rightarrow> cand_row list \<times> boundaries" where
  "spoken_pass n nxt [] = ([], [])"
| "spoken_pass n nxt ((t, transcript) # cs) =
     (if parse_chapter_number transcript \<noteq> Some nxt then
        (case spoken_pass n nxt cs of (rows, acc) \<Rightarrow> (make_row t transcript None # rows, acc))
      else
        (case (if n < Suc nxt then ([], []) else spoken_pass n (Suc nxt) cs) of
           (rows, acc) \<Rightarrow>
             (make_row t transcript (Some ''spoken'') # rows, (nxt, t, cleaned_text transcript) # acc)))"

definition unused_rows :: "cand_row list \<Rightarrow> (nat \<times> cand_row) list" where
  "unused_rows rows = filter (\<lambda>(i, r). row_reason r = None) (enum_from 0 rows)"

definition time_of :: "boundaries \<Rightarrow> nat \<Rightarrow> rat" where
  "time_of acc k = (case map_of acc k of Some (t, _) \<Rightarrow> t | None \<Rightarrow> 0)"

text \<open>Rows are marked where they are, and give boundaries for consecutive numbers.\<close>

definition fill_numbers ::
  "string \<Rightarrow> nat list \<Rightarrow> (nat \<times> cand_row) list \<Rightarrow> cand_row list \<times> boundaries \<Rightarrow> cand_row list \<times> boundaries" where
  "fill_numbers reason numbers cands st =
     foldl (\<lambda>(rows, acc) (k, i, r).
         (rows[i := r\<lparr>row_reason := Some reason\<rparr>], AList.update k (row_time r, row_text r) acc))
       st (zip numbers (sort_key (\<lambda>(i, r). row_time r) cands))"

text \<open>The numbers missing between two that are known\<close>

definition fill_gap :: "cand_row list \<times> boundaries \<Rightarrow> nat \<times> nat \<Rightarrow> cand_row list \<times> boundaries" where
  "fill_gap st gap =
     (case (st, gap) of
        ((rows, acc), (left, right)) \<Rightarrow>
          if right - left \<le> 1 then (rows, acc)
          else
            (let start = (if left = 1 then 0 else time_of acc left); stop = time_of acc right;
                 cands = filter (\<lambda>(i, r). start < row_time r \<and> row_time r < stop) (unused_rows rows)
             in if length cands < right - left - 1 then (rows, acc)
                else fill_numbers ''gap-fill'' [Suc left..<right] cands (rows, acc)))"

definition fill_gaps :: "cand_row list \<times> boundaries \<Rightarrow> cand_row list \<times> boundaries" where
  "fill_gaps st =
     (let known = 1 # sort (map fst (snd st)) in foldl fill_gap st (zip known (tl known)))"

text \<open>The numbers missing after the last that is known\<close>

definition fill_tail :: "nat \<Rightarrow> cand_row list \<times> boundaries \<Rightarrow> cand_row list \<times> boundaries" where
  "fill_tail n st =
     (case st of
        (rows, acc) \<Rightarrow>
          if acc = [] then (rows, acc)
          else
            (let k = Max (set (map fst acc)) in
             if n \<le> k then (rows, acc)
             else
               (let trailing = filter (\<lambda>(i, r). time_of acc k < row_time r) (unused_rows rows); needed = n - k in
                if length trailing < needed then (rows, acc)
                else fill_numbers ''gap-fill-tail'' [Suc k..<Suc n]
                       (take needed (sort_key (\<lambda>(i, r). row_time r) trailing)) (rows, acc))))"

definition boundary_time :: "boundaries \<Rightarrow> nat \<Rightarrow> exn + rat" where
  "boundary_time acc k = (case map_of acc k of Some (t, _) \<Rightarrow> Inr t | None \<Rightarrow> Inl (KeyError (show_nat k)))"

definition seed_chapters :: "rat list \<Rightarrow> string list \<Rightarrow> chapter_mark list" where
  "seed_chapters ts titles =
     map (\<lambda>(i, s, e, t). \<lparr>ch_id = i, ch_start = s, ch_end = e, ch_title = t\<rparr>)
       (enum_from 0 (zip (0 # ts) (zip (ts @ [0]) titles)))"

definition choose_boundaries :: "string \<Rightarrow> string list \<Rightarrow> (rat \<times> string) list \<Rightarrow> exn + cand_row list \<times> chapter_mark list" where
  "choose_boundaries name titles candidates =
     (let n = length titles;
          (rows, acc) = fill_tail n (fill_gaps (spoken_pass n 2 (sort_key fst candidates)))
      in if int (length acc) \<noteq> int n - 1
         then Inl (RuntimeError (''Accepted '' @ show_nat (length acc) @ '' boundaries for '' @ name @ '', expected '' @
                     show_int (int n - 1)))
         else rbnd (rmap (boundary_time acc) [2..<Suc n]) (\<lambda>ts. Inr (rows, seed_chapters ts titles)))"

text \<open>Each chapter ends where the next one starts, and the last at the end of the book.\<close>

fun finalize_from :: "nat \<Rightarrow> rat \<Rightarrow> chapter_mark list \<Rightarrow> chapter_mark list" where
  "finalize_from i duration [] = []"
| "finalize_from i duration [c] =
     [\<lparr>ch_id = i, ch_start = round3 (ch_start c), ch_end = round3 duration, ch_title = ch_title c\<rparr>]"
| "finalize_from i duration (c # d # cs) =
     \<lparr>ch_id = i, ch_start = round3 (ch_start c), ch_end = round3 (ch_start d), ch_title = ch_title c\<rparr>
     # finalize_from (Suc i) duration (d # cs)"

definition finalize_chapters :: "chapter_mark list \<Rightarrow> rat \<Rightarrow> chapter_mark list" where
  "finalize_chapters chapters duration = finalize_from 0 duration chapters"

section \<open>Selected books\<close>



section \<open>Rounding\<close>

lemma round_even_mono: "x \<le> y \<Longrightarrow> round_even x \<le> round_even y"
proof -
  assume le: "x \<le> y"
  have b: "\<lfloor>z\<rfloor> \<le> round_even z \<and> round_even z \<le> \<lfloor>z\<rfloor> + 1" for z by (simp add: round_even_def Let_def)
  show ?thesis
  proof (cases "\<lfloor>x\<rfloor> = \<lfloor>y\<rfloor>")
    case True
    then show ?thesis using le by (auto simp: round_even_def Let_def)
  next
    case False
    then have "\<lfloor>x\<rfloor> + 1 \<le> \<lfloor>y\<rfloor>" using floor_mono [OF le] by linarith
    then show ?thesis using b [of x] b [of y] by linarith
  qed
qed

lemma round_even_of_int [simp]: "round_even (of_int i) = i"
  by (simp add: round_even_def)

lemma round3_mono: "x \<le> y \<Longrightarrow> round3 x \<le> round3 y"
  using round_even_mono [of "x * 1000" "y * 1000"] by (simp add: round3_def divide_right_mono)

lemma round3_idem [simp]: "round3 (round3 x) = round3 x"
  by (simp add: round3_def)

lemma round3_zero [simp]: "round3 0 = 0"
  using round_even_of_int [of 0] by (simp add: round3_def)

section \<open>The boundaries that are chosen\<close>

abbreviation times_of :: "boundaries \<Rightarrow> rat list" where
  "times_of acc \<equiv> map (\<lambda>(k, t, x). t) acc"

lemma spoken_pass_spec:
  assumes "sorted (map fst cs)" "spoken_pass n nxt cs = (rows, acc)"
  shows "map fst acc = [nxt..<nxt + length acc] \<and> (if nxt \<le> n then nxt + length acc \<le> Suc n else length acc \<le> 1) \<and>
    sorted (times_of acc) \<and> set (times_of acc) \<subseteq> fst ` set cs \<and> row_time ` set rows \<subseteq> round3 ` fst ` set cs"
  using assms
proof (induction n nxt cs arbitrary: rows acc rule: spoken_pass.induct)
  case (1 n nxt)
  then show ?case by auto
next
  case (2 n nxt t transcript cs)
  have s: "sorted (map fst cs)" "\<forall>x\<in>set cs. t \<le> fst x" using "2.prems"(1) by auto
  show ?case
  proof (cases "parse_chapter_number transcript = Some nxt")
    case False
    obtain r a where ra: "spoken_pass n nxt cs = (r, a)" by fastforce
    with "2.prems"(2) False have "rows = make_row t transcript None # r" "acc = a" by auto
    with "2.IH"(1) [OF _ s(1) ra] False show ?thesis by (auto simp: make_row_def split: if_splits)
  next
    case True
    show ?thesis
    proof (cases "n < Suc nxt")
      case lt: True
      then have "rows = [make_row t transcript (Some ''spoken'')]" "acc = [(nxt, t, cleaned_text transcript)]"
        using "2.prems"(2) True by auto
      with lt show ?thesis by (auto simp: make_row_def)
    next
      case ge: False
      obtain r a where ra: "spoken_pass n (Suc nxt) cs = (r, a)" by fastforce
      with "2.prems"(2) True ge have e: "rows = make_row t transcript (Some ''spoken'') # r"
        "acc = (nxt, t, cleaned_text transcript) # a" by auto
      note ih = "2.IH"(2) [OF _ ge s(1) ra]
      have "map fst a = [Suc nxt..<Suc nxt + length a]" "Suc nxt + length a \<le> Suc n" "sorted (times_of a)"
        "set (times_of a) \<subseteq> fst ` set cs" "row_time ` set r \<subseteq> round3 ` fst ` set cs"
        using ih True ge by (auto split: if_splits)
      then show ?thesis using s(2) ge unfolding e
        by (auto simp: make_row_def upt_conv_Cons simp del: upt_Suc)
    qed
  qed
qed

text \<open>Consecutive numbers leave no gap to fill.\<close>

lemma zip_consecutive: "(l, r) \<in> set (zip [a..<b] (tl [a..<b])) \<Longrightarrow> r = Suc l"
proof -
  assume "(l, r) \<in> set (zip [a..<b] (tl [a..<b]))"
  then obtain i where "i < length (tl [a..<b])" "[a..<b] ! i = l" "tl [a..<b] ! i = r" "i < length [a..<b]"
    by (auto simp: set_zip)
  then show ?thesis by (auto simp: nth_tl)
qed

lemma foldl_fill_gap_id: "\<forall>(l, r)\<in>set gs. r = Suc l \<Longrightarrow> foldl fill_gap st gs = st"
  by (induction gs) (auto simp: fill_gap_def split: prod.splits)

lemma fill_gaps_consecutive: "map fst acc = [2..<2 + m] \<Longrightarrow> fill_gaps (rows, acc) = (rows, acc)"
proof -
  assume k: "map fst acc = [2..<2 + m]"
  have "sort [2..<2 + m] = [2..<2 + m]" by (rule sorted_sort_id) (rule sorted_upt)
  then have "1 # sort (map fst acc) = [1..<2 + m]"
    unfolding k using upt_conv_Cons [of 1 "2 + m"] by (simp add: numeral_2_eq_2 del: upt_Suc)
  then show ?thesis unfolding fill_gaps_def Let_def snd_conv
    using zip_consecutive by (simp only:) (rule foldl_fill_gap_id, blast)
qed

text \<open>
  Gaps are never filled. The first pass accepts only consecutive numbers, so the second
  one, which is to find boundaries between two known chapters, never finds a gap: it changes
  nothing, whatever the candidates are.
\<close>

theorem gaps_are_never_filled:
  "fill_gaps (spoken_pass n 2 (sort_key fst candidates)) = spoken_pass n 2 (sort_key fst candidates)"
proof -
  obtain rows acc where e: "spoken_pass n 2 (sort_key fst candidates) = (rows, acc)" by fastforce
  have "map fst acc = [2..<2 + length acc]" using spoken_pass_spec [OF _ e] by simp
  from fill_gaps_consecutive [OF this] show ?thesis unfolding e .
qed


text \<open>Filling consecutive new numbers appends their boundaries.\<close>

lemma update_new: "k \<notin> fst ` set al \<Longrightarrow> AList.update k v al = al @ [(k, v)]"
  by (induction al) auto

lemma fill_appends:
  assumes "distinct (map fst xs)" "fst ` set xs \<inter> fst ` set acc = {}"
  shows "foldl (\<lambda>(rows, acc) (k, i, r). (rows[i := r\<lparr>row_reason := Some reason\<rparr>], AList.update k (row_time r, row_text r) acc))
      (rows, acc) xs = (foldl (\<lambda>rows (k, i, r). rows[i := r\<lparr>row_reason := Some reason\<rparr>]) rows xs,
        acc @ map (\<lambda>(k, i, r). (k, row_time r, row_text r)) xs)"
  using assms
proof (induction xs arbitrary: rows acc)
  case (Cons x xs)
  obtain k i r where x: "x = (k, i, r)" by (cases x) auto
  have "AList.update k (row_time r, row_text r) acc = acc @ [(k, row_time r, row_text r)]"
    using Cons.prems(2) by (intro update_new) (auto simp: x)
  with Cons.IH [of "acc @ [(k, row_time r, row_text r)]"] Cons.prems show ?case by (auto simp: x)
qed simp

lemma unused_rows_set: "(i, r) \<in> set (unused_rows rows) \<Longrightarrow> r \<in> set rows"
  by (auto simp: unused_rows_def enum_from_conv dest: set_zip_rightD)

definition good_boundaries :: "rat list \<Rightarrow> nat \<Rightarrow> boundaries \<Rightarrow> bool" where
  "good_boundaries ts n acc \<longleftrightarrow>
     map fst acc = [2..<2 + length acc] \<and> sorted (times_of acc) \<and>
     (\<forall>t\<in>set (times_of acc). t \<in> set ts \<or> t \<in> round3 ` set ts)"

lemma time_of_last:
  assumes "map fst acc = [2..<2 + length acc]" "acc \<noteq> []"
  shows "Max (set (map fst acc)) = Suc (length acc)" "time_of acc (Suc (length acc)) = last (times_of acc)"
proof -
  obtain xs k t x where a: "acc = xs @ [(k, t, x)]" using assms(2) by (metis rev_exhaust surj_pair)
  have len: "[2..<2 + length acc] = [2..<2 + length xs] @ [2 + length xs]" by (simp add: a)
  then have k: "k = 2 + length xs" "map fst xs = [2..<2 + length xs]" using assms(1) unfolding a by simp_all
  have "k \<notin> fst ` set xs" using k by (metis (no_types) atLeastLessThan_iff list.set_map order_less_irrefl set_upt)
  then have "map_of xs k = None" by (simp add: map_of_eq_None_iff)
  then show "time_of acc (Suc (length acc)) = last (times_of acc)"
    by (simp add: time_of_def a k(1) map_add_def)
  show "Max (set (map fst acc)) = Suc (length acc)"
    unfolding assms(1) set_upt using assms(2)
    by (intro Max_eqI) (auto simp: Suc_le_eq)
qed

lemma le_last: "sorted xs \<Longrightarrow> x \<in> set xs \<Longrightarrow> x \<le> last xs" for x :: "'a :: linorder"
  by (cases xs rule: rev_cases) (auto simp: sorted_append)

lemma fill_tail_good:
  assumes good: "good_boundaries ts n acc" and rows: "row_time ` set rows \<subseteq> round3 ` set ts"
    and run: "fill_tail n (rows, acc) = (rows', acc')"
  shows "good_boundaries ts n acc'"
proof (cases "acc = [] \<or> n \<le> Suc (length acc)")
  case True
  have "acc' = acc"
  proof (cases "acc = []")
    case ne: False
    with True have n: "n \<le> Suc (length acc)" by simp
    have "map fst acc = [2..<2 + length acc]" using good by (simp add: good_boundaries_def)
    from run [unfolded fill_tail_def prod.case Let_def time_of_last(1) [OF this ne]] ne n show ?thesis by simp
  qed (use run in \<open>simp add: fill_tail_def\<close>)
  with good show ?thesis by simp
next
  case False
  let ?k = "Suc (length acc)"
  have keys: "map fst acc = [2..<2 + length acc]" and ne: "acc \<noteq> []" using good False by (auto simp: good_boundaries_def)
  note k = time_of_last [OF keys ne]
  define trailing where "trailing = filter (\<lambda>(i, r). time_of acc ?k < row_time r) (unused_rows rows)"
  define chosen where "chosen = take (n - ?k) (sort_key (\<lambda>(i, r). row_time r) trailing)"
  have run2: "(if length trailing < n - ?k then (rows, acc)
      else fill_numbers ''gap-fill-tail'' [Suc ?k..<Suc n] chosen (rows, acc)) = (rows', acc')"
  proof -
    have "\<not> n \<le> ?k" using False by simp
    from run [unfolded fill_tail_def prod.case Let_def k(1) if_not_P [OF this] if_not_P [OF ne]]
    show ?thesis unfolding trailing_def chosen_def .
  qed
  show ?thesis
  proof (cases "length trailing < n - ?k")
    case True
    with run2 good show ?thesis by simp
  next
    case enough: False
    have sorted: "sorted (map (\<lambda>(i, r). row_time r) chosen)"
      unfolding chosen_def take_map [symmetric] by (intro sorted_wrt_take) simp
    then have sk: "sort_key (\<lambda>(i, r). row_time r) chosen = chosen" by (rule sort_key_id_if_sorted)
    have len: "length chosen = n - ?k" using enough by (simp add: chosen_def)
    let ?zs = "zip [Suc ?k..<Suc n] chosen"
    have fsts: "map fst ?zs = [Suc ?k..<Suc n]" using len by simp
    have new: "fst ` set ?zs \<inter> fst ` set acc = {}"
    proof -
      have "fst ` set acc = {2..<2 + length acc}" by (metis keys list.set_map set_upt)
      moreover have "fst ` set ?zs = {Suc ?k..<Suc n}" by (metis fsts list.set_map set_upt)
      ultimately show ?thesis by auto
    qed
    have "distinct (map fst ?zs)" unfolding fsts by simp
    from fill_appends [OF this new, of "''gap-fill-tail''" rows] run2 enough sk
    have acc': "acc' = acc @ map (\<lambda>(k, i, r). (k, row_time r, row_text r)) ?zs"
      by (simp add: fill_numbers_def)
    have fst': "map fst acc' = map fst acc @ map fst ?zs" unfolding acc' by (simp add: comp_def split_def)
    have times': "times_of acc' = times_of acc @ map (\<lambda>(i, r). row_time r) (map snd ?zs)"
      unfolding acc' by (simp add: comp_def split_def)
    have snds: "map snd ?zs = chosen" by (rule map_snd_zip) (simp add: len del: upt_Suc)
    have la: "length acc' = length acc + (n - ?k)" using len unfolding acc' by (simp del: upt_Suc)
    have "map fst acc' = [2..<2 + length acc']"
      unfolding fst' fsts keys la using False upt_add_eq_append [of 2 "2 + length acc" "n - ?k"]
      by (simp add: not_le del: upt_Suc)
    moreover have mem: "row_time r \<in> round3 ` set ts \<and> last (times_of acc) < row_time r" if "(i, r) \<in> set chosen" for i r
    proof -
      have "(i, r) \<in> set trailing" using that in_set_takeD unfolding chosen_def by (metis set_sort)
      then show ?thesis using k(2) rows unused_rows_set [of i r rows] by (auto simp: trailing_def)
    qed
    moreover have "sorted (times_of acc')"
    proof -
      have "\<forall>x\<in>set (times_of acc). x \<le> last (times_of acc)"
        using le_last [of "times_of acc"] good unfolding good_boundaries_def by blast
      then show ?thesis using good sorted mem unfolding times' snds
        by (fastforce simp: good_boundaries_def sorted_append)
    qed
    moreover have "\<forall>t\<in>set (times_of acc'). t \<in> set ts \<or> t \<in> round3 ` set ts"
      using good mem unfolding times' snds by (auto simp: good_boundaries_def)
    ultimately show ?thesis unfolding good_boundaries_def by blast
  qed
qed


section \<open>The chapters\<close>

lemma finalize_from_fields:
  "map ch_title (finalize_from i d cs) = map ch_title cs"
  "map ch_id (finalize_from i d cs) = [i..<i + length cs]"
  "map ch_start (finalize_from i d cs) = map (\<lambda>c. round3 (ch_start c)) cs"
  "map ch_end (finalize_from i d cs) = (if cs = [] then [] else tl (map (\<lambda>c. round3 (ch_start c)) cs) @ [round3 d])"
  by (induction i d cs rule: finalize_from.induct) (simp_all add: upt_conv_Cons del: upt_Suc)

lemma map_enum_from: "map (\<lambda>(i, x). g x) (enum_from i ys) = map g ys"
  by (induction i ys rule: enum_from.induct) auto

lemma sorted_round3: "sorted ts \<Longrightarrow> sorted (map round3 ts)"
  by (induction ts) (auto simp: round3_mono)

lemma seed_fields:
  assumes "length titles = Suc (length ts)"
  shows "map ch_title (seed_chapters ts titles) = titles" "map ch_start (seed_chapters ts titles) = 0 # ts"
proof -
  have z: "map (\<lambda>(i, s, e, t). f s e t) (enum_from i (zip xs (zip ys zs))) = map (\<lambda>(s, e, t). f s e t) (zip xs (zip ys zs))"
    for f :: "rat \<Rightarrow> rat \<Rightarrow> string \<Rightarrow> 'z" and i xs ys zs
    using map_enum_from [of "\<lambda>(s, e, t). f s e t"] .
  have c: "ch_title \<circ> (\<lambda>(i, s, e, t). \<lparr>ch_id = i, ch_start = s, ch_end = e, ch_title = t\<rparr>) = (\<lambda>(i, s, e, t). t)"
    "ch_start \<circ> (\<lambda>(i, s, e, t). \<lparr>ch_id = i, ch_start = s, ch_end = e, ch_title = t\<rparr>) = (\<lambda>(i, s, e, t). s)"
    by auto
  have len: "length (0 # ts) = length (zip (ts @ [0]) titles)" "length (ts @ [0]) = length titles" using assms by simp_all
  have "map ch_title (seed_chapters ts titles) = map (\<lambda>(s, e, t). t) (zip (0 # ts) (zip (ts @ [0]) titles))"
    unfolding seed_chapters_def map_map c by (rule z)
  also have "\<dots> = map snd (map snd (zip (0 # ts) (zip (ts @ [0]) titles)))" by (simp add: split_def)
  also have "\<dots> = titles" unfolding map_snd_zip [OF len(1)] by (rule map_snd_zip [OF len(2)])
  finally show "map ch_title (seed_chapters ts titles) = titles" .
  have "map ch_start (seed_chapters ts titles) = map (\<lambda>(s, e, t). s) (zip (0 # ts) (zip (ts @ [0]) titles))"
    unfolding seed_chapters_def map_map c by (rule z)
  also have "\<dots> = map fst (zip (0 # ts) (zip (ts @ [0]) titles))" by (simp add: split_def)
  also have "\<dots> = 0 # ts" by (rule map_fst_zip [OF len(1)])
  finally show "map ch_start (seed_chapters ts titles) = 0 # ts" .
qed

lemma boundary_times:
  assumes "map fst acc = ks" "distinct ks"
  shows "rmap (boundary_time acc) ks = Inr (times_of acc)"
proof -
  have m: "map_of acc k = Some (t, x)" if "(k, t, x) \<in> set acc" for k t x
    using that assms by (intro map_of_is_SomeI) auto
  have "rmap (boundary_time acc) (map fst xs) = Inr (times_of xs)" if "set xs \<subseteq> set acc" for xs
    using that by (induction xs) (auto simp: boundary_time_def m)
  then show ?thesis using assms(1) by auto
qed

lemma choose_boundaries_run:
  assumes "choose_boundaries name titles cands = Inr (rows, seed)"
  obtains acc where "good_boundaries (map fst cands) (length titles) acc" "length titles = Suc (length acc)"
    "seed = seed_chapters (times_of acc) titles"
proof -
  let ?n = "length titles" and ?cs = "sort_key fst cands"
  obtain rows0 acc0 where sp: "spoken_pass ?n 2 ?cs = (rows0, acc0)" by fastforce
  obtain rows1 acc where ft: "fill_tail ?n (rows0, acc0) = (rows1, acc)" by fastforce
  have gaps: "fill_gaps (rows0, acc0) = (rows0, acc0)"
    using spoken_pass_spec [OF _ sp] by (intro fill_gaps_consecutive) auto
  have good0: "good_boundaries (map fst cands) ?n acc0" and rows0: "row_time ` set rows0 \<subseteq> round3 ` set (map fst cands)"
    using spoken_pass_spec [OF _ sp] by (auto simp: good_boundaries_def)
  note good = fill_tail_good [OF good0 rows0 ft]
  have run: "(if int (length acc) \<noteq> int ?n - 1 then Inl (RuntimeError (''Accepted '' @ show_nat (length acc) @ '' boundaries for '' @ name @
      '', expected '' @ show_int (int ?n - 1)))
    else rbnd (rmap (boundary_time acc) [2..<Suc ?n]) (\<lambda>ts. Inr (rows1, seed_chapters ts titles))) = Inr (rows, seed)"
    using assms unfolding choose_boundaries_def Let_def sp gaps ft prod.case .
  then have n: "?n = Suc (length acc)" by (cases "int (length acc) = int ?n - 1") (simp_all del: upt_Suc)
  have "map fst acc = [2..<Suc ?n]" using good unfolding good_boundaries_def n by simp
  from boundary_times [OF this] run n have "seed = seed_chapters (times_of acc) titles" by (simp del: upt_Suc)
  then show thesis by (rule that [OF good n])
qed

text \<open>
  C27. The chapters of a book. If boundaries are found, the chapters have the titles in order
  and are numbered from 0; they start in increasing order, the first at 0; each ends where the
  next starts and the last at the end of the book; and every boundary is the time of a
  candidate, to the millisecond.
\<close>

theorem chapters_cover_the_book:
  assumes "choose_boundaries name titles cands = Inr (rows, seed)" "list_all (\<lambda>(t, x). 0 \<le> t) cands"
  shows "let chs = finalize_chapters seed duration; starts = map ch_start chs in
    map ch_title chs = titles \<and> map ch_id chs = [0..<length titles] \<and> sorted starts \<and> hd starts = 0 \<and>
    map ch_end chs = tl starts @ [round3 duration] \<and> set (tl starts) \<subseteq> (\<lambda>(t, x). round3 t) ` set cands"
proof -
  obtain acc where acc: "good_boundaries (map fst cands) (length titles) acc" "length titles = Suc (length acc)"
    "seed = seed_chapters (times_of acc) titles" using choose_boundaries_run [OF assms(1)] .
  have len: "length titles = Suc (length (times_of acc))" using acc(2) by simp
  note seed = seed_fields [OF len, folded acc(3)]
  have starts: "map ch_start (finalize_chapters seed duration) = 0 # map round3 (times_of acc)"
  proof -
    have "map (\<lambda>c. round3 (ch_start c)) seed = map round3 (map ch_start seed)" by simp
    then show ?thesis unfolding finalize_chapters_def finalize_from_fields seed by simp
  qed
  have ne: "seed \<noteq> []" using seed(2) by auto
  have "length seed = length titles" using seed(1) by (metis length_map)
  moreover have "map ch_end (finalize_chapters seed duration) = map round3 (times_of acc) @ [round3 duration]"
    using starts ne finalize_from_fields(3) [of 0 duration seed] unfolding finalize_chapters_def finalize_from_fields(4)
    by (metis list.sel(3))
  moreover have "sorted (0 # map round3 (times_of acc))"
  proof -
    have "\<forall>t\<in>set (times_of acc). 0 \<le> round3 t"
      using acc(1) assms(2) round3_mono [of 0] unfolding good_boundaries_def list_all_iff by fastforce
    moreover have "sorted (map round3 (times_of acc))"
      using acc(1) sorted_round3 unfolding good_boundaries_def by blast
    ultimately show ?thesis by (simp only: sorted_simps) auto
  qed
  moreover have "set (map round3 (times_of acc)) \<subseteq> (\<lambda>(t, x). round3 t) ` set cands"
    using acc(1) unfolding good_boundaries_def by fastforce
  ultimately show ?thesis using starts seed(1)
    by (simp add: Let_def finalize_chapters_def finalize_from_fields)
qed

theorem chapters_cover_the_book_witness:
  "\<exists>rows seed. choose_boundaries ''B'' [''One'', ''Two''] [(9, ''Chapter two.''), (5, ''A pause'')] = Inr (rows, seed) \<and>
     map ch_end (finalize_chapters seed 20) = [9, 20]"
proof -
  have run: "choose_boundaries ''B'' [''One'', ''Two''] [(9, ''Chapter two.''), (5, ''A pause'')] =
      Inr ([make_row 5 ''A pause'' None, make_row 9 ''Chapter two.'' (Some ''spoken'')], seed_chapters [9] [''One'', ''Two''])"
    by code_simp
  from chapters_cover_the_book [OF run] have "map ch_end (finalize_chapters (seed_chapters [9] [''One'', ''Two'']) 20) =
      tl (map ch_start (finalize_chapters (seed_chapters [9] [''One'', ''Two'']) 20)) @ [round3 20]"
    by (simp add: Let_def)
  also have "\<dots> = [9, 20]" by code_simp
  finally have ends: "map ch_end (finalize_chapters (seed_chapters [9] [''One'', ''Two'']) 20) = [9, 20]" .
  show ?thesis by (rule exI, rule exI, rule conjI [OF run ends])
qed

text \<open>
  What follows from a heading that is not understood: its number is never accepted, so the
  chapters after it take the silences in their order, headings or not.
\<close>

lemma misheard_heading_shifts_chapters:
  "case choose_boundaries ''B'' [''One'', ''Two'', ''Three'', ''Four'']
      [(10, ''Chapter two.''), (20, ''Chapter free.''), (25, ''He paused.''), (30, ''Chapter four.'')] of
     Inr (rows, seed) \<Rightarrow> map ch_start seed = [0, 10, 20, 25] | Inl e \<Rightarrow> False"
  by code_simp

lemma twenty_two_is_twenty: "parse_chapter_number ''Chapter twenty two.'' = Some 20"
  by code_simp

section \<open>Tools, the web and the world\<close>

record 's rebuild_env =
  probe_chapters :: "path \<Rightarrow> 's \<Rightarrow> (exn + string) \<times> 's"
  probe_seconds :: "path \<Rightarrow> 's \<Rightarrow> (exn + string) \<times> 's"
  silence_log :: "path \<Rightarrow> rat \<Rightarrow> 's \<Rightarrow> (exn + string) \<times> 's"
  cut_clip :: "path \<Rightarrow> string \<Rightarrow> 's \<Rightarrow> (exn + string) \<times> 's"
  run_whisper :: "string \<Rightarrow> 's \<Rightarrow> (exn + string option) \<times> 's"
  open_page :: "string \<Rightarrow> (string \<times> string) list \<Rightarrow> 's \<Rightarrow> (exn + string) \<times> 's"
  abs_call :: "string \<Rightarrow> string \<Rightarrow> json option \<Rightarrow> 's \<Rightarrow> (exn + string) \<times> 's"
  wall_clock :: "'s \<Rightarrow> rat \<times> 's"
  sleep_for :: "rat \<Rightarrow> 's \<Rightarrow> 's"
  temp_dir :: "'s \<Rightarrow> path \<times> 's"
  environ :: "string \<Rightarrow> string option"
  has_tool :: "string \<Rightarrow> bool"

record 's rebuild =
  outside :: 's
  tree :: fs

definition tool :: "('s \<Rightarrow> (exn + 'a) \<times> 's) \<Rightarrow> ('s rebuild, 'a) prog" where
  "tool f w = (case f (outside w) of (r, s) \<Rightarrow> (r, w\<lparr>outside := s\<rparr>))"

definition sense :: "('s \<Rightarrow> 'a \<times> 's) \<Rightarrow> ('s rebuild, 'a) prog" where
  "sense f = tool (\<lambda>s. case f s of (x, s') \<Rightarrow> (Inr x, s'))"


definition loads :: "string \<Rightarrow> exn + json" where
  "loads s = (case json_loads s of None \<Rightarrow> Inl JSONDecodeError | Some j \<Rightarrow> Inr j)"


section \<open>Titles from the web, chapters from the file\<close>






text \<open>Start, end and title of a chapter that ffprobe lists\<close>

definition read_chapter :: "json \<Rightarrow> exn + rat \<times> rat \<times> json" where
  "read_chapter c =
     rbnd (rbnd (py_get_or c ''start_time'' (JDec 0 0)) py_float_of) (\<lambda>s.
     rbnd (rbnd (py_get_or c ''end_time'' (JDec 0 0)) py_float_of) (\<lambda>e.
     rbnd (rbnd (py_get_or c ''tags'' (JObj [])) (\<lambda>tags. py_get_or tags ''title'' (JStr []))) (\<lambda>t. Inr (s, e, t))))"

definition existing_chapters :: "'s rebuild_env \<Rightarrow> path \<Rightarrow> ('s rebuild, (rat \<times> rat \<times> json) list) prog" where
  "existing_chapters E p =
     bnd (tool (probe_chapters E p)) (\<lambda>out.
       of_result (rbnd (loads out) (\<lambda>j. rbnd (py_get_or j ''chapters'' (JArr [])) (\<lambda>cs.
         rbnd (py_iter cs) (rmap read_chapter)))))"

definition existing_titles :: "'s rebuild_env \<Rightarrow> path \<Rightarrow> ('s rebuild, json list) prog" where
  "existing_titles E p = bnd (existing_chapters E p) (\<lambda>cs. ret (map (\<lambda>(s, e, t). t) cs))"









section \<open>The analysis of a book\<close>















section \<open>Audiobookshelf\<close>

definition env_item :: "'s rebuild_env \<Rightarrow> string \<Rightarrow> exn + string" where
  "env_item E k = (case environ E k of None \<Rightarrow> Inl (KeyError k) | Some v \<Rightarrow> Inr v)"


definition abs_get :: "'s rebuild_env \<Rightarrow> string \<Rightarrow> ('s rebuild, json) prog" where
  "abs_get E p =
     bnd (of_result (env_item E ''AUDIOBOOKSHELF_URL'')) (\<lambda>base.
     bnd (of_result (env_item E ''AUDIOBOOKSHELF_TOKEN'')) (\<lambda>_.
     bnd (tool (abs_call E ''GET'' (base @ p) None)) (\<lambda>r. of_result (loads r))))"




definition abs_item_chapter_titles :: "'s rebuild_env \<Rightarrow> string \<Rightarrow> ('s rebuild, json list) prog" where
  "abs_item_chapter_titles E item =
     bnd (abs_get E (''/api/items/'' @ item @ ''?expanded=1'')) (\<lambda>j.
       of_result (rbnd (py_get_or j ''media'' (JObj [])) (\<lambda>m. rbnd (py_get_or m ''chapters'' (JArr [])) (\<lambda>cs.
         rbnd (py_iter cs) (rmap (\<lambda>c. py_get_or c ''title'' (JStr [])))))))"

text \<open>
  Both waits look once a second for twenty seconds; with a clock that advances with each
  sleep the fuel is more than they need.
\<close>

definition wait_seconds :: rat where "wait_seconds = 20"
definition wait_fuel :: nat where "wait_fuel = 22"

definition nap :: "'s rebuild_env \<Rightarrow> rat \<Rightarrow> ('s rebuild, unit) prog" where
  "nap E d = modify (\<lambda>w. w\<lparr>outside := sleep_for E d (outside w)\<rparr>)"

fun await_titles :: "'s rebuild_env \<Rightarrow> string \<Rightarrow> json list \<Rightarrow> rat \<Rightarrow> nat \<Rightarrow> ('s rebuild, unit) prog" where
  "await_titles E item expected deadline 0 = raise OutOfFuel"
| "await_titles E item expected deadline (Suc n) =
     bnd (sense (wall_clock E)) (\<lambda>now.
     if deadline \<le> now then raise (RuntimeError (''ABS chapter update did not settle for '' @ item))
     else
       bnd (abs_item_chapter_titles E item) (\<lambda>seen.
       if map canon seen = map canon expected then ret ()
       else bnd (nap E 1) (\<lambda>_. await_titles E item expected deadline n)))"

definition wait_for_abs_chapter_titles :: "'s rebuild_env \<Rightarrow> string \<Rightarrow> json list \<Rightarrow> ('s rebuild, unit) prog" where
  "wait_for_abs_chapter_titles E item chapters =
     bnd (of_result (rmap (\<lambda>c. py_item c ''title'') chapters)) (\<lambda>expected.
     bnd (sense (wall_clock E)) (\<lambda>now. await_titles E item expected (now + wait_seconds) wait_fuel))"

fun await_file_titles :: "'s rebuild_env \<Rightarrow> path \<Rightarrow> rat \<Rightarrow> nat \<Rightarrow> ('s rebuild, json \<times> json) prog" where
  "await_file_titles E p deadline 0 = raise OutOfFuel"
| "await_file_titles E p deadline (Suc n) =
     bnd (existing_titles E p) (\<lambda>titles.
     if titles \<noteq> [] then ret (hd titles, last titles)
     else
       bnd (sense (wall_clock E)) (\<lambda>now.
       if deadline \<le> now then raise (RuntimeError (''No chapters found in '' @ path_str p))
       else bnd (nap E 1) (\<lambda>_. await_file_titles E p deadline n)))"

definition verify_file_titles :: "'s rebuild_env \<Rightarrow> path \<Rightarrow> ('s rebuild, json \<times> json) prog" where
  "verify_file_titles E p =
     bnd (sense (wall_clock E)) (\<lambda>now. await_file_titles E p (now + wait_seconds) wait_fuel)"



section \<open>The run\<close>













section \<open>Files the rebuild does not own\<close>

text \<open>Whatever exists outside the output directory and the working directories stays as it is.\<close>

definition keeps_outside :: "path \<Rightarrow> path \<Rightarrow> 's rebuild \<Rightarrow> 's rebuild \<Rightarrow> bool" where
  "keeps_outside out tmp w w' \<longleftrightarrow>
     (\<forall>p n. map_of (tree w) p = Some n \<and> \<not> is_relative_to p out \<and> \<not> is_relative_to p tmp \<longrightarrow>
        map_of (tree w') p = Some n)"

interpretation outside: step_relation "keeps_outside out tmp" for out tmp
  by unfold_locales (auto simp: keeps_outside_def)


























section \<open>A run\<close>







section \<open>The waits return\<close>

text \<open>
  Documented of the clock and of the tools: the time (\<open>\<tau>\<close>) never goes back, a nap takes at
  least as long as asked for, and running out of fuel is no answer of theirs.
\<close>

definition forward :: "('s \<Rightarrow> rat) \<Rightarrow> ('s \<Rightarrow> (exn + 'a) \<times> 's) \<Rightarrow> bool" where
  "forward \<tau> f \<longleftrightarrow> (\<forall>s. \<tau> s \<le> \<tau> (snd (f s)) \<and> fst (f s) \<noteq> Inl OutOfFuel)"

definition time_flows :: "('s \<Rightarrow> rat) \<Rightarrow> 's rebuild_env \<Rightarrow> bool" where
  "time_flows \<tau> E \<longleftrightarrow>
     (\<forall>s. \<tau> s \<le> fst (wall_clock E s) \<and> fst (wall_clock E s) \<le> \<tau> (snd (wall_clock E s))) \<and>
     (\<forall>d s. \<tau> s + d \<le> \<tau> (sleep_for E d s)) \<and>
     (\<forall>m u b. forward \<tau> (abs_call E m u b)) \<and> (\<forall>p. forward \<tau> (probe_chapters E p))"

definition no_earlier :: "('s \<Rightarrow> rat) \<Rightarrow> 's rebuild \<Rightarrow> 's rebuild \<Rightarrow> bool" where
  "no_earlier \<tau> w w' \<longleftrightarrow> \<tau> (outside w) \<le> \<tau> (outside w')"

interpretation clock: step_relation "no_earlier \<tau>" for \<tau>
  by unfold_locales (auto simp: no_earlier_def)

lemma forward_tool:
  assumes "forward \<tau> f"
  shows "keeps (no_earlier \<tau>) (tool f)" "ends (tool f)"
proof -
  have "\<tau> (outside w) \<le> \<tau> (snd (f (outside w)))" "fst (f (outside w)) \<noteq> Inl OutOfFuel" for w
    using assms by (auto simp: forward_def)
  then show "keeps (no_earlier \<tau>) (tool f)" "ends (tool f)"
    by (auto simp: keeps_def ends_def tool_def no_earlier_def case_prod_unfold)
qed

lemma loads_ends: "loads s \<noteq> Inl OutOfFuel"
  by (simp add: loads_def split: option.split)

lemma env_item_ends: "env_item E k \<noteq> Inl OutOfFuel"
  by (simp add: env_item_def split: option.split)

lemma float_ends: "py_float_of j \<noteq> Inl OutOfFuel"
  by (auto simp: py_float_of_def split: json.split option.split)

lemma read_chapter_ends: "read_chapter c \<noteq> Inl OutOfFuel"
  unfolding read_chapter_def by (intro py_ends float_ends) simp

lemma asking_flows:
  fixes E :: "'s rebuild_env"
  assumes "time_flows \<tau> E"
  shows "keeps (no_earlier \<tau>) (abs_item_chapter_titles E item)" "ends (abs_item_chapter_titles E item)"
    "keeps (no_earlier \<tau>) (existing_titles E p)" "ends (existing_titles E p)"
proof -
  have f: "forward \<tau> (abs_call E m u b)" "forward \<tau> (probe_chapters E p)" for m u b p
    using assms by (simp_all add: time_flows_def)
  show "keeps (no_earlier \<tau>) (abs_item_chapter_titles E item)"
    unfolding abs_item_chapter_titles_def abs_get_def
    by (intro clock.seq clock.pure forward_tool(1) f)
  show "ends (abs_item_chapter_titles E item)"
    unfolding abs_item_chapter_titles_def abs_get_def
    by (intro ends_bnd ends_pure forward_tool(2) [OF f(1)] py_ends env_item_ends loads_ends)
  show "keeps (no_earlier \<tau>) (existing_titles E p)"
    unfolding existing_titles_def existing_chapters_def
    by (intro clock.seq clock.pure forward_tool(1) f)
  show "ends (existing_titles E p)"
    unfolding existing_titles_def existing_chapters_def
    by (intro ends_bnd ends_pure forward_tool(2) [OF f(2)] py_ends loads_ends read_chapter_ends)
qed

lemma sense_clock:
  assumes "time_flows \<tau> E" "sense (wall_clock E) w = (r, w')"
  obtains now where "r = Inr now" "\<tau> (outside w) \<le> now" "now \<le> \<tau> (outside w')"
proof -
  have t: "\<tau> (outside w) \<le> fst (wall_clock E (outside w))"
      "fst (wall_clock E (outside w)) \<le> \<tau> (snd (wall_clock E (outside w)))"
    using assms(1) by (auto simp: time_flows_def)
  from assms(2) have "r = Inr (fst (wall_clock E (outside w)))" "outside w' = snd (wall_clock E (outside w))"
    by (auto simp: sense_def tool_def split: prod.splits)
  with t show ?thesis by (intro that) simp_all
qed

lemma nap_run:
  assumes "time_flows \<tau> E"
  shows "\<exists>w'. nap E d w = (Inr (), w') \<and> \<tau> (outside w) + d \<le> \<tau> (outside w')"
  using assms by (simp add: nap_def modify_def time_flows_def)

lemma await_titles_ends:
  fixes E :: "'s rebuild_env"
  assumes f: "time_flows \<tau> E"
  shows "deadline \<le> \<tau> (outside w) + of_nat n \<Longrightarrow> fst (await_titles E item expected deadline (Suc n) w) \<noteq> Inl OutOfFuel"
proof (induction n arbitrary: w)
  case (0 w)
  obtain r w1 where s: "sense (wall_clock E) w = (r, w1)" by fastforce
  with f obtain now where "r = Inr now" "\<tau> (outside w) \<le> now" by (rule sense_clock)
  with s 0 show ?case by (simp add: bnd_def raise_def)
next
  case (Suc n w)
  obtain r w1 where s: "sense (wall_clock E) w = (r, w1)" by fastforce
  with f obtain now where r: "r = Inr now" "\<tau> (outside w) \<le> now" "now \<le> \<tau> (outside w1)" by (rule sense_clock)
  obtain x w2 where a: "abs_item_chapter_titles E item w1 = (x, w2)" by fastforce
  have x: "x \<noteq> Inl OutOfFuel" using asking_flows(2) [OF f] a unfolding ends_def by (metis fst_conv)
  have w2: "\<tau> (outside w1) \<le> \<tau> (outside w2)"
    using keepsD [OF asking_flows(1) [OF f] a] by (simp add: no_earlier_def)
  obtain w3 where n: "nap E 1 w2 = (Inr (), w3)" "\<tau> (outside w2) + 1 \<le> \<tau> (outside w3)"
    using nap_run [OF f] by blast
  have ih: "fst (await_titles E item expected deadline (Suc n) w3) \<noteq> Inl OutOfFuel"
    using Suc.IH Suc.prems r w2 n(2) by simp
  show ?case
    unfolding await_titles.simps(2) [of _ _ _ _ "Suc n"]
    using s r(1) a x n(1) ih by (cases x) (auto simp: bnd_def raise_def ret_def simp del: await_titles.simps)
qed

lemma await_file_titles_ends:
  fixes E :: "'s rebuild_env"
  assumes f: "time_flows \<tau> E"
  shows "deadline \<le> \<tau> (outside w) + of_nat n \<Longrightarrow> fst (await_file_titles E p deadline (Suc n) w) \<noteq> Inl OutOfFuel"
proof (induction n arbitrary: w)
  case (0 w)
  obtain x w1 where a: "existing_titles E p w = (x, w1)" by fastforce
  have x: "x \<noteq> Inl OutOfFuel" using asking_flows(4) [OF f] a unfolding ends_def by (metis fst_conv)
  have w1: "\<tau> (outside w) \<le> \<tau> (outside w1)"
    using keepsD [OF asking_flows(3) [OF f] a] by (simp add: no_earlier_def)
  obtain r w2 where s: "sense (wall_clock E) w1 = (r, w2)" by fastforce
  with f obtain now where "r = Inr now" "\<tau> (outside w1) \<le> now" by (rule sense_clock)
  with s 0 w1 a x show ?case by (cases x) (auto simp: bnd_def raise_def ret_def)
next
  case (Suc n w)
  obtain x w1 where a: "existing_titles E p w = (x, w1)" by fastforce
  have x: "x \<noteq> Inl OutOfFuel" using asking_flows(4) [OF f] a unfolding ends_def by (metis fst_conv)
  have w1: "\<tau> (outside w) \<le> \<tau> (outside w1)"
    using keepsD [OF asking_flows(3) [OF f] a] by (simp add: no_earlier_def)
  obtain r w2 where s: "sense (wall_clock E) w1 = (r, w2)" by fastforce
  with f obtain now where r: "r = Inr now" "\<tau> (outside w1) \<le> now" "now \<le> \<tau> (outside w2)" by (rule sense_clock)
  obtain w3 where n: "nap E 1 w2 = (Inr (), w3)" "\<tau> (outside w2) + 1 \<le> \<tau> (outside w3)"
    using nap_run [OF f] by blast
  have ih: "fst (await_file_titles E p deadline (Suc n) w3) \<noteq> Inl OutOfFuel"
    using Suc.IH Suc.prems r w1 n(2) by simp
  show ?case
    unfolding await_file_titles.simps(2) [of _ _ _ "Suc n"]
    using s r(1) a x n(1) ih by (cases x) (auto simp: bnd_def raise_def ret_def simp del: await_file_titles.simps)
qed

text \<open>
  Both waits return: twenty-two looks, one second apart, use up their twenty seconds.
\<close>

theorem waits_return:
  fixes E :: "'s rebuild_env"
  assumes f: "time_flows \<tau> E"
  shows "ends (wait_for_abs_chapter_titles E item chapters)" "ends (verify_file_titles E p)"
proof -
  have fuel: "wait_fuel = Suc 21" "wait_seconds \<le> of_nat 21" by (simp_all add: wait_fuel_def wait_seconds_def)
  have *: "ends (bnd (sense (wall_clock E)) g)"
    if "\<And>now w. now \<le> \<tau> (outside w) \<Longrightarrow> fst (g now w) \<noteq> Inl OutOfFuel" for g :: "rat \<Rightarrow> ('s rebuild, 'a) prog"
    unfolding ends_def
  proof
    fix w :: "'s rebuild"
    obtain r w1 where s: "sense (wall_clock E) w = (r, w1)" by fastforce
    with f obtain now where "r = Inr now" "now \<le> \<tau> (outside w1)" by (rule sense_clock)
    with s that show "fst (bnd (sense (wall_clock E)) g w) \<noteq> Inl OutOfFuel" by (simp add: bnd_def)
  qed
  show "ends (wait_for_abs_chapter_titles E item chapters)"
    unfolding wait_for_abs_chapter_titles_def fuel(1)
    by (intro ends_bnd ends_pure py_ends * await_titles_ends [OF f]) (use fuel(2) in simp)
  show "ends (verify_file_titles E p)"
    unfolding verify_file_titles_def fuel(1)
    by (intro * await_file_titles_ends [OF f]) (use fuel(2) in simp)
qed

end
