(* ===== verification/Marker_Epub.thy ===== *)
theory Marker_Epub
  imports Py_Regex Py_Dyn Py_Path Py_Float
begin

text \<open>
  The EPUB post-processor (marker-to-epub.py): it turns the Markdown of a scanned magazine and
  the sidecar with its articles into clean Markdown with one heading per article, and into
  metadata, and has pandoc render them. The similarity scores of rapidfuzz, the folding of
  Unicode to ASCII, and pandoc are parameters; the report it prints is left out.
\<close>

section \<open>Similarity\<close>

record epub_env =
  partial_ratio :: "string \<Rightarrow> string \<Rightarrow> rat"
  token_set_ratio :: "string \<Rightarrow> string \<Rightarrow> rat"
  fuzz_ratio :: "string \<Rightarrow> string \<Rightarrow> rat"
  fold_ascii :: "string \<Rightarrow> string"
  render_epub :: "string \<Rightarrow> string \<Rightarrow> int \<times> string option"

definition normalise :: "epub_env \<Rightarrow> string \<Rightarrow> string" where
  "normalise E s =
     strip (re_sub rspaces1 (\<lambda>_. '' '')
       (map (\<lambda>c. if is_punct c then CHR '' '' else c) (lower (fold_ascii E s))))"

definition is_short_line :: "string \<Rightarrow> bool" where
  "is_short_line line =
     (let s = strip line in
      if s = [] \<or> starts_with s ''#'' \<or> contains s ''://'' \<or> contains s ''@'' then False
      else if length s = 1 \<and> is_alpha (hd s) then True
      else length (split_ws s) \<le> 3)"

section \<open>Where the articles begin\<close>

record anchor =
  an_article :: nat
  an_title :: string
  an_line :: nat
  an_raw :: string
  an_score :: rat

definition title_text :: "json \<Rightarrow> exn + string" where
  "title_text a =
     rbnd (py_item a ''title'') (\<lambda>t. case t of JStr s \<Rightarrow> Inr s
       | _ \<Rightarrow> Inl (TypeError ''normalize() argument 2 must be str''))"

fun lookahead :: "string list \<Rightarrow> string list" where
  "lookahead [] = []"
| "lookahead [n] = [n]"
| "lookahead (n # m # ns) = strip (n @ '' '' @ m) # lookahead (m # ns)"

text \<open>The titles of the articles that have one\<close>

definition toc_titles :: "epub_env \<Rightarrow> json list \<Rightarrow> exn + string list" where
  "toc_titles E articles =
     rbnd (rmap (\<lambda>a. rbnd (py_get a ''title'') (\<lambda>t.
             if truthy t then rbnd (title_text a) (\<lambda>s. Inr [normalise E s]) else Inr [])) articles)
       (\<lambda>ts. Inr (concat ts))"

text \<open>The end of the first of the windows of twenty paragraphs that mention most titles\<close>

definition find_toc_end :: "epub_env \<Rightarrow> string list \<Rightarrow> json list \<Rightarrow> exn + nat" where
  "find_toc_end E paras articles =
     (if paras = [] then Inr 0
      else
        rbnd (toc_titles E articles) (\<lambda>titles.
        let n = length paras; horizon = min n (max 150 (n div 3));
            hits = (\<lambda>start. length (filter (\<lambda>t. 75 \<le> partial_ratio E t (join '' '' (take 20 (drop start paras)))) titles))
        in Inr (snd (foldl (\<lambda>(best, e) start. if best < int (hits start) then (int (hits start), start + 20) else (best, e))
                  (- 1, 0) [0..<max 1 (horizon - 20)]))))"

definition head_threshold :: rat where "head_threshold = 72"

text \<open>The score of a candidate paragraph, if it is high enough\<close>

definition score_at :: "epub_env \<Rightarrow> rat \<Rightarrow> nat \<Rightarrow> string \<Rightarrow> nat \<Rightarrow> string \<Rightarrow> rat option" where
  "score_at E threshold toc_end title i cand =
     (if cand = [] then None
      else
        (let base = (partial_ratio E title cand + token_set_ratio E title cand) / 2;
             score = (if head_threshold \<le> partial_ratio E title (take (max (length title + 10) 40) cand)
                      then base + 5 else base);
             lowest = (if 60 < length title then threshold - 5 else threshold)
         in if score < lowest then None else Some (if i \<le> toc_end then score - 8 else score)))"

definition best_match :: "epub_env \<Rightarrow> rat \<Rightarrow> nat \<Rightarrow> string \<Rightarrow> string list \<Rightarrow> (nat \<times> rat) option" where
  "best_match E threshold toc_end title cands =
     foldl (\<lambda>b (i, c). case score_at E threshold toc_end title i c of
         None \<Rightarrow> b
       | Some s \<Rightarrow> (case b of None \<Rightarrow> Some (i, s) | Some (j, s0) \<Rightarrow> if s0 < s then Some (i, s) else b))
       None (enum_from 0 cands)"

definition article_anchor :: "epub_env \<Rightarrow> rat \<Rightarrow> nat \<Rightarrow> string list \<Rightarrow> string list \<Rightarrow> nat \<times> json \<Rightarrow> exn + anchor list" where
  "article_anchor E threshold toc_end paras cands a =
     rbnd (title_text (snd a)) (\<lambda>title.
     let t = normalise E title in
     if t = [] then Inr []
     else
       case best_match E threshold toc_end t cands of
         None \<Rightarrow> Inr []
       | Some (i, s) \<Rightarrow>
           Inr [\<lparr>an_article = fst a, an_title = title, an_line = i, an_raw = paras ! i, an_score = s\<rparr>])"

text \<open>Sorted by line, the higher score first; the first one of each line is kept.\<close>

definition find_article_anchors :: "epub_env \<Rightarrow> rat \<Rightarrow> string list \<Rightarrow> json list \<Rightarrow> exn + anchor list" where
  "find_article_anchors E threshold paras articles =
     (let norms = map (normalise E) paras; cands = lookahead norms in
      rbnd (find_toc_end E norms articles) (\<lambda>toc_end.
      rbnd (rmap (article_anchor E threshold toc_end paras cands) (enum_from 0 articles)) (\<lambda>ms.
        Inr (dedup_on an_line [] (sort_key an_line (sort_key (\<lambda>m. - an_score m) (concat ms)))))))"

section \<open>Cleaning\<close>

definition is_dropcap :: "string \<Rightarrow> bool" where
  "is_dropcap p \<longleftrightarrow> (case strip p of [c] \<Rightarrow> is_upper c | _ \<Rightarrow> False)"

fun collapse_dropcaps :: "string list \<Rightarrow> string list" where
  "collapse_dropcaps [] = []"
| "collapse_dropcaps [p] = [p]"
| "collapse_dropcaps (p # q # ps) =
     (if is_dropcap p \<and> lstrip q \<noteq> [] \<and> is_lower (hd (lstrip q))
      then (strip p @ lstrip q) # collapse_dropcaps ps
      else p # collapse_dropcaps (q # ps))"

definition fence :: string where "fence = ''```''"

definition min_run :: nat where "min_run = 4"

function group_short_runs :: "string list \<Rightarrow> string list" where
  "group_short_runs [] = []"
| "group_short_runs (p # ps) =
     (if is_short_line p then
        (let run = takeWhile is_short_line (p # ps); rest = dropWhile is_short_line (p # ps) in
         (if min_run \<le> length run then [join [CHR 0x0A] (fence # map strip run @ [fence])] else run)
         @ group_short_runs rest)
      else p # group_short_runs ps)"
  by pat_completeness auto
termination
  by (relation "measure length") (auto simp: le_imp_less_Suc length_dropWhile_le)

definition back_matter_rxs :: "rx list" where
  "back_matter_rxs =
     [rseq [RTextStart, rspaces, RLitI ''marketplace'', rspaces, RDollar],
      RLitI ''thank you to all our advertisers'',
      rseq [RTextStart, rspaces, RLitI ''looking back'', RWordB],
      RLitI ''winetitles calendar upcoming events'',
      rseq [RTextStart, rspaces, RLitI ''calendar'', rspaces1, RLitI ''winetitles'']]"

definition opens_back_matter :: "string \<Rightarrow> bool" where
  "opens_back_matter p \<longleftrightarrow> list_ex (\<lambda>r. re_search r (strip p) \<noteq> None) back_matter_rxs"

definition trim_back_matter :: "string list \<Rightarrow> string list \<times> nat" where
  "trim_back_matter paras =
     (let n = length paras; tail_start = n - max 60 (n div 3);
          cut = tail_start + length (takeWhile (\<lambda>p. \<not> opens_back_matter p) (drop tail_start paras))
      in (take cut paras, n - cut))"

section \<open>Assembly\<close>

definition is_xml_control :: "char \<Rightarrow> bool" where
  "is_xml_control c \<longleftrightarrow> (of_char c :: nat) < 32 \<and> c \<notin> set [CHR 0x09, CHR 0x0A, CHR 0x0D]"

definition strip_xml_control_chars :: "string \<Rightarrow> string" where
  "strip_xml_control_chars s =
     re_sub (RAlt (RSet is_xml_control) (RAlt (RLit [CHR 0xEF, CHR 0xBF, CHR 0xBE]) (RLit [CHR 0xEF, CHR 0xBF, CHR 0xBF])))
       (\<lambda>_. []) s"

fun blocks_of :: "string list \<Rightarrow> string list \<Rightarrow> string list" where
  "blocks_of cur [] = (if cur = [] then [] else [rstrip (join [CHR 0x0A] cur)])"
| "blocks_of cur (l # ls) =
     (if strip l = [] then
        (if cur = [] then blocks_of [] ls else rstrip (join [CHR 0x0A] cur) # blocks_of [] ls)
      else blocks_of (cur @ [l]) ls)"

definition split_into_paragraphs :: "string \<Rightarrow> string list" where
  "split_into_paragraphs md = blocks_of [] (splitlines (strip_xml_control_chars md))"

definition find_text :: "string \<Rightarrow> string \<Rightarrow> nat option" where
  "find_text block tail =
     (case find_sub block tail of Some i \<Rightarrow> Some i | None \<Rightarrow> find_sub (lower block) (lower tail))"

text \<open>What a matched paragraph says after its title\<close>

definition strip_title_from_paragraph :: "epub_env \<Rightarrow> string \<Rightarrow> string \<Rightarrow> string" where
  "strip_title_from_paragraph E block title =
     (let nb = normalise E block; nt = normalise E title; ws = split_ws title in
      if nt = [] \<or> nb = [] then []
      else if 85 \<le> fuzz_ratio E nt nb then []
      else if length ws < 3 then []
      else
        (let tail = join '' '' (last_n 3 ws) in
         case find_text block tail of
           None \<Rightarrow> []
         | Some i \<Rightarrow>
             (let residue = strip (drop (i + length tail) block) in if length residue < 20 then [] else residue)))"

definition body_lines :: "epub_env \<Rightarrow> (nat \<times> anchor) list \<Rightarrow> nat \<times> string \<Rightarrow> string list" where
  "body_lines E anchors p =
     (case map_of anchors (fst p) of
        Some m \<Rightarrow>
          [''## '' @ an_title m, []] @
          (let residue = strip_title_from_paragraph E (snd p) (an_title m) in
           if residue = [] then [] else [residue, []])
      | None \<Rightarrow> if starts_with (snd p) ''# '' \<or> starts_with (snd p) ''## '' then [] else [snd p, []])"

definition build_clean_markdown :: "epub_env \<Rightarrow> string list \<Rightarrow> anchor list \<Rightarrow> string \<Rightarrow> string \<Rightarrow> string" where
  "build_clean_markdown E paras matches title description =
     (let start = (case matches of [] \<Rightarrow> 0 | m # _ \<Rightarrow> an_line m);
          anchors = rev (map (\<lambda>m. (an_line m, m)) matches);
          out = [''# '' @ title @ [CHR 0x0A]] @ (if description = [] then [] else [description, []]) @
                concat (map (body_lines E anchors) (drop start (enum_from 0 paras)))
      in rstrip (join [CHR 0x0A] out) @ [CHR 0x0A])"

section \<open>Metadata\<close>

record epub_meta =
  me_title :: json
  me_creator :: "string list"
  me_subjects :: "string list"
  me_date :: "string option"
  me_index :: json
  me_issue :: json
  me_description :: string

definition author_noise :: "string list" where
  "author_noise = [[], ''n/a'', ''staff'', ''staff writer'']"

definition issue_keywords :: "json \<Rightarrow> exn + string list" where
  "issue_keywords a =
     rbnd (py_get_or a ''keywords'' (JArr [])) (\<lambda>k. rbnd (iter_or_empty k) (\<lambda>ks. rmap py_strip ks))"

definition issue_author :: "json \<Rightarrow> exn + string" where
  "issue_author a = rbnd (py_get a ''author'') strip_or_empty"

definition article_item :: "string list \<Rightarrow> json \<Rightarrow> exn + string list" where
  "article_item matched a =
     rbnd (rbnd (py_get_or a ''title'' (JStr [])) py_strip) (\<lambda>t.
     if t = [] then Inr []
     else
       rbnd (py_get a ''page_numbers'') (\<lambda>pages.
         Inr [t @ (if truthy pages then '' (pp. '' @ py_str pages @ '')'' else []) @
              (if t \<in> set matched then [] else '' [not in body]'')]))"

definition issue_date :: "json \<Rightarrow> json \<Rightarrow> exn + string option" where
  "issue_date year month =
     (if truthy year \<and> truthy month
      then rbnd (py_int_of year) (\<lambda>y. rbnd (py_int_of month) (\<lambda>m.
        Inr (Some (zero_pad 4 y @ ''-'' @ zero_pad 2 m @ ''-01''))))
      else Inr None)"

definition build_metadata :: "json \<Rightarrow> anchor list \<Rightarrow> exn + epub_meta" where
  "build_metadata sidecar matches =
     rbnd (py_get sidecar ''year'') (\<lambda>year.
     rbnd (py_get sidecar ''month'') (\<lambda>month.
     rbnd (py_get sidecar ''issue_number'') (\<lambda>issue.
     rbnd (py_get sidecar ''title'') (\<lambda>title.
     rbnd (rbnd (py_get_or sidecar ''articles'' (JArr [])) py_iter) (\<lambda>articles.
     rbnd (rmap issue_keywords articles) (\<lambda>kws.
     rbnd (rmap issue_author articles) (\<lambda>aus.
     rbnd (issue_date year month) (\<lambda>date.
     rbnd (rmap (article_item (map an_title matches)) articles) (\<lambda>items.
       let authors = dedup_on lower [] (filter (\<lambda>a. lower a \<notin> set author_noise) aus) in
       Inr \<lparr>me_title = py_or title (JStr ''Grapegrower & Winemaker''),
            me_creator = (if authors = [] then [''Winetitles Media''] else authors),
            me_subjects = dedup_on lower [] (filter (\<lambda>k. k \<noteq> []) (concat kws)),
            me_date = date, me_index = month, me_issue = issue,
            me_description = ''In this issue: '' @ join ''; '' (concat items) @ ''.''\<rparr>)))))))))"

definition esc :: "string \<Rightarrow> string" where
  "esc s =
     [CHR 0x22] @ concat (map (\<lambda>c. if c = CHR 0x5C then [CHR 0x5C, CHR 0x5C]
                               else if c = CHR 0x22 then [CHR 0x5C, CHR 0x22] else [c]) s) @ [CHR 0x22]"

definition esc_json :: "json \<Rightarrow> exn + string" where
  "esc_json j = (case j of JStr s \<Rightarrow> Inr (esc s) | _ \<Rightarrow> Inl (no_attribute j ''replace''))"

definition metadata_yaml :: "epub_meta \<Rightarrow> exn + string" where
  "metadata_yaml m =
     rbnd (esc_json (me_title m)) (\<lambda>title.
     rbnd (if me_index m = JNull then Inr [] else rbnd (py_int_of (me_index m)) (\<lambda>i. Inr [''group-position: '' @ show_int i])) (\<lambda>index.
     rbnd (if truthy (me_issue m) then rbnd (py_int_of (me_issue m)) (\<lambda>i. Inr [''identifier: gwm-issue-'' @ show_int i]) else Inr []) (\<lambda>issue.
       Inr (join [CHR 0x0A]
         ([''---'', ''title: '' @ title, ''language: '' @ esc ''en''] @
          (case me_date m of None \<Rightarrow> [] | Some d \<Rightarrow> [''date: '' @ esc d]) @
          [''publisher: '' @ esc ''Winetitles Media'', ''creator:''] @
          concat (map (\<lambda>c. [''  - role: aut'', ''    text: '' @ esc c]) (me_creator m)) @
          (if me_subjects m = [] then [] else ''subject:'' # map (\<lambda>s. ''  - '' @ esc s) (me_subjects m)) @
          [''belongs-to-collection: '' @ esc ''Grapegrower & Winemaker''] @ index @ issue @
          [''description: '' @ esc (me_description m), ''---'', []])))))"

section \<open>The run\<close>

record epub_args =
  arg_markdown :: path
  arg_sidecar :: path
  arg_epub :: "path option"
  arg_threshold :: rat
  arg_keep :: bool

definition epub_path :: "epub_args \<Rightarrow> path" where
  "epub_path A =
     (case arg_epub A of
        Some p \<Rightarrow> p
      | None \<Rightarrow> with_name (arg_markdown A) (replace_all ''.SAMPLE'' [] (path_stem (arg_markdown A)) @ ''.V2.epub''))"

definition clean_issue :: "epub_env \<Rightarrow> rat \<Rightarrow> string \<Rightarrow> json \<Rightarrow> exn + string \<times> string" where
  "clean_issue E threshold raw sidecar =
     (let paras = fst (trim_back_matter (collapse_dropcaps (split_into_paragraphs raw))) in
      rbnd (rbnd (py_get_or sidecar ''articles'' (JArr [])) py_iter) (\<lambda>articles.
      rbnd (find_article_anchors E threshold paras articles) (\<lambda>matches.
      rbnd (build_metadata sidecar matches) (\<lambda>meta.
      rbnd (py_get_or sidecar ''title'' (JStr ''Issue'')) (\<lambda>title.
      let body = build_clean_markdown E paras matches (py_str title) [];
          grouped = join [CHR 0x0A, CHR 0x0A] (group_short_runs (split_into_paragraphs body)) @ [CHR 0x0A]
      in rbnd (metadata_yaml meta) (\<lambda>yaml. Inr (grouped, yaml)))))))"

definition marker_to_epub :: "epub_env \<Rightarrow> epub_args \<Rightarrow> (fs, nat) prog" where
  "marker_to_epub E A =
     bnd (gets (\<lambda>t. (fs_read t (arg_markdown A), fs_read t (arg_sidecar A)))) (\<lambda>files.
     case files of
       (Some raw, Some side) \<Rightarrow>
         bnd (of_result (case json_loads (universal side) of None \<Rightarrow> Inl JSONDecodeError | Some j \<Rightarrow> Inr j)) (\<lambda>sidecar.
         bnd (of_result (clean_issue E (arg_threshold A) (universal raw) sidecar)) (\<lambda>(body, yaml).
         bnd (if arg_keep A then modify (fs_write (with_suffix (epub_path A) ''.clean.md'') body) else ret ()) (\<lambda>_.
           case render_epub E body yaml of
             (code, out) \<Rightarrow>
               bnd (case out of None \<Rightarrow> ret () | Some b \<Rightarrow> modify (fs_write (epub_path A) b)) (\<lambda>_.
                 if code \<noteq> 0 then raise (SystemExit (show_int code)) else ret 0))))
     | _ \<Rightarrow> ret 1)"

section \<open>Cleaning loses no text\<close>

text \<open>The ink of a text: what is left without white space and the backticks of fences.\<close>

definition ink :: "string \<Rightarrow> string" where
  "ink s = filter (\<lambda>c. \<not> is_space c \<and> c \<noteq> CHR 0x60) s"

lemma ink_simps [simp]: "ink [] = []" "ink (xs @ ys) = ink xs @ ink ys" "ink fence = []"
  by (simp_all add: ink_def fence_def)

lemma ink_Cons: "ink (c # s) = (if is_space c \<or> c = CHR 0x60 then ink s else c # ink s)"
  by (simp add: ink_def)

lemma ink_spaces: "\<forall>c \<in> set s. is_space c \<Longrightarrow> ink s = []"
  by (simp add: ink_def)

lemma ink_rstrip [simp]: "ink (rstrip s) = ink s"
proof -
  obtain t where "s = rstrip s @ t" "\<forall>c \<in> set t. is_space c" using rstrip_split by blast
  then show ?thesis using ink_simps(2) [of "rstrip s" t] ink_spaces [of t] by simp
qed

lemma ink_lstrip [simp]: "ink (lstrip s) = ink s"
  by (induction s) (auto simp: lstrip_def ink_Cons)














section \<open>The anchors\<close>

definition best_of :: "(nat \<Rightarrow> string \<Rightarrow> rat option) \<Rightarrow> (nat \<times> string) list \<Rightarrow> nat \<Rightarrow> rat \<Rightarrow> bool" where
  "best_of f cands i s \<longleftrightarrow>
     list_ex (\<lambda>(j, c). j = i \<and> f j c = Some s) cands \<and>
     list_all (\<lambda>(j, c). case f j c of None \<Rightarrow> True | Some s' \<Rightarrow> s' \<le> s) cands"

definition better :: "(nat \<Rightarrow> string \<Rightarrow> rat option) \<Rightarrow> (nat \<times> rat) option \<Rightarrow> nat \<times> string \<Rightarrow> (nat \<times> rat) option" where
  "better f b ic = (case ic of (i, c) \<Rightarrow>
     (case f i c of
         None \<Rightarrow> b
       | Some s \<Rightarrow> (case b of None \<Rightarrow> Some (i, s) | Some (j, s0) \<Rightarrow> if s0 < s then Some (i, s) else b)))"

lemma better_simp: "better f b (i, c) =
     (case f i c of
         None \<Rightarrow> b
       | Some s \<Rightarrow> (case b of None \<Rightarrow> Some (i, s) | Some (j, s0) \<Rightarrow> if s0 < s then Some (i, s) else b))"
  by (simp add: better_def)

lemma best_match_better:
  "best_match E threshold toc_end title cands =
     foldl (better (score_at E threshold toc_end title)) None (enum_from 0 cands)"
  unfolding best_match_def better_def by (simp add: case_prod_unfold)

lemma foldl_better:
  "case foldl (better f) None cs of
     None \<Rightarrow> list_all (\<lambda>(j, c). f j c = None) cs
   | Some (i, s) \<Rightarrow> best_of f cs i s"
proof (induction cs rule: rev_induct)
  case (snoc ic cs)
  obtain i c where ic: "ic = (i, c)" by fastforce
  have step: "foldl (better f) None (cs @ [ic]) = better f (foldl (better f) None cs) (i, c)"
    by (simp add: ic)
  show ?case
  proof (cases "foldl (better f) None cs")
    case None
    with snoc have "list_all (\<lambda>(j, c). f j c = None) cs" by simp
    moreover from this have "list_all (\<lambda>(j, c). case f j c of None \<Rightarrow> True | Some s' \<Rightarrow> s' \<le> s) cs" for s
      by (auto simp: list_all_iff)
    ultimately show ?thesis unfolding step None better_simp using ic by (cases "f i c") (auto simp: best_of_def)
  next
    case (Some js)
    then obtain j s where js: "foldl (better f) None cs = Some (j, s)" by (cases js) auto
    with snoc have best: "best_of f cs j s" by simp
    then have "list_all (\<lambda>(j, c). case f j c of None \<Rightarrow> True | Some s' \<Rightarrow> s' \<le> t) cs" if "s < t" for t
      using that by (auto simp: best_of_def list_all_iff split: option.splits)
    with best ic show ?thesis unfolding step js better_simp by (cases "f i c") (auto simp: best_of_def)
  qed
qed simp

lemma length_lookahead [simp]: "length (lookahead ns) = length ns"
  by (induction ns rule: lookahead.induct) simp_all

definition sound_anchor :: "epub_env \<Rightarrow> rat \<Rightarrow> nat \<Rightarrow> string list \<Rightarrow> string list \<Rightarrow> json list \<Rightarrow> anchor \<Rightarrow> bool" where
  "sound_anchor E threshold toc_end paras cands articles m \<longleftrightarrow>
     an_line m < length paras \<and> an_raw m = paras ! an_line m \<and>
     an_article m < length articles \<and> title_text (articles ! an_article m) = Inr (an_title m) \<and>
     normalise E (an_title m) \<noteq> [] \<and> threshold - 13 \<le> an_score m \<and>
     best_of (score_at E threshold toc_end (normalise E (an_title m))) (enum_from 0 cands) (an_line m) (an_score m)"

lemma score_at_reaches: "score_at E threshold toc_end title i cand = Some s \<Longrightarrow> threshold - 13 \<le> s"
  by (auto simp: score_at_def Let_def split: if_splits)

lemma article_anchor_sound:
  assumes "article_anchor E threshold toc_end paras cands (k, articles ! k) = Inr ms" "m \<in> set ms"
    "k < length articles" "length cands = length paras"
  shows "sound_anchor E threshold toc_end paras cands articles m \<and> an_article m = k"
proof -
  obtain title i s where t: "title_text (articles ! k) = Inr title" "normalise E title \<noteq> []"
      "best_match E threshold toc_end (normalise E title) cands = Some (i, s)"
      "m = \<lparr>an_article = k, an_title = title, an_line = i, an_raw = paras ! i, an_score = s\<rparr>"
    using assms(1,2) by (auto simp: article_anchor_def rbnd_Inr_iff Let_def split: if_splits option.splits)
  have best: "best_of (score_at E threshold toc_end (normalise E title)) (enum_from 0 cands) i s"
    using foldl_better [of "score_at E threshold toc_end (normalise E title)" "enum_from 0 cands"] t(3)
    by (simp add: best_match_better)
  then have "i < length paras"
    using assms(4) by (auto simp: best_of_def list_ex_iff enum_from_conv dest!: set_zip_leftD)
  moreover have "threshold - 13 \<le> s"
    using best score_at_reaches by (auto simp: best_of_def list_ex_iff)
  ultimately show ?thesis using t best assms(3) by (simp add: sound_anchor_def)
qed

lemma anchors_of_articles:
  assumes "rmap (article_anchor E threshold toc_end paras cands) (enum_from 0 articles) = Inr mss"
    "length cands = length paras" "m \<in> set (concat mss)"
  shows "sound_anchor E threshold toc_end paras cands articles m"
proof -
  obtain k where k: "k < length mss" "m \<in> set (mss ! k)"
    using assms(3) by (metis UN_iff in_set_conv_nth set_concat)
  have all: "list_all2 (\<lambda>a ms. article_anchor E threshold toc_end paras cands a = Inr ms) (enum_from 0 articles) mss"
    by (rule rmap_Inr [OF assms(1)])
  then have len: "length articles = length mss" using list_all2_lengthD by fastforce
  with all k(1) have "article_anchor E threshold toc_end paras cands (k, articles ! k) = Inr (mss ! k)"
    using list_all2_nthD2 [OF all k(1)] by (simp add: enum_from_conv)
  from article_anchor_sound [OF this k(2) _ assms(2)] show ?thesis using k(1) len by simp
qed

lemma sorted_distinct_strict: "sorted xs \<Longrightarrow> distinct xs \<Longrightarrow> sorted_wrt (<) (xs :: nat list)"
  by (simp add: strict_sorted_iff)

lemma sorted_dedup_on: "sorted (map key xs) \<Longrightarrow> sorted (map key (dedup_on key seen xs))"
  by (induction key seen xs rule: dedup_on.induct) (auto dest: subsetD [OF dedup_on_subset])

text \<open>
  C29. Anchors are sound whatever the similarity scores: they come in the order of the text, at
  most one per paragraph; the title is the one of its article and is not empty; the paragraph
  reaches the threshold (less 13: the tolerance for long titles and the penalty of the contents
  pages), and no paragraph has a higher score.
\<close>

theorem anchors_are_sound:
  "case find_article_anchors E threshold paras articles of
     Inl e \<Rightarrow> True
   | Inr ms \<Rightarrow>
       sorted_wrt (<) (map an_line ms) \<and>
       (\<exists>toc_end. find_toc_end E (map (normalise E) paras) articles = Inr toc_end \<and>
          list_all (sound_anchor E threshold toc_end paras (lookahead (map (normalise E) paras)) articles) ms)"
proof (cases "find_article_anchors E threshold paras articles")
  case (Inr ms)
  let ?cands = "lookahead (map (normalise E) paras)"
  obtain toc_end mss where f: "find_toc_end E (map (normalise E) paras) articles = Inr toc_end"
      "rmap (article_anchor E threshold toc_end paras ?cands) (enum_from 0 articles) = Inr mss"
      "ms = dedup_on an_line [] (sort_key an_line (sort_key (\<lambda>m. - an_score m) (concat mss)))"
    using Inr by (auto simp: find_article_anchors_def Let_def rbnd_Inr_iff)
  have "set ms \<subseteq> set (concat mss)"
    using dedup_on_subset [of an_line "[]" "sort_key an_line (sort_key (\<lambda>m. - an_score m) (concat mss))"]
    by (simp add: f(3))
  then have "list_all (sound_anchor E threshold toc_end paras ?cands articles) ms"
    using anchors_of_articles [OF f(2)] by (auto simp: list_all_iff)
  moreover have "sorted_wrt (<) (map an_line ms)"
    unfolding f(3) by (intro sorted_distinct_strict sorted_dedup_on distinct_dedup_on sorted_sort_key)
  ultimately show ?thesis using Inr f(1) by auto
qed simp


text \<open>
  A title of one or two words has no tail of three to search for: the whole paragraph it was
  found in is dropped, with whatever follows the title there.
\<close>

lemma strip_short_title: "length (split_ws title) < 3 \<Longrightarrow> strip_title_from_paragraph E block title = []"
  by (simp add: strip_title_from_paragraph_def Let_def)

theorem short_titles_lose_their_paragraph:
  assumes "map_of anchors i = Some m" "length (split_ws (an_title m)) < 3"
  shows "body_lines E anchors (i, block) = [''## '' @ an_title m, []]"
  using assms by (simp add: body_lines_def strip_short_title Let_def)

section \<open>Failures\<close>

lemma ordinary_anchors: "ordinary (find_article_anchors E threshold paras articles)"
proof -
  have t: "ordinary (title_text a)" for a
    unfolding title_text_def by (intro ordinary_rbnd) (auto split: json.split)
  have "ordinary (toc_titles E articles)"
    unfolding toc_titles_def by (intro ordinary_rbnd ordinary_rmap) (auto intro!: ordinary_rbnd t)
  then have "ordinary (find_toc_end E ps articles)" for ps
    unfolding find_toc_end_def by (auto simp: Let_def intro!: ordinary_rbnd)
  moreover have "ordinary (article_anchor E threshold toc_end paras cands a)" for toc_end cands a
    unfolding article_anchor_def by (intro ordinary_rbnd t) (auto simp: Let_def split: option.split)
  ultimately show ?thesis
    unfolding find_article_anchors_def Let_def by (intro ordinary_rbnd ordinary_rmap) simp_all
qed

lemma ordinary_metadata: "ordinary (build_metadata sidecar matches)" "ordinary (metadata_yaml m)"
proof -
  have "ordinary (issue_keywords a)" "ordinary (issue_author a)" "ordinary (issue_date y n)" "ordinary (article_item ms a)" for a y n ms
    unfolding issue_keywords_def issue_author_def issue_date_def article_item_def
    by (auto intro!: ordinary_rbnd ordinary_rmap)
  then show "ordinary (build_metadata sidecar matches)"
    unfolding build_metadata_def Let_def by (intro ordinary_rbnd ordinary_rmap) simp_all
  have "ordinary (esc_json j)" for j by (simp add: esc_json_def split: json.split)
  then show "ordinary (metadata_yaml m)"
    unfolding metadata_yaml_def by (auto intro!: ordinary_rbnd)
qed

lemma ordinary_clean_issue: "ordinary (clean_issue E threshold raw sidecar)"
  unfolding clean_issue_def Let_def by (intro ordinary_rbnd ordinary_anchors ordinary_metadata) simp_all

section \<open>What a run changes\<close>

text \<open>Documented of pandoc: it reports success only when it wrote its output.\<close>

definition pandoc_ok :: "epub_env \<Rightarrow> bool" where
  "pandoc_ok E \<longleftrightarrow> (\<forall>body yaml. case render_epub E body yaml of (code, out) \<Rightarrow> code = 0 \<longrightarrow> out \<noteq> None)"

text \<open>A run that keeps no intermediate file ends before pandoc, or with what pandoc did.\<close>

lemma marker_to_epub_run:
  assumes "\<not> arg_keep A" "marker_to_epub E A t = (r, t')"
  obtains (early) e where "t' = t" "r = Inr 1 \<or> r = Inl e \<and> is_exception e"
    | (rendered) body yaml code out where "render_epub E body yaml = (code, out)"
        "t' = (case out of None \<Rightarrow> t | Some b \<Rightarrow> fs_write (epub_path A) b t)"
        "r = (if code = 0 then Inr 0 else Inl (SystemExit (show_int code)))"
proof (cases "fs_read t (arg_markdown A)"; cases "fs_read t (arg_sidecar A)")
  fix raw side
  assume f: "fs_read t (arg_markdown A) = Some raw" "fs_read t (arg_sidecar A) = Some side"
  show thesis
  proof (cases "json_loads (universal side)")
    case None
    with assms(2) f show thesis by (intro early) (auto simp: marker_to_epub_def bnd_def gets_def of_result_def)
  next
    case (Some j)
    note j = Some
    show thesis
    proof (cases "clean_issue E (arg_threshold A) (universal raw) j")
      case (Inl e)
      moreover have "is_exception e" using ordinary_clean_issue [of E "arg_threshold A" "universal raw" j] Inl by simp
      ultimately show thesis using assms(2) f j
        by (intro early [of e]) (auto simp: marker_to_epub_def bnd_def gets_def of_result_def)
    next
      case (Inr cleaned)
      obtain body yaml where b: "cleaned = (body, yaml)" by fastforce
      obtain code out where o: "render_epub E body yaml = (code, out)" by fastforce
      have "marker_to_epub E A t = (if code = 0 then Inr 0 else Inl (SystemExit (show_int code)),
          case out of None \<Rightarrow> t | Some b \<Rightarrow> fs_write (epub_path A) b t)"
        using assms(1) f j Inr b o
        by (cases out) (simp_all add: marker_to_epub_def bnd_def gets_def of_result_def ret_def modify_def raise_def)
      with assms(2) show thesis by (intro rendered [OF o]) simp_all
    qed
  qed
qed (use assms early in \<open>auto simp: marker_to_epub_def bnd_def gets_def ret_def\<close>)

end
