(* ===== verification/Winery_History.thy ===== *)
theory Winery_History
  imports Py_Time Py_Dyn Py_Path Py_Url "HOL-Library.Multiset"
begin

text \<open>
  The archive of Home Assistant history (winery-history.py): hourly it fetches what Recorder
  still has since the cursor, in chunks of at most a day, writes each chunk through a temporary
  file, and only then moves the cursor; a second action copies the archive to a backup, a third
  checks both. The web server, the clock, gzip, SHA-256 and the names of temporary files are
  parameters. \<open>trail\<close> remembers every tree a crash could leave. Instants are those of the
  calendar of \<open>datetime\<close>.
\<close>

section \<open>The world\<close>

record 's winery_env =
  open_history :: "string \<Rightarrow> string \<Rightarrow> 's \<Rightarrow> (exn + string) \<times> 's"
  utc_now :: "'s \<Rightarrow> int \<times> 's"
  temp_name :: "'s \<Rightarrow> string \<times> 's"
  back_off :: "nat \<Rightarrow> 's \<Rightarrow> 's"
  lock_free :: "path \<Rightarrow> 's \<Rightarrow> bool"
  gzip_bytes :: "string \<Rightarrow> string"
  gunzip :: "string \<Rightarrow> string option"
  sha256_hex :: "string \<Rightarrow> string"

record 's winery =
  outside :: 's
  tree :: fs
  trail :: "fs list"

definition alter :: "(fs \<Rightarrow> fs) \<Rightarrow> ('s winery, unit) prog" where
  "alter f w = (Inr (), w\<lparr>tree := f (tree w), trail := tree w # trail w\<rparr>)"

definition call_out :: "('s \<Rightarrow> (exn + 'a) \<times> 's) \<Rightarrow> ('s winery, 'a) prog" where
  "call_out f w = (case f (outside w) of (r, s) \<Rightarrow> (r, w\<lparr>outside := s\<rparr>))"

definition draw :: "('s \<Rightarrow> 'a \<times> 's) \<Rightarrow> ('s winery, 'a) prog" where
  "draw f = call_out (\<lambda>s. case f s of (x, s') \<Rightarrow> (Inr x, s'))"

definition read_whole :: "path \<Rightarrow> ('s winery, string) prog" where
  "read_whole p w =
     ((case fs_read (tree w) p of Some c \<Rightarrow> Inr c | None \<Rightarrow> Inl (OSError ''No such file or directory'')), w)"

definition json_of :: "string \<Rightarrow> exn + json" where
  "json_of s = (case json_loads s of None \<Rightarrow> Inl JSONDecodeError | Some j \<Rightarrow> Inr j)"

definition read_json :: "path \<Rightarrow> ('s winery, json) prog" where
  "read_json p = bnd (read_whole p) (\<lambda>c. of_result (json_of c))"

text \<open>Written beside the target, then renamed onto it; what is left of it is removed.\<close>

definition pending :: string where "pending = ''.pending-''"

definition atomic :: "'s winery_env \<Rightarrow> path \<Rightarrow> string \<Rightarrow> ('s winery, unit) prog" where
  "atomic E p content =
     bnd (alter (fs_mkdirs (path_parent p))) (\<lambda>_.
     bnd (draw (temp_name E)) (\<lambda>s.
     let name = path_parent p @ [pending @ s] in
     bnd (alter (fs_write name [])) (\<lambda>_.
     bnd (alter (fs_write name content)) (\<lambda>_.
     bnd (alter (fs_rename name p)) (\<lambda>_.
       alter (\<lambda>t. if fs_exists t name then fs_unlink name t else t))))))"

text \<open>\<open>json.dumps\<close> with sorted keys\<close>

fun sort_keys :: "json \<Rightarrow> json" where
  "sort_keys (JArr xs) = JArr (map sort_keys xs)"
| "sort_keys (JObj d) = JObj (sort_key fst (map (\<lambda>(k, v). (k, sort_keys v)) d))"
| "sort_keys j = j"

definition save_record :: "'s winery_env \<Rightarrow> path \<Rightarrow> json \<Rightarrow> ('s winery, unit) prog" where
  "save_record E p v = atomic E p (json_dumps indent2_layout (sort_keys v) @ [CHR 0x0A])"

section \<open>Fetching\<close>

definition entities :: "string list" where
  "entities =
     [''sensor.indoor_water_meter_total_water_litres'', ''sensor.indoor_water_meter_flow_rate'',
      ''sensor.sa_generation_power'', ''sensor.sa_import_export_power'']"

definition token_of :: "string \<Rightarrow> exn + string" where
  "token_of text =
     (case concat (map (\<lambda>l. case partition_char (CHR ''='') l of
             (k, _, v) \<Rightarrow> if k = ''HA_TOKEN'' \<and> strip v \<noteq> [] then [strip_chars [CHR 0x27] (strip_chars [CHR 0x22] (strip v))] else [])
           (splitlines text)) of
        [] \<Rightarrow> Inl (RuntimeError ''Missing HA_TOKEN in credential'')
      | t # _ \<Rightarrow> Inr t)"

text \<open>An HTTPS URL without credentials, query and fragment, by \<open>urlsplit\<close>\<close>

definition no_credentials :: "string \<Rightarrow> bool" where
  "no_credentials netloc \<longleftrightarrow>
     (case partition_char (CHR ''@'') (rev netloc) of
        (_, found, r) \<Rightarrow> \<not> found \<or>
          (case partition_char (CHR '':'') (rev r) of (user, _, password) \<Rightarrow> user = [] \<and> password = []))"

definition https_origin :: "string \<Rightarrow> bool" where
  "https_origin url \<longleftrightarrow>
     (case partition_char (CHR '':'') url of
        (scheme, _, r) \<Rightarrow> lower scheme = ''https'' \<and>
          (case split_netloc r of (netloc, tail) \<Rightarrow> no_credentials netloc \<and>
            (case partition_char (CHR ''#'') tail of (h, _, fragment) \<Rightarrow> fragment = [] \<and>
              (case partition_char (CHR ''?'') h of (_, _, query) \<Rightarrow> query = []))))"

text \<open>\<open>urlencode\<close>\<close>

definition upper_hex :: string where "upper_hex = ''0123456789ABCDEF''"

definition quote_plus :: "string \<Rightarrow> string" where
  "quote_plus s =
     concat (map (\<lambda>c. if is_alnum c \<or> c \<in> set ''_.-~'' then [c] else if c = CHR '' '' then ''+''
       else [CHR ''%'', upper_hex ! (of_char c div 16), upper_hex ! (of_char c mod 16)]) s)"

definition urlencode :: "(string \<times> string) list \<Rightarrow> string" where
  "urlencode kvs = join ''&'' (map (\<lambda>(k, v). quote_plus k @ ''='' @ quote_plus v) kvs)"

definition history_url :: "string \<Rightarrow> int \<Rightarrow> int \<Rightarrow> string" where
  "history_url url a b =
     rstrip_chars ''/'' url @ ''/api/history/period/'' @ iso_utc a @ ''?'' @
     urlencode [(''filter_entity_id'', join '','' entities), (''end_time'', iso_utc b),
                (''significant_changes_only'', ''0'')]"

definition response_limit :: nat where "response_limit = 33554432"

text \<open>\<open>OSError\<close> and its subclasses apart from \<open>HTTPError\<close>\<close>

definition is_transport :: "exn \<Rightarrow> bool" where
  "is_transport e =
     (case e of OSError _ \<Rightarrow> True | URLError _ _ _ \<Rightarrow> True | TimeoutError _ \<Rightarrow> True | ConnectionError _ \<Rightarrow> True
      | RemoteDisconnected _ \<Rightarrow> True | _ \<Rightarrow> False)"

text \<open>Attempts \<open>k\<close>, \<open>k + 1\<close>, ... up to the third\<close>

fun fetch_from :: "'s winery_env \<Rightarrow> string \<Rightarrow> string \<Rightarrow> nat list \<Rightarrow> ('s winery, json) prog" where
  "fetch_from E target token [] = ret JNull"
| "fetch_from E target token (k # ks) =
     bnd (attempt (call_out (open_history E target token))) (\<lambda>r.
       let again = bnd (modify (\<lambda>w. w\<lparr>outside := back_off E (2 ^ k) (outside w)\<rparr>)) (\<lambda>_. fetch_from E target token ks) in
       case r of
         Inr body \<Rightarrow>
           if response_limit < length body then raise (RuntimeError ''HA history exceeds 32 MiB response limit'')
           else of_result (json_of body)
       | Inl (HTTPError code _) \<Rightarrow>
           if code < 500 \<or> k = 2 then raise (RuntimeError (''HA history HTTP '' @ show_int code)) else again
       | Inl e \<Rightarrow>
           if \<not> is_transport e then raise e
           else if k = 2 then raise (RuntimeError ''HA history transport failed'') else again)"

definition fetch :: "'s winery_env \<Rightarrow> string \<Rightarrow> string \<Rightarrow> int \<Rightarrow> int \<Rightarrow> ('s winery, json) prog" where
  "fetch E url token a b =
     (if \<not> https_origin url then raise (ValueError ''HA URL must be an HTTPS origin without credentials'')
      else fetch_from E (history_url url a b) token [0, 1, 2])"

section \<open>Inspection\<close>

definition iso_of :: "json \<Rightarrow> exn + datetime" where
  "iso_of j =
     (case j of
        JStr s \<Rightarrow> (case fromisoformat s of
            None \<Rightarrow> Inl (ValueError (''Invalid isoformat string: '' @ py_repr (JStr s))) | Some d \<Rightarrow> Inr d)
      | _ \<Rightarrow> Inl (TypeError ''fromisoformat: argument must be str''))"

text \<open>The instant of an aware time; naive and aware times cannot be compared.\<close>

definition aware :: "datetime \<Rightarrow> exn + int" where
  "aware d =
     (case dt_offset d of
        None \<Rightarrow> Inl (TypeError ''can't compare offset-naive and offset-aware datetimes'')
      | Some off \<Rightarrow> Inr (dt_local d - off))"

definition unzoned :: exn where "unzoned = ValueError ''Unordered or unzoned history timestamps''"

text \<open>A point of the series of an entity, not older than the one before\<close>

definition check_point :: "json \<Rightarrow> int option \<Rightarrow> json \<Rightarrow> exn + int" where
  "check_point entity before point =
     rbnd (py_get point ''entity_id'') (\<lambda>e.
     rbnd (if py_eq e entity then py_get point ''state'' else Inr JNull) (\<lambda>st.
       case st of
         JStr _ \<Rightarrow>
           rbnd (rbnd (py_item point ''last_updated'') iso_of) (\<lambda>d.
             case aware d of
               Inl _ \<Rightarrow> Inl unzoned
             | Inr t \<Rightarrow> (case before of None \<Rightarrow> Inr t | Some b \<Rightarrow> if t < b then Inl unzoned else Inr t))
       | _ \<Rightarrow> Inl (ValueError ''Malformed history point'')))"

fun check_points :: "json \<Rightarrow> int option \<Rightarrow> json list \<Rightarrow> exn + unit" where
  "check_points entity before [] = Inr ()"
| "check_points entity before (p # ps) = rbnd (check_point entity before p) (\<lambda>t. check_points entity (Some t) ps)"

definition is_unavailable :: "json \<Rightarrow> bool" where
  "is_unavailable p = (case py_item p ''state'' of Inr (JStr s) \<Rightarrow> s \<in> set [''unknown'', ''unavailable''] | _ \<Rightarrow> False)"

text \<open>An entity with the number of its points, and of those without a value\<close>

type_synonym series_count = "string \<times> nat \<times> nat"

definition check_series :: "string list \<Rightarrow> json \<Rightarrow> exn + series_count" where
  "check_series seen series =
     (case series of
        JArr (p # ps) \<Rightarrow>
          rbnd (py_get p ''entity_id'') (\<lambda>entity.
            case entity of
              JStr e \<Rightarrow>
                if e \<notin> set entities \<or> e \<in> set seen then Inl (ValueError ''Unexpected or duplicate history entity'')
                else rbnd (check_points entity None (p # ps)) (\<lambda>_.
                  Inr (e, length (p # ps), length (filter is_unavailable (p # ps))))
            | _ \<Rightarrow> Inl (ValueError ''Unexpected or duplicate history entity''))
      | _ \<Rightarrow> Inl (ValueError ''Missing history series''))"

fun check_all :: "string list \<Rightarrow> json list \<Rightarrow> exn + series_count list" where
  "check_all seen [] = Inr []"
| "check_all seen (s # ss) =
     rbnd (check_series seen s) (\<lambda>c. rbnd (check_all (fst c # seen) ss) (\<lambda>cs. Inr (c # cs)))"

definition quality_json :: "series_count list \<Rightarrow> json" where
  "quality_json cs =
     JObj [(''records'', JObj (map (\<lambda>(e, n, u). (e, JInt (int n))) cs)),
           (''unavailable_records'', JObj (map (\<lambda>(e, n, u). (e, JInt (int u))) cs))]"

definition inspect_history :: "json \<Rightarrow> exn + json" where
  "inspect_history history =
     (case history of
        JArr ss \<Rightarrow>
          rbnd (check_all [] ss) (\<lambda>cs.
            if set (map fst cs) = set entities then Inr (quality_json cs)
            else Inl (ValueError ''HA omitted an archive entity; cursor not advanced''))
      | _ \<Rightarrow> Inl (ValueError ''Invalid history envelope''))"

section \<open>Collection\<close>

definition status_path :: "path \<Rightarrow> path" where
  "status_path base = base @ [''capture.json'']"

definition gap_name :: "int \<Rightarrow> int \<Rightarrow> string" where
  "gap_name a b = compact_time a @ ''-'' @ compact_time b @ ''.json''"

definition chunk_name :: "int \<Rightarrow> int \<Rightarrow> string" where
  "chunk_name a b = compact_time a @ ''-'' @ compact_time b @ ''.json.gz''"

definition gap_json :: "int \<Rightarrow> int \<Rightarrow> int \<Rightarrow> json" where
  "gap_json a b now =
     JObj [(''start'', JStr (iso_utc a)), (''end'', JStr (iso_utc b)), (''detected_at'', JStr (iso_utc now)),
           (''reason'', JStr ''Outside bounded ten-day raw-history recovery window; not assumed zero'')]"

definition chunk_json :: "string \<Rightarrow> int \<Rightarrow> int \<Rightarrow> int \<Rightarrow> json \<Rightarrow> json \<Rightarrow> json" where
  "chunk_json url a b now quality history =
     JObj [(''schema'', JInt 1), (''start'', JStr (iso_utc a)), (''end'', JStr (iso_utc b)),
           (''query_start'', JStr (iso_utc (a - 5 * minute_us))), (''collected_at'', JStr (iso_utc now)),
           (''source'', JStr url), (''entities'', JArr (map JStr entities)), (''quality'', quality),
           (''notes'', JArr (map JStr
              [''Unmodified HA history response; no resampling or clipping'',
               ''First state in each series may be a Recorder boundary state'',
               ''Overlap records must be deduplicated when replaying'',
               ''Requested interval is not proof of source completeness''])),
           (''history'', history)]"

definition status_json :: "int \<Rightarrow> int \<Rightarrow> string \<Rightarrow> string \<Rightarrow> json \<Rightarrow> json" where
  "status_json through now chunk digest quality =
     JObj [(''schema'', JInt 1), (''through'', JStr (iso_utc through)), (''checked_at'', JStr (iso_utc now)),
           (''chunk'', JStr chunk), (''sha256'', JStr digest), (''quality'', quality)]"

definition gunzip_json :: "'s winery_env \<Rightarrow> string \<Rightarrow> exn + json" where
  "gunzip_json E c =
     (case gunzip E c of None \<Rightarrow> Inl (OSError ''Not a gzipped file'') | Some raw \<Rightarrow> json_of raw)"

text \<open>
  The chunk from \<open>a\<close> to \<open>b\<close>, read back if it is there and fetched if not; \<open>off\<close> and
  \<open>off'\<close> are the offsets from UTC the two instants carry.
\<close>

definition chunk_path :: "path \<Rightarrow> int \<Rightarrow> int \<Rightarrow> path" where
  "chunk_path base a b = base @ [''chunks'', chunk_name a b]"

definition archive_chunk :: "'s winery_env \<Rightarrow> path \<Rightarrow> string \<Rightarrow> string \<Rightarrow> int \<Rightarrow> int \<times> int \<Rightarrow> int \<times> int \<Rightarrow> ('s winery, json) prog" where
  "archive_chunk E base url token now = (\<lambda>(a, off) (b, off').
     let p = chunk_path base (a + off) (b + off') in
     bnd (gets (\<lambda>w. fs_exists (tree w) p)) (\<lambda>there.
     if there then
       bnd (read_whole p) (\<lambda>c.
       bnd (of_result (gunzip_json E c)) (\<lambda>doc.
       bnd (of_result (py_item doc ''start'')) (\<lambda>s.
       bnd (if py_eq s (JStr (iso_utc a)) then of_result (py_item doc ''end'') else ret JNull) (\<lambda>e.
       if \<not> py_eq e (JStr (iso_utc b)) then raise (ValueError ''Existing archive chunk has wrong boundaries'')
       else of_result (rbnd (py_item doc ''history'') inspect_history)))))
     else
       bnd (fetch E url token (a - 5 * minute_us) b) (\<lambda>history.
       bnd (of_result (inspect_history history)) (\<lambda>quality.
       bnd (atomic E p (gzip_bytes E (json_dumps compact_layout (chunk_json url a b now quality history)))) (\<lambda>_.
         ret quality)))))"

function collect_from :: "'s winery_env \<Rightarrow> path \<Rightarrow> string \<Rightarrow> string \<Rightarrow> int \<Rightarrow> int \<times> int \<Rightarrow> int \<Rightarrow> ('s winery, unit) prog" where
  "collect_from E base url token now (a, off) fin =
     (if \<not> a < fin then ret ()
      else
        (let stop = (if fin < a + day_us then (fin, 0) else (a + day_us, off));
             name = chunk_name (a + off) (fst stop + snd stop) in
         bnd (archive_chunk E base url token now (a, off) stop) (\<lambda>quality.
         bnd (read_whole (base @ [''chunks'', name])) (\<lambda>c.
         bnd (save_record E (status_path base)
                (status_json (fst stop) now (''chunks/'' @ name) (sha256_hex E c) quality)) (\<lambda>_.
           collect_from E base url token now stop fin)))))"
  by pat_completeness auto
termination
  by (relation "measure (\<lambda>(E, base, url, token, now, (a, off), fin). nat (fin - a))") (auto simp: day_us_def split: if_splits)

declare collect_from.simps [simp del]

text \<open>The last full hour that is at least five minutes old, and ten days before it\<close>

definition chunk_end :: "int \<Rightarrow> int" where
  "chunk_end now = (now - 5 * minute_us) div hour_us * hour_us"

definition earliest :: "int \<Rightarrow> int" where
  "earliest now = chunk_end now - 10 * day_us"

text \<open>The cursor: where the last run stopped\<close>

definition collect_start :: "path \<Rightarrow> int \<Rightarrow> ('s winery, int \<times> int) prog" where
  "collect_start base now =
     bnd (gets (\<lambda>w. fs_exists (tree w) (status_path base))) (\<lambda>there.
     bnd (if there then read_json (status_path base) else ret JNull) (\<lambda>previous.
     if truthy previous then
       of_result (rbnd (rbnd (py_item previous ''through'') iso_of) (\<lambda>d.
         rbnd (aware d) (\<lambda>t. Inr (t, dt_local d - t))))
     else ret (earliest now, 0)))"

definition collect_history :: "'s winery_env \<Rightarrow> path \<Rightarrow> string \<Rightarrow> path \<Rightarrow> ('s winery, unit) prog" where
  "collect_history E base url credential =
     bnd (draw (utc_now E)) (\<lambda>now.
     bnd (collect_start base now) (\<lambda>(a, off).
     bnd (if a < earliest now
          then bnd (save_record E (base @ [''gaps'', gap_name (a + off) (earliest now)]) (gap_json a (earliest now) now))
                 (\<lambda>_. ret (earliest now, 0))
          else ret (a, off)) (\<lambda>start.
     bnd (bnd (read_whole credential) (\<lambda>c. of_result (token_of c))) (\<lambda>token.
       collect_from E base url token now start (chunk_end now)))))"

section \<open>Backup and check\<close>

definition archived_files :: "fs \<Rightarrow> path \<Rightarrow> path list" where
  "archived_files t source =
     sort_key id (filter (\<lambda>p. fs_is_file t p \<and> \<not> starts_with (path_name p) pending) (fs_below t source))"

text \<open>A file that is in the backup must be the same; another is copied and read back.\<close>

definition backup_file :: "'s winery_env \<Rightarrow> path \<Rightarrow> path \<Rightarrow> path \<Rightarrow> nat \<Rightarrow> ('s winery, nat) prog" where
  "backup_file E base dest p copied =
     (let relative = drop (length base) p; target = dest @ relative in
      bnd (read_whole p) (\<lambda>content.
      bnd (gets (\<lambda>w. fs_exists (tree w) target)) (\<lambda>there.
      if there then
        bnd (read_whole target) (\<lambda>c.
          if sha256_hex E c \<noteq> sha256_hex E content
          then raise (ValueError (''Backup checksum mismatch: '' @ path_str relative)) else ret copied)
      else
        bnd (alter (fs_mkdirs (path_parent target))) (\<lambda>_.
        bnd (atomic E target content) (\<lambda>_.
        bnd (read_whole target) (\<lambda>c.
          if c \<noteq> content then raise (ValueError (''Backup read-back mismatch: '' @ path_str relative))
          else ret (Suc copied)))))))"

definition backup_folder :: "'s winery_env \<Rightarrow> path \<Rightarrow> path \<Rightarrow> string \<Rightarrow> nat \<Rightarrow> ('s winery, nat) prog" where
  "backup_folder E base dest folder copied =
     bnd (gets (\<lambda>w. if fs_exists (tree w) (base @ [folder]) then archived_files (tree w) (base @ [folder]) else [])) (\<lambda>ps.
       for_each ps (backup_file E base dest) copied)"

definition backup_folders :: "string list" where
  "backup_folders = [''chunks'', ''gaps'', ''bootstrap'']"

definition backup :: "'s winery_env \<Rightarrow> path \<Rightarrow> path \<Rightarrow> ('s winery, unit) prog" where
  "backup E base dest =
     bnd (read_json (status_path base)) (\<lambda>status.
     bnd (for_each backup_folders (backup_folder E base dest) 0) (\<lambda>copied.
     bnd (save_record E (status_path dest) status) (\<lambda>_.
     bnd (of_result (py_item status ''through'')) (\<lambda>through.
     bnd (draw (utc_now E)) (\<lambda>now.
       save_record E (base @ [''backup.json''])
         (JObj [(''through'', through), (''checked_at'', JStr (iso_utc now)),
                (''destination'', JStr (path_str dest)), (''copied_files'', JInt (int copied))]))))))"

definition max_age :: int where "max_age = 4 * hour_us"

definition check_fresh :: "path \<Rightarrow> int \<Rightarrow> string \<Rightarrow> unit \<Rightarrow> ('s winery, unit) prog" where
  "check_fresh base now filename _ =
     bnd (read_json (base @ [filename])) (\<lambda>record.
     bnd (of_result (rbnd (rbnd (py_item record ''through'') iso_of) aware)) (\<lambda>t.
       if 0 \<le> now - t \<and> now - t \<le> max_age then ret ()
       else raise (ValueError (''Stale archive progress: '' @ filename))))"

definition check_archive :: "'s winery_env \<Rightarrow> path \<Rightarrow> ('s winery, unit) prog" where
  "check_archive E base =
     bnd (draw (utc_now E)) (\<lambda>now.
     bnd (read_json (status_path base)) (\<lambda>status.
     bnd (for_each [''capture.json'', ''backup.json''] (check_fresh base now) ()) (\<lambda>_.
     bnd (of_result (rbnd (py_item status ''chunk'') (\<lambda>j. case j of JStr s \<Rightarrow> Inr s
            | _ \<Rightarrow> Inl (TypeError ''unsupported operand type(s) for /'')))) (\<lambda>chunk.
     bnd (read_whole (path_join base chunk)) (\<lambda>c.
     bnd (of_result (py_item status ''sha256'')) (\<lambda>digest.
       if \<not> py_eq (JStr (sha256_hex E c)) digest then raise (ValueError ''Latest chunk checksum mismatch'')
       else of_result (rbnd (gunzip_json E c) (\<lambda>doc. rbnd (rbnd (py_item doc ''history'') inspect_history) (\<lambda>_. Inr ())))))))))"

section \<open>The command\<close>

datatype action = Collect | Backup | Check

record winery_args =
  wa_action :: action
  wa_data :: path
  wa_backup :: "path option"
  wa_url :: string
  wa_credential :: "path option"

definition action_name :: "action \<Rightarrow> string" where
  "action_name a = (case a of Collect \<Rightarrow> ''collect'' | Backup \<Rightarrow> ''backup'' | Check \<Rightarrow> ''check'')"

text \<open>Opening the lock file creates it; a lock somebody holds is a \<open>BlockingIOError\<close>.\<close>

definition with_lock :: "'s winery_env \<Rightarrow> path \<Rightarrow> ('s winery, unit) prog \<Rightarrow> ('s winery, unit) prog" where
  "with_lock E p m =
     bnd (alter (fs_write p [])) (\<lambda>_.
     bnd (gets (\<lambda>w. lock_free E p (outside w))) (\<lambda>free.
       if free then m else raise (OSError ''Resource temporarily unavailable'')))"

definition run_action :: "'s winery_env \<Rightarrow> winery_args \<Rightarrow> ('s winery, unit) prog" where
  "run_action E A =
     (case wa_action A of
        Check \<Rightarrow> check_archive E (wa_data A)
      | Collect \<Rightarrow> with_lock E (wa_data A @ [''.collect.lock''])
          (case wa_credential A of
             None \<Rightarrow> raise (SystemExit ''--credential required for collection'')
           | Some cred \<Rightarrow> collect_history E (wa_data A) (wa_url A) cred)
      | Backup \<Rightarrow> with_lock E (wa_data A @ [''.backup.lock''])
          (case wa_backup A of
             None \<Rightarrow> raise (SystemExit ''--backup-dir required for backup'')
           | Some d \<Rightarrow> backup E (wa_data A) d))"

definition winery_main :: "'s winery_env \<Rightarrow> winery_args \<Rightarrow> ('s winery, unit) prog" where
  "winery_main E A =
     try_except (run_action E A) (\<lambda>e. if is_exception e then raise (SystemExit ''1'') else raise e)"

section \<open>Files that are being written\<close>

definition is_pending :: "path \<Rightarrow> bool" where
  "is_pending p \<longleftrightarrow> p \<noteq> [] \<and> starts_with (last p) pending"

text \<open>Two trees with the same finished files, but for one\<close>

definition same_but :: "path \<Rightarrow> string option \<Rightarrow> fs \<Rightarrow> fs \<Rightarrow> bool" where
  "same_but p c t t' \<longleftrightarrow>
     (\<forall>q. \<not> is_pending q \<longrightarrow>
        fs_read t' q = (if q = p \<and> c \<noteq> None then c else fs_read t q) \<and> (fs_exists t q \<longrightarrow> fs_exists t' q))"

lemma same_but_refl [simp]: "same_but p None t t"
  by (simp add: same_but_def)

lemma fs_exists_steps:
  "fs_exists t q \<Longrightarrow> fs_exists (fs_mkdirs d t) q" "fs_exists t q \<Longrightarrow> fs_exists (fs_write n c t) q"
  "fs_exists t q \<Longrightarrow> q \<noteq> n \<Longrightarrow> fs_exists (fs_rename n p t) q"
  "fs_exists t q \<Longrightarrow> q \<noteq> n \<Longrightarrow> fs_exists (fs_unlink n t) q"
  by (auto simp: fs_exists_def map_of_fs_mkdirs map_of_fs_rename split: option.splits)

lemma fs_read_cleanup: "fs_read (if fs_exists t n then fs_unlink n t else t) q = (if q = n then None else fs_read t q)"
  by (auto simp: fs_read_def fs_exists_def)

text \<open>
  Along a program, every tree it goes through has a property, and so has the last one.
\<close>

definition within :: "(fs \<Rightarrow> bool) \<Rightarrow> 's winery \<Rightarrow> 's winery \<Rightarrow> bool" where
  "within S w w' \<longleftrightarrow> (\<exists>u. trail w' = u @ trail w \<and> (\<forall>t \<in> set u. S t)) \<and> S (tree w')"

definition stays :: "(fs \<Rightarrow> bool) \<Rightarrow> 's winery \<Rightarrow> 's winery \<Rightarrow> bool" where
  "stays S w w' \<longleftrightarrow> (S (tree w) \<longrightarrow> within S w w')"

lemma within_trans: "within S a b \<Longrightarrow> within S b c \<Longrightarrow> within S a c"
  unfolding within_def by (elim conjE exE) (auto intro!: exI)

lemma within_mono: "within S a b \<Longrightarrow> (\<And>t. S t \<Longrightarrow> S' t) \<Longrightarrow> within S' a b"
  unfolding within_def by auto

lemma within_tree: "within S a b \<Longrightarrow> S (tree b)"
  by (simp add: within_def)

interpretation staying: step_relation "stays S" for S :: "fs \<Rightarrow> bool"
proof
  show "stays S w w" for w :: "'a winery" by (simp add: stays_def within_def exI [of _ "[]"])
  show "stays S a c" if "stays S a b" "stays S b c" for a b c :: "'a winery"
    using that within_trans within_tree unfolding stays_def by metis
qed

lemma stays_same: "tree w' = tree w \<Longrightarrow> trail w' = trail w \<Longrightarrow> stays S w w'"
  by (simp add: stays_def within_def exI [of _ "[]"])

text \<open>A program that leaves the files alone\<close>

definition still :: "'s winery \<Rightarrow> 's winery \<Rightarrow> bool" where
  "still w w' \<longleftrightarrow> tree w' = tree w \<and> trail w' = trail w"

interpretation quiet: step_relation still
  by unfold_locales (auto simp: still_def)

lemma still_within: "still w w' \<Longrightarrow> S (tree w) \<Longrightarrow> within S w w' \<and> tree w' = tree w"
  using stays_same [of w' w S] by (simp add: stays_def still_def)

lemma still_service: "keeps still (call_out f)"
  by (auto simp: keeps_def call_out_def split: prod.split simp: still_def)

lemma keeps_sampled: "keeps still (draw g)"
  unfolding draw_def by (rule still_service)

lemma keeps_reads: "keeps still (read_whole p)" "keeps still (read_json p)"
proof -
  show *: "keeps still (read_whole p)"
    by (simp add: keeps_def read_whole_def still_def)
  show "keeps still (read_json p)"
    unfolding read_json_def by (intro quiet.seq * quiet.pure)
qed

lemma keeps_fetch: "keeps still (fetch E url token a b)"
proof -
  have "keeps still (fetch_from E target token ks)" for target ks
  proof (induction ks)
    case (Cons k ks)
    have "keeps still (modify (\<lambda>w. w\<lparr>outside := g (outside w)\<rparr>))" for g :: "'a \<Rightarrow> 'a"
      by (simp add: keeps_def modify_def still_def)
    then have again: "keeps still (bnd (modify (\<lambda>w. w\<lparr>outside := back_off E (2 ^ k) (outside w)\<rparr>)) (\<lambda>_. fetch_from E target token ks))"
      using Cons by (intro quiet.seq) auto
    show ?case
      unfolding fetch_from.simps Let_def
      apply (intro quiet.seq keeps_attempt still_service)
      subgoal for r by (cases r; cases "projl r") (simp_all add: quiet.pure again)
      done
  qed (simp add: quiet.pure)
  then show ?thesis unfolding fetch_def by (simp add: quiet.pure del: fetch_from.simps)
qed

text \<open>What a write through a temporary file does\<close>

lemma atomic_run:
  assumes "\<not> is_pending p"
    and S: "\<And>t. same_but p None (tree w) t \<Longrightarrow> S t"
    and S': "\<And>t. same_but p (Some c) (tree w) t \<Longrightarrow> S t"
  obtains w' where "atomic E p c w = (Inr (), w')" "within S w w'" "same_but p (Some c) (tree w) (tree w')"
proof -
  define d where "d = path_parent p"
  define n where "n = d @ [pending @ fst (temp_name E (outside w))]"
  define t1 where "t1 = fs_mkdirs d (tree w)"
  define t2 where "t2 = fs_write n [] t1"
  define t3 where "t3 = fs_write n c t2"
  define t4 where "t4 = fs_rename n p t3"
  define t5 where "t5 = (if fs_exists t4 n then fs_unlink n t4 else t4)"
  define w' where "w' = w\<lparr>outside := snd (temp_name E (outside w)), tree := t5, trail := [t4, t3, t2, t1, tree w] @ trail w\<rparr>"
  have run: "atomic E p c w = (Inr (), w')"
    unfolding atomic_def d_def [symmetric] w'_def t5_def t4_def t3_def t2_def t1_def n_def
    by (simp add: bnd_def alter_def draw_def call_out_def split_beta Let_def)
  have n: "is_pending n" "n \<noteq> p" using assms(1) by (auto simp: is_pending_def n_def starts_with_def)
  have r3: "fs_read t3 n = Some c" by (simp add: t3_def)
  have none: "same_but p None (tree w) t1" "same_but p None (tree w) t2" "same_but p None (tree w) t3"
    using n(1) by (auto simp: same_but_def t1_def t2_def t3_def fs_exists_steps)
  have some: "same_but p (Some c) (tree w) t4" "same_but p (Some c) (tree w) t5"
    using n fs_read_rename [OF r3, of p] none(3)
    unfolding same_but_def t5_def fs_read_cleanup by (auto simp: t4_def intro!: fs_exists_steps(3,4))
  have "\<forall>t \<in> set [t4, t3, t2, t1, tree w]. S t" using S none S' some by simp
  then have "within S w w'"
    using S' some(2) unfolding within_def w'_def by (intro conjI exI [of _ "[t4, t3, t2, t1, tree w]"]) simp_all
  moreover have "tree w' = t5" by (simp add: w'_def)
  ultimately show thesis using run some(2) that by simp
qed

section \<open>What is archived\<close>

lemma distinct_map_sort_key [simp]: "distinct (map f (sort_key g xs)) = distinct (map f xs)"
  by (rule mset_eq_imp_distinct_iff) (simp add: mset_map)

lemma map_of_sort_key: "distinct (map fst d) \<Longrightarrow> map_of (sort_key f d) = map_of d"
  by (simp add: map_of_inject_set)

lemma map_fst_sorted_values: "map fst (map (\<lambda>(k, v). (k, g v)) d) = map fst d"
  by (simp add: case_prod_unfold)

lemma json_ok_sort_keys [simp]: "json_ok (sort_keys j) = json_ok j"
proof (induction j)
  case (JObj d)
  then have "(\<forall>p \<in> set d. json_ok (sort_keys (snd p))) = (\<forall>p \<in> set d. json_ok (snd p))"
    by (metis prod.collapse snds.intros)
  then show ?case by (auto simp: map_fst_sorted_values case_prod_unfold comp_def)
qed simp_all

text \<open>A document saved with sorted keys is read back with the same fields.\<close>

lemma loads_saved:
  assumes "json_ok (JObj d)"
  obtains d' where "json_loads (json_dumps indent2_layout (sort_keys (JObj d)) @ [CHR 0x0A]) = Some (JObj d')"
    "\<And>k s. map_of d k = Some (JStr s) \<Longrightarrow> map_of d' k = Some (JStr s)"
proof
  let ?d = "sort_key fst (map (\<lambda>(k, v). (k, sort_keys v)) d)"
  have "json_loads (json_dumps indent2_layout (sort_keys (JObj d)) @ [CHR 0x0A]) = Some (sort_keys (JObj d))"
    by (rule json_loads_dumps_ws) (use assms good_layouts in \<open>simp_all add: is_ws_def del: sort_keys.simps\<close>)
  then show "json_loads (json_dumps indent2_layout (sort_keys (JObj d)) @ [CHR 0x0A]) = Some (JObj ?d)" by simp
  have "distinct (map fst (map (\<lambda>(k, v). (k, sort_keys v)) d))"
    unfolding map_fst_sorted_values using assms by simp
  then have look: "map_of ?d k = map_option sort_keys (map_of d k)" for k
    by (simp only: map_of_sort_key map_of_map comp_apply)
  show "map_of ?d k = Some (JStr s)" if "map_of d k = Some (JStr s)" for k s
    unfolding look that by simp
qed

definition has_times :: "(string \<times> json) list \<Rightarrow> int \<Rightarrow> int \<Rightarrow> bool" where
  "has_times d a b \<longleftrightarrow> map_of d ''start'' = Some (JStr (iso_utc a)) \<and> map_of d ''end'' = Some (JStr (iso_utc b))"

text \<open>A chunk from \<open>a\<close> to \<open>b\<close> whose history passes inspection; a recorded gap\<close>

definition chunk_holds :: "'s winery_env \<Rightarrow> path \<Rightarrow> fs \<Rightarrow> int \<Rightarrow> int \<Rightarrow> bool" where
  "chunk_holds E base t a b \<longleftrightarrow>
     (\<exists>c d h q. fs_read t (chunk_path base a b) = Some c \<and> gunzip_json E c = Inr (JObj d) \<and> has_times d a b \<and>
        map_of d ''history'' = Some h \<and> inspect_history h = Inr q)"

definition gap_path :: "path \<Rightarrow> int \<Rightarrow> int \<Rightarrow> path" where
  "gap_path base a b = base @ [''gaps'', gap_name a b]"

definition exact :: "int \<Rightarrow> bool" where
  "exact t \<longleftrightarrow> in_calendar t \<and> whole_second t"

definition gap_holds :: "path \<Rightarrow> fs \<Rightarrow> int \<Rightarrow> int \<Rightarrow> bool" where
  "gap_holds base t a b \<longleftrightarrow>
     exact a \<and> exact b \<and> (\<exists>c d. fs_read t (gap_path base a b) = Some c \<and> json_of c = Inr (JObj d) \<and> has_times d a b)"

definition covered :: "'s winery_env \<Rightarrow> path \<Rightarrow> fs \<Rightarrow> int \<Rightarrow> bool" where
  "covered E base t x \<longleftrightarrow> (\<exists>a b. a \<le> x \<and> x < b \<and> (chunk_holds E base t a b \<or> gap_holds base t a b))"

definition covers :: "'s winery_env \<Rightarrow> path \<Rightarrow> int \<Rightarrow> fs \<Rightarrow> int \<Rightarrow> bool" where
  "covers E base origin t u \<longleftrightarrow> (\<forall>x. origin \<le> x \<and> x < u \<longrightarrow> covered E base t x)"

definition cursor_at :: "string \<Rightarrow> int \<Rightarrow> bool" where
  "cursor_at c u \<longleftrightarrow> exact u \<and> (\<exists>d. json_of c = Inr (JObj d) \<and> map_of d ''through'' = Some (JStr (iso_utc u)))"

text \<open>Everything from the origin to the cursor is in a chunk or recorded as a gap.\<close>

definition archive_sound :: "'s winery_env \<Rightarrow> path \<Rightarrow> int \<Rightarrow> fs \<Rightarrow> bool" where
  "archive_sound E base origin t \<longleftrightarrow>
     (case fs_read t (status_path base) of None \<Rightarrow> True | Some c \<Rightarrow> \<exists>u. cursor_at c u \<and> covers E base origin t u)"

lemma gap_path_inj:
  assumes "gap_path base a b = gap_path base a' b'" "exact a" "exact b" "exact a'" "exact b'"
  shows "a = a' \<and> b = b'"
proof -
  have "compact_time a @ ''-'' @ compact_time b = compact_time a' @ ''-'' @ compact_time b'"
    using assms(1) by (simp add: gap_path_def gap_name_def)
  then have "compact_time a = compact_time a'" "compact_time b = compact_time b'"
    by (simp_all add: append_eq_append_conv)
  with assms(2-5) show ?thesis using compact_time_inj by (auto simp: exact_def)
qed

text \<open>Names of the archive are no names of unfinished files.\<close>

lemma compact_time_first: "\<exists>c r. compact_time t = c # r \<and> is_digit c"
proof -
  obtain y m d where at: "date_at t = (y, m, d)" by (metis prod_cases3)
  obtain c r where c: "pad_digits 4 y = c # r"
    by (metis length_pad_digits list.exhaust list.size(3) zero_neq_numeral)
  moreover have "is_digit c" using pad_digits_digits [of 4 y] c by simp
  ultimately show ?thesis by (simp add: compact_time_def at Let_def del: pad_digits.simps)
qed

lemma not_pending:
  "\<not> is_pending (status_path base)" "\<not> is_pending (gap_path base a b)" "\<not> is_pending (chunk_path base a b)"
  "\<not> is_pending (base @ [''backup.json''])"
proof -
  have *: "\<not> starts_with (compact_time a @ z) pending" for z
  proof -
    obtain c r where c: "compact_time a = c # r" "is_digit c" using compact_time_first by blast
    then show ?thesis by (auto simp: starts_with_def pending_def is_digit_def)
  qed
  show "\<not> is_pending (gap_path base a b)" "\<not> is_pending (chunk_path base a b)"
    using * by (auto simp: is_pending_def gap_path_def chunk_path_def gap_name_def chunk_name_def)
  show "\<not> is_pending (status_path base)" "\<not> is_pending (base @ [''backup.json''])"
    by (simp_all add: is_pending_def status_path_def starts_with_def pending_def)
qed

lemma paths_apart: "status_path base \<noteq> gap_path base a b" "status_path base \<noteq> chunk_path base a b'"
    "gap_path base a b \<noteq> chunk_path base c d"
  by (simp_all add: status_path_def gap_path_def chunk_path_def)

lemmas apart = not_pending paths_apart paths_apart [symmetric]

lemma same_but_read: "same_but p (Some c) t t' \<Longrightarrow> \<not> is_pending q \<Longrightarrow> q \<noteq> p \<Longrightarrow> fs_read t' q = fs_read t q"
  by (simp add: same_but_def)

lemma same_but_at: "same_but p (Some c) t t' \<Longrightarrow> \<not> is_pending p \<Longrightarrow> fs_read t' p = Some c"
  by (simp add: same_but_def)

lemma chunk_read:
  assumes "fs_read t' (chunk_path base a b) = fs_read t (chunk_path base a b)"
  shows "chunk_holds E base t' a b = chunk_holds E base t a b"
  by (simp only: chunk_holds_def assms)

lemma sound_same_but:
  assumes "same_but p None t t'"
  shows "covered E base t' = covered E base t" "covers E base origin t' = covers E base origin t"
    "archive_sound E base origin t' = archive_sound E base origin t"
proof -
  have r: "fs_read t' (chunk_path base a b) = fs_read t (chunk_path base a b)"
      "fs_read t' (gap_path base a b) = fs_read t (gap_path base a b)"
      "fs_read t' (status_path base) = fs_read t (status_path base)" for a b
    using assms not_pending by (simp_all add: same_but_def)
  show c: "covered E base t' = covered E base t"
    unfolding covered_def chunk_holds_def gap_holds_def r ..
  show d: "covers E base origin t' = covers E base origin t"
    unfolding covers_def c ..
  show "archive_sound E base origin t' = archive_sound E base origin t"
    unfolding archive_sound_def r d ..
qed

text \<open>A new chunk, and a new or renewed gap record, take nothing away.\<close>

lemma covered_after_chunk:
  assumes "same_but (chunk_path base a b) (Some c) t t'" "fs_read t (chunk_path base a b) = None" "covered E base t x"
  shows "covered E base t' x"
proof -
  obtain u v where uv: "u \<le> x" "x < v" "chunk_holds E base t u v \<or> gap_holds base t u v"
    using assms(3) by (auto simp: covered_def)
  have "fs_read t' (gap_path base u v) = fs_read t (gap_path base u v)"
    by (rule same_but_read [OF assms(1)]) (rule apart)+
  then have "gap_holds base t u v \<Longrightarrow> gap_holds base t' u v" by (simp add: gap_holds_def)
  moreover have "chunk_holds E base t' u v" if "chunk_holds E base t u v"
  proof -
    from that obtain r where "fs_read t (chunk_path base u v) = Some r" by (auto simp: chunk_holds_def)
    with assms(2) have "chunk_path base u v \<noteq> chunk_path base a b" by auto
    then have "fs_read t' (chunk_path base u v) = fs_read t (chunk_path base u v)"
      by (rule same_but_read [OF assms(1) not_pending(3)])
    from chunk_read [OF this, of E] that show ?thesis by simp
  qed
  ultimately show ?thesis using uv unfolding covered_def by blast
qed

lemma covered_after_gap:
  assumes t': "same_but (gap_path base a b) (Some c) t t'" and new: "gap_holds base t' a b"
    and x: "covered E base t x"
  shows "covered E base t' x"
proof -
  obtain u v where uv: "u \<le> x" "x < v" "chunk_holds E base t u v \<or> gap_holds base t u v"
    using x by (auto simp: covered_def)
  have "fs_read t' (chunk_path base u v) = fs_read t (chunk_path base u v)"
    by (rule same_but_read [OF t']) (rule apart)+
  from chunk_read [OF this, of E] have "chunk_holds E base t u v \<Longrightarrow> chunk_holds E base t' u v" by simp
  moreover have "gap_holds base t' u v" if g: "gap_holds base t u v"
  proof (cases "gap_path base u v = gap_path base a b")
    case True
    then have "u = a \<and> v = b" using g new gap_path_inj by (auto simp: gap_holds_def)
    with new show ?thesis by simp
  next
    case False
    then have "fs_read t' (gap_path base u v) = fs_read t (gap_path base u v)"
      by (rule same_but_read [OF t' not_pending(2)])
    with g show ?thesis by (simp add: gap_holds_def)
  qed
  ultimately show ?thesis using uv unfolding covered_def by blast
qed

lemma covers_mono: "covers E base origin t u \<Longrightarrow> (\<And>x. covered E base t x \<Longrightarrow> covered E base t' x) \<Longrightarrow> covers E base origin t' u"
  by (auto simp: covers_def)

lemma covers_extend:
  "covers E base origin t a \<Longrightarrow> chunk_holds E base t a b \<or> gap_holds base t a b \<Longrightarrow> covers E base origin t b"
  unfolding covers_def covered_def by (metis linorder_not_less)

lemma sound_mono:
  assumes "archive_sound E base origin t" "fs_read t' (status_path base) = fs_read t (status_path base)"
    "\<And>x. covered E base t x \<Longrightarrow> covered E base t' x"
  shows "archive_sound E base origin t'"
  using assms covers_mono unfolding archive_sound_def by (auto split: option.splits; blast)

lemma status_apart:
  "same_but (chunk_path base a b) (Some c) t t' \<Longrightarrow> fs_read t' (status_path base) = fs_read t (status_path base)"
  "same_but (gap_path base a b) (Some c) t t' \<Longrightarrow> fs_read t' (status_path base) = fs_read t (status_path base)"
  by (erule same_but_read; rule apart)+

section \<open>Collection keeps the archive sound\<close>

text \<open>Everything a run may do to the archive: it stays sound, and finished chunks stay as they are.\<close>

definition keeps_chunks :: "path \<Rightarrow> fs \<Rightarrow> fs \<Rightarrow> bool" where
  "keeps_chunks base t0 t \<longleftrightarrow>
     (\<forall>a b c. fs_read t0 (chunk_path base a b) = Some c \<longrightarrow> fs_read t (chunk_path base a b) = Some c)"

definition good :: "'s winery_env \<Rightarrow> path \<Rightarrow> int \<Rightarrow> fs \<Rightarrow> fs \<Rightarrow> bool" where
  "good E base origin t0 t \<longleftrightarrow> archive_sound E base origin t \<and> keeps_chunks base t0 t"

lemma good_same: "same_but p None t t' \<Longrightarrow> good E base origin t0 t \<Longrightarrow> good E base origin t0 t'"
  unfolding good_def using sound_same_but(3) [of p t t' E base origin] not_pending(3)
  by (auto simp: keeps_chunks_def same_but_def)

lemma good_chunk:
  assumes "same_but (chunk_path base a b) (Some c) t t'" "fs_read t (chunk_path base a b) = None" "good E base origin t0 t"
  shows "good E base origin t0 t'"
proof -
  have "archive_sound E base origin t'"
    by (rule sound_mono [OF _ status_apart(1) [OF assms(1)] covered_after_chunk [OF assms(1,2)]])
      (use assms(3) in \<open>simp_all add: good_def\<close>)
  moreover have "keeps_chunks base t0 t'"
    unfolding keeps_chunks_def
  proof (intro allI impI)
    fix u v r
    assume "fs_read t0 (chunk_path base u v) = Some r"
    then have r: "fs_read t (chunk_path base u v) = Some r" using assms(3) by (simp add: good_def keeps_chunks_def)
    with assms(2) have "chunk_path base u v \<noteq> chunk_path base a b" by auto
    then show "fs_read t' (chunk_path base u v) = Some r"
      using same_but_read [OF assms(1) not_pending(3)] r by simp
  qed
  ultimately show ?thesis by (simp add: good_def)
qed

lemma good_gap:
  assumes "same_but (gap_path base a b) (Some c) t t'" "gap_holds base t' a b" "good E base origin t0 t"
  shows "good E base origin t0 t'"
proof -
  have "archive_sound E base origin t'"
    by (rule sound_mono [OF _ status_apart(2) [OF assms(1)] covered_after_gap [OF assms(1,2)]])
      (use assms(3) in \<open>simp_all add: good_def\<close>)
  moreover have "fs_read t' (chunk_path base u v) = fs_read t (chunk_path base u v)" for u v
    by (rule same_but_read [OF assms(1)]) (rule apart)+
  ultimately show ?thesis using assms(3) by (simp add: good_def keeps_chunks_def)
qed

lemma good_status:
  assumes t': "same_but (status_path base) (Some c) t t'" and c: "cursor_at c u" and u: "covers E base origin t u"
    and g: "good E base origin t0 t"
  shows "good E base origin t0 t'" "covers E base origin t' u"
proof -
  have r: "fs_read t' (chunk_path base a b) = fs_read t (chunk_path base a b)"
      "fs_read t' (gap_path base a b) = fs_read t (gap_path base a b)" for a b
    by (rule same_but_read [OF t']; rule apart)+
  have "covered E base t' = covered E base t"
    unfolding covered_def chunk_holds_def gap_holds_def r ..
  then show *: "covers E base origin t' u" using u by (simp add: covers_def)
  have "fs_read t' (status_path base) = Some c" by (rule same_but_at [OF t' not_pending(1)])
  then have "archive_sound E base origin t'" using c * by (auto simp: archive_sound_def)
  then show "good E base origin t0 t'" using g r by (simp add: good_def keeps_chunks_def)
qed

section \<open>One chunk\<close>

lemma canon_str: "canon j = JStr s \<longleftrightarrow> j = JStr s"
  by (cases j) auto

lemma py_eq_string: "py_eq j (JStr s) \<longleftrightarrow> j = JStr s"
  by (simp add: py_eq_def canon_str)

lemma fetch_json_ok:
  fixes w :: "'s winery"
  assumes "fetch E url token a b w = (Inr h, w')"
  shows "json_ok h"
proof -
  have "fetch_from E target token ks w = (Inr h, w') \<Longrightarrow> json_ok h" for target ks and w :: "'s winery"
  proof (induction ks arbitrary: w)
    case (Cons k ks)
    let ?again = "bnd (modify (\<lambda>w. w\<lparr>outside := back_off E (2 ^ k) (outside w)\<rparr>)) (\<lambda>_. fetch_from E target token ks)"
    have again: "?again v = (Inr h, w') \<Longrightarrow> json_ok h" for v :: "'s winery"
      using Cons.IH by (auto simp: bnd_def modify_def)
    obtain r v where r: "call_out (open_history E target token) w = (r, v)" by fastforce
    show ?case
    proof (cases r)
      case (Inl e)
      show ?thesis using Cons.prems again unfolding fetch_from.simps Let_def
        by (cases e) (auto simp: bnd_def attempt_def r Inl raise_def split: if_splits)
    next
      case (Inr body)
      show ?thesis using Cons.prems json_loads_ok unfolding fetch_from.simps Let_def
        by (auto simp: bnd_def attempt_def r Inr raise_def of_result_def json_of_def split: if_splits option.splits)
    qed
  qed (simp add: ret_def)
  with assms show ?thesis unfolding fetch_def by (auto simp: raise_def simp del: fetch_from.simps split: if_splits)
qed

lemma check_series_new:
  assumes "check_series seen s = Inr c"
  shows "fst c \<notin> set seen"
proof -
  from assms obtain p ps where s: "s = JArr (p # ps)" by (auto simp: check_series_def split: json.splits list.splits)
  with assms obtain entity where "py_get p ''entity_id'' = Inr entity" by (auto simp: check_series_def rbnd_Inr_iff)
  with assms s show ?thesis by (cases entity) (auto simp: check_series_def rbnd_Inr_iff split: if_splits)
qed

lemma check_all_distinct: "check_all seen ss = Inr cs \<Longrightarrow> distinct (map fst cs) \<and> set (map fst cs) \<inter> set seen = {}"
proof (induction seen ss arbitrary: cs rule: check_all.induct)
  case (2 seen s ss)
  then obtain c ds where c: "check_series seen s = Inr c" "check_all (fst c # seen) ss = Inr ds" "cs = c # ds"
    by (auto simp: rbnd_Inr_iff)
  with check_series_new [OF c(1)] "2.IH" [of c ds] show ?case by auto
qed simp

lemma quality_ok: "inspect_history h = Inr q \<Longrightarrow> json_ok q"
  using check_all_distinct
  by (fastforce simp: inspect_history_def rbnd_Inr_iff quality_json_def comp_def case_prod_unfold split: json.splits if_splits)

lemma chunk_json_ok: "json_ok h \<Longrightarrow> json_ok q \<Longrightarrow> json_ok (chunk_json url a b now q h)"
  by (simp add: chunk_json_def)

text \<open>Documented of gzip\<close>

definition gzip_ok :: "'s winery_env \<Rightarrow> bool" where
  "gzip_ok E \<longleftrightarrow> (\<forall>s. gunzip E (gzip_bytes E s) = Some s)"

lemma new_chunk_holds:
  assumes "gzip_ok E" "json_ok h" "inspect_history h = Inr q"
    "fs_read t (chunk_path base a b) = Some (gzip_bytes E (json_dumps compact_layout (chunk_json url a b now q h)))"
  shows "chunk_holds E base t a b"
proof -
  have "gunzip_json E (gzip_bytes E (json_dumps compact_layout (chunk_json url a b now q h))) = Inr (chunk_json url a b now q h)"
    using assms(1) json_loads_dumps [OF good_layouts(2) chunk_json_ok [OF assms(2) quality_ok [OF assms(3)]]]
    by (simp add: gzip_ok_def gunzip_json_def json_of_def)
  with assms(3,4) show ?thesis by (auto simp: chunk_holds_def chunk_json_def has_times_def)
qed

lemma archive_chunk_sound:
  fixes w :: "'s winery"
  assumes E: "gzip_ok E" and g: "good E base origin t0 (tree w)" and u: "covers E base origin (tree w) a"
    and run: "archive_chunk E base url token now (a, 0) (b, 0) w = (r, w')"
  shows "within (\<lambda>t. good E base origin t0 t) w w'" "\<And>q. r = Inr q \<Longrightarrow> covers E base origin (tree w') b \<and> json_ok q"
proof -
  let ?S = "\<lambda>t. good E base origin t0 t"
  let ?p = "chunk_path base a b"
  have quiet: "within ?S w v \<and> tree v = tree w" if "tree v = tree w" "trail v = trail w" for v :: "'s winery"
    using stays_same [OF that, of ?S] g that(1) by (simp add: stays_def)
  have "within ?S w w' \<and> (\<forall>q. r = Inr q \<longrightarrow> covers E base origin (tree w') b \<and> json_ok q)"
  proof (cases "fs_exists (tree w) ?p")
    case True
    note run' = run [unfolded archive_chunk_def prod.case add_0_right Let_def]
    have w': "w' = w"
      using run' True by (auto simp: bnd_def gets_def read_whole_def of_result_def ret_def raise_def split: sum.splits if_splits)
    moreover have "chunk_holds E base (tree w) a b \<and> json_ok q" if rq: "r = Inr q" for q
    proof -
      obtain c doc s e h where c: "fs_read (tree w) ?p = Some c" "gunzip_json E c = Inr doc"
          "py_item doc ''start'' = Inr s" "py_eq s (JStr (iso_utc a))" "py_item doc ''end'' = Inr e"
          "py_eq e (JStr (iso_utc b))" "py_item doc ''history'' = Inr h" "inspect_history h = Inr q"
        using run' [unfolded rq] True
        by (auto simp: bnd_Inr_iff gets_def read_whole_def of_result_def ret_def raise_def py_eq_string rbnd_Inr_iff
          split: if_splits option.splits)
      obtain d where doc: "doc = JObj d" using c(3) by (cases doc) (auto simp: py_item_def)
      with c have "has_times d a b" "map_of d ''history'' = Some h"
        by (auto simp: has_times_def py_item_def py_eq_string split: option.splits)
      with c doc quality_ok show ?thesis by (auto simp: chunk_holds_def)
    qed
    ultimately show ?thesis using quiet covers_extend [OF u] by auto
  next
    case False
    note run' = run [unfolded archive_chunk_def prod.case add_0_right Let_def]
    have none: "fs_read (tree w) ?p = None" using False by (auto simp: fs_read_def fs_exists_def split: option.splits)
    obtain f v where f: "fetch E url token (a - 5 * minute_us) b w = (f, v)" by fastforce
    have v: "within ?S w v" "tree v = tree w" using still_within [OF keepsD [OF keeps_fetch f], of ?S] g by simp_all
    show ?thesis
    proof (cases "\<exists>h q. f = Inr h \<and> inspect_history h = Inr q")
      case False
      then have "w' = v" "\<And>q. r \<noteq> Inr q" using run' f \<open>\<not> fs_exists (tree w) ?p\<close>
        by (auto simp: bnd_def gets_def of_result_def split: sum.splits)
      with v show ?thesis by auto
    next
      case True
      then obtain h q where hq: "f = Inr h" "inspect_history h = Inr q" by blast
      let ?c = "gzip_bytes E (json_dumps compact_layout (chunk_json url a b now q h))"
      have g': "good E base origin t0 (tree v)" "fs_read (tree v) ?p = None" using g none v(2) by simp_all
      obtain w2 where w2: "atomic E ?p ?c v = (Inr (), w2)" "within ?S v w2" "same_but ?p (Some ?c) (tree v) (tree w2)"
        using atomic_run [of ?p v ?S ?c E] not_pending(3) good_same good_chunk [OF _ g'(2,1)] g'(1) by metis
      have "r = Inr q" "w' = w2"
        using run' f hq w2(1) \<open>\<not> fs_exists (tree w) ?p\<close> by (auto simp: bnd_def gets_def of_result_def ret_def)
      moreover have h: "chunk_holds E base (tree w2) a b"
        by (rule new_chunk_holds [OF E fetch_json_ok [OF f [unfolded hq]] hq(2) same_but_at [OF w2(3) not_pending(3)]])
      have "covers E base origin (tree w2) a"
        using covers_mono [OF u [folded v(2)] covered_after_chunk [OF w2(3) g'(2)]] by simp
      from covers_extend [OF this disjI1 [OF h]] have "covers E base origin (tree w2) b" .
      ultimately show ?thesis
        using within_trans [OF v(1) w2(2)] quality_ok [OF hq(2)] by simp
    qed
  qed
  then show "within ?S w w'" "\<And>q. r = Inr q \<Longrightarrow> covers E base origin (tree w') b \<and> json_ok q" by auto
qed

section \<open>The loop and the run\<close>

lemma in_calendar_between: "in_calendar a \<Longrightarrow> in_calendar b \<Longrightarrow> a \<le> t \<Longrightarrow> t \<le> b \<Longrightarrow> in_calendar t"
  using zdiv_mono1 [of a t day_us] zdiv_mono1 [of t b day_us] by (simp add: in_calendar_def day_us_def)

lemma exact_stop:
  assumes "exact a" "exact fin" "a < fin"
  shows "exact (if fin < a + day_us then fin else a + day_us)"
proof (cases "fin < a + day_us")
  case False
  have "whole_second (a + day_us)" using assms(1) mod_add_right_eq [of a day_us 1000000]
    by (simp add: exact_def whole_second_def day_us_def)
  moreover have "in_calendar (a + day_us)"
    using in_calendar_between [of a fin] assms False by (simp add: exact_def day_us_def)
  ultimately show ?thesis using False by (simp add: exact_def)
qed (use assms in simp)

lemma status_cursor:
  assumes "json_ok q" "exact u"
  shows "cursor_at (json_dumps indent2_layout (sort_keys (status_json u now chunk digest q)) @ [CHR 0x0A]) u"
proof -
  obtain d where d: "status_json u now chunk digest q = JObj d" "json_ok (JObj d)" "map_of d ''through'' = Some (JStr (iso_utc u))"
    using assms(1) by (simp add: status_json_def)
  from loads_saved [OF d(2)] d(3) obtain d' where
    "json_loads (json_dumps indent2_layout (sort_keys (JObj d)) @ [CHR 0x0A]) = Some (JObj d')"
    "map_of d' ''through'' = Some (JStr (iso_utc u))" by metis
  with assms(2) show ?thesis unfolding d(1) by (simp add: cursor_at_def json_of_def del: sort_keys.simps)
qed

lemma collect_from_sound:
  fixes w :: "'s winery"
  assumes E: "gzip_ok E" and fin: "exact fin"
  shows "good E base origin t0 (tree w) \<Longrightarrow> covers E base origin (tree w) a \<Longrightarrow> exact a \<Longrightarrow>
    within (\<lambda>t. good E base origin t0 t) w (snd (collect_from E base url token now (a, 0) fin w))"
proof (induction "nat (fin - a)" arbitrary: a w rule: less_induct)
  case less
  let ?S = "\<lambda>t. good E base origin t0 t"
  show ?case
  proof (cases "a < fin")
    case False
    have "within ?S w w" using still_within [of w w ?S] less.prems(1) by (simp add: still_def)
    with False show ?thesis by (subst collect_from.simps) (simp add: ret_def)
  next
    case True
    define b where "b = (if fin < a + day_us then fin else a + day_us)"
    have b: "(if fin < a + day_us then (fin, 0) else (a + day_us, 0)) = (b, 0 :: int)" "a < b" "b \<le> fin"
      using True by (auto simp: b_def day_us_def)
    have eb: "exact b" unfolding b_def by (rule exact_stop [OF less.prems(3) fin True])
    define step where "step = archive_chunk E base url token now (a, 0) (b, 0)"
    define save where "save = (\<lambda>q c. save_record E (status_path base)
      (status_json b now (''chunks/'' @ chunk_name a b) (sha256_hex E c) q))"
    have loop: "collect_from E base url token now (a, 0) fin =
      bnd step (\<lambda>q. bnd (read_whole (base @ [''chunks'', chunk_name a b])) (\<lambda>c.
        bnd (save q c) (\<lambda>_. collect_from E base url token now (b, 0) fin)))"
      using True by (subst collect_from.simps) (simp only: b if_False not_True_eq_False Let_def fst_conv snd_conv add_0_right step_def save_def)
    obtain r w1 where s: "step w = (r, w1)" by fastforce
    note s1 = archive_chunk_sound [OF E less.prems(1,2) s [unfolded step_def]]
    define rest where "rest = collect_from E base url token now (b, 0) fin"
    note loop = loop [folded rest_def]
    show ?thesis
    proof (cases "\<exists>q c. r = Inr q \<and> fs_read (tree w1) (base @ [''chunks'', chunk_name a b]) = Some c")
      case False
      have "snd (collect_from E base url token now (a, 0) fin w) = w1"
      proof (cases r)
        case (Inl e)
        with s show ?thesis unfolding loop by (simp add: bnd_def)
      next
        case (Inr q)
        with False have none: "fs_read (tree w1) (base @ [''chunks'', chunk_name a b]) = None" by auto
        show ?thesis unfolding loop bnd_def read_whole_def s Inr none prod.case sum.case option.case snd_conv ..
      qed
      with s1(1) show ?thesis by simp
    next
      case True
      then obtain q c where q: "r = Inr q" "fs_read (tree w1) (base @ [''chunks'', chunk_name a b]) = Some c" by blast
      note g1 = within_tree [OF s1(1)] and c1 = s1(2) [OF q(1)]
      let ?c = "json_dumps indent2_layout (sort_keys (status_json b now (''chunks/'' @ chunk_name a b) (sha256_hex E c) q)) @ [CHR 0x0A]"
      have cur: "cursor_at ?c b" by (rule status_cursor) (use c1 eb in auto)
      have st: "good E base origin t0 t" "covers E base origin t b" if "same_but (status_path base) (Some ?c) (tree w1) t" for t
        using good_status [OF that cur _ g1] c1 by auto
      obtain w2 where w2: "atomic E (status_path base) ?c w1 = (Inr (), w2)" "within ?S w1 w2"
          "same_but (status_path base) (Some ?c) (tree w1) (tree w2)"
        by (rule atomic_run [of "status_path base" w1 ?S ?c E]) (use not_pending(1) good_same [OF _ g1] st(1) in auto)
      have "snd (collect_from E base url token now (a, 0) fin w) = snd (rest w2)"
        unfolding loop using s q w2(1) by (simp add: bnd_def read_whole_def save_def save_record_def del: sort_keys.simps)
      moreover have "within ?S w2 (snd (rest w2))"
        unfolding rest_def using less.hyps [of b w2] b(2,3) within_tree [OF w2(2)] st(2) [OF w2(3)] eb by simp
      ultimately show ?thesis using within_trans [OF s1(1) within_trans [OF w2(2)]] by simp
    qed
  qed
qed

text \<open>Where a run starts: at the cursor, or ten days before its end\<close>

lemma keeps_start: "keeps still (collect_start base now)"
  unfolding collect_start_def
  by (intro quiet.seq quiet.pure) (auto intro: quiet.pure keeps_reads)

lemma collect_start_sound:
  assumes s: "archive_sound E base origin (tree w)" and e: "exact (earliest now)"
    and first: "fs_read (tree w) (status_path base) = None \<Longrightarrow> earliest now \<le> origin"
    and run: "collect_start base now w = (Inr (a, off), w')"
  shows "off = 0 \<and> exact a \<and> covers E base origin (tree w) a"
proof (cases "fs_exists (tree w) (status_path base)")
  case False
  then have "fs_read (tree w) (status_path base) = None" by (auto simp: fs_read_def fs_exists_def split: option.splits)
  with first False run e show ?thesis
    by (auto simp: collect_start_def bnd_def gets_def ret_def covers_def)
next
  case True
  obtain c where c: "fs_read (tree w) (status_path base) = Some c"
    using True run by (cases "fs_read (tree w) (status_path base)")
      (auto simp: collect_start_def bnd_def gets_def read_json_def read_whole_def)
  with s obtain u d where u: "exact u" "json_of c = Inr (JObj d)" "map_of d ''through'' = Some (JStr (iso_utc u))"
      "covers E base origin (tree w) u"
    by (auto simp: archive_sound_def cursor_at_def)
  have iso: "iso_of (JStr (iso_utc u)) = Inr \<lparr>dt_local = u, dt_offset = Some 0\<rparr>"
    using fromisoformat_iso u(1) by (simp add: iso_of_def exact_def)
  have "truthy (JObj d)" using u(3) by auto
  with True c u(2,3) iso have "collect_start base now w = (Inr (u, 0), w)"
    by (simp add: collect_start_def bnd_def gets_def read_json_def read_whole_def of_result_def py_item_def aware_def)
  with run u show ?thesis by simp
qed

definition calendar_clock :: "'s winery_env \<Rightarrow> bool" where
  "calendar_clock E \<longleftrightarrow> (\<forall>s. in_calendar (earliest (fst (utc_now E s))) \<and> in_calendar (chunk_end (fst (utc_now E s))))"

lemma whole_hours: "whole_second (chunk_end now)" "whole_second (earliest now)"
proof -
  have "chunk_end now = 1000000 * ((now - 5 * minute_us) div hour_us * 3600)" by (simp add: chunk_end_def hour_us_def)
  then show *: "whole_second (chunk_end now)" by (simp add: whole_second_def)
  have "earliest now = chunk_end now - 1000000 * 864000" by (simp add: earliest_def day_us_def)
  with * show "whole_second (earliest now)"
    using mod_diff_left_eq [of "chunk_end now" 1000000 "1000000 * 864000"] by (simp add: whole_second_def)
qed

lemma gap_written:
  assumes "exact a" "exact b" "fs_read t (gap_path base a b) =
    Some (json_dumps indent2_layout (sort_keys (gap_json a b now)) @ [CHR 0x0A])"
  shows "gap_holds base t a b"
proof -
  obtain d where d: "gap_json a b now = JObj d" "json_ok (JObj d)" "has_times d a b"
    by (simp add: gap_json_def has_times_def)
  from loads_saved [OF d(2)] obtain d' where d':
    "json_loads (json_dumps indent2_layout (sort_keys (JObj d)) @ [CHR 0x0A]) = Some (JObj d')"
    "\<And>k s. map_of d k = Some (JStr s) \<Longrightarrow> map_of d' k = Some (JStr s)" by metis
  with d(3) have "has_times d' a b" by (simp add: has_times_def)
  with assms d' show ?thesis by (simp add: gap_holds_def d(1) json_of_def del: sort_keys.simps)
qed

lemma collect_sound:
  fixes w :: "'s winery"
  assumes E: "gzip_ok E" "calendar_clock E" and s: "archive_sound E base origin (tree w)"
    and first: "fs_read (tree w) (status_path base) = None \<Longrightarrow> earliest (fst (utc_now E (outside w))) \<le> origin"
  shows "within (\<lambda>t. good E base origin (tree w) t) w (snd (collect_history E base url cred w))"
proof -
  let ?S = "\<lambda>t. good E base origin (tree w) t"
  have S0: "?S (tree w)" using s by (simp add: good_def keeps_chunks_def)
  define now where "now = fst (utc_now E (outside w))"
  define w0 where "w0 = w\<lparr>outside := snd (utc_now E (outside w))\<rparr>"
  have now: "draw (utc_now E) w = (Inr now, w0)" "now = fst (utc_now E (outside w))" "still w w0"
    by (simp_all add: draw_def call_out_def still_def now_def w0_def split_beta)
  have ex: "exact (earliest now)" "exact (chunk_end now)"
    using E(2) whole_hours by (simp_all add: calendar_clock_def exact_def now(2))
  obtain r w1 where st: "collect_start base now w0 = (r, w1)" by fastforce
  have w1: "still w w1" using quiet.trans [OF now(3) keepsD [OF keeps_start st]] .
  define onward where "onward = (\<lambda>start. bnd (bnd (read_whole cred) (\<lambda>c. of_result (token_of c))) (\<lambda>token.
       collect_from E base url token now start (chunk_end now)) :: ('s winery, unit) prog)"
  have onward: "within ?S v (snd (onward (a, 0) v))"
    if "?S (tree v)" "covers E base origin (tree v) a" "exact a" for v :: "'s winery" and a
  proof -
    obtain x y where x: "bnd (read_whole cred) (\<lambda>c. of_result (token_of c)) v = (x, y)" by fastforce
    have "keeps still (bnd (read_whole cred) (\<lambda>c. of_result (token_of c)) :: ('s winery, string) prog)"
      by (intro quiet.seq quiet.pure keeps_reads)
    from still_within [OF keepsD [OF this x], of ?S] that(1) have y: "within ?S v y" "tree y = tree v" by simp_all
    then show ?thesis
    proof (cases x)
      case (Inr token)
      from collect_from_sound [OF E(1) ex(2), of base origin "tree w" y a url token now] that y(2)
      have "within ?S y (snd (collect_from E base url token now (a, 0) (chunk_end now) y))" by simp
      moreover have "onward (a, 0) v = collect_from E base url token now (a, 0) (chunk_end now) y"
        unfolding onward_def by (rule bnd_run(1)) (simp add: x Inr)
      ultimately show ?thesis using within_trans [OF y(1)] by simp
    next
      case (Inl e)
      have "onward (a, 0) v = (Inl e, y)"
        unfolding onward_def by (rule bnd_run(2)) (simp add: x Inl)
      with y(1) show ?thesis by simp
    qed
  qed
  show ?thesis
  proof (cases r)
    case (Inl e)
    then have "snd (collect_history E base url cred w) = w1"
      using now(1) st by (simp add: collect_history_def bnd_def)
    with still_within [OF w1, of ?S] S0 show ?thesis by simp
  next
    case (Inr start)
    obtain a off where start: "start = (a, off)" by fastforce
    have t0: "tree w0 = tree w" using now(3) by (simp add: still_def)
    have c: "off = 0" "exact a" "covers E base origin (tree w) a"
      using collect_start_sound [of E base origin w0 now a off w1] s ex(1) first st Inr start t0 now(2) by auto
    have W1: "within ?S w w1" "tree w1 = tree w" using still_within [OF w1, of ?S] S0 by simp_all
    show ?thesis
    proof (cases "a < earliest now")
      case False
      then have "collect_history E base url cred w = onward (a, 0) w1"
        using now(1) st Inr start c(1) by (simp add: collect_history_def bnd_def onward_def ret_def)
      with within_trans [OF W1(1) onward [of w1 a]] c W1 within_tree [OF W1(1)] show ?thesis by simp
    next
      case True
      let ?g = "json_dumps indent2_layout (sort_keys (gap_json a (earliest now) now)) @ [CHR 0x0A]"
      have gs: "gap_holds base t a (earliest now)" "?S t"
        if "same_but (gap_path base a (earliest now)) (Some ?g) (tree w1) t" for t
      proof -
        show h: "gap_holds base t a (earliest now)"
          by (rule gap_written [OF c(2) ex(1) same_but_at [OF that not_pending(2)]])
        show "?S t" by (rule good_gap [OF that h]) (use S0 W1(2) in simp)
      qed
      obtain w2 where w2: "atomic E (gap_path base a (earliest now)) ?g w1 = (Inr (), w2)" "within ?S w1 w2"
          "same_but (gap_path base a (earliest now)) (Some ?g) (tree w1) (tree w2)"
        by (rule atomic_run [of "gap_path base a (earliest now)" w1 ?S ?g E])
          (use not_pending(2) good_same [OF _ within_tree [OF W1(1)]] gs(2) in auto)
      have "collect_history E base url cred w = onward (earliest now, 0) w2"
        using now(1) st Inr start c(1) True w2(1)
        by (simp add: collect_history_def bnd_def onward_def ret_def save_record_def gap_path_def del: sort_keys.simps)
      moreover have "covers E base origin (tree w2) (earliest now)"
        using covers_extend [OF covers_mono [OF c(3) [folded W1(2)] covered_after_gap [OF w2(3) gs(1) [OF w2(3)]]] disjI2 [OF gs(1) [OF w2(3)]]]
        by simp
      ultimately show ?thesis
        using within_trans [OF W1(1) within_trans [OF w2(2) onward [of w2 "earliest now"]]] ex(1) within_tree [OF w2(2)] by simp
    qed
  qed
qed

text \<open>
  C31. The archive is sound after every run and at every point where a run could crash: each
  instant from the origin up to the cursor is in a chunk that was inspected or in a recorded
  gap, so the cursor never passes history that is neither archived nor accounted for; and
  finished chunks are never changed.
\<close>

theorem collect_keeps_archive:
  assumes "gzip_ok E" "calendar_clock E" "archive_sound E base origin (tree w)" "trail w = []"
    "fs_read (tree w) (status_path base) = None \<Longrightarrow> earliest (fst (utc_now E (outside w))) \<le> origin"
    "collect_history E base url cred w = (r, w')"
  shows "\<forall>t \<in> set (tree w' # trail w'). archive_sound E base origin t \<and> keeps_chunks base (tree w) t"
  using collect_sound [OF assms(1-3,5), of url cred] assms(4,6) by (auto simp: within_def good_def)

text \<open>A server that answers every question with one reading of each sensor\<close>

definition demo_history :: string where
  "demo_history = json_dumps default_layout (JArr (map (\<lambda>e. JArr [JObj
     [(''entity_id'', JStr e), (''state'', JStr ''100''), (''last_updated'', JStr ''2026-09-10T00:00:00.5+00:00'')]]) entities))"

definition winery_demo :: "unit winery_env" where
  "winery_demo = \<lparr>open_history = (\<lambda>u t s. (Inr demo_history, s)), utc_now = (\<lambda>s. (1789449300000000, s)),
     temp_name = (\<lambda>s. (''abcd'', s)), back_off = (\<lambda>n s. s), lock_free = (\<lambda>p s. True),
     gzip_bytes = (\<lambda>c. c), gunzip = Some, sha256_hex = (\<lambda>c. c)\<rparr>"

definition demo_base :: path where "demo_base = [''/'', ''archive'']"

definition winery_world :: "unit winery" where
  "winery_world = \<lparr>outside = (), tree = [([''/'', ''token''], NFile ''HA_TOKEN=abc''), (demo_base, NDir)], trail = []\<rparr>"

theorem collect_keeps_archive_witness:
  "\<exists>r w'. collect_history winery_demo demo_base ''https://home.example'' [''/'', ''token''] winery_world = (r, w') \<and>
     (\<forall>t \<in> set (tree w' # trail w'). archive_sound winery_demo demo_base 1788584400000000 t \<and>
        keeps_chunks demo_base (tree winery_world) t)"
proof -
  obtain r w' where run: "collect_history winery_demo demo_base ''https://home.example'' [''/'', ''token''] winery_world = (r, w')"
    by fastforce
  have times: "earliest 1789449300000000 = 1788584400000000" "chunk_end 1789449300000000 = 1789448400000000"
    by (simp_all add: earliest_def chunk_end_def minute_us_def hour_us_def day_us_def)
  have "gzip_ok winery_demo" by (simp add: gzip_ok_def winery_demo_def)
  moreover have "calendar_clock winery_demo"
    by (simp add: calendar_clock_def winery_demo_def times in_calendar_def day_us_def epoch_day_def)
  moreover have "fs_read (tree winery_world) (status_path demo_base) = None"
    by (simp add: fs_read_def winery_world_def status_path_def demo_base_def)
  moreover from this have "archive_sound winery_demo demo_base 1788584400000000 (tree winery_world)"
    by (simp add: archive_sound_def)
  moreover have "earliest (fst (utc_now winery_demo (outside winery_world))) \<le> 1788584400000000"
    by (simp add: winery_demo_def times)
  moreover have "trail winery_world = []" by (simp add: winery_world_def)
  ultimately show ?thesis using run collect_keeps_archive [of winery_demo demo_base 1788584400000000 winery_world] by blast
qed

section \<open>The backup is complete and overwrites nothing\<close>

text \<open>Every finished file stays as it is, apart from the two records a backup writes.\<close>

definition backup_records :: "path \<Rightarrow> path \<Rightarrow> path list" where
  "backup_records base dest = [status_path dest, base @ [''backup.json'']]"

definition preserves :: "path list \<Rightarrow> fs \<Rightarrow> fs \<Rightarrow> bool" where
  "preserves ps t0 t \<longleftrightarrow>
     (\<forall>q. \<not> is_pending q \<longrightarrow> (fs_exists t0 q \<longrightarrow> fs_exists t q) \<and>
        (\<forall>c. fs_read t0 q = Some c \<and> q \<notin> set ps \<longrightarrow> fs_read t q = Some c))"

definition careful :: "path list \<Rightarrow> 's winery \<Rightarrow> 's winery \<Rightarrow> bool" where
  "careful ps w w' \<longleftrightarrow> within (preserves ps (tree w)) w w'"

lemma preserves_trans: "preserves ps a b \<Longrightarrow> preserves ps b c \<Longrightarrow> preserves ps a c"
  by (simp add: preserves_def)

lemma preserves_refl: "preserves ps t t"
  by (simp add: preserves_def)

interpretation carefully: step_relation "careful ps" for ps
proof
  show "careful ps w w" for w :: "'a winery"
    by (simp add: careful_def within_def preserves_refl exI [of _ "[]"])
  show "careful ps a c" if "careful ps a b" "careful ps b c" for a b c :: "'a winery"
  proof -
    have "preserves ps (tree a) (tree b)" using that(1) by (simp add: careful_def within_tree)
    with that(2) have "within (preserves ps (tree a)) b c"
      unfolding careful_def using preserves_trans within_mono by blast
    with that(1) show ?thesis unfolding careful_def by (rule within_trans)
  qed
qed

lemma careful_tree: "careful ps w w' \<Longrightarrow> preserves ps (tree w) (tree w')"
  by (simp add: careful_def within_tree)

lemma still_careful: "still w w' \<Longrightarrow> careful ps w w'"
  using still_within [of w w' "preserves ps (tree w)"] by (simp add: careful_def preserves_refl)

lemma careful_atomic:
  assumes "\<not> is_pending p" "p \<in> set ps \<or> fs_read (tree w) p = None"
  obtains w' where "atomic E p c w = (Inr (), w')" "careful ps w w'" "fs_read (tree w') p = Some c"
proof -
  have "preserves ps (tree w) t" if "same_but p None (tree w) t \<or> same_but p (Some c) (tree w) t" for t
    using that assms by (auto simp: preserves_def same_but_def)
  then obtain w' where "atomic E p c w = (Inr (), w')" "within (preserves ps (tree w)) w w'"
      "same_but p (Some c) (tree w) (tree w')"
    using atomic_run [OF assms(1), of w "preserves ps (tree w)" c E] by metis
  then show thesis using that same_but_at [OF _ assms(1)] by (simp add: careful_def)
qed

lemma careful_mkdirs: "keeps (careful ps) (alter (fs_mkdirs d))"
  by (auto simp: keeps_def alter_def careful_def within_def preserves_def fs_exists_steps intro!: exI [of _ "[_]"])

text \<open>A file of the archive, and its place in the backup\<close>

definition archive_file :: "path \<Rightarrow> path \<Rightarrow> bool" where
  "archive_file base p \<longleftrightarrow> (\<exists>f xs. p = base @ f # xs \<and> xs \<noteq> [] \<and> f \<in> set backup_folders) \<and> \<not> is_pending p"

definition copy_of :: "path \<Rightarrow> path \<Rightarrow> path \<Rightarrow> path" where
  "copy_of base dest p = dest @ drop (length base) p"

definition disjoint :: "path \<Rightarrow> path \<Rightarrow> bool" where
  "disjoint base dest \<longleftrightarrow> \<not> is_relative_to dest base \<and> \<not> is_relative_to base dest"

definition backed_up :: "'s winery_env \<Rightarrow> path \<Rightarrow> path \<Rightarrow> fs \<Rightarrow> path \<Rightarrow> bool" where
  "backed_up E base dest t p \<longleftrightarrow>
     (case (fs_read t p, fs_read t (copy_of base dest p)) of
        (Some c, Some c') \<Rightarrow> sha256_hex E c' = sha256_hex E c
      | _ \<Rightarrow> False)"

lemma archive_file_places:
  assumes "archive_file base p" "disjoint base dest"
  shows "p \<notin> set (backup_records base dest)" "copy_of base dest p \<notin> set (backup_records base dest)"
    "\<not> is_pending p" "\<not> is_pending (copy_of base dest p)"
proof -
  obtain f xs where p: "p = base @ f # xs" "xs \<noteq> []" "\<not> is_pending p"
    using assms(1) by (auto simp: archive_file_def)
  have c: "copy_of base dest p = dest @ f # xs" by (simp add: copy_of_def p(1))
  have no: "\<not> prefix dest base" "\<not> prefix base dest"
    using assms(2) by (simp_all add: disjoint_def is_relative_to_prefix)
  have apart: "base @ u \<noteq> dest @ v" for u v
  proof
    assume "base @ u = dest @ v"
    then have "prefix base (dest @ v)" by (metis prefixI)
    with prefix_same_cases [of base "dest @ v" dest] no show False by simp
  qed
  show "\<not> is_pending p" by (rule p(3))
  have "\<not> is_pending (dest @ f # xs)" using p(2,3) by (simp add: is_pending_def p(1))
  then show "\<not> is_pending (copy_of base dest p)" by (simp only: c not_False_eq_True)
  have "p \<noteq> status_path dest"
    using apart unfolding p(1) status_path_def by metis
  moreover have "p \<noteq> base @ [''backup.json'']" using p by simp
  ultimately show "p \<notin> set (backup_records base dest)" by (simp add: backup_records_def)
  have "copy_of base dest p \<noteq> base @ [''backup.json'']"
    using apart [symmetric] unfolding c by metis
  moreover have "copy_of base dest p \<noteq> status_path dest" using p(2) by (simp add: c status_path_def)
  ultimately show "copy_of base dest p \<notin> set (backup_records base dest)" by (simp add: backup_records_def)
qed

lemma backed_up_stays:
  assumes "archive_file base p" "disjoint base dest" "preserves (backup_records base dest) t t'" "backed_up E base dest t p"
  shows "backed_up E base dest t' p"
  using assms(3,4) archive_file_places [OF assms(1,2)]
  by (auto simp: backed_up_def preserves_def split: option.splits)

lemma backup_file_run:
  fixes w :: "'s winery"
  assumes p: "archive_file base p" "disjoint base dest" and run: "backup_file E base dest p n w = (r, w')"
  shows "careful (backup_records base dest) w w'" "\<And>m. r = Inr m \<Longrightarrow> backed_up E base dest (tree w') p"
proof -
  let ?ps = "backup_records base dest"
  let ?t = "copy_of base dest p"
  note pl = archive_file_places [OF p]
  have "careful ?ps w w' \<and> (\<forall>m. r = Inr m \<longrightarrow> backed_up E base dest (tree w') p)"
  proof (cases "fs_read (tree w) p")
    case None
    with run have "w' = w" "\<And>m. r \<noteq> Inr m" by (auto simp: backup_file_def bnd_def read_whole_def Let_def)
    then show ?thesis using carefully.refl by auto
  next
    case (Some c)
    show ?thesis
    proof (cases "fs_exists (tree w) ?t")
      case True
      with run Some have "w' = w" "\<And>m. r = Inr m \<Longrightarrow> backed_up E base dest (tree w) p"
        by (auto simp: backup_file_def bnd_def gets_def read_whole_def ret_def raise_def copy_of_def backed_up_def Let_def
            split: option.splits if_splits)
      then show ?thesis using carefully.refl by auto
    next
      case False
      obtain w1 where w1: "alter (fs_mkdirs (path_parent ?t)) w = (Inr (), w1)" "tree w1 = fs_mkdirs (path_parent ?t) (tree w)"
        by (simp add: alter_def)
      have c1: "careful ?ps w w1" using keepsD [OF careful_mkdirs w1(1)] .
      have "fs_read (tree w) ?t = None" using False by (auto simp: fs_read_def fs_exists_def split: option.splits)
      then have "fs_read (tree w1) ?t = None" by (simp add: w1(2))
      then obtain w2 where w2: "atomic E ?t c w1 = (Inr (), w2)" "careful ?ps w1 w2" "fs_read (tree w2) ?t = Some c"
        using careful_atomic [OF pl(4), of ?ps w1 E c] by metis
      have c2: "careful ?ps w w2" by (rule carefully.trans [OF c1 w2(2)])
      have "fs_read (tree w2) p = Some c"
        using careful_tree [OF c2] pl(1,3) Some by (simp add: preserves_def)
      with w2(3) have "backed_up E base dest (tree w2) p" by (simp add: backed_up_def)
      moreover have "w' = w2"
        using run Some False w1(1) w2(1,3) by (auto simp: backup_file_def bnd_def gets_def read_whole_def ret_def raise_def copy_of_def Let_def)
      ultimately show ?thesis using c2 by simp
    qed
  qed
  then show "careful ?ps w w'" "\<And>m. r = Inr m \<Longrightarrow> backed_up E base dest (tree w') p" by auto
qed

lemma backup_files_run:
  fixes w :: "'s winery"
  assumes "\<forall>p \<in> set ps. archive_file base p" "disjoint base dest" "for_each ps (backup_file E base dest) n w = (r, w')"
  shows "careful (backup_records base dest) w w' \<and> (\<forall>m. r = Inr m \<longrightarrow> (\<forall>p \<in> set ps. backed_up E base dest (tree w') p))"
  using assms(1,3)
proof (induction ps arbitrary: n w)
  case Nil
  then show ?case using carefully.refl by (auto simp: ret_def)
next
  case (Cons p ps)
  obtain x w1 where x: "backup_file E base dest p n w = (x, w1)" by fastforce
  have p: "archive_file base p" using Cons.prems(1) by simp
  note one = backup_file_run [OF p assms(2) x]
  show ?case
  proof (cases x)
    case (Inl e)
    with Cons.prems(2) x have "w' = w1" "r = Inl e" by (auto simp: bnd_def)
    with one(1) show ?thesis by simp
  next
    case (Inr m)
    with Cons.prems(2) x have rest: "for_each ps (backup_file E base dest) m w1 = (r, w')" by (simp add: bnd_def)
    from Cons.IH [OF _ rest] Cons.prems(1) have ih: "careful (backup_records base dest) w1 w'"
        "\<And>k. r = Inr k \<Longrightarrow> \<forall>p \<in> set ps. backed_up E base dest (tree w') p" by auto
    have "backed_up E base dest (tree w') p"
      by (rule backed_up_stays [OF p assms(2) careful_tree [OF ih(1)] one(2) [OF Inr]])
    with ih carefully.trans [OF one(1) ih(1)] show ?thesis by simp
  qed
qed

lemma archived_files_kept:
  assumes "p \<in> set (archived_files t (base @ [f]))" "f \<in> set backup_folders"
  shows "archive_file base p"
proof -
  from assms(1) obtain xs where p: "p = base @ f # xs" "xs \<noteq> []" "\<not> starts_with (path_name p) pending"
    by (auto simp: archived_files_def fs_below_def is_relative_to_prefix prefix_def)
  then have "path_name p = last xs" by (cases base; cases xs) (auto simp: path_name_def)
  with p assms(2) show ?thesis by (auto simp: archive_file_def is_pending_def)
qed

lemma archived_files_preserved:
  assumes "p \<in> set (archived_files t (base @ [f]))" "archive_file base p" "p \<notin> set ps" "preserves ps t t'"
  shows "p \<in> set (archived_files t' (base @ [f]))"
proof -
  from assms(1) obtain c where c: "fs_read t p = Some c" by (auto simp: archived_files_def fs_is_file_read)
  then have "fs_read t' p = Some c" using assms by (simp add: preserves_def archive_file_def)
  moreover from this have "map_of t' p \<noteq> None" by (cases "map_of t' p") (auto simp: fs_read_def)
  then have "p \<in> set (map fst t')" by (simp add: map_of_eq_None_iff)
  ultimately show ?thesis using assms(1) by (auto simp: archived_files_def fs_is_file_read fs_below_def)
qed

definition folder_done :: "'s winery_env \<Rightarrow> path \<Rightarrow> path \<Rightarrow> fs \<Rightarrow> fs \<Rightarrow> string \<Rightarrow> bool" where
  "folder_done E base dest t t' f \<longleftrightarrow>
     (fs_exists t (base @ [f]) \<longrightarrow> (\<forall>p \<in> set (archived_files t (base @ [f])). backed_up E base dest t' p))"

lemma backup_folder_run:
  fixes w :: "'s winery"
  assumes "f \<in> set backup_folders" "disjoint base dest" "backup_folder E base dest f n w = (r, w')"
  shows "careful (backup_records base dest) w w'" "\<And>m. r = Inr m \<Longrightarrow> folder_done E base dest (tree w) (tree w') f"
proof -
  let ?ps = "if fs_exists (tree w) (base @ [f]) then archived_files (tree w) (base @ [f]) else []"
  have "for_each ?ps (backup_file E base dest) n w = (r, w')"
    using assms(3) by (simp only: backup_folder_def bnd_def gets_def prod.case sum.case)
  moreover have "\<forall>p \<in> set ?ps. archive_file base p" using archived_files_kept assms(1) by auto
  ultimately have run: "careful (backup_records base dest) w w' \<and>
      (\<forall>m. r = Inr m \<longrightarrow> (\<forall>p \<in> set ?ps. backed_up E base dest (tree w') p))"
    by (intro backup_files_run [OF _ assms(2)])
  then show "careful (backup_records base dest) w w'" by simp
  show "folder_done E base dest (tree w) (tree w') f" if "r = Inr m" for m
    using run that by (auto simp: folder_done_def)
qed

lemma folder_done_later:
  assumes "folder_done E base dest t1 t2 f" "f \<in> set backup_folders" "disjoint base dest"
    "preserves (backup_records base dest) t t1" "preserves (backup_records base dest) t2 t3"
  shows "folder_done E base dest t t3 f"
  unfolding folder_done_def
proof (intro impI ballI)
  fix p
  assume e: "fs_exists t (base @ [f])" and p: "p \<in> set (archived_files t (base @ [f]))"
  note a = archived_files_kept [OF p assms(2)]
  have "\<not> is_pending (base @ [f])"
    using assms(2) by (auto simp: is_pending_def backup_folders_def starts_with_def pending_def)
  with e assms(4) have "fs_exists t1 (base @ [f])" by (simp add: preserves_def)
  moreover have "p \<in> set (archived_files t1 (base @ [f]))"
    by (rule archived_files_preserved [OF p a archive_file_places(1) [OF a assms(3)] assms(4)])
  ultimately have "backed_up E base dest t2 p" using assms(1) by (simp add: folder_done_def)
  from backed_up_stays [OF a assms(3,5) this] show "backed_up E base dest t3 p" .
qed

lemma backup_folders_run:
  fixes w :: "'s winery"
  assumes "disjoint base dest"
  shows "set fs \<subseteq> set backup_folders \<Longrightarrow> for_each fs (backup_folder E base dest) n w = (r, w') \<Longrightarrow>
    careful (backup_records base dest) w w' \<and>
    (\<forall>m. r = Inr m \<longrightarrow> (\<forall>f \<in> set fs. folder_done E base dest (tree w) (tree w') f))"
proof (induction fs arbitrary: n w)
  case Nil
  then show ?case using carefully.refl by (auto simp: ret_def)
next
  case (Cons f fs)
  obtain x w1 where x: "backup_folder E base dest f n w = (x, w1)" by fastforce
  have f: "f \<in> set backup_folders" using Cons.prems(1) by simp
  note one = backup_folder_run [OF f assms x]
  show ?case
  proof (cases x)
    case (Inl e)
    with Cons.prems(2) x have "w' = w1" "r = Inl e" by (auto simp: bnd_def)
    with one(1) show ?thesis by simp
  next
    case (Inr m)
    have rest: "for_each fs (backup_folder E base dest) m w1 = (r, w')"
      using Cons.prems(2) x Inr by (simp add: bnd_def)
    from Cons.IH [OF _ rest] Cons.prems(1) have ih: "careful (backup_records base dest) w1 w'"
        "\<And>k. r = Inr k \<Longrightarrow> \<forall>f \<in> set fs. folder_done E base dest (tree w1) (tree w') f" by auto
    have pres: "preserves (backup_records base dest) (tree w) (tree w1)" "preserves (backup_records base dest) (tree w1) (tree w')"
      by (rule careful_tree [OF one(1)], rule careful_tree [OF ih(1)])
    have "folder_done E base dest (tree w) (tree w') f"
      using folder_done_later [OF one(2) [OF Inr] f assms preserves_refl pres(2)] by simp
    moreover have "folder_done E base dest (tree w) (tree w') g" if "r = Inr k" "g \<in> set fs" for k g
      using folder_done_later [OF _ _ assms pres(1) preserves_refl, of E "tree w'" g] ih(2) [OF that(1)] that(2) Cons.prems(1) by auto
    ultimately show ?thesis using carefully.trans [OF one(1) ih(1)] by auto
  qed
qed

lemma backup_run:
  fixes w :: "'s winery"
  assumes d: "disjoint base dest" and run: "backup E base dest w = (r, w')"
  shows "careful (backup_records base dest) w w'"
    "r = Inr () \<Longrightarrow> f \<in> set backup_folders \<Longrightarrow> folder_done E base dest (tree w) (tree w') f"
proof -
  let ?ps = "backup_records base dest"
  have save: "keeps (careful ?ps) (save_record E p v)" if "p \<in> set ?ps" for p v
  proof (rule keepsI)
    fix v' :: "'s winery"
    have "\<not> is_pending p" using that not_pending by (auto simp: backup_records_def)
    from careful_atomic [OF this disjI1 [OF that], where w = v' and E = E and c = "json_dumps indent2_layout (sort_keys v) @ [CHR 0x0A]"]
    obtain v'' where "save_record E p v v' = (Inr (), v'')" "careful ?ps v' v''"
      unfolding save_record_def by metis
    then show "careful ?ps v' (snd (save_record E p v v'))" by simp
  qed
  have still: "keeps still m \<Longrightarrow> keeps (careful ?ps) m" for m :: "('s winery, 'a) prog"
    by (simp add: keeps_def still_careful)
  define tail where "tail = (\<lambda>status copied. bnd (save_record E (status_path dest) status) (\<lambda>_.
     bnd (of_result (py_item status ''through'')) (\<lambda>through.
     bnd (draw (utc_now E)) (\<lambda>now.
       save_record E (base @ [''backup.json''])
         (JObj [(''through'', through), (''checked_at'', JStr (iso_utc now)),
                (''destination'', JStr (path_str dest)), (''copied_files'', JInt (int copied))])))) :: ('s winery, unit) prog)"
  have tail: "keeps (careful ?ps) (tail status copied)" for status copied
    unfolding tail_def
    by (intro carefully.seq carefully.pure save) (simp_all add: backup_records_def keeps_def draw_def call_out_def split_beta still_careful still_def)
  obtain x w1 where x: "read_json (status_path base) w = (x, w1)" by fastforce
  have w1: "still w w1" using keepsD [OF keeps_reads(2) x] .
  have "careful ?ps w w' \<and> (r = Inr () \<longrightarrow> f \<in> set backup_folders \<longrightarrow> folder_done E base dest (tree w) (tree w') f)"
  proof (cases x)
    case (Inl e)
    then have "w' = w1" "r = Inl e" using run x by (auto simp: backup_def bnd_def)
    then show ?thesis using still_careful [OF w1] by simp
  next
    case (Inr status)
    obtain y w2 where y: "for_each backup_folders (backup_folder E base dest) 0 w1 = (y, w2)" by fastforce
    note two = backup_folders_run [OF d subset_refl y]
    have c2: "careful ?ps w w2" using carefully.trans [OF still_careful [OF w1]] two by blast
    show ?thesis
    proof (cases y)
      case (Inl e)
      then have "w' = w2" "r = Inl e" using run x Inr y by (auto simp: backup_def bnd_def)
      then show ?thesis using c2 by simp
    next
      case (Inr copied)
      then have t: "tail status copied w2 = (r, w')"
        using run x \<open>x = Inr status\<close> y by (simp add: backup_def tail_def bnd_def [of "read_json _"] bnd_def [of "for_each _ _ _"] del: for_each.simps)
      note c3 = keepsD [OF tail t]
      have "folder_done E base dest (tree w) (tree w') f" if "f \<in> set backup_folders"
      proof -
        have "folder_done E base dest (tree w1) (tree w2) f" using two Inr that by auto
        from folder_done_later [OF this that d _ careful_tree [OF c3]] w1 preserves_refl show ?thesis
          by (simp add: still_def)
      qed
      then show ?thesis using carefully.trans [OF c2 c3] by simp
    qed
  qed
  then show "careful ?ps w w'" "r = Inr () \<Longrightarrow> f \<in> set backup_folders \<Longrightarrow> folder_done E base dest (tree w) (tree w') f"
    by auto
qed

text \<open>
  C32. A backup, however it ends and at every point where it could crash, has overwritten no
  finished file but its two records; and when it succeeds, every finished file of the archive
  is in the backup with the same checksum.
\<close>

theorem backup_is_complete:
  assumes "disjoint base dest" "backup E base dest w = (r, w')" "trail w = []"
  shows "(\<forall>t \<in> set (tree w' # trail w'). preserves (backup_records base dest) (tree w) t) \<and>
    (r = Inr () \<longrightarrow> (\<forall>f \<in> set backup_folders. folder_done E base dest (tree w) (tree w') f))"
  using backup_run [OF assms(1,2)] assms(3) by (auto simp: careful_def within_def)

theorem backup_is_complete_witness:
  "\<exists>r w'. backup winery_demo demo_base [''/'', ''backup''] winery_world = (r, w') \<and>
    (\<forall>t \<in> set (tree w' # trail w'). preserves (backup_records demo_base [''/'', ''backup'']) (tree winery_world) t) \<and>
    (r = Inr () \<longrightarrow> (\<forall>f \<in> set backup_folders. folder_done winery_demo demo_base [''/'', ''backup''] (tree winery_world) (tree w') f))"
proof -
  obtain r w' where run: "backup winery_demo demo_base [''/'', ''backup''] winery_world = (r, w')" by fastforce
  have "disjoint demo_base [''/'', ''backup'']" by (simp add: disjoint_def demo_base_def is_relative_to_def)
  moreover have "trail winery_world = []" by (simp add: winery_world_def)
  ultimately show ?thesis using backup_is_complete [OF _ run] run by blast
qed

end
