(* ===== verification/Marker_Batch.thy ===== *)
theory Marker_Batch
  imports Marker_Epub
begin

text \<open>
  The batch conversion of the magazine archive (marker-batch.py): every PDF with a sidecar and
  without an EPUB goes through Marker and then through the post-processor of Marker_Epub, whose
  model is called here as the subprocess it is. Marker, the directory for temporary files and
  the regular expression of ONLY are parameters; the pool runs one job after the other. Times
  and progress messages are left out.
\<close>

section \<open>Which PDFs\<close>

definition is_pdf :: "path \<Rightarrow> bool" where
  "is_pdf p \<longleftrightarrow> ends_with (path_name p) ''.pdf''"

definition sidecar_of :: "path \<Rightarrow> path" where
  "sidecar_of pdf = with_suffix pdf ''.json''"

definition epub_of :: "path \<Rightarrow> path" where
  "epub_of pdf = with_suffix pdf ''.epub''"

definition needs_epub :: "fs \<Rightarrow> (string \<Rightarrow> bool) option \<Rightarrow> path \<Rightarrow> bool" where
  "needs_epub t only pdf \<longleftrightarrow>
     \<not> ends_with (path_name pdf) ''.part'' \<and> \<not> contains (path_name pdf) ''DOWNLOADING'' \<and>
     \<not> contains (path_name pdf) ''_synthetic'' \<and> fs_is_file t (sidecar_of pdf) \<and> \<not> fs_exists t (epub_of pdf) \<and>
     (case only of None \<Rightarrow> True | Some search \<Rightarrow> search (path_name pdf))"

definition issue_year :: "path \<Rightarrow> int" where
  "issue_year p = (case py_int (path_name (path_parent p)) of None \<Rightarrow> 0 | Some y \<Rightarrow> y)"

text \<open>Sorted by year and name, downwards; a stable sort with \<open>reverse=True\<close> stays stable.\<close>

definition newest_first :: "path list \<Rightarrow> path list" where
  "newest_first ps = rev (sort_key issue_year (sort_key path_name (rev ps)))"

definition pdfs_to_convert :: "fs \<Rightarrow> path \<Rightarrow> (string \<Rightarrow> bool) option \<Rightarrow> path list" where
  "pdfs_to_convert t base only = newest_first (filter (\<lambda>p. is_pdf p \<and> needs_epub t only p) (fs_below t base))"

section \<open>One issue\<close>

record 's batch_env =
  epub_tools :: epub_env
  marker_run :: "path \<Rightarrow> bool \<Rightarrow> 's \<Rightarrow> (int \<times> (path \<times> string) list) \<times> 's"
  make_temp :: "'s \<Rightarrow> path \<times> 's"
  compile_rx :: "string \<Rightarrow> exn + (string \<Rightarrow> bool)"
  which :: "string \<Rightarrow> bool"
  script_dir :: path

record 's batch =
  beyond :: 's
  archive :: fs

definition query :: "('s \<Rightarrow> 'a \<times> 's) \<Rightarrow> ('s batch, 'a) prog" where
  "query f w = (case f (beyond w) of (x, s) \<Rightarrow> (Inr x, w\<lparr>beyond := s\<rparr>))"

definition edit :: "(fs \<Rightarrow> fs) \<Rightarrow> ('s batch, unit) prog" where
  "edit f = modify (\<lambda>w. w\<lparr>archive := f (archive w)\<rparr>)"

text \<open>Marker writes below the work directory; its Markdown is in a directory of its own or not.\<close>

definition run_marker :: "'s batch_env \<Rightarrow> path \<Rightarrow> path \<Rightarrow> bool \<Rightarrow> ('s batch, path) prog" where
  "run_marker E pdf workdir disable_ocr =
     bnd (query (marker_run E pdf disable_ocr)) (\<lambda>(code, files).
     bnd (edit (fold (\<lambda>(rel, c). fs_write (workdir @ rel) c) files)) (\<lambda>_.
       if code \<noteq> 0 then raise (CalledProcessError code)
       else
         (let stem = path_stem pdf; md = workdir @ [stem, stem @ ''.md'']; alt = workdir @ [stem @ ''.md''] in
          bnd (gets archive) (\<lambda>t.
            if fs_exists t md then ret md
            else if fs_exists t alt then ret alt
            else raise (RuntimeError (''marker did not produce '' @ path_str md @ '' or '' @ path_str alt))))))"

text \<open>The exit status of the post-processor, and its call\<close>

definition exit_status :: "exn + nat \<Rightarrow> int" where
  "exit_status r =
     (case r of
        Inr n \<Rightarrow> int n
      | Inl (SystemExit s) \<Rightarrow> (case py_int s of Some i \<Rightarrow> i | None \<Rightarrow> 1)
      | Inl _ \<Rightarrow> 1)"

definition post_args :: "path \<Rightarrow> path \<Rightarrow> path \<Rightarrow> epub_args" where
  "post_args md sidecar out =
     \<lparr>arg_markdown = md, arg_sidecar = sidecar, arg_epub = Some out, arg_threshold = 80, arg_keep = False\<rparr>"

definition run_to_epub :: "'s batch_env \<Rightarrow> path \<Rightarrow> path \<Rightarrow> path \<Rightarrow> ('s batch, unit) prog" where
  "run_to_epub E md sidecar out w =
     (case marker_to_epub (epub_tools E) (post_args md sidecar out) (archive w) of
        (r, t) \<Rightarrow>
          (if exit_status r = 0 then Inr () else Inl (CalledProcessError (exit_status r)), w\<lparr>archive := t\<rparr>))"

text \<open>Whether the issue was converted; an error removes what there is of the EPUB.\<close>

definition process_one :: "'s batch_env \<Rightarrow> bool \<Rightarrow> path \<Rightarrow> ('s batch, bool) prog" where
  "process_one E disable_ocr pdf =
     (let sidecar = sidecar_of pdf; out = epub_of pdf in
      bnd (query (make_temp E)) (\<lambda>workdir.
      bnd (edit (AList.update workdir NDir)) (\<lambda>_.
        try_finally
          (try_except
            (bnd (run_marker E pdf workdir disable_ocr) (\<lambda>md.
             bnd (run_to_epub E md sidecar out) (\<lambda>_. ret True)))
            (\<lambda>e. if is_exception e
                 then bnd (edit (\<lambda>t. if fs_exists t out then fs_unlink out t else t)) (\<lambda>_. ret False)
                 else raise e))
          (\<lambda>w. w\<lparr>archive := fs_rmtree workdir (archive w)\<rparr>))))"

section \<open>The batch\<close>

definition count_job :: "'s batch_env \<Rightarrow> bool \<Rightarrow> path \<Rightarrow> nat \<times> nat \<Rightarrow> ('s batch, nat \<times> nat) prog" where
  "count_job E disable_ocr pdf = (\<lambda>(ok, err).
     bnd (process_one E disable_ocr pdf) (\<lambda>good. ret (if good then (Suc ok, err) else (ok, Suc err))))"

definition env_or :: "(string \<Rightarrow> string option) \<Rightarrow> string \<Rightarrow> string \<Rightarrow> string" where
  "env_or environ k v = (case environ k of None \<Rightarrow> v | Some s \<Rightarrow> s)"

definition env_int :: "(string \<Rightarrow> string option) \<Rightarrow> string \<Rightarrow> string \<Rightarrow> exn + int" where
  "env_int environ k v =
     (case py_int (env_or environ k v) of
        None \<Rightarrow> Inl (ValueError (''invalid literal for int() with base 10: '' @ env_or environ k v)) | Some i \<Rightarrow> Inr i)"

text \<open>\<open>pdfs[:limit]\<close> unless the limit is 0: a negative one counts from the end.\<close>

definition cut_limit :: "int \<Rightarrow> 'a list \<Rightarrow> 'a list" where
  "cut_limit limit xs =
     (if limit = 0 then xs
      else if limit < 0 then take (length xs - nat (- limit)) xs else take (nat limit) xs)"

definition only_of :: "'s batch_env \<Rightarrow> (string \<Rightarrow> string option) \<Rightarrow> exn + (string \<Rightarrow> bool) option" where
  "only_of E environ =
     (case environ ''ONLY'' of
        None \<Rightarrow> Inr None
      | Some r \<Rightarrow> if r = [] then Inr None else rbnd (compile_rx E r) (\<lambda>f. Inr (Some f)))"

definition batch_root :: "(string \<Rightarrow> string option) \<Rightarrow> path" where
  "batch_root environ = to_path (env_or environ ''ARCHIVE_ROOT'' ''/mnt/data/Media/Magazines'')"

definition batch_main :: "'s batch_env \<Rightarrow> (string \<Rightarrow> string option) \<Rightarrow> ('s batch, nat) prog" where
  "batch_main E environ =
     (let base = batch_root environ; marker_bin = env_or environ ''MARKER_BIN'' ''marker_single'';
          to_epub = (case environ ''TO_EPUB'' of None \<Rightarrow> script_dir E @ [''marker-to-epub.py''] | Some s \<Rightarrow> to_path s) in
      bnd (of_result (env_int environ ''LIMIT'' ''0'')) (\<lambda>limit.
      bnd (of_result (only_of E environ)) (\<lambda>only.
      bnd (of_result (env_int environ ''WORKERS'' ''3'')) (\<lambda>_.
      bnd (gets archive) (\<lambda>t.
      if \<not> which E marker_bin then raise (SystemExit (''ERROR: '' @ marker_bin @ '' not on PATH''))
      else if \<not> fs_is_file t to_epub then raise (SystemExit (''ERROR: post-processor missing: '' @ path_str to_epub))
      else if \<not> fs_is_dir t base then raise (SystemExit (''ERROR: archive root not a directory: '' @ path_str base))
      else
        bnd (for_each (cut_limit limit (pdfs_to_convert t base only))
              (count_job E (env_or environ ''ENABLE_OCR'' ''0'' \<noteq> ''1'')) (0, 0)) (\<lambda>(ok, err).
          ret (if err = 0 then 0 else 1)))))))"

section \<open>One issue\<close>

lemma step_edit: "bnd (edit f) g w = g () (w\<lparr>archive := f (archive w)\<rparr>)"
  by (simp add: bnd_def edit_def modify_def)

lemma step_query: "bnd (query f) g w = g (fst (f (beyond w))) (w\<lparr>beyond := snd (f (beyond w))\<rparr>)"
  by (simp add: bnd_def query_def split_beta)

lemma pandoc_okD: "pandoc_ok E \<Longrightarrow> render_epub E body yaml = (0, out) \<Longrightarrow> out \<noteq> None"
  unfolding pandoc_ok_def by (metis (mono_tags, lifting) case_prod_conv)

lemma epub_path_post [simp]: "epub_path (post_args md sidecar out) = out" "\<not> arg_keep (post_args md sidecar out)"
  by (simp_all add: epub_path_def post_args_def)

lemma map_of_writes:
  "\<not> is_relative_to q d \<Longrightarrow> map_of (fold (\<lambda>(rel, c). fs_write (d @ rel) c) files t) q = map_of t q"
  by (induction files arbitrary: t) (auto simp: is_relative_to_prefix)

lemma run_marker_frame:
  assumes "run_marker E pdf d ocr w = (r, w')"
  shows "\<not> is_relative_to q d \<Longrightarrow> map_of (archive w') q = map_of (archive w) q"
    "r = Inl e \<Longrightarrow> is_exception e"
proof -
  obtain code files s where m: "marker_run E pdf ocr (beyond w) = ((code, files), s)" by (metis prod.exhaust)
  define t where "t = fold (\<lambda>(rel, c). fs_write (d @ rel) c) files (archive w)"
  have "archive w' = t \<and> (r = Inl e \<longrightarrow> is_exception e)"
    using assms m by (auto simp: run_marker_def query_def edit_def modify_def bnd_def gets_def ret_def raise_def Let_def
        is_exception_def t_def split: if_splits)
  then show "\<not> is_relative_to q d \<Longrightarrow> map_of (archive w') q = map_of (archive w) q" "r = Inl e \<Longrightarrow> is_exception e"
    by (simp_all add: t_def map_of_writes)
qed

lemma process_one_run:
  assumes temp: "\<And>s. is_relative_to (fst (make_temp E s)) tmp" and out: "\<not> is_relative_to (epub_of pdf) tmp"
    and run: "process_one E ocr pdf w = (r, w')"
  shows "\<exists>b. r = Inr b \<and> (\<not> b \<longrightarrow> \<not> fs_exists (archive w') (epub_of pdf)) \<and>
      (b \<longrightarrow> pandoc_ok (epub_tools E) \<longrightarrow> fs_exists (archive w') (epub_of pdf)) \<and>
      (\<forall>q. \<not> is_relative_to q tmp \<and> q \<noteq> epub_of pdf \<longrightarrow> map_of (archive w') q = map_of (archive w) q)"
proof -
  let ?out = "epub_of pdf"
  obtain d s where d: "make_temp E (beyond w) = (d, s)" by fastforce
  have dt: "is_relative_to d tmp" using temp [of "beyond w"] by (simp add: d)
  have od: "\<not> is_relative_to q d" if "\<not> is_relative_to q tmp" for q
    using that dt by (auto simp: is_relative_to_prefix)
  define w1 where "w1 = w\<lparr>beyond := s, archive := AList.update d NDir (archive w)\<rparr>"
  have m1: "map_of (archive w1) q = map_of (archive w) q" if "\<not> is_relative_to q tmp" for q
    using od [OF that] by (auto simp: w1_def update_conv' is_relative_to_prefix)
  define body where "body = bnd (run_marker E pdf d ocr) (\<lambda>md. bnd (run_to_epub E md (sidecar_of pdf) ?out) (\<lambda>_. ret True))"
  obtain x w2 where x: "body w1 = (x, w2)" by fastforce
  have b: "(case x of Inr b \<Rightarrow> b \<and> (pandoc_ok (epub_tools E) \<longrightarrow> fs_exists (archive w2) ?out) | Inl e \<Rightarrow> is_exception e) \<and>
      (\<forall>q. \<not> is_relative_to q tmp \<and> q \<noteq> ?out \<longrightarrow> map_of (archive w2) q = map_of (archive w1) q)"
  proof -
    obtain y w3 where y: "run_marker E pdf d ocr w1 = (y, w3)" by fastforce
    note f = run_marker_frame [OF y]
    show ?thesis
    proof (cases y)
      case (Inl e)
      with x y have "x = Inl e" "w2 = w3" by (auto simp: body_def bnd_def)
      with f Inl od show ?thesis by simp
    next
      case (Inr md)
      let ?A = "post_args md (sidecar_of pdf) ?out"
      obtain z t where z: "marker_to_epub (epub_tools E) ?A (archive w3) = (z, t)" by fastforce
      have "body w1 = (if exit_status z = 0 then Inr True else Inl (CalledProcessError (exit_status z)), w3\<lparr>archive := t\<rparr>)"
        using y z Inr by (simp add: body_def bnd_def run_to_epub_def ret_def)
      with x have xw: "x = (if exit_status z = 0 then Inr True else Inl (CalledProcessError (exit_status z)))" "archive w2 = t"
        by auto
      have "(\<forall>q. q \<noteq> ?out \<longrightarrow> map_of t q = map_of (archive w3) q) \<and>
          (exit_status z = 0 \<longrightarrow> pandoc_ok (epub_tools E) \<longrightarrow> fs_exists t ?out)"
        using epub_path_post(2) z
      proof (cases rule: marker_to_epub_run)
        case (early e)
        then show ?thesis by (auto simp: exit_status_def is_exception_def split: exn.splits)
      next
        case (rendered body yaml code out)
        then show ?thesis
          by (cases out) (auto simp: exit_status_def fs_exists_def split: if_splits dest: pandoc_okD)
      qed
      with f(1) od xw show ?thesis by simp
    qed
  qed
  define w4 where "w4 = (case x of Inr _ \<Rightarrow> w2 | Inl _ \<Rightarrow> w2\<lparr>archive := (if fs_exists (archive w2) ?out then fs_unlink ?out (archive w2) else archive w2)\<rparr>)"
  have "process_one E ocr pdf w = (case x of Inr b \<Rightarrow> Inr b | Inl _ \<Rightarrow> Inr False, w4\<lparr>archive := fs_rmtree d (archive w4)\<rparr>)"
  proof -
    have "process_one E ocr pdf w =
        try_finally
          (try_except body (\<lambda>e. if is_exception e
             then bnd (edit (\<lambda>t. if fs_exists t ?out then fs_unlink ?out t else t)) (\<lambda>_. ret False) else raise e))
          (\<lambda>w. w\<lparr>archive := fs_rmtree d (archive w)\<rparr>) w1"
      unfolding process_one_def Let_def by (simp add: step_edit step_query d w1_def body_def)
    then show ?thesis using b x
      by (cases x) (auto simp: try_finally_def try_except_def bnd_def edit_def modify_def ret_def w4_def)
  qed
  with run have r: "r = (case x of Inr b \<Rightarrow> Inr b | Inl _ \<Rightarrow> Inr False)" "archive w' = fs_rmtree d (archive w4)" by auto
  have frame: "map_of (archive w') q = map_of (archive w) q" if "\<not> is_relative_to q tmp" "q \<noteq> ?out" for q
    using b that od m1 by (auto simp: r(2) map_of_fs_rmtree w4_def split: sum.splits)
  show ?thesis
  proof (cases x)
    case (Inl e)
    have "\<not> fs_exists (archive w') ?out"
      by (simp add: r(2) w4_def Inl fs_exists_def map_of_fs_rmtree)
    with r(1) Inl frame show ?thesis by (intro exI [of _ False]) simp
  next
    case (Inr v)
    have "fs_exists (archive w') ?out" if "pandoc_ok (epub_tools E)"
      using b that od [OF out] Inr by (simp add: r(2) w4_def fs_exists_def map_of_fs_rmtree)
    with b r(1) Inr frame show ?thesis by (intro exI [of _ True]) simp
  qed
qed

section \<open>The batch\<close>

text \<open>Along a run only the EPUBs of its issues change, apart from temporary files.\<close>

definition only_epubs :: "path \<Rightarrow> path list \<Rightarrow> fs \<Rightarrow> fs \<Rightarrow> bool" where
  "only_epubs tmp pdfs t t' \<longleftrightarrow>
     (\<forall>q. \<not> is_relative_to q tmp \<and> q \<notin> epub_of ` set pdfs \<longrightarrow> map_of t' q = map_of t q)"

lemma jobs_run:
  assumes temp: "\<And>s. is_relative_to (fst (make_temp E s)) tmp"
  shows "\<forall>p \<in> set pdfs. \<not> is_relative_to (epub_of p) tmp \<Longrightarrow>
    for_each pdfs (count_job E ocr) (ok, err) w = (r, w') \<Longrightarrow>
    \<exists>ok' err'. r = Inr (ok + ok', err + err') \<and> ok' + err' = length pdfs \<and>
      only_epubs tmp pdfs (archive w) (archive w') \<and>
      (err' = 0 \<and> pandoc_ok (epub_tools E) \<longrightarrow> (\<forall>p \<in> set pdfs. fs_exists (archive w') (epub_of p)))"
proof (induction pdfs arbitrary: ok err w)
  case Nil
  then show ?case by (auto simp: ret_def only_epubs_def)
next
  case (Cons p pdfs)
  obtain x w1 where x: "process_one E ocr p w = (x, w1)" by fastforce
  have out: "\<not> is_relative_to (epub_of p) tmp" using Cons.prems(1) by simp
  from process_one_run [OF temp out x] obtain b where b: "x = Inr b"
      "\<not> b \<longrightarrow> \<not> fs_exists (archive w1) (epub_of p)"
      "b \<longrightarrow> pandoc_ok (epub_tools E) \<longrightarrow> fs_exists (archive w1) (epub_of p)"
      "\<forall>q. \<not> is_relative_to q tmp \<and> q \<noteq> epub_of p \<longrightarrow> map_of (archive w1) q = map_of (archive w) q" by blast
  let ?c = "if b then (Suc ok, err) else (ok, Suc err)"
  have job: "count_job E ocr p (ok, err) w = (Inr ?c, w1)"
    using x b(1) by (simp add: count_job_def bnd_def ret_def)
  have rest: "for_each pdfs (count_job E ocr) (fst ?c, snd ?c) w1 = (r, w')"
    using Cons.prems(2) job by (simp add: bnd_def)
  from Cons.IH [OF _ rest] Cons.prems(1) obtain ok' err' where ih: "r = Inr (fst ?c + ok', snd ?c + err')"
      "ok' + err' = length pdfs" "only_epubs tmp pdfs (archive w1) (archive w')"
      "err' = 0 \<and> pandoc_ok (epub_tools E) \<longrightarrow> (\<forall>p \<in> set pdfs. fs_exists (archive w') (epub_of p))" by auto
  have frame: "only_epubs tmp (p # pdfs) (archive w) (archive w')"
    using ih(3) b(4) by (simp add: only_epubs_def)
  show ?case
  proof (cases b)
    case True
    have "fs_exists (archive w') (epub_of p)" if "err' = 0" "pandoc_ok (epub_tools E)"
    proof (cases "epub_of p \<in> epub_of ` set pdfs")
      case True
      then show ?thesis using ih(4) that by auto
    next
      case False
      then show ?thesis using ih(3) b(3) \<open>b\<close> out that by (simp add: only_epubs_def fs_exists_def)
    qed
    then show ?thesis using ih True frame by (intro exI [of _ "Suc ok'"] exI [of _ err']) auto
  next
    case False
    then show ?thesis using ih frame by (intro exI [of _ ok'] exI [of _ "Suc err'"]) auto
  qed
qed

lemma set_newest_first [simp]: "set (newest_first ps) = set ps"
  by (simp add: newest_first_def)

lemma set_cut_limit: "set (cut_limit l xs) \<subseteq> set xs"
  by (auto simp: cut_limit_def dest: in_set_takeD)

text \<open>Two directories neither of which is below the other\<close>

lemma listed_pdf:
  assumes "p \<in> set (pdfs_to_convert t base only)"
  shows "is_relative_to p base" "p \<noteq> base" "is_relative_to (epub_of p) base" "\<not> fs_exists t (epub_of p)" "is_pdf p"
    "is_relative_to (sidecar_of p) base"
proof -
  show r: "is_relative_to p base" "p \<noteq> base" and "\<not> fs_exists t (epub_of p)" "is_pdf p"
    using assms by (auto simp: pdfs_to_convert_def fs_below_def needs_epub_def)
  then obtain xs where xs: "p = base @ xs" "xs \<noteq> []" by (auto simp: is_relative_to_prefix prefix_def)
  then show "is_relative_to (epub_of p) base" "is_relative_to (sidecar_of p) base"
    by (simp_all add: epub_of_def sidecar_of_def with_suffix_def is_relative_to_prefix butlast_append)
qed

lemma batch_run:
  assumes "batch_main E environ w = (r, w')"
  obtains (refused) e where "r = Inl e" "w' = w"
  | (ran) limit only ok err where "env_int environ ''LIMIT'' ''0'' = Inr limit" "only_of E environ = Inr only"
      "for_each (cut_limit limit (pdfs_to_convert (archive w) (batch_root environ) only))
         (count_job E (env_or environ ''ENABLE_OCR'' ''0'' \<noteq> ''1'')) (0, 0) w = (Inr (ok, err), w')"
      "r = Inr (if err = 0 then 0 else 1)"
  | (stopped) limit only e where "env_int environ ''LIMIT'' ''0'' = Inr limit" "only_of E environ = Inr only"
      "for_each (cut_limit limit (pdfs_to_convert (archive w) (batch_root environ) only))
         (count_job E (env_or environ ''ENABLE_OCR'' ''0'' \<noteq> ''1'')) (0, 0) w = (Inl e, w')" "r = Inl e"
  using assms unfolding batch_main_def Let_def
  by (auto simp: bnd_def of_result_def gets_def ret_def raise_def split: sum.splits prod.splits if_splits)

text \<open>
  C33. However a batch goes, every file that was there when it started is there afterwards as
  it was, existing EPUBs included; only directories for temporary files are excepted.
\<close>

theorem batch_keeps_files:
  assumes "\<And>s. is_relative_to (fst (make_temp E s)) tmp" "separate (batch_root environ) tmp"
    "batch_main E environ w = (r, w')" "map_of (archive w) p = Some n" "\<not> is_relative_to p tmp"
  shows "map_of (archive w') p = Some n"
proof -
  have kept: "map_of (archive w') p = Some n"
    if "for_each (cut_limit limit (pdfs_to_convert (archive w) (batch_root environ) only)) (count_job E ocr) (0, 0) w = (x, w')"
    for limit only ocr x
  proof -
    let ?ps = "cut_limit limit (pdfs_to_convert (archive w) (batch_root environ) only)"
    have sub: "q \<in> set (pdfs_to_convert (archive w) (batch_root environ) only)" if "q \<in> set ?ps" for q
      using that set_cut_limit by fast
    have out: "\<forall>q \<in> set ?ps. \<not> is_relative_to (epub_of q) tmp"
      using separate_below [OF assms(2)] listed_pdf(3) [OF sub] by blast
    from jobs_run [OF assms(1) out that] have "only_epubs tmp ?ps (archive w) (archive w')" by blast
    moreover have "p \<notin> epub_of ` set ?ps"
    proof
      assume "p \<in> epub_of ` set ?ps"
      then obtain q where "q \<in> set ?ps" "p = epub_of q" by blast
      with listed_pdf(4) [OF sub] assms(4) show False by (simp add: fs_exists_def)
    qed
    ultimately show ?thesis using assms(4,5) by (simp add: only_epubs_def)
  qed
  show ?thesis using assms(3) by (cases rule: batch_run) (use kept assms(4) in auto)
qed

lemma suffixes_apart:
  "is_pdf p \<Longrightarrow> p \<noteq> epub_of q" "sidecar_of p \<noteq> epub_of q"
  unfolding is_pdf_def epub_of_def sidecar_of_def with_suffix_def path_name_def
  by (auto simp: ends_with_def starts_with_def)

text \<open>
  C34. A batch without a limit that reports success leaves nothing to convert: a second run
  finds no PDF that needs an EPUB.
\<close>

theorem batch_completes:
  assumes temp: "\<And>s. is_relative_to (fst (make_temp E s)) tmp" and base: "separate (batch_root environ) tmp"
    and "pandoc_ok (epub_tools E)" "env_int environ ''LIMIT'' ''0'' = Inr 0" "only_of E environ = Inr only"
    and run: "batch_main E environ w = (Inr 0, w')"
  shows "pdfs_to_convert (archive w') (batch_root environ) only = []"
proof -
  let ?base = "batch_root environ"
  let ?ps = "pdfs_to_convert (archive w) ?base only"
  obtain ok err ocr where jobs: "for_each ?ps (count_job E ocr) (0, 0) w = (Inr (ok, err), w')" "err = 0"
    using run by (cases rule: batch_run) (use assms(4,5) in \<open>auto simp: cut_limit_def split: if_splits\<close>)
  have out: "\<forall>q \<in> set ?ps. \<not> is_relative_to (epub_of q) tmp"
    using separate_below [OF base] listed_pdf(3) by blast
  from jobs_run [OF temp out jobs(1)] jobs(2) assms(3) have j: "only_epubs tmp ?ps (archive w) (archive w')"
      "\<forall>p \<in> set ?ps. fs_exists (archive w') (epub_of p)" by auto
  have "False" if p: "p \<in> set (pdfs_to_convert (archive w') ?base only)" for p
  proof -
    note l = listed_pdf [OF p]
    have same: "map_of (archive w') q = map_of (archive w) q" if "is_relative_to q ?base" "q \<notin> epub_of ` set ?ps" for q
      using j(1) that separate_below [OF base] by (simp add: only_epubs_def)
    have none: "epub_of p \<notin> epub_of ` set ?ps" using j(2) l(4) by auto
    have "map_of (archive w') p = map_of (archive w) p"
      by (rule same [OF l(1)]) (use suffixes_apart(1) [OF l(5)] in auto)
    moreover have "map_of (archive w') p \<noteq> None"
      using p by (auto simp: pdfs_to_convert_def fs_below_def map_of_eq_None_iff)
    ultimately have "p \<in> set (fs_below (archive w) ?base)"
      using l(1,2) by (simp add: fs_below_def map_of_eq_None_iff)
    moreover have "map_of (archive w') (sidecar_of p) = map_of (archive w) (sidecar_of p)"
      by (rule same [OF l(6)]) (use suffixes_apart(2) in auto)
    moreover have "map_of (archive w') (epub_of p) = map_of (archive w) (epub_of p)"
      by (rule same [OF l(3) none])
    ultimately have "p \<in> set ?ps"
      using p by (simp add: pdfs_to_convert_def needs_epub_def fs_is_file_def fs_exists_def)
    with none show False by blast
  qed
  then show ?thesis by (metis list.set_intros(1) neq_Nil_conv)
qed

section \<open>Witnesses\<close>

text \<open>A year with one issue; Marker writes its Markdown, pandoc its book.\<close>

definition batch_demo :: "unit batch_env" where
  "batch_demo = \<lparr>epub_tools = \<lparr>partial_ratio = (\<lambda>a b. 0), token_set_ratio = (\<lambda>a b. 0), fuzz_ratio = (\<lambda>a b. 0),
       fold_ascii = (\<lambda>s. s), render_epub = (\<lambda>body yaml. (0, Some body))\<rparr>,
     marker_run = (\<lambda>pdf ocr s. ((0, [([path_stem pdf @ ''.md''], ''A vintage report'')]), s)),
     make_temp = (\<lambda>s. ([''/'', ''tmp'', ''marker-batch-x''], s)), compile_rx = (\<lambda>r. Inr (\<lambda>s. True)),
     which = (\<lambda>s. True), script_dir = [''/'', ''scripts'']\<rparr>"

definition demo_issue :: path where
  "demo_issue = [''/'', ''mags'', ''gw'', ''2020'', ''05_may.pdf'']"

definition batch_world :: "unit batch" where
  "batch_world = \<lparr>beyond = (), archive =
     [([''/'', ''mags''], NDir), ([''/'', ''scripts'', ''marker-to-epub.py''], NFile []),
      (demo_issue, NFile ''%PDF''), (sidecar_of demo_issue, NFile ''{}'')]\<rparr>"

definition batch_environ :: "string \<Rightarrow> string option" where
  "batch_environ k = (if k = ''ARCHIVE_ROOT'' then Some ''/mags'' else None)"

lemma demo_batch:
  "is_relative_to (fst (make_temp batch_demo s)) [''/'', ''tmp'']" "separate (batch_root batch_environ) [''/'', ''tmp'']"
  "pandoc_ok (epub_tools batch_demo)"
  "env_int batch_environ ''LIMIT'' ''0'' = Inr 0" "only_of batch_demo batch_environ = Inr None"
proof -
  have "batch_root batch_environ = [''/'', ''mags'']"
    by (simp add: batch_root_def env_or_def batch_environ_def) code_simp
  then show "separate (batch_root batch_environ) [''/'', ''tmp'']" by (simp add: separate_def is_relative_to_def)
  show "is_relative_to (fst (make_temp batch_demo s)) [''/'', ''tmp'']" by (simp add: batch_demo_def is_relative_to_def)
  show "pandoc_ok (epub_tools batch_demo)" by (simp add: pandoc_ok_def batch_demo_def)
  have "py_int ''0'' = Some 0" by code_simp
  then show "env_int batch_environ ''LIMIT'' ''0'' = Inr 0" by (simp add: env_int_def env_or_def batch_environ_def)
  show "only_of batch_demo batch_environ = Inr None" by (simp add: only_of_def batch_environ_def)
qed

theorem batch_keeps_files_witness:
  "map_of (archive (snd (batch_main batch_demo batch_environ batch_world))) demo_issue = Some (NFile ''%PDF'')"
  by (rule batch_keeps_files [OF demo_batch(1,2), of batch_world "fst (batch_main batch_demo batch_environ batch_world)"])
    (simp_all add: batch_world_def demo_issue_def is_relative_to_def)

lemma demo_runs: "fst (batch_main batch_demo batch_environ batch_world) = Inr 0"
  by code_simp

theorem batch_completes_witness:
  "pdfs_to_convert (archive (snd (batch_main batch_demo batch_environ batch_world))) (batch_root batch_environ) None = []"
  by (rule batch_completes [OF demo_batch, of batch_world])
    (simp add: demo_runs [symmetric])

end
