(* ===== verification/Ai_Adapters.thy ===== *)
theory Ai_Adapters
  imports Toml_Merge Py_Links
begin

text \<open>
  The generator of the Codex adapters (generate-ai-adapters.py): the frontmatter parser of
  the Claude agents, the normalisation of MCP servers, the TOML the script renders, writing
  and checking the generated files, and the checks of the surfaces both tools share.
  \<open>tomllib.loads\<close> is a parameter; the printed messages other than the list of errors are
  left out. \<open>toml_value\<close> is the function of Toml_Merge, which the two scripts share word
  for word but for the class of its error.
\<close>

section \<open>Places\<close>

record adapter_env =
  repo :: path
  toml_loads :: "string \<Rightarrow> string option"

definition claude_agents :: "adapter_env \<Rightarrow> path" where
  "claude_agents E = repo E @ [''.claude'', ''agents'']"

definition codex_agents :: "adapter_env \<Rightarrow> path" where
  "codex_agents E = repo E @ [''.codex'', ''agents'']"

definition mcp_source :: "adapter_env \<Rightarrow> path" where
  "mcp_source E = repo E @ [''.mcp.json'']"

definition codex_config :: "adapter_env \<Rightarrow> path" where
  "codex_config E = repo E @ [''.codex'', ''config.toml'']"

definition generated_header :: string where
  "generated_header = ''# Generated by scripts/generate-ai-adapters.py; do not edit.'' @ [CHR 0x0A]"

text \<open>\<open>path.relative_to(ROOT)\<close> as the messages show it\<close>

definition shown :: "adapter_env \<Rightarrow> path \<Rightarrow> string" where
  "shown E p = path_str (drop (length (repo E)) p)"

section \<open>Files\<close>

text \<open>\<open>read_text\<close>, with universal newlines, and \<open>glob('*' + suffix)\<close>\<close>

definition text_of :: "path \<Rightarrow> fs \<Rightarrow> exn + string" where
  "text_of p t =
     (case node_at t p of Some (NFile c) \<Rightarrow> Inr (universal c) | _ \<Rightarrow> Inl (OSError (path_str p)))"

definition entries_at :: "path \<Rightarrow> fs \<Rightarrow> path list" where
  "entries_at d t =
     (case resolve t link_budget [''/''] (tl d) of
        None \<Rightarrow> [] | Some r \<Rightarrow> map (\<lambda>q. d @ [path_name q]) (fs_children t r))"

definition glob_suffix :: "path \<Rightarrow> string \<Rightarrow> fs \<Rightarrow> path list" where
  "glob_suffix d sfx t = filter (\<lambda>p. ends_with (path_name p) sfx) (entries_at d t)"

text \<open>The directory entry a path names: links are followed up to its last component.\<close>

definition entry :: "path \<Rightarrow> fs \<Rightarrow> path option" where
  "entry p t = map_option (\<lambda>d. d @ [path_name p]) (resolve t link_budget [''/''] (tl (butlast p)))"

definition is_symlink :: "path \<Rightarrow> fs \<Rightarrow> bool" where
  "is_symlink p t = (case entry p t of None \<Rightarrow> False | Some q \<Rightarrow> fs_is_link t q)"

definition unlink :: "path \<Rightarrow> (fs, unit) prog" where
  "unlink p t =
     (case entry p t of
        Some q \<Rightarrow>
          if fs_exists t q \<and> \<not> fs_is_dir t q then (Inr (), fs_unlink q t) else (Inl (OSError (path_str p)), t)
      | None \<Rightarrow> (Inl (OSError (path_str p)), t))"

text \<open>Making a directory and its parents; a file or a dangling link in the way is an error.\<close>

definition make_dirs :: "path \<Rightarrow> (fs, unit) prog" where
  "make_dirs p t =
     (case resolve t link_budget [''/''] (tl p) of
        Some q \<Rightarrow>
          if list_ex (fs_is_file t) (prefixes q) \<or> list_ex (\<lambda>d. is_symlink d t \<and> node_at t d = None) (prefixes p)
          then (Inl (OSError (path_str p)), t)
          else (Inr (), fs_mkdirs q t)
      | None \<Rightarrow> (Inl (OSError (path_str p)), t))"

definition put_text :: "path \<Rightarrow> string \<Rightarrow> (fs, unit) prog" where
  "put_text p c t =
     (case resolve t link_budget [''/''] (tl p) of
        Some q \<Rightarrow> if fs_is_dir t q then (Inl (OSError (path_str p)), t) else (Inr (), fs_write q c t)
      | None \<Rightarrow> (Inl (OSError (path_str p)), t))"

section \<open>Frontmatter\<close>

definition adapter_value :: "json \<Rightarrow> exn + string" where
  "adapter_value v =
     (case toml_value v of Inl e \<Rightarrow> Inl (AdapterError (exn_text e)) | Inr s \<Rightarrow> Inr s)"

definition parse_scalar :: "string \<Rightarrow> exn + json" where
  "parse_scalar raw =
     (let raw = strip raw in
      if list_ex (\<lambda>p. starts_with raw p) [''['', ''{'', [CHR 0x22]]
      then (case json_loads raw of
              None \<Rightarrow> Inl (AdapterError (''frontmatter value must use JSON-compatible syntax: '' @ raw))
            | Some v \<Rightarrow> Inr v)
      else if raw = ''true'' \<or> raw = ''false'' then Inr (JBool (raw = ''true''))
      else Inr (JStr raw))"

definition frontmatter_rx :: rx where
  "frontmatter_rx =
     rseq [RTextStart, RLit (''---'' @ [CHR 0x0A]), RGroup 1 (RStarLazy any_char),
           RLit ([CHR 0x0A] @ ''---'' @ [CHR 0x0A]), RGroup 2 (RStar any_char), RTextEnd]"

definition server_rx :: rx where
  "server_rx = rseq [RLit ''  - '', RGroup 1 (rplus (RSet (\<lambda>c. is_alnum c \<or> c = CHR ''_'' \<or> c = CHR ''-''))), RLit '':'']"

primrec server_fields :: "string \<Rightarrow> string list \<Rightarrow> dict \<Rightarrow> exn + dict" where
  "server_fields src [] server = Inr server"
| "server_fields src (l # ls) server =
     (case partition_char (CHR '':'') (strip l) of (key, found, raw) \<Rightarrow>
        if \<not> found then Inl (AdapterError (src @ '': invalid MCP field''))
        else rbnd (parse_scalar raw) (\<lambda>v. server_fields src ls (AList.update key v server)))"

text \<open>The list below \<open>mcpServers:\<close>: the servers, and the lines after it\<close>

definition is_item :: "string \<Rightarrow> bool" where
  "is_item l \<longleftrightarrow> starts_with l ''  - ''"

definition is_field :: "string \<Rightarrow> bool" where
  "is_field l \<longleftrightarrow> starts_with l ''      ''"

function server_list :: "string \<Rightarrow> string list \<Rightarrow> dict \<Rightarrow> exn + dict \<times> string list" where
  "server_list src [] servers = Inr (servers, [])"
| "server_list src (l # ls) servers =
     (if \<not> is_item l then Inr (servers, l # ls)
      else
        case re_fullmatch server_rx l of
          None \<Rightarrow> Inl (AdapterError (src @ '': invalid MCP server declaration''))
        | Some m \<Rightarrow>
            (case server_fields src (takeWhile is_field ls) [] of
               Inl e \<Rightarrow> Inl e
             | Inr server \<Rightarrow>
                 server_list src (dropWhile is_field ls) (AList.update (group_text m 1) (JObj server) servers)))"
  by pat_completeness auto
termination
  by (relation "measure (\<lambda>(src, ls, servers). length ls)") (auto simp: less_Suc_eq_le length_dropWhile_le)

lemma server_list_shrinks: "server_list src ls servers = Inr (servers', rest) \<Longrightarrow> length rest \<le> length ls"
proof (induction src ls servers rule: server_list.induct)
  case (2 src l ls servers)
  then show ?case
    using length_dropWhile_le [of is_field ls] by (force split: if_splits option.splits sum.splits)
qed simp

function frontmatter :: "string \<Rightarrow> string list \<Rightarrow> dict \<Rightarrow> dict \<Rightarrow> exn + dict \<times> dict" where
  "frontmatter src [] header servers = Inr (header, servers)"
| "frontmatter src (l # ls) header servers =
     (if l = ''mcpServers:'' then
        (case server_list src ls servers of
           Inl e \<Rightarrow> Inl e | Inr (servers, rest) \<Rightarrow> frontmatter src rest header servers)
      else if starts_with l '' '' then Inl (AdapterError (src @ '': unsupported nested frontmatter: '' @ l))
      else
        (case partition_char (CHR '':'') l of (key, found, raw) \<Rightarrow>
           if \<not> found then Inl (AdapterError (src @ '': invalid frontmatter line: '' @ l))
           else
             (case parse_scalar raw of
                Inl e \<Rightarrow> Inl e | Inr v \<Rightarrow> frontmatter src ls (AList.update key v header) servers)))"
  by pat_completeness auto
termination
  by (relation "measure (\<lambda>(src, ls, header, servers). length ls)") (auto simp: less_Suc_eq_le dest: server_list_shrinks)

declare server_list.simps [simp del] frontmatter.simps [simp del]

record agent =
  agent_name :: string
  agent_description :: string
  agent_body :: string
  agent_servers :: dict

definition parse_agent :: "adapter_env \<Rightarrow> path \<Rightarrow> fs \<Rightarrow> exn + agent" where
  "parse_agent E p t =
     rbnd (text_of p t) (\<lambda>content.
       case re_match frontmatter_rx content of
         None \<Rightarrow> Inl (AdapterError (shown E p @ '': expected YAML frontmatter''))
       | Some m \<Rightarrow>
           rbnd (frontmatter (shown E p) (splitlines (group_text m 1)) [] []) (\<lambda>(header, servers).
             case (map_of header ''name'', map_of header ''description'') of
               (Some (JStr name), Some (JStr description)) \<Rightarrow>
                 if name \<noteq> path_stem p then Inl (AdapterError (shown E p @ '': name must match filename''))
                 else Inr \<lparr>agent_name = name, agent_description = description,
                           agent_body = rstrip (group_text m 2) @ [CHR 0x0A], agent_servers = servers\<rparr>
             | _ \<Rightarrow> Inl (AdapterError (shown E p @ '': name and description are required''))))"

section \<open>MCP servers\<close>

text \<open>
  \<open>dict(value)\<close>: an object, or a sequence of pairs; a key that is not a string fails here
  although Python would fail with it a little later.
\<close>

definition item_pair :: "json \<Rightarrow> exn + string \<times> json" where
  "item_pair j =
     rbnd (py_iter j) (\<lambda>xs.
       case xs of
         [JStr k, v] \<Rightarrow> Inr (k, v)
       | [_, _] \<Rightarrow> Inl (TypeError ''not a string'')
       | _ \<Rightarrow> Inl (ValueError ''dictionary update sequence element has the wrong length''))"

definition dict_from :: "json \<Rightarrow> exn + dict" where
  "dict_from j =
     (case j of
        JObj d \<Rightarrow> Inr d
      | _ \<Rightarrow> rbnd (py_iter j) (\<lambda>xs. rbnd (rmap item_pair xs) (\<lambda>ps. Inr (dict_of_pairs ps))))"

definition preferred_order :: "string list" where
  "preferred_order =
     [''command'', ''args'', ''url'', ''auth'', ''bearer_token_env_var'', ''cwd'', ''env_vars'', ''env'',
      ''http_headers'', ''env_http_headers'', ''enabled'', ''required'', ''startup_timeout_sec'',
      ''tool_timeout_sec'', ''enabled_tools'', ''disabled_tools'', ''default_tools_approval_mode'',
      ''experimental_environment'']"

definition allowed_fields :: "string list" where
  "allowed_fields =
     [''args'', ''auth'', ''bearer_token_env_var'', ''command'', ''cwd'', ''default_tools_approval_mode'',
      ''disabled_tools'', ''enabled'', ''enabled_tools'', ''env'', ''env_http_headers'', ''env_vars'',
      ''experimental_environment'', ''http_headers'', ''required'', ''startup_timeout_sec'',
      ''tool_timeout_sec'', ''url'']"

definition has_key :: "string \<Rightarrow> dict \<Rightarrow> bool" where
  "has_key k d \<longleftrightarrow> map_of d k \<noteq> None"

definition rename_headers :: "string \<Rightarrow> dict \<Rightarrow> exn + dict" where
  "rename_headers source d =
     (case map_of d ''headers'' of
        None \<Rightarrow> Inr d
      | Some v \<Rightarrow>
          if has_key ''http_headers'' d then Inl (AdapterError (source @ '': use either headers or http_headers''))
          else Inr (AList.update ''http_headers'' v (AList.delete ''headers'' d)))"

definition normalize_mcp :: "json \<Rightarrow> string \<Rightarrow> exn + dict" where
  "normalize_mcp server source =
     rbnd (dict_from server) (\<lambda>given.
       let server_type = jget given ''type''; d = AList.delete ''type'' given in
       if \<not> hashable server_type then Inl (TypeError ''unhashable type'')
       else if server_type \<notin> {JNull, JStr ''stdio'', JStr ''http''}
       then Inl (AdapterError (source @ '': unsupported MCP type '' @ py_repr server_type))
       else
         rbnd (rename_headers source d) (\<lambda>result.
           let unknown = sort (remdups (filter (\<lambda>k. k \<notin> set allowed_fields) (map fst result))) in
           if unknown \<noteq> [] then Inl (AdapterError (source @ '': unsupported MCP fields: '' @ join '', '' unknown))
           else if has_key ''command'' result = has_key ''url'' result
           then Inl (AdapterError (source @ '': exactly one of command or url is required''))
           else Inr result))"

text \<open>One table; the keys in the preferred order\<close>

definition mcp_lines :: "dict \<Rightarrow> exn + string list" where
  "mcp_lines d =
     rmap (\<lambda>key. rbnd (adapter_value (jget d key)) (\<lambda>v. Inr (key @ '' = '' @ v)))
       (filter (\<lambda>key. has_key key d) preferred_order)"

definition render_table :: "dict \<Rightarrow> string \<Rightarrow> exn + string" where
  "render_table servers name =
     rbnd (normalize_mcp (jget servers name) (''MCP server '' @ name)) (\<lambda>d.
     rbnd (adapter_value (JStr name)) (\<lambda>n.
     rbnd (mcp_lines d) (\<lambda>ls.
       Inr (join [CHR 0x0A] ((''[mcp_servers.'' @ n @ '']'') # ls)))))"

definition render_mcp_tables :: "dict \<Rightarrow> exn + string" where
  "render_mcp_tables servers =
     rbnd (rmap (render_table servers) (sort (map fst servers))) (\<lambda>chunks.
       Inr (join [CHR 0x0A, CHR 0x0A] chunks))"

section \<open>The generated files\<close>

type_synonym outputs = "(path \<times> string) list"

definition agent_output :: "adapter_env \<Rightarrow> agent \<Rightarrow> exn + path \<times> string" where
  "agent_output E a =
     rbnd (adapter_value (JStr (agent_name a))) (\<lambda>name.
     rbnd (adapter_value (JStr (agent_description a))) (\<lambda>description.
     rbnd (adapter_value (JStr (agent_body a))) (\<lambda>body.
       let content = [rstrip generated_header, ''name = '' @ name, ''description = '' @ description,
                      ''developer_instructions = '' @ body] in
       rbnd (if agent_servers a = [] then Inr content
             else rbnd (render_mcp_tables (agent_servers a)) (\<lambda>tables. Inr (content @ [[], tables]))) (\<lambda>content.
         Inr (codex_agents E @ [agent_name a @ ''.toml''], join [CHR 0x0A] content @ [CHR 0x0A])))))"

definition config_output :: "dict \<Rightarrow> exn + string" where
  "config_output servers =
     (if servers = [] then Inr generated_header
      else rbnd (render_mcp_tables servers) (\<lambda>tables. Inr (generated_header @ [CHR 0x0A] @ tables @ [CHR 0x0A])))"

definition expected_outputs :: "adapter_env \<Rightarrow> fs \<Rightarrow> exn + outputs" where
  "expected_outputs E t =
     rbnd (rmap (\<lambda>p. rbnd (parse_agent E p t) (agent_output E)) (sort (glob_suffix (claude_agents E) ''.md'' t))) (\<lambda>agents.
     rbnd (text_of (mcp_source E) t) (\<lambda>content.
       case json_loads content of
         None \<Rightarrow> Inl JSONDecodeError
       | Some data \<Rightarrow>
           rbnd (py_get data ''mcpServers'') (\<lambda>servers.
             case servers of
               JObj servers \<Rightarrow>
                 rbnd (config_output servers) (\<lambda>config. Inr (dict_of_pairs (agents @ [(codex_config E, config)])))
             | _ \<Rightarrow> Inl (AdapterError ''.mcp.json: mcpServers must be an object''))))"

definition write_output :: "path \<times> string \<Rightarrow> unit \<Rightarrow> (fs, unit) prog" where
  "write_output po _ = bnd (make_dirs (butlast (fst po))) (\<lambda>_. put_text (fst po) (snd po))"

definition write_outputs :: "adapter_env \<Rightarrow> outputs \<Rightarrow> (fs, unit) prog" where
  "write_outputs E outputs =
     bnd (make_dirs (codex_agents E)) (\<lambda>_.
     bnd (gets (glob_suffix (codex_agents E) ''.toml'')) (\<lambda>present.
     bnd (for_each (filter (\<lambda>p. p \<notin> fst ` set outputs) present) (\<lambda>p _. unlink p) ()) (\<lambda>_.
       for_each outputs write_output ())))"

section \<open>Checks\<close>

definition shared_links :: "adapter_env \<Rightarrow> (path \<times> path) list" where
  "shared_links E =
     [(repo E @ [''AGENTS.md''], repo E @ [''CLAUDE.md'']),
      (repo E @ [''.agents'', ''skills''], repo E @ [''.claude'', ''skills''])]"

definition link_errors :: "adapter_env \<Rightarrow> fs \<Rightarrow> path \<times> path \<Rightarrow> exn + string list" where
  "link_errors E t lt =
     (case lt of (link, target) \<Rightarrow>
        let wrong = [shown E link @ '' must symlink to '' @ shown E target] in
        if \<not> is_symlink link t then Inr wrong
        else rbnd (resolve_path t link) (\<lambda>a. rbnd (resolve_path t target) (\<lambda>b. Inr (if a \<noteq> b then wrong else []))))"

definition legacy_errors :: "adapter_env \<Rightarrow> fs \<Rightarrow> string list" where
  "legacy_errors E t =
     (let legacy = repo E @ [''.codex'', ''skills''] in
      if node_at t legacy \<noteq> None \<or> is_symlink legacy t then [''.codex/skills is legacy; use .agents/skills''] else [])"

definition skill_errors :: "adapter_env \<Rightarrow> fs \<Rightarrow> exn + string list" where
  "skill_errors E t =
     (let skills = repo E @ [''.claude'', ''skills''] in
      if node_at t skills \<noteq> Some NDir then Inl (OSError (path_str skills))
      else
        Inr (concat (map (\<lambda>d. case node_at t (d @ [''SKILL.md'']) of
                 Some (NFile _) \<Rightarrow> [] | _ \<Rightarrow> [shown E d @ '' is missing SKILL.md''])
             (sort (filter (\<lambda>d. node_at t d = Some NDir) (entries_at skills t))))))"

definition instruction_errors :: "string \<Rightarrow> string list" where
  "instruction_errors content =
     (if 24 * 1024 < int (length content) then [''CLAUDE.md exceeds the 24 KiB shared-instruction budget''] else []) @
     (if 300 < int (length (splitlines content)) then [''CLAUDE.md exceeds the 300-line shared-instruction budget''] else [])"

definition link_rx :: rx where
  "link_rx = rseq [RLit ''['', rplus (none_of '']''), RLit ''](''  , RGroup 1 (rplus (none_of '')'')), RLit '')'']"

definition memory_errors :: "adapter_env \<Rightarrow> fs \<Rightarrow> path \<Rightarrow> string \<Rightarrow> string list" where
  "memory_errors E t memory content =
     (if 15 < int (length (splitlines content)) then [''.claude/memory/MEMORY.md exceeds its 15-line budget''] else []) @
     concat (map (\<lambda>target.
         if \<not> contains target ''://'' \<and> node_at t (path_join (butlast memory) target) = None
         then [''MEMORY.md contains a broken link: '' @ target] else [])
       (map (\<lambda>m. group_text m 1) (re_finditer link_rx content)))"

definition validate_shared_surfaces :: "adapter_env \<Rightarrow> fs \<Rightarrow> exn + string list" where
  "validate_shared_surfaces E t =
     (let memory = repo E @ [''.claude'', ''memory'', ''MEMORY.md''] in
      rbnd (rmap (link_errors E t) (shared_links E)) (\<lambda>links.
      rbnd (skill_errors E t) (\<lambda>skills.
      rbnd (text_of (repo E @ [''CLAUDE.md'']) t) (\<lambda>claude_text.
      rbnd (text_of memory t) (\<lambda>memory_text.
        Inr (concat links @ legacy_errors E t @ skills @ instruction_errors claude_text @
             memory_errors E t memory memory_text))))))"

definition output_errors :: "adapter_env \<Rightarrow> fs \<Rightarrow> path \<times> string \<Rightarrow> exn + string list" where
  "output_errors E t po =
     (case po of (p, content) \<Rightarrow>
        if node_at t p = None then Inr [''missing generated adapter: '' @ shown E p]
        else
          rbnd (text_of p t) (\<lambda>found.
            if found \<noteq> content then Inr [''generated adapter is stale: '' @ shown E p]
            else
              (case toml_loads E content of
                 None \<Rightarrow> Inr []
               | Some e \<Rightarrow> Inr [''invalid generated TOML '' @ shown E p @ '': '' @ e])))"

definition stale_errors :: "adapter_env \<Rightarrow> outputs \<Rightarrow> fs \<Rightarrow> string list" where
  "stale_errors E outputs t =
     map (\<lambda>p. ''stale generated agent: '' @ shown E p)
       (sort (remdups (filter (\<lambda>p. p \<notin> fst ` set outputs)
          (if node_at t (codex_agents E) \<noteq> None then glob_suffix (codex_agents E) ''.toml'' t else []))))"

definition check_outputs :: "adapter_env \<Rightarrow> outputs \<Rightarrow> fs \<Rightarrow> exn + string list" where
  "check_outputs E outputs t =
     rbnd (validate_shared_surfaces E t) (\<lambda>shared.
     rbnd (rmap (output_errors E t) outputs) (\<lambda>errors.
       Inr (shared @ stale_errors E outputs t @ concat errors)))"

text \<open>The exit status of the script, with and without \<open>--check\<close>\<close>

definition is_handled :: "exn \<Rightarrow> bool" where
  "is_handled e = (case e of AdapterError _ \<Rightarrow> True | JSONDecodeError \<Rightarrow> True | OSError _ \<Rightarrow> True | _ \<Rightarrow> False)"

definition adapters_main :: "adapter_env \<Rightarrow> bool \<Rightarrow> (fs, nat) prog" where
  "adapters_main E check =
     try_except
       (bnd (gets (expected_outputs E)) (\<lambda>r. bnd (of_result r) (\<lambda>outputs.
          if check then
            bnd (gets (check_outputs E outputs)) (\<lambda>r. bnd (of_result r) (\<lambda>errors. ret (if errors = [] then 0 else 1)))
          else bnd (write_outputs E outputs) (\<lambda>_. ret 0))))
       (\<lambda>e. if is_handled e then ret 1 else raise e)"

section \<open>Normalised servers\<close>

lemma has_key_iff: "has_key k d \<longleftrightarrow> k \<in> fst ` set d"
  by (simp add: has_key_def map_of_eq_None_iff)

lemma rename_headers_Inr:
  assumes "rename_headers src d = Inr r" "distinct (map fst d)"
  shows "distinct (map fst r)" "k \<notin> {''headers'', ''http_headers''} \<Longrightarrow> map_of r k = map_of d k" "\<not> has_key ''headers'' r"
    "map_of r ''http_headers'' = (case map_of d ''headers'' of None \<Rightarrow> map_of d ''http_headers'' | Some v \<Rightarrow> Some v)"
proof -
  have e: "d = r \<and> map_of d ''headers'' = None \<or>
      (\<exists>v. map_of d ''headers'' = Some v \<and> r = AList.update ''http_headers'' v (AList.delete ''headers'' d))"
    using assms(1) by (auto simp: rename_headers_def simp del: map_of_eq_None_iff split: option.splits if_splits)
  then show "distinct (map fst r)" using assms(2) by (auto simp: distinct_update distinct_delete)
  show "k \<notin> {''headers'', ''http_headers''} \<Longrightarrow> map_of r k = map_of d k" "\<not> has_key ''headers'' r"
    "map_of r ''http_headers'' = (case map_of d ''headers'' of None \<Rightarrow> map_of d ''http_headers'' | Some v \<Rightarrow> Some v)"
    using e by (auto simp: has_key_def update_conv' delete_conv' simp del: map_of_eq_None_iff)
qed

lemma sort_Nil_iff [simp]: "sort xs = [] \<longleftrightarrow> xs = []"
  by (metis length_0_conv length_sort)

lemma preferred_allowed: "set allowed_fields = set preferred_order" "distinct preferred_order" "''headers'' \<notin> set preferred_order"
  "''type'' \<notin> set preferred_order"
  by code_simp+

text \<open>
  C35. A server that is accepted has only known fields, each once, exactly one of command and
  url, a known type, and the values it was given, with headers under the name Codex reads;
  and all its fields are rendered, each on one line.
\<close>

theorem accepted_servers_are_typed:
  assumes run: "normalize_mcp server source = Inr d" and "dict_from server = Inr given" "distinct (map fst given)"
  shows "distinct (map fst d) \<and> has_key ''command'' d \<noteq> has_key ''url'' d \<and>
    jget given ''type'' \<in> {JNull, JStr ''stdio'', JStr ''http''} \<and>
    (\<forall>k. map_of d k =
       (if k = ''type'' \<or> k = ''headers'' then None
        else if k = ''http_headers'' \<and> has_key ''headers'' given then map_of given ''headers'' else map_of given k)) \<and>
    distinct (filter (\<lambda>k. has_key k d) preferred_order) \<and> set (filter (\<lambda>k. has_key k d) preferred_order) = fst ` set d"
proof -
  let ?g = "AList.delete ''type'' given"
  have r: "rename_headers source ?g = Inr d" and ty: "jget given ''type'' \<in> {JNull, JStr ''stdio'', JStr ''http''}"
    and known: "\<And>k. k \<in> fst ` set d \<Longrightarrow> k \<in> set preferred_order" and one: "has_key ''command'' d \<noteq> has_key ''url'' d"
    using assms by (simp_all add: normalize_mcp_def rbnd_Inr_iff Let_def filter_empty_conv preferred_allowed(1) split: if_splits) blast+
  have "distinct (map fst ?g)" using assms(3) by (rule distinct_delete)
  note f = rename_headers_Inr [OF r this]
  have "map_of d k =
       (if k = ''type'' \<or> k = ''headers'' then None
        else if k = ''http_headers'' \<and> has_key ''headers'' given then map_of given ''headers'' else map_of given k)" for k
    by (cases "k = ''http_headers''") (use f(2) [of k] f(3,4) in \<open>auto simp: delete_conv' has_key_def split: option.splits\<close>)
  moreover have "set (filter (\<lambda>k. has_key k d) preferred_order) = fst ` set d"
    using known by (auto simp: has_key_iff)
  ultimately show ?thesis using f(1) ty one preferred_allowed(2) by auto
qed

definition demo_server :: json where
  "demo_server = JObj [(''type'', JStr ''http''), (''url'', JStr ''http://doc2:8096/mcp''), (''headers'', JObj [(''X-Key'', JStr ''k'')])]"

theorem accepted_servers_are_typed_witness:
  "\<exists>d. normalize_mcp demo_server ''arr'' = Inr d \<and> map_of d ''http_headers'' = Some (JObj [(''X-Key'', JStr ''k'')])"
proof -
  have d: "dict_from demo_server = Inr (obj_of demo_server)" "distinct (map fst (obj_of demo_server))"
    by (simp_all add: dict_from_def demo_server_def)
  have r: "normalize_mcp demo_server ''arr'' =
      Inr [(''url'', JStr ''http://doc2:8096/mcp''), (''http_headers'', JObj [(''X-Key'', JStr ''k'')])]"
    by code_simp
  show ?thesis
    using r accepted_servers_are_typed [OF r d] by (auto simp: demo_server_def has_key_def)
qed

section \<open>Texts without carriage returns\<close>

text \<open>What is read back is what was written because no generated text has a carriage return.\<close>

definition no_cr :: "string \<Rightarrow> bool" where
  "no_cr s \<longleftrightarrow> CHR 0x0D \<notin> set s"

lemma no_cr_simps [simp]: "no_cr []" "no_cr (c # s) \<longleftrightarrow> c \<noteq> CHR 0x0D \<and> no_cr s" "no_cr (s @ t) \<longleftrightarrow> no_cr s \<and> no_cr t"
  by (auto simp: no_cr_def)

lemma no_cr_join: "no_cr sep \<Longrightarrow> list_all no_cr ts \<Longrightarrow> no_cr (join sep ts)"
  by (induction sep ts rule: join.induct) auto

lemma no_cr_digits: "no_cr (show_nat n)"
  unfolding no_cr_def using show_nat_digits [of "CHR 0x0D" n] by (auto simp: is_digit_def)

lemma no_cr_replicate: "c \<noteq> CHR 0x0D \<Longrightarrow> no_cr (replicate n c)"
  by (simp add: no_cr_def)

lemma no_cr_nibble: "nibble a b c d \<noteq> CHR 0x0D"
  by (cases a; cases b; cases c; cases d) (simp_all add: nibble_def hex_digits_def)

lemma no_cr_esc: "no_cr (esc_char c)"
  by (cases c) (simp add: esc_char_def no_cr_nibble)

lemma no_cr_quote: "no_cr (quote s)"
proof -
  have "no_cr (concat (map esc_char s))" by (induction s) (simp_all add: no_cr_esc)
  then show ?thesis by (simp add: quote_def)
qed

lemma no_cr_value:
  "toml_value v = Inr s \<Longrightarrow> no_cr s" "toml_items vs = Inr ss \<Longrightarrow> list_all no_cr ss" "toml_entries d = Inr ss \<Longrightarrow> list_all no_cr ss"
  by (induction v and vs and d arbitrary: s and ss and ss rule: toml_value_toml_items_toml_entries.induct)
    (auto simp: rbnd_Inr_iff no_cr_quote no_cr_join no_cr_digits no_cr_replicate show_int_def show_dec_def Let_def)

lemma no_cr_adapter_value: "adapter_value v = Inr s \<Longrightarrow> no_cr s"
  using no_cr_value(1) by (auto simp: adapter_value_def split: sum.splits)

lemma no_cr_rmap: "rmap f xs = Inr ys \<Longrightarrow> (\<And>x y. x \<in> set xs \<Longrightarrow> f x = Inr y \<Longrightarrow> no_cr y) \<Longrightarrow> list_all no_cr ys"
proof (induction xs arbitrary: ys)
  case (Cons x xs)
  then obtain y ys' where "f x = Inr y" "rmap f xs = Inr ys'" "ys = y # ys'" by (auto simp: rbnd_Inr_iff)
  moreover have "list_all no_cr ys'" by (rule Cons.IH [OF \<open>rmap f xs = Inr ys'\<close>]) (rule Cons.prems(2), auto)
  moreover have "no_cr y" by (rule Cons.prems(2) [of x]) (simp_all add: \<open>f x = Inr y\<close>)
  ultimately show ?case by simp
qed simp

lemma no_cr_preferred: "list_all no_cr preferred_order"
  by code_simp

lemma no_cr_table: "render_table servers name = Inr s \<Longrightarrow> no_cr s"
proof -
  assume "render_table servers name = Inr s"
  then obtain d n ls where n: "adapter_value (JStr name) = Inr n" and l: "mcp_lines d = Inr ls"
    and s: "s = join [CHR 0x0A] ((''[mcp_servers.'' @ n @ '']'') # ls)"
    by (auto simp: render_table_def rbnd_Inr_iff)
  have "list_all no_cr ls"
    by (rule no_cr_rmap [OF l [unfolded mcp_lines_def]])
      (use no_cr_preferred in \<open>auto simp: rbnd_Inr_iff list_all_iff dest: no_cr_adapter_value\<close>)
  then show ?thesis unfolding s by (intro no_cr_join) (simp_all add: no_cr_adapter_value [OF n])
qed

lemma no_cr_tables: "render_mcp_tables servers = Inr s \<Longrightarrow> no_cr s"
  by (auto simp: render_mcp_tables_def rbnd_Inr_iff intro!: no_cr_join no_cr_rmap elim: no_cr_table)

lemma no_cr_header: "no_cr generated_header" "no_cr (rstrip generated_header)"
  by code_simp+

lemma no_cr_agent: "agent_output E a = Inr (p, s) \<Longrightarrow> no_cr s"
  by (auto simp: agent_output_def rbnd_Inr_iff Let_def no_cr_adapter_value no_cr_header no_cr_tables intro!: no_cr_join split: if_splits)

lemma no_cr_config: "config_output servers = Inr s \<Longrightarrow> no_cr s"
  by (auto simp: config_output_def rbnd_Inr_iff no_cr_header no_cr_tables split: if_splits)

section \<open>Repositories without links in the way\<close>

lemma resolve_plain:
  "no_links t (d @ cs) \<Longrightarrow> d \<noteq> [] \<Longrightarrow> ''..'' \<notin> set cs \<Longrightarrow> resolve t b d cs = Some (d @ cs)"
proof (induction cs arbitrary: d)
  case (Cons c cs)
  have p: "prefix (d @ [c]) (d @ c # cs)" by simp
  have "length (d @ [c]) > 1" using Cons.prems(2) by (cases d) auto
  with Cons.prems(1) p have "\<not> fs_is_link t (d @ [c])" by (metis no_links_iff)
  moreover have "resolve t b (d @ [c]) cs = Some (d @ c # cs)"
    using Cons.IH [of "d @ [c]"] Cons.prems(1,3) by simp
  ultimately show ?case using Cons.prems(3) by (auto simp: fs_is_link_def split: option.splits node.splits)
qed simp

definition plain :: "fs \<Rightarrow> path \<Rightarrow> bool" where
  "plain t p \<longleftrightarrow> no_links t p \<and> p \<noteq> [] \<and> hd p = ''/'' \<and> ''..'' \<notin> set p"

lemma resolve_of_plain: "plain t p \<Longrightarrow> resolve t b [''/''] (tl p) = Some p"
  using resolve_plain [of t "[''/'']" "tl p" b] by (cases p) (auto simp: plain_def)

lemma node_at_plain: "plain t p \<Longrightarrow> node_at t p = map_of t p"
  by (simp add: node_at_def resolve_of_plain)

lemma plain_prefix:
  assumes "plain t p" "prefix q p" "q \<noteq> []"
  shows "plain t q"
proof -
  obtain r where p: "p = q @ r" using assms(2) by (auto simp: prefix_def)
  have "no_links t q" using assms(1,2) unfolding plain_def no_links_iff by (meson prefix_order.trans)
  then show ?thesis using assms(1,3) by (simp add: plain_def p)
qed

lemma plain_butlast: "plain t p \<Longrightarrow> 1 < length p \<Longrightarrow> plain t (butlast p)"
  by (rule plain_prefix) (auto simp: prefixeq_butlast simp flip: length_0_conv)

text \<open>
  The directories the generator reads and writes: \<open>ROOT\<close> is resolved, and no link is on the
  way to them or in them.
\<close>

definition codex_dir :: "adapter_env \<Rightarrow> path" where
  "codex_dir E = repo E @ [''.codex'']"

definition sources :: "adapter_env \<Rightarrow> path list" where
  "sources E = [claude_agents E, mcp_source E]"

definition link_free :: "fs \<Rightarrow> path \<Rightarrow> bool" where
  "link_free t d \<longleftrightarrow> list_all (\<lambda>(q, n). \<not> fs_is_link t q \<or> \<not> (prefix q d \<or> prefix d q)) t"

definition plain_repo :: "adapter_env \<Rightarrow> fs \<Rightarrow> bool" where
  "plain_repo E t \<longleftrightarrow> repo E \<noteq> [] \<and> hd (repo E) = ''/'' \<and> ''..'' \<notin> set (repo E) \<and>
     list_all (link_free t) (codex_dir E # sources E)"

lemma link_free_iff: "link_free t d \<longleftrightarrow> (\<forall>q. fs_is_link t q \<longrightarrow> \<not> prefix q d \<and> \<not> prefix d q)"
proof -
  have "\<exists>n. (q, n) \<in> set t" if "fs_is_link t q" for q
    using that by (auto simp: fs_is_link_def dest: map_of_SomeD split: option.splits)
  then show ?thesis by (fastforce simp: link_free_def list_all_iff)
qed

lemma link_free_mono: "link_free t d \<Longrightarrow> (\<And>q. fs_is_link t' q \<Longrightarrow> fs_is_link t q) \<Longrightarrow> link_free t' d"
  by (auto simp: link_free_iff)

lemma plain_below:
  assumes "plain_repo E t" "d \<in> {codex_dir E, claude_agents E, mcp_source E}" "''..'' \<notin> set cs"
  shows "plain t (d @ cs)"
proof -
  have "link_free t d" and r: "repo E \<noteq> []" "hd (repo E) = ''/''" "''..'' \<notin> set (repo E)"
    using assms(1,2) by (auto simp: plain_repo_def sources_def)
  then have "no_links t (d @ cs)" by (auto simp: no_links_iff link_free_iff prefix_append)
  moreover have "d \<noteq> []" "hd d = ''/''" "''..'' \<notin> set d"
    using assms(2) r by (auto simp: codex_dir_def claude_agents_def mcp_source_def)
  ultimately show ?thesis using assms(3) by (simp add: plain_def)
qed

lemma plain_codex:
  assumes "plain_repo E t"
  shows "plain t (codex_dir E)" "plain t (codex_agents E)" "plain t (codex_config E)" "plain t (claude_agents E)" "plain t (mcp_source E)"
    "x \<noteq> ''..'' \<Longrightarrow> plain t (codex_agents E @ [x])" "x \<noteq> ''..'' \<Longrightarrow> plain t (claude_agents E @ [x])"
proof -
  have c: "codex_agents E = codex_dir E @ [''agents'']" "codex_config E = codex_dir E @ [''config.toml'']"
    by (simp_all add: codex_agents_def codex_config_def codex_dir_def)
  have below: "plain t (d @ cs)" if "d \<in> {codex_dir E, claude_agents E, mcp_source E}" "''..'' \<notin> set cs" for d cs
    by (rule plain_below [OF assms that])
  show "plain t (codex_agents E)" "plain t (codex_config E)" unfolding c by (simp_all add: below)
  show "plain t (codex_dir E)" "plain t (claude_agents E)" "plain t (mcp_source E)"
    using below [of _ "[]"] by simp_all
  show "x \<noteq> ''..'' \<Longrightarrow> plain t (codex_agents E @ [x])" "x \<noteq> ''..'' \<Longrightarrow> plain t (claude_agents E @ [x])"
    unfolding c append_assoc by (simp_all add: below)
qed

lemma entries_at_plain: "plain t d \<Longrightarrow> entries_at d t = fs_children t d"
  by (auto simp: entries_at_def resolve_of_plain fs_children_iff path_name_def plain_def intro!: map_idI)

section \<open>Steps of the generator\<close>

text \<open>What is below a directory, in the order of the tree\<close>

definition view :: "path \<Rightarrow> fs \<Rightarrow> fs" where
  "view d t = filter (\<lambda>(q, _). prefix d q) t"

lemma view_update [simp]: "\<not> prefix d k \<Longrightarrow> view d (AList.update k v t) = view d t"
  by (induction t) (auto simp: view_def)

lemma view_delete [simp]: "\<not> prefix d k \<Longrightarrow> view d (AList.delete k t) = view d t"
  by (induction t) (auto simp: view_def)

lemma view_mkdirs:
  assumes "\<not> prefix d p"
  shows "view d (fs_mkdirs p t) = view d t"
proof -
  have "view d (fold (\<lambda>d t. if fs_exists t d then t else AList.update d NDir t) ds t) = view d t"
    if "\<forall>x \<in> set ds. \<not> prefix d x" for ds
    using that by (induction ds arbitrary: t) auto
  moreover have "\<not> prefix d x" if "x \<in> set (tl (prefixes p))" for x
    using that assms by (metis in_set_prefixes list.set_sel(2) list.sel(2) prefix_order.trans)
  ultimately show ?thesis by (simp add: fs_mkdirs_def)
qed

lemma map_of_view: "prefix d q \<Longrightarrow> map_of (view d t) q = map_of t q"
  by (induction t) (auto simp: view_def)

lemma fs_children_view: "fs_children (view d t) d = fs_children t d"
proof -
  have "prefix d q" if "butlast q = d" for q
    using that prefixeq_butlast by blast
  then show ?thesis by (induction t) (auto simp: fs_children_def view_def)
qed

text \<open>A change below \<open>.codex\<close>: nothing the generator reads changes, and no link appears.\<close>

definition below_codex :: "adapter_env \<Rightarrow> fs \<Rightarrow> fs \<Rightarrow> bool" where
  "below_codex E t t' \<longleftrightarrow> (\<forall>q. fs_is_link t' q \<longrightarrow> fs_is_link t q) \<and> (\<forall>d \<in> set (sources E). view d t' = view d t)"

lemma below_codex_refl: "below_codex E t t"
  and below_codex_trans: "below_codex E t t' \<Longrightarrow> below_codex E t' t'' \<Longrightarrow> below_codex E t t''"
  by (auto simp: below_codex_def)

lemma plain_repo_kept: "plain_repo E t \<Longrightarrow> below_codex E t t' \<Longrightarrow> plain_repo E t'"
  unfolding plain_repo_def below_codex_def list_all_iff by (meson link_free_mono)

lemma source_not_below: "d \<in> set (sources E) \<Longrightarrow> prefix q (codex_dir E @ cs) \<Longrightarrow> \<not> prefix d q"
proof
  assume d: "d \<in> set (sources E)" and "prefix q (codex_dir E @ cs)" "prefix d q"
  then have "prefix d (codex_dir E @ cs)" by (metis prefix_order.trans)
  with d show False by (auto simp: sources_def codex_dir_def claude_agents_def mcp_source_def)
qed

lemma below_codex_ops:
  assumes "prefix p (codex_dir E @ cs)"
  shows "below_codex E t (fs_write p c t)" "below_codex E t (fs_unlink p t)" "below_codex E t (fs_mkdirs p t)"
proof -
  have n: "\<not> prefix d p" if "d \<in> set (sources E)" for d by (rule source_not_below [OF that assms])
  have "fs_is_link t q" if "fs_is_link (fs_mkdirs p t) q" for q
    using that by (auto simp: fs_is_link_def map_of_fs_mkdirs split: option.splits if_splits)
  then show "below_codex E t (fs_mkdirs p t)" by (simp add: below_codex_def view_mkdirs n)
  have "fs_is_link t q" if "fs_is_link (fs_write p c t) q \<or> fs_is_link (fs_unlink p t) q" for q
    using that by (auto simp: fs_is_link_def split: if_splits)
  then show "below_codex E t (fs_write p c t)" "below_codex E t (fs_unlink p t)"
    by (simp_all add: below_codex_def fs_write_def fs_unlink_def n)
qed

lemma make_dirs_plain: "plain t p \<Longrightarrow> make_dirs p t = (Inr (), t') \<Longrightarrow> t' = fs_mkdirs p t"
  by (auto simp: make_dirs_def resolve_of_plain split: if_splits)

lemma put_text_plain: "plain t p \<Longrightarrow> put_text p c t = (Inr (), t') \<Longrightarrow> t' = fs_write p c t"
  by (auto simp: put_text_def resolve_of_plain split: if_splits)

lemma unlink_plain: "plain t p \<Longrightarrow> 1 < length p \<Longrightarrow> unlink p t = (Inr (), t') \<Longrightarrow> t' = fs_unlink p t"
  using plain_butlast [of t p]
  by (auto simp: unlink_def entry_def resolve_of_plain path_name_def split: if_splits)

text \<open>The places of the generated files\<close>

definition is_output :: "adapter_env \<Rightarrow> path \<Rightarrow> bool" where
  "is_output E p \<longleftrightarrow> p = codex_config E \<or> (\<exists>x. p = codex_agents E @ [x @ ''.toml''])"

lemma toml_not_up [simp]: "x @ ''.toml'' \<noteq> ''..''"
proof
  assume "x @ ''.toml'' = ''..''"
  then have "length (x @ ''.toml'') = length ''..''" by simp
  then show False by simp
qed

lemma is_output_plain:
  assumes "is_output E p" "plain_repo E t"
  shows "plain t p" "prefix p (codex_dir E @ drop (length (codex_dir E)) p)" "prefix (butlast p) (codex_agents E)"
    "plain t (butlast p)" "p \<notin> set (prefixes (codex_agents E))"
proof -
  show "plain t p" using assms plain_codex [OF assms(2)] by (auto simp: is_output_def)
  moreover show "prefix p (codex_dir E @ drop (length (codex_dir E)) p)"
    using assms(1) by (auto simp: is_output_def codex_config_def codex_agents_def codex_dir_def)
  show "prefix (butlast p) (codex_agents E)"
    using assms(1) by (auto simp: is_output_def codex_config_def codex_agents_def butlast_append)
  show "p \<notin> set (prefixes (codex_agents E))"
    using assms(1) by (auto simp: is_output_def codex_config_def codex_agents_def)
  have "1 < length p" using assms by (cases "repo E") (auto simp: is_output_def codex_config_def codex_agents_def plain_repo_def)
  ultimately show "plain t (butlast p)" using plain_butlast by blast
qed

lemma write_output_run:
  assumes "is_output E p" "plain_repo E t" "write_output (p, c) u t = (Inr v, t')"
  shows "map_of t' p = Some (NFile c)" "below_codex E t t'"
    "q \<noteq> p \<Longrightarrow> q \<notin> set (prefixes (codex_agents E)) \<Longrightarrow> map_of t' q = map_of t q"
proof -
  note o = is_output_plain [OF assms(1,2)]
  have up: "prefix (butlast p) (codex_dir E @ [''agents''])" using o(3) by (simp add: codex_agents_def codex_dir_def)
  obtain t1 where t1: "make_dirs (butlast p) t = (Inr (), t1)" and t': "put_text p c t1 = (Inr (), t')"
    using assms(3) by (auto simp: write_output_def bnd_Inr_iff)
  have m: "t1 = fs_mkdirs (butlast p) t" by (rule make_dirs_plain [OF o(4) t1])
  then have b1: "below_codex E t t1" using below_codex_ops(3) [OF up] by simp
  have w: "t' = fs_write p c t1"
    by (rule put_text_plain [OF _ t']) (rule is_output_plain(1) [OF assms(1) plain_repo_kept [OF assms(2) b1]])
  show "map_of t' p = Some (NFile c)" by (simp add: w)
  show "below_codex E t t'" unfolding w by (rule below_codex_trans [OF b1 below_codex_ops(1) [OF o(2)]])
  assume q: "q \<noteq> p" "q \<notin> set (prefixes (codex_agents E))"
  then have "q \<notin> set (tl (prefixes (butlast p)))"
    using o(3) by (metis in_set_prefixes list.set_sel(2) list.sel(2) prefix_order.trans)
  with q(1) show "map_of t' q = map_of t q" by (simp add: w m map_of_fs_mkdirs)
qed

lemma write_all_run:
  assumes "for_each outs write_output u t = (Inr v, t')" "\<forall>p \<in> fst ` set outs. is_output E p" "plain_repo E t" "distinct (map fst outs)"
  shows "below_codex E t t' \<and> (\<forall>(p, c) \<in> set outs. map_of t' p = Some (NFile c)) \<and>
    (\<forall>q. q \<notin> fst ` set outs \<longrightarrow> q \<notin> set (prefixes (codex_agents E)) \<longrightarrow> map_of t' q = map_of t q)"
  using assms
proof (induction outs arbitrary: t u)
  case (Cons po outs)
  obtain p c where po: "po = (p, c)" by force
  obtain x t1 where t1: "write_output (p, c) u t = (Inr x, t1)" and r: "for_each outs write_output x t1 = (Inr v, t')"
    using Cons.prems(1) by (auto simp: po bnd_Inr_iff)
  have p: "is_output E p" "p \<notin> fst ` set outs" using Cons.prems(2,4) by (auto simp: po)
  note w = write_output_run [OF p(1) Cons.prems(3) t1]
  have k: "plain_repo E t1" by (rule plain_repo_kept [OF Cons.prems(3) w(2)])
  have ih: "below_codex E t1 t' \<and> (\<forall>(p, c) \<in> set outs. map_of t' p = Some (NFile c)) \<and>
    (\<forall>q. q \<notin> fst ` set outs \<longrightarrow> q \<notin> set (prefixes (codex_agents E)) \<longrightarrow> map_of t' q = map_of t1 q)"
    by (rule Cons.IH [OF r _ k]) (use Cons.prems(2,4) in auto)
  have "map_of t' p = Some (NFile c)"
    using ih p(2) is_output_plain(5) [OF p(1) Cons.prems(3)] w(1) by auto
  then show ?case using ih w(2,3) below_codex_trans by (auto simp: po)
qed (simp add: below_codex_refl ret_def)

lemma unlink_all_run:
  assumes "for_each ps (\<lambda>p _. unlink p) u t = (Inr v, t')" "\<forall>p \<in> set ps. is_output E p" "plain_repo E t"
  shows "below_codex E t t' \<and> (\<forall>q. map_of t' q = (if q \<in> set ps then None else map_of t q))"
  using assms
proof (induction ps arbitrary: t u)
  case (Cons p ps)
  obtain x t1 where t1: "unlink p t = (Inr (), t1)" and r: "for_each ps (\<lambda>p _. unlink p) x t1 = (Inr v, t')"
    using Cons.prems(1) by (auto simp: bnd_Inr_iff)
  have p: "is_output E p" using Cons.prems(2) by simp
  note o = is_output_plain [OF p Cons.prems(3)]
  have "1 < length p"
    using p Cons.prems(3) by (cases "repo E") (auto simp: is_output_def codex_config_def codex_agents_def plain_repo_def)
  then have t: "t1 = fs_unlink p t" by (rule unlink_plain [OF o(1) _ t1])
  then have b: "below_codex E t t1" using below_codex_ops(2) [OF o(2)] by simp
  have "below_codex E t1 t' \<and> (\<forall>q. map_of t' q = (if q \<in> set ps then None else map_of t1 q))"
    by (rule Cons.IH [OF r _ plain_repo_kept [OF Cons.prems(3) b]]) (use Cons.prems(2) in auto)
  with b show ?case using below_codex_trans by (auto simp: t)
qed (simp add: below_codex_refl ret_def)

section \<open>Generating, then checking\<close>

lemma glob_plain:
  assumes "plain t d"
  shows "p \<in> set (glob_suffix d sfx t) \<longleftrightarrow> fs_exists t p \<and> (\<exists>x. p = d @ [x] \<and> ends_with x sfx)"
proof -
  have ne: "d \<noteq> []" using assms by (simp add: plain_def)
  have "p \<in> set (glob_suffix d sfx t) \<longleftrightarrow> (fs_exists t p \<and> p \<noteq> [] \<and> p \<noteq> d \<and> butlast p = d) \<and> ends_with (path_name p) sfx"
    using assms by (auto simp: glob_suffix_def entries_at_plain fs_children_iff)
  moreover have "p \<noteq> [] \<and> p \<noteq> d \<and> butlast p = d \<longleftrightarrow> (\<exists>x. p = d @ [x])"
    by (cases p rule: rev_cases) auto
  moreover have "path_name (d @ [x]) = x" for x using ne by (cases d) (auto simp: path_name_def)
  ultimately show ?thesis by auto
qed

lemma glob_codex_output:
  "plain t (codex_agents E) \<Longrightarrow> p \<in> set (glob_suffix (codex_agents E) ''.toml'' t) \<longleftrightarrow>
    fs_exists t p \<and> (\<exists>x. p = codex_agents E @ [x @ ''.toml''])"
  by (auto simp: glob_plain ends_with_suffix)

lemma write_outputs_run:
  assumes run: "write_outputs E outs t = (Inr u, t')" and pr: "plain_repo E t" and d: "distinct (map fst outs)"
    and o: "\<forall>p \<in> fst ` set outs. is_output E p"
  shows "below_codex E t t'" "\<forall>(p, c) \<in> set outs. map_of t' p = Some (NFile c)"
    "\<And>p. p \<in> set (glob_suffix (codex_agents E) ''.toml'' t') \<Longrightarrow> p \<in> fst ` set outs"
proof -
  let ?ca = "codex_agents E"
  obtain t1 where t1: "make_dirs ?ca t = (Inr (), t1)" and rest:
      "bnd (for_each (filter (\<lambda>p. p \<notin> fst ` set outs) (glob_suffix ?ca ''.toml'' t1)) (\<lambda>p _. unlink p) ())
         (\<lambda>_. for_each outs write_output ()) t1 = (Inr u, t')"
    using run by (auto simp: write_outputs_def bnd_Inr_iff gets_def)
  let ?L = "filter (\<lambda>p. p \<notin> fst ` set outs) (glob_suffix ?ca ''.toml'' t1)"
  obtain t2 where t2: "for_each ?L (\<lambda>p _. unlink p) () t1 = (Inr (), t2)" and t': "for_each outs write_output () t2 = (Inr u, t')"
    using rest by (auto simp: bnd_Inr_iff)
  have m: "t1 = fs_mkdirs ?ca t" by (rule make_dirs_plain [OF plain_codex(2) [OF pr] t1])
  have b1: "below_codex E t t1" unfolding m by (rule below_codex_ops(3) [of _ _ "[''agents'']"]) (simp add: codex_agents_def codex_dir_def)
  note p1 = plain_repo_kept [OF pr b1]
  have "\<forall>p \<in> set ?L. is_output E p" using glob_codex_output [OF plain_codex(2) [OF p1]] by (auto simp: is_output_def)
  note u = unlink_all_run [OF t2 this p1]
  note p2 = plain_repo_kept [OF p1 u [THEN conjunct1]]
  note w = write_all_run [OF t' o p2 d]
  show b: "below_codex E t t'" using b1 u w below_codex_trans by blast
  show "\<forall>(p, c) \<in> set outs. map_of t' p = Some (NFile c)" using w by blast
  fix p
  assume "p \<in> set (glob_suffix ?ca ''.toml'' t')"
  then have p: "fs_exists t' p" "\<exists>x. p = ?ca @ [x @ ''.toml'']"
    using glob_codex_output [OF plain_codex(2) [OF plain_repo_kept [OF pr b]]] by auto
  show "p \<in> fst ` set outs"
  proof (rule ccontr)
    assume n: "p \<notin> fst ` set outs"
    moreover have "p \<notin> set (prefixes ?ca)" using p(2) by auto
    ultimately have same: "map_of t' p = map_of t2 p" using w by blast
    then have "map_of t1 p \<noteq> None" "p \<notin> set ?L" using u p(1) by (auto simp: fs_exists_def split: if_splits)
    with n glob_codex_output [OF plain_codex(2) [OF p1]] p(2) show False by (auto simp: fs_exists_def)
  qed
qed

text \<open>What is generated\<close>

lemma rmap_cong: "(\<And>x. x \<in> set xs \<Longrightarrow> f x = g x) \<Longrightarrow> rmap f xs = rmap g xs"
  by (induction xs) auto

lemma set_update_subset: "set (AList.update k v d) \<subseteq> insert (k, v) (set d)"
  by (induction d) auto

lemma dict_of_pairs_facts: "distinct (map fst (dict_of_pairs ps))" "set (dict_of_pairs ps) \<subseteq> set ps"
proof -
  have "distinct (map fst (foldl (\<lambda>d (k, v). AList.update k v d) d ps)) \<and>
      set (foldl (\<lambda>d (k, v). AList.update k v d) d ps) \<subseteq> set d \<union> set ps"
    if "distinct (map fst d)" for d
    using that
  proof (induction ps arbitrary: d)
    case (Cons p ps)
    obtain k v where p: "p = (k, v)" by force
    show ?case using Cons.IH [OF distinct_update [OF Cons.prems], of k v] set_update_subset [of k v d] by (auto simp: p)
  qed simp
  from this [of "[]"] show "distinct (map fst (dict_of_pairs ps))" "set (dict_of_pairs ps) \<subseteq> set ps"
    by (auto simp: dict_of_pairs_def)
qed

lemma expected_outputs_facts:
  assumes "expected_outputs E t = Inr outs"
  shows "distinct (map fst outs)" "\<forall>p \<in> fst ` set outs. is_output E p" "(p, c) \<in> set outs \<Longrightarrow> universal c = c"
proof -
  obtain agents config servers where
    a: "rmap (\<lambda>p. rbnd (parse_agent E p t) (agent_output E)) (sort (glob_suffix (claude_agents E) ''.md'' t)) = Inr agents"
    and c: "config_output servers = Inr config" and o: "outs = dict_of_pairs (agents @ [(codex_config E, config)])"
  proof -
    obtain agents content data js where a: "rmap (\<lambda>p. rbnd (parse_agent E p t) (agent_output E))
          (sort (glob_suffix (claude_agents E) ''.md'' t)) = Inr agents" and "py_get data ''mcpServers'' = Inr js"
      and j: "(case js of JObj servers \<Rightarrow>
            rbnd (config_output servers) (\<lambda>config. Inr (dict_of_pairs (agents @ [(codex_config E, config)])))
          | _ \<Rightarrow> Inl (AdapterError ''.mcp.json: mcpServers must be an object'')) = Inr outs"
      using assms unfolding expected_outputs_def by (auto simp: rbnd_Inr_iff split: option.splits)
    from a j that show thesis by (cases js) (auto simp: rbnd_Inr_iff)
  qed
  have "is_output E p \<and> no_cr s" if "(p, s) \<in> set agents" for p s
  proof -
    obtain q where "rbnd (parse_agent E q t) (agent_output E) = Inr (p, s)"
      using rmap_Inr [OF a] \<open>(p, s) \<in> set agents\<close> by (auto simp: list_all2_conv_all_nth in_set_conv_nth)
    then obtain a where "agent_output E a = Inr (p, s)" by (auto simp: rbnd_Inr_iff)
    then show ?thesis using no_cr_agent by (auto simp: agent_output_def rbnd_Inr_iff Let_def is_output_def)
  qed
  then have "is_output E p \<and> no_cr s" if "(p, s) \<in> set outs" for p s
    using that dict_of_pairs_facts(2) [of "agents @ [(codex_config E, config)]"] no_cr_config [OF c]
    by (auto simp: o is_output_def)
  then show "\<forall>p \<in> fst ` set outs. is_output E p" "(p, c) \<in> set outs \<Longrightarrow> universal c = c"
    using universal_id by (auto simp: no_cr_def)
  show "distinct (map fst outs)" by (simp add: o dict_of_pairs_facts)
qed

lemma text_of_kept:
  assumes "plain_repo E t" "below_codex E t t'" "plain t p" "plain t' p" "d \<in> set (sources E)" "prefix d p"
  shows "text_of p t' = text_of p t"
proof -
  have "view d t' = view d t" using assms(2,5) by (simp add: below_codex_def)
  then have "map_of t' p = map_of t p" using map_of_view [OF assms(6)] by metis
  then show ?thesis using assms(3,4) by (simp add: text_of_def node_at_plain)
qed

lemma expected_outputs_kept:
  assumes pr: "plain_repo E t" and b: "below_codex E t t'"
  shows "expected_outputs E t' = expected_outputs E t"
proof -
  note pr' = plain_repo_kept [OF pr b]
  have v: "view (claude_agents E) t' = view (claude_agents E) t" using b by (simp add: below_codex_def sources_def)
  have g: "glob_suffix (claude_agents E) ''.md'' t' = glob_suffix (claude_agents E) ''.md'' t"
    using fs_children_view [of "claude_agents E" t] fs_children_view [of "claude_agents E" t'] v
    by (simp add: glob_suffix_def entries_at_plain plain_codex(4) [OF pr] plain_codex(4) [OF pr'])
  have "text_of p t' = text_of p t" if p0: "p \<in> set (glob_suffix (claude_agents E) ''.md'' t)" for p
  proof -
    obtain x where p: "p = claude_agents E @ [x]" "ends_with x ''.md''"
      using p0 glob_plain [OF plain_codex(4) [OF pr]] by auto
    then have "x \<noteq> ''..''" by (auto simp: ends_with_def starts_with_def)
    then show ?thesis
      using text_of_kept [OF pr b, of p "claude_agents E"] plain_codex(7) [OF pr] plain_codex(7) [OF pr'] p(1) by (simp add: sources_def)
  qed
  then have "rmap (\<lambda>p. rbnd (parse_agent E p t') (agent_output E)) (sort (glob_suffix (claude_agents E) ''.md'' t)) =
      rmap (\<lambda>p. rbnd (parse_agent E p t) (agent_output E)) (sort (glob_suffix (claude_agents E) ''.md'' t))"
    by (intro rmap_cong) (simp add: parse_agent_def)
  moreover have "text_of (mcp_source E) t' = text_of (mcp_source E) t"
    by (rule text_of_kept [OF pr b plain_codex(5) [OF pr] plain_codex(5) [OF pr'], of "mcp_source E"]) (simp_all add: sources_def)
  ultimately show ?thesis by (simp add: expected_outputs_def g)
qed

text \<open>
  C36. The check passes after the generator: the second run expects the same files, finds each
  of them with its content and no stale one, so that its verdict depends on the shared
  surfaces and on the TOML parser alone.
\<close>

theorem generated_adapters_are_current:
  assumes pr: "plain_repo E t" and run: "adapters_main E False t = (Inr 0, t')"
  shows "\<exists>outs. expected_outputs E t = Inr outs \<and>
    adapters_main E True t' =
      (case validate_shared_surfaces E t' of
         Inl e \<Rightarrow> if is_handled e then Inr 1 else Inl e
       | Inr shared \<Rightarrow> Inr (if shared = [] \<and> list_all (\<lambda>po. toml_loads E (snd po) = None) outs then 0 else 1), t')"
proof -
  obtain outs where e: "expected_outputs E t = Inr outs" and w: "write_outputs E outs t = (Inr (), t')"
    using run by (auto simp: adapters_main_def try_except_def bnd_def gets_def of_result_def ret_def raise_def
        split: sum.splits prod.splits if_splits)
  note f = expected_outputs_facts [OF e]
  note r = write_outputs_run [OF w pr f(1,2)]
  note pr' = plain_repo_kept [OF pr r(1)]
  have e': "expected_outputs E t' = Inr outs" using expected_outputs_kept [OF pr r(1)] e by simp
  have "output_errors E t' po = Inr (case toml_loads E (snd po) of None \<Rightarrow> [] | Some x \<Rightarrow>
      [''invalid generated TOML '' @ shown E (fst po) @ '': '' @ x])" if "po \<in> set outs" for po
  proof -
    have "is_output E (fst po)" using f(2) that by simp
    then have "node_at t' (fst po) = Some (NFile (snd po))"
      using r(2) that is_output_plain(1) [OF _ pr'] by (force simp: node_at_plain)
    then show ?thesis using f(3) that by (cases po) (auto simp: output_errors_def text_of_def split: option.splits)
  qed
  then have o: "rmap (output_errors E t') outs = Inr (map (\<lambda>po. case toml_loads E (snd po) of None \<Rightarrow> [] | Some x \<Rightarrow>
      [''invalid generated TOML '' @ shown E (fst po) @ '': '' @ x]) outs)"
    by (rule rmap_total)
  have s: "stale_errors E outs t' = []" using r(3) by (auto simp: stale_errors_def filter_empty_conv)
  show ?thesis
    using e e' o s
    by (cases "validate_shared_surfaces E t'")
      (auto simp: adapters_main_def check_outputs_def try_except_def bnd_def gets_def of_result_def ret_def raise_def list_all_iff
        split: option.splits)
qed

section \<open>Witness\<close>

definition demo_adapters :: adapter_env where
  "demo_adapters = \<lparr>repo = [''/'', ''repo''], toml_loads = (\<lambda>_. None)\<rparr>"

definition nl_join :: "string list \<Rightarrow> string" where
  "nl_join ls = concat (map (\<lambda>l. l @ [CHR 0x0A]) ls)"

text \<open>One agent with a server, an outdated adapter and a project server\<close>

definition demo_repo :: fs where
  "demo_repo =
     [(claude_agents demo_adapters @ [''arr.md''],
       NFile (nl_join [''---'', ''name: arr'', ''description: Media'', ''mcpServers:'', ''  - arr:'', ''      url: http://x'', ''---'', ''Be kind.''])),
      (mcp_source demo_adapters, NFile (''{'' @ quote ''mcpServers'' @ '': {}}'')),
      (codex_agents demo_adapters @ [''old.toml''], NFile []), ([''/'', ''repo'', ''CLAUDE.md''], NFile ''Rules''),
      ([''/'', ''repo'', ''AGENTS.md''], NLink [''CLAUDE.md'']), ([''/'', ''repo'', ''.claude'', ''skills''], NDir),
      ([''/'', ''repo'', ''.agents'', ''skills''], NLink [''..'', ''.claude'', ''skills'']),
      ([''/'', ''repo'', ''.claude'', ''memory'', ''MEMORY.md''], NFile ''Notes'')]"

lemma demo_generates: "plain_repo demo_adapters demo_repo" "fst (adapters_main demo_adapters False demo_repo) = Inr 0"
  by code_simp+

lemma demo_shared:
  "validate_shared_surfaces demo_adapters (snd (adapters_main demo_adapters False demo_repo)) = Inr []"
  by code_simp

theorem generated_adapters_are_current_witness:
  "fst (adapters_main demo_adapters True (snd (adapters_main demo_adapters False demo_repo))) = Inr 0"
proof -
  have run: "adapters_main demo_adapters False demo_repo = (Inr 0, snd (adapters_main demo_adapters False demo_repo))"
    using demo_generates(2) by (metis prod.collapse)
  have "toml_loads demo_adapters = (\<lambda>_. None)" by (simp add: demo_adapters_def)
  then show ?thesis
    using generated_adapters_are_current [OF demo_generates(1) run] demo_shared by (auto simp: list_all_iff)
qed

end
