(* ===== verification/Mail_Migrate.thy ===== *)
theory Mail_Migrate
  imports Py_Links Py_Dyn
begin

text \<open>
  The migration of a MailStore export into nested Maildirs (eml-to-maildir.py): the byte order
  marks in the headers, the Message-ID as the email package reads it, the identifiers of live
  Maildirs, delivery through \<open>tmp\<close>, and the run that skips what is live or was seen. Which
  files can be read, what a write leaves when it fails, the clock, the random numbers and
  SHA-256 are parameters. Symbolic links among the mail files are not modelled.
\<close>

section \<open>Headers\<close>

definition bom :: string where
  "bom = [CHR 0xEF, CHR 0xBB, CHR 0xBF]"

definition crlf2 :: string where "crlf2 = [CHR 0x0D, CHR 0x0A, CHR 0x0D, CHR 0x0A]"
definition lf2 :: string where "lf2 = [CHR 0x0A, CHR 0x0A]"

definition header_end :: "string \<Rightarrow> nat option" where
  "header_end b = (case find_sub b crlf2 of Some i \<Rightarrow> Some i | None \<Rightarrow> find_sub b lf2)"

definition strip_header_bom :: "string \<Rightarrow> string" where
  "strip_header_bom b =
     (if \<not> contains b bom then b
      else
        case header_end b of
          None \<Rightarrow> replace_all bom [] b
        | Some i \<Rightarrow> replace_all bom [] (take i b) @ drop i b)"

text \<open>
  \<open>BytesParser.parsebytes(..., headersonly=True)\<close>: lines end with CR, LF or both; the headers
  are the lines up to the first that is none; a field is its line and the continuations.
\<close>

fun mail_lines :: "string \<Rightarrow> string \<Rightarrow> string list" where
  "mail_lines cur [] = (if cur = [] then [] else [rev cur])"
| "mail_lines cur (c # cs) =
     (if c = CHR 0x0A then rev (c # cur) # mail_lines [] cs
      else if c = CHR 0x0D \<and> (cs = [] \<or> hd cs \<noteq> CHR 0x0A) then rev (c # cur) # mail_lines [] cs
      else mail_lines (c # cur) cs)"

definition is_field_char :: "char \<Rightarrow> bool" where
  "is_field_char c \<longleftrightarrow> (is_alnum c \<or> is_punct c) \<and> c \<noteq> CHR '':''"

definition is_continuation :: "string \<Rightarrow> bool" where
  "is_continuation l \<longleftrightarrow> l \<noteq> [] \<and> hd l \<in> {CHR '' '', CHR 0x09}"

definition is_header_line :: "string \<Rightarrow> bool" where
  "is_header_line l \<longleftrightarrow>
     starts_with l ''From '' \<or> is_continuation l \<or> starts_with (dropWhile is_field_char l) '':''"

definition source_parse :: "string list \<Rightarrow> string \<times> string" where
  "source_parse ls =
     (case partition_char (CHR '':'') (concat ls) of (name, _, value) \<Rightarrow>
        (name, rstrip_chars [CHR 0x0D, CHR 0x0A]
                 (dropWhile (\<lambda>c. c \<in> {CHR '' '', CHR 0x09, CHR 0x0D, CHR 0x0A}) value)))"

fun header_fields :: "string list \<Rightarrow> string list \<Rightarrow> (string \<times> string) list" where
  "header_fields cur [] = (if cur = [] then [] else [source_parse cur])"
| "header_fields cur (l # ls) =
     (if is_continuation l then header_fields (if cur = [] then [] else cur @ [l]) ls
      else (if cur = [] then [] else [source_parse cur]) @
           header_fields (if starts_with l ''From '' \<or> starts_with l '':'' then [] else [l]) ls)"

definition parse_headers :: "string \<Rightarrow> (string \<times> string) list" where
  "parse_headers b = header_fields [] (takeWhile is_header_line (mail_lines [] b))"

definition get_header :: "string \<Rightarrow> string \<Rightarrow> string option" where
  "get_header name b = map_option snd (find (\<lambda>h. lower (fst h) = lower name) (parse_headers b))"

section \<open>Identifiers\<close>

record 's mail_env =
  sha256 :: "string \<Rightarrow> string"
  can_read :: "path \<Rightarrow> bool"
  store :: "string \<Rightarrow> 's \<Rightarrow> (exn \<times> string) option \<times> 's"
  seconds :: "'s \<Rightarrow> int \<times> 's"
  token_hex :: "'s \<Rightarrow> string \<times> 's"
  randbelow :: "'s \<Rightarrow> int \<times> 's"

definition is_ascii :: "char \<Rightarrow> bool" where
  "is_ascii c = (case c of Char _ _ _ _ _ _ _ b7 \<Rightarrow> \<not> b7)"

definition synthetic_id :: "'s mail_env \<Rightarrow> string \<Rightarrow> string" where
  "synthetic_id E b = ''synthetic-'' @ take 32 (sha256 E (take 4096 b))"

text \<open>A value that is not ASCII is a \<open>Header\<close> object, which has no \<open>strip\<close>.\<close>

definition message_id_for :: "'s mail_env \<Rightarrow> string \<Rightarrow> exn + string" where
  "message_id_for E b =
     (let b = strip_header_bom b in
      case get_header ''Message-ID'' b of
        None \<Rightarrow> Inr (synthetic_id E b)
      | Some mid \<Rightarrow>
          if mid = [] then Inr (synthetic_id E b)
          else if \<not> list_all is_ascii mid then Inl (AttributeError ''Header object has no attribute strip'')
          else Inr (strip (strip_chars ''<>'' (strip mid))))"

text \<open>The header block of a live message, read in blocks of 64 KiB up to four of them\<close>

primrec read_blocks :: "nat \<Rightarrow> string \<Rightarrow> string \<Rightarrow> string" where
  "read_blocks 0 content blob = blob"
| "read_blocks (Suc n) content blob =
     (let chunk = take 65536 (drop (length blob) content) in
      if chunk = [] then blob
      else
        (case header_end (blob @ chunk) of
           Some i \<Rightarrow> take (Suc i) (blob @ chunk)
         | None \<Rightarrow> read_blocks n content (blob @ chunk)))"

definition read_header :: "string \<Rightarrow> string" where
  "read_header content = read_blocks 4 content []"

definition mail_bytes :: "'s mail_env \<Rightarrow> fs \<Rightarrow> path \<Rightarrow> exn + string" where
  "mail_bytes E t p =
     (if can_read E p then case fs_read t p of Some b \<Rightarrow> Inr b | None \<Rightarrow> Inl (OSError (path_str p))
      else Inl (OSError (path_str p)))"

definition maildir_messages :: "fs \<Rightarrow> path \<Rightarrow> path list" where
  "maildir_messages t d = filter (\<lambda>p. path_name (butlast p) \<in> {''cur'', ''new''}) (walk_files t d)"

definition seed_from_maildir :: "'s mail_env \<Rightarrow> fs \<Rightarrow> path \<Rightarrow> string list \<Rightarrow> string list" where
  "seed_from_maildir E t d ids =
     fold (\<lambda>p ids. case rbnd (mail_bytes E t p) (\<lambda>b. message_id_for E (read_header b)) of
               Inl e \<Rightarrow> ids
             | Inr mid \<Rightarrow> if mid \<in> set ids then ids else ids @ [mid])
       (maildir_messages t d) ids"

section \<open>Delivery\<close>

text \<open>The world, with the messages delivered so far\<close>

record 's mailbox =
  outside :: 's
  mail :: fs
  delivered :: "path list"

definition ask_outside :: "('s \<Rightarrow> 'a \<times> 's) \<Rightarrow> ('s mailbox, 'a) prog" where
  "ask_outside f w = (case f (outside w) of (x, s) \<Rightarrow> (Inr x, w\<lparr>outside := s\<rparr>))"

definition make_folder :: "path \<Rightarrow> ('s mailbox, unit) prog" where
  "make_folder p w =
     (if list_ex (fs_is_file (mail w)) (prefixes p) then (Inl (OSError (path_str p)), w)
      else (Inr (), w\<lparr>mail := fs_mkdirs p (mail w)\<rparr>))"

definition ensure_maildir :: "path \<Rightarrow> ('s mailbox, unit) prog" where
  "ensure_maildir folder = for_each [''cur'', ''new'', ''tmp''] (\<lambda>sub _. make_folder (folder @ [sub])) ()"

text \<open>\<open>open(tmp_path, 'wb')\<close> and the write: one that fails leaves a part of the message.\<close>

definition write_message :: "'s mail_env \<Rightarrow> path \<Rightarrow> string \<Rightarrow> ('s mailbox, unit) prog" where
  "write_message E p b w =
     (if fs_is_dir (mail w) p then (Inl (OSError (path_str p)), w)
      else
        (case store E b (outside w) of
           (None, s) \<Rightarrow> (Inr (), w\<lparr>outside := s, mail := fs_write p b (mail w)\<rparr>)
         | (Some (e, part), s) \<Rightarrow> (Inl e, w\<lparr>outside := s, mail := fs_write p part (mail w)\<rparr>)))"

definition rename_message :: "path \<Rightarrow> path \<Rightarrow> ('s mailbox, unit) prog" where
  "rename_message a b w =
     (if fs_is_dir (mail w) b then (Inl (OSError (path_str b)), w)
      else (Inr (), w\<lparr>mail := fs_rename a b (mail w), delivered := delivered w @ [b]\<rparr>))"

definition deliver :: "'s mail_env \<Rightarrow> path \<Rightarrow> string \<Rightarrow> ('s mailbox, path) prog" where
  "deliver E folder b =
     bnd (ensure_maildir folder) (\<lambda>_.
     bnd (ask_outside (seconds E)) (\<lambda>timestamp.
     bnd (ask_outside (token_hex E)) (\<lambda>rand.
     bnd (ask_outside (randbelow E)) (\<lambda>below.
       let base = show_int timestamp @ ''.M'' @ zero_pad 6 below @ ''.maildir-migrate.'' @ rand;
           tmp_path = folder @ [''tmp'', base]; cur_path = folder @ [''cur'', base @ '':2,S''] in
       bnd (write_message E tmp_path b) (\<lambda>_.
       bnd (rename_message tmp_path cur_path) (\<lambda>_. ret cur_path))))))"

section \<open>The run\<close>

definition is_eml :: "path \<Rightarrow> bool" where
  "is_eml p \<longleftrightarrow> ends_with (lower (path_name p)) ''.eml''"

definition walk_eml :: "fs \<Rightarrow> path \<Rightarrow> (path \<times> string list) list" where
  "walk_eml t src = map (\<lambda>p. (p, drop (length src) (butlast p))) (filter is_eml (walk_files t src))"

record tally =
  seen_ids :: "string list"
  folders_seen :: "path list"
  written :: nat
  skipped_dup :: nat
  skipped_live :: nat
  skipped_corrupt :: nat

definition corrupt :: "tally \<Rightarrow> tally" where
  "corrupt c = c\<lparr>skipped_corrupt := Suc (skipped_corrupt c)\<rparr>"

definition migrate_one :: "'s mail_env \<Rightarrow> path \<Rightarrow> bool \<Rightarrow> string list \<Rightarrow> path \<times> string list \<Rightarrow> tally \<Rightarrow> ('s mailbox, tally) prog" where
  "migrate_one E dst dry_run live_ids pp c =
     bnd (gets (\<lambda>w. mail_bytes E (mail w) (fst pp))) (\<lambda>r.
       case r of
         Inl e \<Rightarrow> ret (corrupt c)
       | Inr raw \<Rightarrow>
           (let b = strip_header_bom raw in
            case message_id_for E b of
              Inl e \<Rightarrow> ret (corrupt c)
            | Inr mid \<Rightarrow>
                if mid \<in> set live_ids then ret (c\<lparr>skipped_live := Suc (skipped_live c)\<rparr>)
                else if mid \<in> set (seen_ids c) then ret (c\<lparr>skipped_dup := Suc (skipped_dup c)\<rparr>)
                else
                  (let folder = dst @ snd pp;
                       c = c\<lparr>seen_ids := mid # seen_ids c, folders_seen := List.insert folder (folders_seen c)\<rparr> in
                   if dry_run then ret (c\<lparr>written := Suc (written c)\<rparr>)
                   else
                     bnd (attempt (deliver E folder b)) (\<lambda>d.
                       case d of
                         Inr _ \<Rightarrow> ret (c\<lparr>written := Suc (written c)\<rparr>)
                       | Inl e \<Rightarrow> if is_exception e then ret (corrupt c) else raise e))))"

primrec seed_live :: "'s mail_env \<Rightarrow> fs \<Rightarrow> path list \<Rightarrow> string list \<Rightarrow> string list option" where
  "seed_live E t [] ids = Some ids"
| "seed_live E t (d # ds) ids =
     (if fs_is_dir t d then seed_live E t ds (seed_from_maildir E t d ids) else None)"

text \<open>The exit status, and what the last line of the log counts\<close>

definition migrate :: "'s mail_env \<Rightarrow> path \<Rightarrow> path \<Rightarrow> bool \<Rightarrow> path list \<Rightarrow> ('s mailbox, nat \<times> tally option) prog" where
  "migrate E src dst dry_run dedupe_against =
     bnd (gets mail) (\<lambda>t.
       if \<not> fs_is_dir t src then ret (2, None)
       else
         (case seed_live E t dedupe_against [] of
            None \<Rightarrow> ret (2, None)
          | Some live_ids \<Rightarrow>
              bnd (for_each (walk_eml t src) (migrate_one E dst dry_run live_ids)
                \<lparr>seen_ids = live_ids, folders_seen = [], written = 0, skipped_dup = 0, skipped_live = 0, skipped_corrupt = 0\<rparr>)
                (\<lambda>c. ret (0, Some c))))"

definition migrate_main :: "'s mail_env \<Rightarrow> path \<Rightarrow> path \<Rightarrow> path list \<Rightarrow> bool \<Rightarrow> ('s mailbox, nat \<times> tally option) prog" where
  "migrate_main E src dst dedupe_against dry_run =
     bnd (gets mail) (\<lambda>t.
     bnd (of_result (rmap (resolve_path t) dedupe_against)) (\<lambda>dedupe.
     bnd (of_result (resolve_path t src)) (\<lambda>src.
     bnd (of_result (resolve_path t dst)) (\<lambda>dst.
       migrate E src dst dry_run dedupe))))"

section \<open>What a run changes\<close>

text \<open>
  Messages are only added, below the destination and in \<open>cur\<close>; a file stays as it is unless
  a message takes its name or it is in a \<open>tmp\<close> of the destination.
\<close>

definition in_cur :: "path \<Rightarrow> path \<Rightarrow> bool" where
  "in_cur dst q \<longleftrightarrow> is_relative_to q dst \<and> path_name (butlast q) = ''cur''"

definition in_tmp :: "path \<Rightarrow> path \<Rightarrow> bool" where
  "in_tmp dst q \<longleftrightarrow> is_relative_to q dst \<and> path_name (butlast q) = ''tmp''"

definition carries :: "path \<Rightarrow> 's mailbox \<Rightarrow> 's mailbox \<Rightarrow> bool" where
  "carries dst w w' \<longleftrightarrow>
     (\<exists>ds. delivered w' = delivered w @ ds \<and> (\<forall>q \<in> set ds. in_cur dst q) \<and>
        (\<forall>p n. map_of (mail w) p = Some n \<longrightarrow> p \<notin> set ds \<longrightarrow> \<not> in_tmp dst p \<longrightarrow> map_of (mail w') p = Some n)) \<and>
     (\<forall>p. \<not> is_relative_to p dst \<longrightarrow> fs_read (mail w') p = fs_read (mail w) p)"

lemma carries_refl: "carries dst w w"
  by (simp add: carries_def)

lemma carries_trans: "carries dst a b \<Longrightarrow> carries dst b c \<Longrightarrow> carries dst a c"
  unfolding carries_def
proof (elim conjE exE, intro conjI)
  fix ds es
  assume d: "delivered b = delivered a @ ds" "\<forall>q \<in> set ds. in_cur dst q"
      "\<forall>p n. map_of (mail a) p = Some n \<longrightarrow> p \<notin> set ds \<longrightarrow> \<not> in_tmp dst p \<longrightarrow> map_of (mail b) p = Some n"
    and e: "delivered c = delivered b @ es" "\<forall>q \<in> set es. in_cur dst q"
      "\<forall>p n. map_of (mail b) p = Some n \<longrightarrow> p \<notin> set es \<longrightarrow> \<not> in_tmp dst p \<longrightarrow> map_of (mail c) p = Some n"
  show "\<exists>ds. delivered c = delivered a @ ds \<and> (\<forall>q \<in> set ds. in_cur dst q) \<and>
      (\<forall>p n. map_of (mail a) p = Some n \<longrightarrow> p \<notin> set ds \<longrightarrow> \<not> in_tmp dst p \<longrightarrow> map_of (mail c) p = Some n)"
    by (rule exI [of _ "ds @ es"]) (use d e in auto)
qed auto

interpretation carrying: step_relation "carries dst"
  by unfold_locales (auto intro: carries_refl carries_trans)

lemma carries_same: "mail w' = mail w \<Longrightarrow> delivered w' = delivered w \<Longrightarrow> carries dst w w'"
  by (simp add: carries_def)

lemma make_folder_carries: "keeps (carries dst) (make_folder p)"
proof -
  have "fs_read (fs_mkdirs p t) q = fs_read t q" for t q by simp
  then show ?thesis by (auto simp: keeps_def make_folder_def carries_refl carries_def map_of_fs_mkdirs)
qed

lemma ask_outside_carries: "keeps (carries dst) (ask_outside f)"
  by (auto simp: keeps_def ask_outside_def split: prod.splits intro!: carries_same)

lemma write_message_carries:
  assumes "in_tmp dst p"
  shows "keeps (carries dst) (write_message E p b)"
  using assms
  by (auto simp: keeps_def write_message_def carries_refl carries_def in_tmp_def split: prod.splits option.splits)

lemma rename_message_carries:
  assumes "in_tmp dst a" "in_cur dst b"
  shows "keeps (carries dst) (rename_message a b :: ('s mailbox, unit) prog)"
proof -
  have "carries dst w (w\<lparr>mail := fs_rename a b (mail w), delivered := delivered w @ [b]\<rparr>)" for w :: "'s mailbox"
    unfolding carries_def
    using assms by (auto simp: map_of_fs_rename fs_read_def in_tmp_def in_cur_def split: option.splits)
  then show ?thesis by (simp add: keeps_def rename_message_def carries_refl)
qed

lemma folder_places:
  assumes "is_relative_to folder dst" "folder \<noteq> []"
  shows "in_tmp dst (folder @ [''tmp'', x])" "in_cur dst (folder @ [''cur'', x])"
  using assms by (auto simp: in_tmp_def in_cur_def path_name_def is_relative_to_prefix butlast_append)

lemma deliver_carries: "is_relative_to folder dst \<Longrightarrow> folder \<noteq> [] \<Longrightarrow> keeps (carries dst) (deliver E folder b)"
  unfolding deliver_def ensure_maildir_def Let_def
  by (intro carrying.seq carrying.pure carrying.loop make_folder_carries ask_outside_carries write_message_carries
      rename_message_carries folder_places)

lemma ensure_delivered: "ensure_maildir folder w = (r, w') \<Longrightarrow> delivered w' = delivered w"
proof -
  have "keeps (\<lambda>a b. delivered b = delivered a) (ensure_maildir folder)"
    unfolding ensure_maildir_def
    by (rule keeps_for_each) (auto simp: reflp_def transp_def keeps_def make_folder_def)
  then show "ensure_maildir folder w = (r, w') \<Longrightarrow> delivered w' = delivered w" using keepsD by fast
qed

lemma deliver_done:
  assumes "deliver E folder b w = (Inr q, w')" and folder: "is_relative_to folder dst" "folder \<noteq> []"
  shows "map_of (mail w') q = Some (NFile b)" "delivered w' = delivered w @ [q]" "in_cur dst q"
proof -
  let ?tmp = "\<lambda>x. folder @ [''tmp'', x]" and ?cur = "\<lambda>x. folder @ [''cur'', x]"
  obtain w0 wa wb w1 w2 x y where e: "ensure_maildir folder w = (Inr (), w0)"
    and o: "\<exists>t. ask_outside (seconds E) w0 = (Inr t, wa)" "\<exists>t. ask_outside (token_hex E) wa = (Inr t, wb)"
      "\<exists>t. ask_outside (randbelow E) wb = (Inr t, w1)"
    and w: "write_message E (?tmp x) b w1 = (Inr (), w2)" and r: "rename_message (?tmp x) (?cur y) w2 = (Inr (), w')"
    and q: "q = ?cur y"
    using assms(1) unfolding deliver_def Let_def bnd_Inr_iff by (auto simp: ret_def)
  have d: "delivered w1 = delivered w"
    using o ensure_delivered [OF e] by (auto simp: ask_outside_def split: prod.splits)
  have m: "map_of (mail w2) (?tmp x) = Some (NFile b)" "delivered w2 = delivered w"
    using w d by (auto simp: write_message_def split: if_splits prod.splits option.splits)
  show "map_of (mail w') q = Some (NFile b)" "delivered w' = delivered w @ [q]"
    using r m by (auto simp: rename_message_def q map_of_fs_rename split: if_splits)
  show "in_cur dst q" unfolding q by (rule folder_places [OF folder])
qed

section \<open>One message\<close>

lemma read_kept: "carries dst w w' \<Longrightarrow> \<not> is_relative_to p dst \<Longrightarrow> mail_bytes E (mail w') p = mail_bytes E (mail w) p"
  by (simp add: carries_def mail_bytes_def)

lemma migrate_one_carries:
  assumes "is_relative_to (dst @ parts) dst" "dst \<noteq> []"
  shows "keeps (carries dst) (migrate_one E dst dry live (p, parts) c)"
  unfolding migrate_one_def Let_def
  by (auto simp: assms split: sum.split intro!: carrying.seq carrying.pure keeps_attempt deliver_carries)

text \<open>How one message can end\<close>

lemma migrate_one_run:
  assumes "migrate_one E dst False live (p, parts) c w = (Inr c', w')" and dst: "dst \<noteq> []"
  obtains (spoilt) "skipped_corrupt c' = Suc (skipped_corrupt c)"
  | (live) b mid where "mail_bytes E (mail w) p = Inr b" "message_id_for E (strip_header_bom b) = Inr mid" "mid \<in> set live"
      "c' = c\<lparr>skipped_live := Suc (skipped_live c)\<rparr>" "w' = w"
  | (dup) b mid where "mail_bytes E (mail w) p = Inr b" "message_id_for E (strip_header_bom b) = Inr mid" "mid \<in> set (seen_ids c)"
      "c' = c\<lparr>skipped_dup := Suc (skipped_dup c)\<rparr>" "w' = w"
  | (stored) b mid q where "mail_bytes E (mail w) p = Inr b" "message_id_for E (strip_header_bom b) = Inr mid"
      "mid \<notin> set (seen_ids c)" "mid \<notin> set live" "seen_ids c' = mid # seen_ids c" "written c' = Suc (written c)"
      "skipped_live c' = skipped_live c" "skipped_dup c' = skipped_dup c" "skipped_corrupt c' = skipped_corrupt c"
      "map_of (mail w') q = Some (NFile (strip_header_bom b))" "delivered w' = delivered w @ [q]" "in_cur dst q"
proof (cases "mail_bytes E (mail w) p")
  case (Inl e)
  then show thesis using assms(1) that(1) by (auto simp: migrate_one_def bnd_Inr_iff gets_def ret_def corrupt_def)
next
  case raw: (Inr b)
  let ?b = "strip_header_bom b"
  note d = assms(1) [unfolded migrate_one_def, simplified, unfolded bnd_Inr_iff gets_def, simplified, simplified raw, simplified Let_def sum.case]
  show thesis
  proof (cases "message_id_for E ?b")
    case (Inl e)
    then show thesis using d that(1) by (auto simp: ret_def corrupt_def)
  next
    case id: (Inr mid)
    consider "mid \<in> set live" | "mid \<notin> set live" "mid \<in> set (seen_ids c)" | "mid \<notin> set live" "mid \<notin> set (seen_ids c)" by blast
    then show thesis
    proof cases
      case 1
      with d id show thesis by (intro that(2) [OF raw id]) (auto simp: ret_def)
    next
      case 2
      with d id show thesis by (intro that(3) [OF raw id]) (auto simp: ret_def)
    next
      case 3
      let ?folder = "dst @ parts"
      have f: "is_relative_to ?folder dst" "?folder \<noteq> []" using dst by (simp_all add: is_relative_to_prefix)
      obtain x where x: "deliver E ?folder ?b w = (x, w')"
          "(case x of Inr _ \<Rightarrow> written c' = Suc (written c) \<and> skipped_corrupt c' = skipped_corrupt c
            | Inl e \<Rightarrow> skipped_corrupt c' = Suc (skipped_corrupt c))"
          "seen_ids c' = mid # seen_ids c" "skipped_live c' = skipped_live c" "skipped_dup c' = skipped_dup c"
        using d id 3
        by (auto simp: bnd_Inr_iff attempt_def ret_def raise_def corrupt_def split: prod.splits sum.splits if_splits)
      show thesis
      proof (cases x)
        case (Inl e)
        then show thesis using x(2) that(1) by simp
      next
        case (Inr q)
        note dd = deliver_done [OF x(1) [unfolded Inr] f]
        show thesis by (rule that(4) [OF raw id 3(2,1) x(3) _ x(4,5) _ dd]) (use x(2) Inr in auto)
      qed
    qed
  qed
qed

section \<open>The whole export\<close>

text \<open>A delivered file whose content has an identifier, and what the tally of a run says\<close>

definition holds_id :: "'s mail_env \<Rightarrow> fs \<Rightarrow> path \<Rightarrow> string \<Rightarrow> bool" where
  "holds_id E t q mid \<longleftrightarrow> (\<exists>x. map_of t q = Some (NFile x) \<and> message_id_for E x = Inr mid)"

definition tallied :: "'s mail_env \<Rightarrow> path \<Rightarrow> string list \<Rightarrow> tally \<Rightarrow> 's mailbox \<Rightarrow> bool" where
  "tallied E dst live c w \<longleftrightarrow>
     (\<exists>ids. seen_ids c = ids @ live \<and> distinct ids \<and> set ids \<inter> set live = {} \<and> written c = length ids \<and>
        list_all2 (holds_id E (mail w)) (delivered w) (rev ids)) \<and> (\<forall>q \<in> set (delivered w). in_cur dst q)"

lemma tallied_stored:
  assumes t: "tallied E dst live c w" and k: "carries dst w w'" and d: "delivered w' = delivered w @ [q]" "in_cur dst q" "distinct (delivered w')"
    and m: "map_of (mail w') q = Some (NFile x)" "message_id_for E x = Inr mid"
    and n: "mid \<notin> set (seen_ids c)" "seen_ids c' = mid # seen_ids c" "written c' = Suc (written c)"
  shows "tallied E dst live c' w'"
proof -
  obtain ids where i: "seen_ids c = ids @ live" "distinct ids" "set ids \<inter> set live = {}" "written c = length ids"
      "list_all2 (holds_id E (mail w)) (delivered w) (rev ids)" and cur: "\<forall>q \<in> set (delivered w). in_cur dst q"
    using t by (auto simp: tallied_def)
  have "holds_id E (mail w') r i" if "holds_id E (mail w) r i" "r \<in> set (delivered w)" for r i
  proof -
    have "in_cur dst r" "r \<noteq> q" using that(2) cur d(1,3) by auto
    then have "\<not> in_tmp dst r" by (simp add: in_cur_def in_tmp_def)
    moreover obtain ds where "delivered w' = delivered w @ ds" and
        "\<forall>p n. map_of (mail w) p = Some n \<longrightarrow> p \<notin> set ds \<longrightarrow> \<not> in_tmp dst p \<longrightarrow> map_of (mail w') p = Some n"
      using k by (auto simp: carries_def)
    ultimately show ?thesis using that(1) d(1) \<open>r \<noteq> q\<close> by (auto simp: holds_id_def)
  qed
  then have "list_all2 (holds_id E (mail w')) (delivered w) (rev ids)"
    using i(5) by (auto simp: list_all2_conv_all_nth)
  then have "list_all2 (holds_id E (mail w')) (delivered w') (rev (mid # ids))"
    using m by (auto simp: d(1) holds_id_def intro!: list_all2_appendI)
  then show ?thesis
    unfolding tallied_def using i n cur d(1,2) by (intro conjI exI [of _ "mid # ids"]) auto
qed

definition settled_id :: "'s mail_env \<Rightarrow> fs \<Rightarrow> string list \<Rightarrow> path \<Rightarrow> bool" where
  "settled_id E t ids p \<longleftrightarrow>
     (\<exists>b mid. mail_bytes E t p = Inr b \<and> message_id_for E (strip_header_bom b) = Inr mid \<and> mid \<in> set ids)"

lemma corrupt_grows:
  "migrate_one E dst False live pp c w = (Inr c', w') \<Longrightarrow> dst \<noteq> [] \<Longrightarrow> skipped_corrupt c \<le> skipped_corrupt c'"
proof -
  assume a: "migrate_one E dst False live pp c w = (Inr c', w')" "dst \<noteq> []"
  obtain p parts where "pp = (p, parts)" by force
  from migrate_one_run [OF a(1) [unfolded this] a(2)] show ?thesis by cases auto
qed

lemma corrupt_grows_all:
  "for_each pps (migrate_one E dst False live) c w = (Inr c', w') \<Longrightarrow> dst \<noteq> [] \<Longrightarrow> skipped_corrupt c \<le> skipped_corrupt c'"
proof (induction pps arbitrary: c w)
  case (Cons pp pps)
  then obtain c1 w1 where one: "migrate_one E dst False live pp c w = (Inr c1, w1)"
      "for_each pps (migrate_one E dst False live) c1 w1 = (Inr c', w')" by (auto simp: bnd_Inr_iff)
  then show ?case using Cons.IH [of c1 w1] Cons.prems(2) corrupt_grows [of E dst live pp c w c1 w1] by linarith
qed (simp add: ret_def)

lemma migrate_all_run:
  assumes "for_each pps (migrate_one E dst False live) c w = (Inr c', w')" and dst: "dst \<noteq> []"
    and "\<forall>pp \<in> set pps. \<not> is_relative_to (fst pp) dst" "skipped_corrupt c' = 0" "distinct (delivered w')" "tallied E dst live c w"
  shows "carries dst w w' \<and> tallied E dst live c' w' \<and> set (seen_ids c) \<subseteq> set (seen_ids c') \<and>
    (\<forall>pp \<in> set pps. settled_id E (mail w) (seen_ids c') (fst pp)) \<and>
    written c' + skipped_live c' + skipped_dup c' = written c + skipped_live c + skipped_dup c + length pps"
  using assms
proof (induction pps arbitrary: c w)
  case (Cons pp pps)
  obtain p parts where pp: "pp = (p, parts)" by force
  obtain c1 w1 where one: "migrate_one E dst False live (p, parts) c w = (Inr c1, w1)"
    and rest: "for_each pps (migrate_one E dst False live) c1 w1 = (Inr c', w')"
    using Cons.prems(1) by (auto simp: pp bnd_Inr_iff)
  have zero: "skipped_corrupt c1 = 0" using corrupt_grows_all [OF rest dst] Cons.prems(4) by simp
  have k: "carries dst w w1"
    using keepsD [OF migrate_one_carries one] dst by (simp add: is_relative_to_prefix)
  have "carries dst w1 w'"
    using keepsD [OF carrying.loop rest] migrate_one_carries dst by (metis is_relative_to_prefix prefixI surj_pair)
  then obtain ds where ds: "delivered w' = delivered w1 @ ds" by (auto simp: carries_def)
  have dist: "distinct (delivered w1)" using Cons.prems(5) ds by simp
  have live: "set live \<subseteq> set (seen_ids c)" using Cons.prems(6) by (auto simp: tallied_def)
  have step: "tallied E dst live c1 w1 \<and> set (seen_ids c) \<subseteq> set (seen_ids c1) \<and> settled_id E (mail w) (seen_ids c1) p \<and>
      written c1 + skipped_live c1 + skipped_dup c1 = Suc (written c + skipped_live c + skipped_dup c)"
    using one dst
  proof (cases rule: migrate_one_run)
    case spoilt
    with zero show ?thesis by simp
  next
    case (live b mid)
    then show ?thesis using \<open>set live \<subseteq> set (seen_ids c)\<close> Cons.prems(6) by (auto simp: settled_id_def tallied_def)
  next
    case (dup b mid)
    then show ?thesis using Cons.prems(6) by (auto simp: settled_id_def tallied_def)
  next
    case (stored b mid q)
    have "tallied E dst live c1 w1"
      by (rule tallied_stored [OF Cons.prems(6) k stored(11,12) dist stored(10,2,3,5,6)])
    then show ?thesis using stored by (auto simp: settled_id_def)
  qed
  have ih: "carries dst w1 w' \<and> tallied E dst live c' w' \<and> set (seen_ids c1) \<subseteq> set (seen_ids c') \<and>
    (\<forall>pp \<in> set pps. settled_id E (mail w1) (seen_ids c') (fst pp)) \<and>
    written c' + skipped_live c' + skipped_dup c' = written c1 + skipped_live c1 + skipped_dup c1 + length pps"
    by (rule Cons.IH [OF rest dst _ Cons.prems(4,5)]) (use Cons.prems(3) step in auto)
  have "settled_id E (mail w) (seen_ids c') (fst x)" if "x \<in> set pps" for x
  proof -
    have "mail_bytes E (mail w1) (fst x) = mail_bytes E (mail w) (fst x)" using read_kept [OF k] Cons.prems(3) that by auto
    moreover have "settled_id E (mail w1) (seen_ids c') (fst x)" using ih that by blast
    ultimately show ?thesis by (simp add: settled_id_def)
  qed
  moreover have "settled_id E (mail w) (seen_ids c') p" using step ih by (auto simp: settled_id_def)
  ultimately show ?case using ih step carries_trans [OF k] by (auto simp: pp)
qed (simp add: ret_def carries_refl)

text \<open>
  C37. A migration that counts nothing as corrupt is complete and free of duplicates: every
  message of the export is live already or its identifier is in one of the delivered files,
  each of which has an identifier of its own that is not live; and every message is counted
  once. No file outside the destination changes.
\<close>

theorem migrated_mail_is_complete:
  assumes "separate src dst" "dst \<noteq> []" and run: "migrate E src dst False live_dirs w = (Inr (code, Some c), w')"
    and "skipped_corrupt c = 0" "distinct (delivered w')" "delivered w = []"
  shows "\<exists>live ids. code = 0 \<and> seed_live E (mail w) live_dirs [] = Some live \<and>
    distinct ids \<and> set ids \<inter> set live = {} \<and> list_all2 (holds_id E (mail w')) (delivered w') ids \<and>
    (\<forall>pp \<in> set (walk_eml (mail w) src). settled_id E (mail w) (ids @ live) (fst pp)) \<and>
    length ids + skipped_live c + skipped_dup c = length (walk_eml (mail w) src) \<and>
    (\<forall>p. \<not> is_relative_to p dst \<longrightarrow> fs_read (mail w') p = fs_read (mail w) p)"
proof -
  let ?pps = "walk_eml (mail w) src"
  obtain live where live: "seed_live E (mail w) live_dirs [] = Some live" and code: "code = 0"
    and loop: "for_each ?pps (migrate_one E dst False live)
      \<lparr>seen_ids = live, folders_seen = [], written = 0, skipped_dup = 0, skipped_live = 0, skipped_corrupt = 0\<rparr> w = (Inr c, w')"
    using run by (auto simp: migrate_def bnd_Inr_iff gets_def ret_def split: option.splits if_splits)
  have out: "\<forall>pp \<in> set ?pps. \<not> is_relative_to (fst pp) dst"
    using separate_below [OF assms(1)] by (auto simp: walk_eml_def walk_files_def dest: fs_below_relative)
  note r = migrate_all_run [OF loop assms(2) out assms(4,5)]
  have "carries dst w w' \<and> tallied E dst live c w' \<and> (\<forall>pp \<in> set ?pps. settled_id E (mail w) (seen_ids c) (fst pp)) \<and>
      written c + skipped_live c + skipped_dup c = length ?pps"
    using r by (auto simp: tallied_def assms(6))
  then obtain ids where "seen_ids c = ids @ live" "distinct ids" "set ids \<inter> set live = {}" "written c = length ids"
      "list_all2 (holds_id E (mail w')) (delivered w') (rev ids)"
      "\<forall>pp \<in> set ?pps. settled_id E (mail w) (ids @ live) (fst pp)" "length ids + skipped_live c + skipped_dup c = length ?pps"
      "\<forall>p. \<not> is_relative_to p dst \<longrightarrow> fs_read (mail w') p = fs_read (mail w) p"
    by (auto simp: tallied_def carries_def)
  then show ?thesis
    using live code by (intro exI [of _ live] exI [of _ "rev ids"]) (auto simp: settled_id_def)
qed

section \<open>Witness and a flaw\<close>

text \<open>Random numbers as a counter; the first \<open>fails\<close> writes fail\<close>

definition demo_mail_env :: "nat \<Rightarrow> nat mail_env" where
  "demo_mail_env fails =
     \<lparr>sha256 = (\<lambda>s. s), can_read = (\<lambda>p. True),
      store = (\<lambda>b s. (if s \<le> fails then Some (OSError ''No space left on device'', []) else None, s)),
      seconds = (\<lambda>s. (7, s)), token_hex = (\<lambda>s. (replicate s (CHR ''a''), Suc s)), randbelow = (\<lambda>s. (7, s))\<rparr>"

definition letter :: "string \<Rightarrow> string" where
  "letter mid = ''Message-ID: <'' @ mid @ ''>'' @ [CHR 0x0A, CHR 0x0A] @ ''Hi''"

definition mail_src :: path where "mail_src = [''/'', ''export'']"
definition mail_dst :: path where "mail_dst = [''/'', ''archive'']"

text \<open>Two copies of one message in different folders, and a byte order mark in the second\<close>

definition demo_mailbox :: "nat mailbox" where
  "demo_mailbox = \<lparr>outside = 0, mail = [(mail_src, NDir), (mail_src @ [''Inbox'', ''a.eml''], NFile (letter ''m1'')),
     (mail_src @ [''Work'', ''b.EML''], NFile (bom @ letter ''m1'')), (mail_src @ [''c.eml''], NFile (letter ''m2''))], delivered = []\<rparr>"

lemma demo_migration:
  "fst (migrate (demo_mail_env 0) mail_src mail_dst False [] demo_mailbox) =
     Inr (0, Some \<lparr>seen_ids = [''m2'', ''m1''], folders_seen = [mail_dst, mail_dst @ [''Inbox'']], written = 2, skipped_dup = 1,
       skipped_live = 0, skipped_corrupt = 0\<rparr>)"
  by code_simp

lemma demo_deliveries: "distinct (delivered (snd (migrate (demo_mail_env 0) mail_src mail_dst False [] demo_mailbox)))"
  by code_simp

theorem migrated_mail_is_complete_witness:
  "length (delivered (snd (migrate (demo_mail_env 0) mail_src mail_dst False [] demo_mailbox))) = 2"
proof -
  let ?r = "migrate (demo_mail_env 0) mail_src mail_dst False [] demo_mailbox"
  have run: "?r = (Inr (0, Some \<lparr>seen_ids = [''m2'', ''m1''], folders_seen = [mail_dst, mail_dst @ [''Inbox'']], written = 2,
      skipped_dup = 1, skipped_live = 0, skipped_corrupt = 0\<rparr>), snd ?r)"
    using demo_migration by (metis prod.collapse)
  have n: "length (walk_eml (mail demo_mailbox) mail_src) = 3" by code_simp
  have s: "separate mail_src mail_dst" "mail_dst \<noteq> []" by (simp_all add: separate_def is_relative_to_def mail_src_def mail_dst_def)
  from migrated_mail_is_complete [OF s run _ demo_deliveries] n show ?thesis
    by (auto simp: demo_mailbox_def dest!: list_all2_lengthD)
qed

text \<open>
  An identifier counts as seen before its message is delivered: when the first copy cannot be
  written, the second is skipped as its duplicate, and the message is not in the archive.
\<close>

lemma failed_copy_hides_the_next:
  "case migrate (demo_mail_env 1) mail_src mail_dst False []
      (demo_mailbox\<lparr>mail := take 3 (mail demo_mailbox)\<rparr>) of
    (Inr (code, Some c), w) \<Rightarrow> code = 0 \<and> delivered w = [] \<and> skipped_dup c = 1 \<and> skipped_corrupt c = 1
  | _ \<Rightarrow> False"
  by code_simp

end
