(* ===== verification/Shelf_Bridge.thy ===== *)
theory Shelf_Bridge
  imports Py_Links Py_Dyn
begin

text \<open>
  The bridge that copies acquired ebooks into Calibre (shelfarr-calibre.py): the acquired
  books, their files, the snapshot of a file that refuses links and changes, the receipts and
  the scan of Komga. SQLite as a service, the open file, calibredb, the web server, the clock
  and SHA-256 are parameters; the receipts and the ebook tree are state. Messages are left out.
\<close>

section \<open>State\<close>

record acquired =
  book_id :: int
  book_title :: string
  book_author :: "string option"
  file_path :: string

type_synonym import_key = "int \<times> string \<times> string"
type_synonym file_key = "int \<times> string \<times> int \<times> int"

record receipts =
  imported :: "import_key list"
  pending_scan :: bool
  file_rows :: "file_key list"

text \<open>What the query of acquired books can end with\<close>

datatype db_error = CantOpen | Busy | OtherError string

text \<open>A file that was opened: whether it is regular, its size, its blocks, whether its times stayed the same\<close>

record opened =
  is_regular :: bool
  size_before :: int
  blocks :: "string list"
  size_after :: int
  same_times :: bool

record 's shelf_env =
  query_books :: "'s \<Rightarrow> (db_error + acquired list) \<times> 's"
  monotonic :: "'s \<Rightarrow> int \<times> 's"
  sleep_second :: "'s \<Rightarrow> 's"
  lstat :: "path \<Rightarrow> 's \<Rightarrow> (exn + int \<times> int) \<times> 's"
  open_file :: "path \<Rightarrow> 's \<Rightarrow> (exn + opened) \<times> 's"
  sha256_of :: "string \<Rightarrow> string"
  calibredb :: "string list \<Rightarrow> string \<Rightarrow> 's \<Rightarrow> (exn + int) \<times> 's"
  post :: "string \<Rightarrow> string \<Rightarrow> 's \<Rightarrow> (exn + int) \<times> 's"
  read_credential :: "string \<Rightarrow> 's \<Rightarrow> (exn + string) \<times> 's"
  environ :: "string \<Rightarrow> string option"

text \<open>
  The world of a run: what is outside, the ebook tree, the committed receipts, the keys
  Calibre took, the committed keys no scan followed, and every state a crash could leave.
\<close>

record 's bridge =
  others :: 's
  shelf :: fs
  ledger :: receipts
  taken :: "import_key list"
  unscanned :: "import_key list"
  moments :: "(receipts \<times> import_key list \<times> import_key list) list"

definition consult :: "('s \<Rightarrow> 'a \<times> 's) \<Rightarrow> ('s bridge, 'a) prog" where
  "consult f w = (case f (others w) of (x, s) \<Rightarrow> (Inr x, w\<lparr>others := s\<rparr>))"

definition consult_or_raise :: "('s \<Rightarrow> (exn + 'a) \<times> 's) \<Rightarrow> ('s bridge, 'a) prog" where
  "consult_or_raise f w = (case f (others w) of (r, s) \<Rightarrow> (r, w\<lparr>others := s\<rparr>))"

definition moment :: "'s bridge \<Rightarrow> receipts \<times> import_key list \<times> import_key list" where
  "moment w = (ledger w, taken w, unscanned w)"

definition note_down :: "('s bridge \<Rightarrow> 's bridge) \<Rightarrow> ('s bridge, unit) prog" where
  "note_down f w = (let w = f w in (Inr (), w\<lparr>moments := moments w @ [moment w]\<rparr>))"

definition getenv :: "'s shelf_env \<Rightarrow> string \<Rightarrow> exn + string" where
  "getenv E k = (case environ E k of None \<Rightarrow> Inl (KeyError k) | Some v \<Rightarrow> Inr v)"

section \<open>Acquired books\<close>

text \<open>The fuel counts the queries: a second passes between two, and 30 are waited for.\<close>

primrec acquired_from :: "nat \<Rightarrow> 's shelf_env \<Rightarrow> int \<Rightarrow> ('s bridge, acquired list) prog" where
  "acquired_from 0 E deadline = raise OutOfFuel"
| "acquired_from (Suc n) E deadline =
     bnd (consult (query_books E)) (\<lambda>r.
       case r of
         Inr books \<Rightarrow> ret books
       | Inl (OtherError m) \<Rightarrow> raise (RuntimeError m)
       | Inl _ \<Rightarrow>
           bnd (consult (monotonic E)) (\<lambda>now.
             if deadline \<le> now then raise (RuntimeError ''unable to open database file'')
             else bnd (modify (\<lambda>w. w\<lparr>others := sleep_second E (others w)\<rparr>)) (\<lambda>_. acquired_from n E deadline)))"

definition query_fuel :: nat where "query_fuel = 32"

definition acquired_books :: "'s shelf_env \<Rightarrow> ('s bridge, acquired list) prog" where
  "acquired_books E = bnd (consult (monotonic E)) (\<lambda>now. acquired_from query_fuel E (now + 30))"

section \<open>Files of a book\<close>

definition formats :: "string list" where
  "formats = [''.epub'', ''.pdf'', ''.mobi'', ''.azw'', ''.azw3'', ''.djvu'']"

definition max_bytes :: int where "max_bytes = 512 * 1024 * 1024"

definition book_files :: "path \<Rightarrow> string \<Rightarrow> fs \<Rightarrow> exn + path list" where
  "book_files base container_path t =
     (let parts = to_path container_path in
      if \<not> is_relative_to parts [''/'', ''ebooks''] then Inl (ValueError (container_path @ '' is not in the subpath of /ebooks''))
      else
        (let relative = drop 2 parts; p = base @ relative in
         if relative = [] \<or> ''..'' \<in> set relative then Inl (ValueError ''Acquired book path is outside the ebook subtree'')
         else
           (case node_at t p of
              None \<Rightarrow> Inl (OSError ''Acquired ebook path is missing'')
            | Some n \<Rightarrow>
                let paths = (case n of NFile _ \<Rightarrow> [p] | _ \<Rightarrow> sort (fs_below t p));
                    files = filter (\<lambda>q. lower (path_suffix q) \<in> set formats \<and> node_at t q \<noteq> Some NDir) paths
                in if files = [] then Inl (ValueError ''Acquired book has no supported ebook files'') else Inr files)))"

text \<open>Opening every component with \<open>O_NOFOLLOW\<close>: a link or a missing directory on the way is an error.\<close>

definition pinned :: "fs \<Rightarrow> path \<Rightarrow> path \<Rightarrow> bool" where
  "pinned t base p \<longleftrightarrow>
     list_all (\<lambda>k. fs_is_dir t (take k p)) [length base ..< length p] \<and> fs_exists t p \<and> \<not> fs_is_link t p"

text \<open>Reading the blocks: the bytes read, or an error once the limit is passed\<close>

fun read_limited :: "int \<Rightarrow> string list \<Rightarrow> exn + string" where
  "read_limited n [] = Inr []"
| "read_limited n (chunk # chunks) =
     (let n = n + int (length chunk) in
      if max_bytes < n then Inl (ValueError ''Ebook grew beyond the size limit'')
      else rbnd (read_limited n chunks) (\<lambda>rest. Inr (chunk @ rest)))"

definition check_opened :: "opened \<Rightarrow> exn + string" where
  "check_opened o1 =
     (if \<not> is_regular o1 \<or> \<not> (0 < size_before o1 \<and> size_before o1 \<le> max_bytes)
      then Inl (ValueError ''Ebook is not a nonempty regular file within the size limit'')
      else
        rbnd (read_limited 0 (blocks o1)) (\<lambda>content.
          if size_before o1 \<noteq> size_after o1 \<or> \<not> same_times o1 \<or> int (length content) \<noteq> size_before o1
          then Inl (ValueError ''Ebook changed while being read; retry next run'') else Inr content))"

text \<open>The digest and the staged copy\<close>

definition snapshot :: "'s shelf_env \<Rightarrow> path \<Rightarrow> path \<Rightarrow> ('s bridge, string \<times> string) prog" where
  "snapshot E base source =
     bnd (gets shelf) (\<lambda>t.
       if \<not> pinned t base source then raise (OSError (path_str source))
       else
         bnd (consult_or_raise (open_file E source)) (\<lambda>o1.
         bnd (of_result (check_opened o1)) (\<lambda>content. ret (sha256_of E content, content))))"

section \<open>Services\<close>

definition calibre :: "'s shelf_env \<Rightarrow> string list \<Rightarrow> string \<Rightarrow> ('s bridge, unit) prog" where
  "calibre E arguments staged =
     bnd (of_result (rmap (getenv E) [''CREDENTIALS_DIRECTORY'', ''CALIBREDB'', ''CALIBRE_URL'', ''CALIBRE_USERNAME''])) (\<lambda>vs.
     bnd (consult_or_raise (calibredb E
        ([vs ! 1, ''--with-library'', vs ! 2, ''--username'', vs ! 3, ''--password'',
          ''<f:'' @ path_str (path_join (to_path (vs ! 0)) ''calibre-password'') @ ''>''] @ arguments) staged)) (\<lambda>code.
       if code \<noteq> 0 then raise (RuntimeError (''Calibre '' @ hd arguments @ '' exited '' @ show_int code)) else ret ()))"

definition env_pairs :: "string \<Rightarrow> (string \<times> string) list" where
  "env_pairs content =
     dict_of_pairs (map (\<lambda>l. case partition_char (CHR ''='') l of (k, _, v) \<Rightarrow> (k, v))
       (filter (\<lambda>l. strip l \<noteq> [] \<and> \<not> starts_with (lstrip l) ''#'' \<and> CHR ''='' \<in> set l) (splitlines content)))"

definition scan_komga :: "'s shelf_env \<Rightarrow> ('s bridge, unit) prog" where
  "scan_komga E =
     bnd (of_result (getenv E ''CREDENTIALS_DIRECTORY'')) (\<lambda>dir.
     bnd (consult_or_raise (read_credential E (path_str (path_join (to_path dir) ''komga-env'')))) (\<lambda>content.
     bnd (of_result (case map_of (env_pairs content) ''KOMGA_API_KEY'' of
            None \<Rightarrow> Inl (KeyError ''KOMGA_API_KEY'') | Some v \<Rightarrow> Inr (strip_chars [CHR 0x22, CHR 0x27] (strip v)))) (\<lambda>key.
     bnd (of_result (getenv E ''KOMGA_URL'')) (\<lambda>url.
     bnd (of_result (getenv E ''KOMGA_LIBRARY_ID'')) (\<lambda>lib.
     bnd (consult_or_raise (post E (rstrip_chars ''/'' url @ ''/api/v1/libraries/'' @ lib @ ''/scan'') key)) (\<lambda>status.
       if status \<notin> {200, 202, 204} then raise (RuntimeError (''Komga scan returned '' @ show_int status))
       else modify (\<lambda>w. w\<lparr>unscanned := []\<rparr>)))))))"

section \<open>Receipts\<close>

text \<open>The three inserts of one transaction\<close>

definition record_import :: "import_key \<Rightarrow> file_key \<Rightarrow> receipts \<Rightarrow> receipts" where
  "record_import key file r =
     r\<lparr>imported := (if key \<in> set (imported r) then imported r else imported r @ [key]),
       file_rows := filter (\<lambda>f. \<not> (fst f = fst file \<and> fst (snd f) = fst (snd file))) (file_rows r) @ [file],
       pending_scan := True\<rparr>"

definition import_file :: "'s shelf_env \<Rightarrow> path \<Rightarrow> acquired \<Rightarrow> path \<Rightarrow> unit \<Rightarrow> ('s bridge, unit) prog" where
  "import_file E base b source _ =
     bnd (consult_or_raise (lstat E source)) (\<lambda>(bytes, modified).
       let file = (book_id b, path_str (drop (length base) source), bytes, modified); fmt = lower (path_suffix source) in
       bnd (gets ledger) (\<lambda>r.
       if file \<in> set (file_rows r) then ret ()
       else
         bnd (snapshot E base source) (\<lambda>(digest, staged).
           let key = (book_id b, digest, fmt) in
           bnd (if key \<in> set (imported r) then ret ()
                else
                  bnd (calibre E [''add'', ''--automerge'', ''ignore'', ''--title'', book_title b, ''--authors'',
                         (case book_author b of None \<Rightarrow> ''Unknown'' | Some a \<Rightarrow> if a = [] then ''Unknown'' else a),
                         ''book'' @ fmt] staged) (\<lambda>_.
                    note_down (\<lambda>w. w\<lparr>taken := taken w @ [key]\<rparr>))) (\<lambda>_.
           note_down (\<lambda>w. w\<lparr>ledger := record_import key file (ledger w), unscanned := unscanned w @ [key]\<rparr>)))))"

definition import_book :: "'s shelf_env \<Rightarrow> path \<Rightarrow> acquired \<Rightarrow> ('s bridge, unit) prog" where
  "import_book E base b =
     bnd (gets shelf) (\<lambda>t. bnd (of_result (book_files base (file_path b) t)) (\<lambda>sources.
       for_each sources (import_file E base b) ()))"

definition count_book :: "'s shelf_env \<Rightarrow> path \<Rightarrow> acquired \<Rightarrow> nat \<Rightarrow> ('s bridge, nat) prog" where
  "count_book E base b failures =
     bnd (attempt (import_book E base b)) (\<lambda>r.
       case r of Inr _ \<Rightarrow> ret failures | Inl e \<Rightarrow> if is_exception e then ret (Suc failures) else raise e)"

definition import_books :: "'s shelf_env \<Rightarrow> acquired list \<Rightarrow> path \<Rightarrow> ('s bridge, nat) prog" where
  "import_books E books base =
     bnd (for_each books (count_book E base) 0) (\<lambda>failures.
     bnd (gets ledger) (\<lambda>r.
       if pending_scan r
       then bnd (scan_komga E) (\<lambda>_.
            bnd (note_down (\<lambda>w. w\<lparr>ledger := (ledger w)\<lparr>pending_scan := False\<rparr>\<rparr>)) (\<lambda>_. ret failures))
       else ret failures))"

definition shelf_main :: "'s shelf_env \<Rightarrow> ('s bridge, unit) prog" where
  "shelf_main E =
     bnd (of_result (getenv E ''SHELFARR_DATABASE'')) (\<lambda>_.
     bnd (acquired_books E) (\<lambda>books.
     bnd (calibre E [''list'', ''--limit'', ''1'', ''--fields'', ''id'', ''--for-machine''] []) (\<lambda>_.
     bnd (of_result (getenv E ''STATE_DIRECTORY'')) (\<lambda>_.
     bnd (of_result (getenv E ''EBOOK_ROOT'')) (\<lambda>base.
     bnd (import_books E books (to_path base)) (\<lambda>failures.
       if failures \<noteq> 0 then raise (SystemExit ''1'') else ret ()))))))"

text \<open>The exit status: every exception is reported and ends with 1.\<close>

definition shelf_script :: "'s shelf_env \<Rightarrow> ('s bridge, nat) prog" where
  "shelf_script E =
     bnd (attempt (shelf_main E)) (\<lambda>r.
       case r of
         Inr _ \<Rightarrow> ret 0
       | Inl e \<Rightarrow> if is_exception e \<or> e = SystemExit ''1'' then ret 1 else raise e)"

section \<open>The query returns\<close>

text \<open>Time does not run backwards, and a sleep lasts a second.\<close>

definition ticking :: "('s \<Rightarrow> int) \<Rightarrow> 's shelf_env \<Rightarrow> bool" where
  "ticking \<tau> E \<longleftrightarrow>
     (\<forall>s. \<tau> s \<le> fst (monotonic E s) \<and> fst (monotonic E s) \<le> \<tau> (snd (monotonic E s))) \<and>
     (\<forall>s. \<tau> s + 1 \<le> \<tau> (sleep_second E s)) \<and> (\<forall>s. \<tau> s \<le> \<tau> (snd (query_books E s)))"

lemma acquired_from_ends:
  "ticking \<tau> E \<Longrightarrow> deadline \<le> \<tau> (others w) + int n \<Longrightarrow> fst (acquired_from (Suc n) E deadline w) \<noteq> Inl OutOfFuel"
proof (induction n arbitrary: w)
  case (0 w)
  obtain r s1 where q: "query_books E (others w) = (r, s1)" by fastforce
  obtain now s2 where m: "monotonic E s1 = (now, s2)" by fastforce
  have "\<tau> (others w) \<le> \<tau> s1" "\<tau> s1 \<le> now"
    using 0(1) q m by (simp_all add: ticking_def) (metis fst_conv snd_conv)+
  then show ?case using 0(2) q m
    by (auto simp: bnd_def consult_def raise_def ret_def split: sum.split db_error.split)
next
  case (Suc n w)
  obtain r s1 where q: "query_books E (others w) = (r, s1)" by fastforce
  obtain now s2 where m: "monotonic E s1 = (now, s2)" by fastforce
  have t: "\<tau> (others w) \<le> \<tau> s1" "\<tau> s1 \<le> now" "now \<le> \<tau> s2" "\<tau> s2 + 1 \<le> \<tau> (sleep_second E s2)"
    using Suc.prems(1) q m by (simp_all add: ticking_def) (metis fst_conv snd_conv)+
  have "fst (acquired_from (Suc n) E deadline (w\<lparr>others := sleep_second E s2\<rparr>)) \<noteq> Inl OutOfFuel"
    by (rule Suc.IH [OF Suc.prems(1)]) (use Suc.prems(2) t in simp)
  then show ?case using q m
    unfolding acquired_from.simps(2) [of "Suc n"]
    by (auto simp: bnd_def consult_def raise_def ret_def modify_def simp del: acquired_from.simps split: sum.split db_error.split)
qed

text \<open>The wait for the database returns: the fuel is enough for its thirty seconds.\<close>

lemma acquired_books_return:
  assumes "ticking \<tau> E"
  shows "fst (acquired_books E w) \<noteq> Inl OutOfFuel"
proof -
  obtain now s where m: "monotonic E (others w) = (now, s)" by fastforce
  have "now \<le> \<tau> s" using assms m by (simp add: ticking_def) (metis fst_conv snd_conv)
  then have "fst (acquired_from (Suc 31) E (now + 30) (w\<lparr>others := s\<rparr>)) \<noteq> Inl OutOfFuel"
    by (intro acquired_from_ends [OF assms]) simp
  moreover have "query_fuel = Suc 31" by (simp add: query_fuel_def)
  ultimately show ?thesis using m by (simp add: acquired_books_def bnd_def consult_def)
qed

section \<open>Steps that only look outside\<close>

text \<open>Nothing changes but what is outside.\<close>

definition aside :: "'s bridge \<Rightarrow> 's bridge \<Rightarrow> bool" where
  "aside w w' \<longleftrightarrow> (\<exists>s. w' = w\<lparr>others := s\<rparr>)"

lemma aside_iff:
  "aside w w' \<longleftrightarrow> shelf w' = shelf w \<and> ledger w' = ledger w \<and> taken w' = taken w \<and> unscanned w' = unscanned w \<and> moments w' = moments w"
  by (cases w; cases w') (auto simp: aside_def)

interpretation looking: step_relation aside
  by unfold_locales (auto simp: aside_iff)

lemma aside_steps [simp]: "keeps aside (consult f)" "keeps aside (consult_or_raise f2)" "keeps aside (ret x)" "keeps aside (raise e)"
  "keeps aside (gets g)" "keeps aside (of_result r)"
  by (auto simp: keeps_def consult_def consult_or_raise_def aside_iff prog_defs split: prod.splits)

lemma aside_snapshot: "keeps aside (snapshot E base p)"
  unfolding snapshot_def by (auto intro!: looking.seq)

lemma aside_calibre: "keeps aside (calibre E args staged)"
  unfolding calibre_def by (auto intro!: looking.seq)

lemma aside_acquired_from: "keeps aside (acquired_from n E deadline)"
proof (induction n)
  case (Suc n)
  have "keeps aside (modify (\<lambda>w. w\<lparr>others := sleep_second E (others w)\<rparr>))"
    by (auto simp: keeps_def modify_def aside_def)
  with Suc show ?case by (auto intro!: looking.seq split: sum.split db_error.split)
qed simp

lemma aside_acquired: "keeps aside (acquired_books E)"
  unfolding acquired_books_def by (auto intro!: looking.seq aside_acquired_from)

lemma aside_moment: "aside w w' \<Longrightarrow> moment w' = moment w"
  by (simp add: aside_iff moment_def)

section \<open>One file\<close>

text \<open>Either nothing is recorded, or one commit, after Calibre took a book that had no receipt.\<close>

definition committed :: "import_key \<Rightarrow> file_key \<Rightarrow> 's bridge \<Rightarrow> 's bridge \<Rightarrow> bool" where
  "committed key file w w' \<longleftrightarrow>
     (let tk = (if key \<in> set (imported (ledger w)) then [] else [key]) in
      fst key = fst file \<and> shelf w' = shelf w \<and> ledger w' = record_import key file (ledger w) \<and>
      taken w' = taken w @ tk \<and> unscanned w' = unscanned w @ [key] \<and>
      moments w' = moments w @ map (\<lambda>k. (ledger w, taken w @ tk, unscanned w)) tk @ [moment w'])"

lemma import_file_run:
  assumes "import_file E base b source u w = (r, w')"
  obtains (looked) "aside w w'" "r = Inr () \<Longrightarrow>
      \<exists>m n. (book_id b, path_str (drop (length base) source), m, n) \<in> set (file_rows (ledger w))"
  | (recorded) key m n where "r = Inr ()" "committed key (book_id b, path_str (drop (length base) source), m, n) w w'"
proof -
  let ?rel = "path_str (drop (length base) source)" and ?fmt = "lower (path_suffix source)"
  obtain x w1 where l: "consult_or_raise (lstat E source) w = (x, w1)" by fastforce
  have a1: "aside w w1" by (rule keepsD [OF aside_steps(2) l])
  show thesis
  proof (cases x)
    case (Inl e)
    then have "w' = w1" "r = Inl e" using assms l by (auto simp: import_file_def bnd_def)
    with a1 show thesis by (intro looked) simp_all
  next
    case (Inr mn)
    then obtain m n where x: "x = Inr (m, n)" by (cases mn) auto
    have led: "ledger w1 = ledger w" using a1 by (simp add: aside_iff)
    let ?file = "(book_id b, ?rel, m, n)"
    show thesis
    proof (cases "?file \<in> set (file_rows (ledger w))")
      case True
      then have "w' = w1" "r = Inr ()" using assms l x led by (auto simp: import_file_def bnd_def gets_def ret_def Let_def)
      with a1 True show thesis by (intro looked) blast+
    next
      case new: False
      obtain y w2 where s: "snapshot E base source w1 = (y, w2)" by fastforce
      have a2: "aside w w2" using looking.trans [OF a1 keepsD [OF aside_snapshot s]] .
      then have led2: "ledger w2 = ledger w" by (simp add: aside_iff)
      show thesis
      proof (cases y)
        case (Inl e)
        then have "w' = w2" "r = Inl e" using assms l x led new s by (auto simp: import_file_def bnd_def gets_def Let_def)
        with a2 show thesis by (intro looked) simp_all
      next
        case (Inr ds)
        then obtain digest staged where y: "y = Inr (digest, staged)" by (cases ds) auto
        let ?key = "(book_id b, digest, ?fmt)"
        let ?args = "[''add'', ''--automerge'', ''ignore'', ''--title'', book_title b, ''--authors'',
                         (case book_author b of None \<Rightarrow> ''Unknown'' | Some a \<Rightarrow> if a = [] then ''Unknown'' else a), ''book'' @ ?fmt]"
        let ?commit = "note_down (\<lambda>w. w\<lparr>ledger := record_import ?key ?file (ledger w), unscanned := unscanned w @ [?key]\<rparr>)"
        have run: "bnd (if ?key \<in> set (imported (ledger w)) then ret ()
              else bnd (calibre E ?args staged) (\<lambda>_. note_down (\<lambda>w. w\<lparr>taken := taken w @ [?key]\<rparr>))) (\<lambda>_. ?commit) w2 = (r, w')"
          using assms l x led new s y by (simp add: import_file_def bnd_def gets_def Let_def)
        show thesis
        proof (cases "?key \<in> set (imported (ledger w))")
          case True
          then have "r = Inr ()" "committed ?key ?file w w'"
            using run a2 by (auto simp: note_down_def committed_def aside_iff moment_def Let_def)
          then show thesis by (rule recorded)
        next
          case False
          obtain z w3 where c: "calibre E ?args staged w2 = (z, w3)" by fastforce
          have a3: "aside w w3" using looking.trans [OF a2 keepsD [OF aside_calibre c]] .
          show thesis
          proof (cases z)
            case (Inl e)
            then have "w' = w3" "r = Inl e" using run False c by (auto simp: bnd_def)
            with a3 show thesis by (intro looked) simp_all
          next
            case (Inr _)
            then have "r = Inr ()" "committed ?key ?file w w'"
              using run False c a3 by (auto simp: bnd_def note_down_def committed_def aside_iff moment_def Let_def)
            then show thesis by (rule recorded)
          qed
        qed
      qed
    qed
  qed
qed

section \<open>Receipts are true at every moment\<close>

text \<open>
  Every receipt is of an import Calibre took, in this run or before; every file row belongs to
  a receipt; and a commit that no scan followed has the scan pending.
\<close>

definition backed :: "import_key set \<Rightarrow> receipts \<times> import_key list \<times> import_key list \<Rightarrow> bool" where
  "backed before m \<longleftrightarrow>
     (case m of (r, tk, un) \<Rightarrow>
        set (imported r) \<subseteq> before \<union> set tk \<and> (\<forall>f \<in> set (file_rows r). fst f \<in> fst ` set (imported r)) \<and>
        (un \<noteq> [] \<longrightarrow> pending_scan r))"

definition true_receipts :: "import_key set \<Rightarrow> 's bridge \<Rightarrow> bool" where
  "true_receipts before w \<longleftrightarrow> backed before (moment w) \<and> list_all (backed before) (moments w)"

definition stays_true :: "import_key set \<Rightarrow> 's bridge \<Rightarrow> 's bridge \<Rightarrow> bool" where
  "stays_true before w w' \<longleftrightarrow> (true_receipts before w \<longrightarrow> true_receipts before w') \<and> shelf w' = shelf w"

interpretation staying_true: step_relation "stays_true before" for before
  by unfold_locales (auto simp: stays_true_def)

lemma aside_true: "aside w w' \<Longrightarrow> stays_true before w w'"
  by (simp add: aside_iff stays_true_def true_receipts_def moment_def)

lemma keeps_aside_true: "keeps aside m \<Longrightarrow> keeps (stays_true before) m"
  by (simp add: keeps_def aside_true)

lemmas true_steps [simp] = aside_steps [THEN keeps_aside_true] aside_acquired [THEN keeps_aside_true] aside_calibre [THEN keeps_aside_true]

lemma backed_took: "backed before (r, tk, un) \<Longrightarrow> backed before (r, tk @ ks, un)"
  by (auto simp: backed_def)

lemma backed_commit:
  assumes "backed before (r, tk, un)" "fst key = fst f" "key \<in> set (imported r) \<union> set tk"
  shows "backed before (record_import key f r, tk, un @ [key])"
proof -
  have i: "set (imported (record_import key f r)) = insert key (set (imported r))" by (auto simp: record_import_def)
  have "set (file_rows (record_import key f r)) \<subseteq> insert f (set (file_rows r))" by (auto simp: record_import_def)
  moreover have "pending_scan (record_import key f r)" by (simp add: record_import_def)
  ultimately show ?thesis using assms i by (auto simp: backed_def)
qed

lemma committed_true:
  assumes c: "committed key f w w'"
  shows "stays_true before w w'"
proof -
  let ?tk = "if key \<in> set (imported (ledger w)) then [] else [key]"
  note d = c [unfolded committed_def Let_def]
  have "true_receipts before w'" if t: "true_receipts before w"
  proof -
    have b: "backed before (ledger w, taken w, unscanned w)" using t by (simp add: true_receipts_def moment_def)
    have b1: "backed before (ledger w, taken w @ ?tk, unscanned w)" by (rule backed_took [OF b])
    have m: "moment w' = (record_import key f (ledger w), taken w @ ?tk, unscanned w @ [key])" using d by (simp add: moment_def)
    have b2: "backed before (moment w')" unfolding m by (rule backed_commit [OF b1]) (use d in auto)
    have "moments w' = moments w @ map (\<lambda>k. (ledger w, taken w @ ?tk, unscanned w)) ?tk @ [moment w']" using d by blast
    then show ?thesis using b1 b2 t by (auto simp: true_receipts_def list_all_iff)
  qed
  then show ?thesis using d by (simp add: stays_true_def)
qed

lemma import_file_true: "keeps (stays_true before) (import_file E base b source u)"
proof (rule keepsI)
  fix w :: "'a bridge"
  obtain r w' where run: "import_file E base b source u w = (r, w')" by (cases "import_file E base b source u w")
  from run have "stays_true before w w'"
  proof (cases rule: import_file_run)
    case looked
    show ?thesis by (rule aside_true [OF looked(1)])
  next
    case (recorded key m n)
    show ?thesis by (rule committed_true [OF recorded(2)])
  qed
  with run show "stays_true before w (snd (import_file E base b source u w))" by simp
qed

lemma count_book_true: "keeps (stays_true before) (count_book E base b n)"
  unfolding count_book_def import_book_def
  by (auto intro!: staying_true.seq staying_true.pure staying_true.loop keeps_attempt import_file_true split: sum.split)

lemma scan_komga_true: "keeps (stays_true before) (scan_komga E)"
proof -
  have "keeps (stays_true before) (modify (\<lambda>w. w\<lparr>unscanned := []\<rparr>) :: ('a bridge, unit) prog)"
    by (auto simp: keeps_def modify_def stays_true_def true_receipts_def backed_def moment_def)
  then show ?thesis
    unfolding scan_komga_def by (auto intro!: staying_true.seq split: option.split)
qed

lemma scan_komga_done: "scan_komga E w = (Inr (), w') \<Longrightarrow> unscanned w' = []"
  by (auto simp: scan_komga_def bnd_Inr_iff modify_def raise_def split: if_splits)

lemma scan_komga_ledger: "scan_komga E w = (r, w') \<Longrightarrow> ledger w' = ledger w"
proof -
  let ?R = "\<lambda>a b. ledger b = ledger a"
  have "keeps ?R m" if "keeps aside m" for m :: "('a bridge, 'b) prog" using that by (simp add: keeps_def aside_iff)
  note steps = aside_steps [THEN this]
  have "keeps ?R (modify (\<lambda>w. w\<lparr>unscanned := []\<rparr>) :: ('a bridge, unit) prog)" by (simp add: keeps_def modify_def)
  moreover have "transp ?R" by (auto simp: transp_def)
  ultimately have "keeps ?R (scan_komga E)"
    unfolding scan_komga_def by (auto intro!: keeps_bnd steps split: option.split)
  then show "scan_komga E w = (r, w') \<Longrightarrow> ledger w' = ledger w" using keepsD by fast
qed

lemma import_books_true: "keeps (stays_true before) (import_books E books base)"
proof (rule keepsI)
  fix w :: "'a bridge"
  obtain x w1 where l: "for_each books (count_book E base) 0 w = (x, w1)" by fastforce
  have k: "stays_true before w w1" by (rule keepsD [OF staying_true.loop [OF count_book_true] l])
  show "stays_true before w (snd (import_books E books base w))"
  proof (cases x)
    case (Inl e)
    with l k show ?thesis by (simp add: import_books_def bnd_def)
  next
    case (Inr n)
    show ?thesis
    proof (cases "pending_scan (ledger w1)")
      case False
      with l k Inr show ?thesis by (simp add: import_books_def bnd_def gets_def ret_def)
    next
      case True
      obtain y w2 where s: "scan_komga E w1 = (y, w2)" by fastforce
      have k2: "stays_true before w w2" using staying_true.trans [OF k keepsD [OF scan_komga_true s]] .
      let ?w3 = "w2\<lparr>ledger := (ledger w2)\<lparr>pending_scan := False\<rparr>\<rparr>"
      have "stays_true before w2 (?w3\<lparr>moments := moments ?w3 @ [moment ?w3]\<rparr>)" if "y = Inr ()"
        using scan_komga_done s that
        by (auto simp: stays_true_def true_receipts_def backed_def moment_def)
      then show ?thesis using l Inr True s k2 staying_true.trans
        by (cases y) (auto simp: import_books_def bnd_def gets_def ret_def note_down_def Let_def)
    qed
  qed
qed

lemma shelf_script_true: "keeps (stays_true before) (shelf_script E)"
  unfolding shelf_script_def shelf_main_def
  by (auto intro!: staying_true.seq staying_true.pure keeps_attempt import_books_true split: sum.split)

text \<open>
  C38. Wherever a run stops, the receipts tell the truth: each is of a book Calibre took, each
  file row belongs to one, and what was committed since the last scan of Komga has a scan
  pending. The ebook tree is never changed.
\<close>

theorem receipts_tell_the_truth:
  assumes "true_receipts before w" "moments w = []" "m \<in> set (moments w') \<or> m = moment w'" "shelf_script E w = (r, w')"
  shows "backed before m \<and> shelf w' = shelf w"
proof -
  have "stays_true before w w'" by (rule keepsD [OF shelf_script_true assms(4)])
  with assms(1) have t: "true_receipts before w'" "shelf w' = shelf w" by (simp_all add: stays_true_def)
  then have "backed before m" using assms(3) by (auto simp: true_receipts_def list_all_iff)
  with t(2) show ?thesis by simp
qed

section \<open>A run that succeeds is complete\<close>

definition has_row :: "path \<Rightarrow> acquired \<Rightarrow> path \<Rightarrow> receipts \<Rightarrow> bool" where
  "has_row base b source r \<longleftrightarrow> (\<exists>m n. (book_id b, path_str (drop (length base) source), m, n) \<in> set (file_rows r))"

definition keeps_rows :: "'s bridge \<Rightarrow> 's bridge \<Rightarrow> bool" where
  "keeps_rows w w' \<longleftrightarrow> shelf w' = shelf w \<and> (\<forall>base b source. has_row base b source (ledger w) \<longrightarrow> has_row base b source (ledger w'))"

interpretation rows: step_relation keeps_rows
  by unfold_locales (auto simp: keeps_rows_def)

lemma committed_rows: "committed key file w w' \<Longrightarrow> keeps_rows w w'"
  by (cases "file") (auto simp: committed_def keeps_rows_def has_row_def record_import_def Let_def)

lemma import_file_rows: "import_file E base b source u w = (r, w') \<Longrightarrow> keeps_rows w w' \<and> (r = Inr () \<longrightarrow> has_row base b source (ledger w'))"
proof (erule import_file_run)
  assume "aside w w'" "r = Inr () \<Longrightarrow>
      \<exists>m n. (book_id b, path_str (drop (length base) source), m, n) \<in> set (file_rows (ledger w))"
  then show ?thesis by (auto simp: aside_iff keeps_rows_def has_row_def)
next
  fix key m n
  assume "committed key (book_id b, path_str (drop (length base) source), m, n) w w'"
  then show ?thesis using committed_rows [of key _ w w']
    by (auto simp: committed_def has_row_def record_import_def Let_def)
qed

lemma import_files_rows:
  "for_each sources (import_file E base b) u w = (r, w') \<Longrightarrow> keeps_rows w w' \<and> (r = Inr () \<longrightarrow> (\<forall>s \<in> set sources. has_row base b s (ledger w')))"
proof (induction sources arbitrary: u w)
  case (Cons s sources)
  obtain x w1 where one: "import_file E base b s u w = (x, w1)" by fastforce
  note o = import_file_rows [OF one]
  show ?case
  proof (cases x)
    case (Inl e)
    with Cons.prems one o show ?thesis by (auto simp: bnd_def)
  next
    case (Inr v)
    then have rest: "for_each sources (import_file E base b) v w1 = (r, w')" using Cons.prems one by (simp add: bnd_def)
    note ih = Cons.IH [OF rest]
    have "has_row base b s (ledger w')" using o ih Inr by (auto simp: keeps_rows_def)
    with o ih rows.trans show ?thesis by (metis set_ConsD)
  qed
qed (simp add: ret_def rows.refl)

text \<open>All files of a book have their row\<close>

definition shelved :: "path \<Rightarrow> fs \<Rightarrow> receipts \<Rightarrow> acquired \<Rightarrow> bool" where
  "shelved base t r b \<longleftrightarrow>
     (case book_files base (file_path b) t of Inl e \<Rightarrow> False | Inr sources \<Rightarrow> list_all (\<lambda>s. has_row base b s r) sources)"

lemma count_book_rows:
  assumes "count_book E base b n w = (r, w')"
  shows "keeps_rows w w'" "r = Inr m \<Longrightarrow> n \<le> m \<and> (m = n \<longrightarrow> shelved base (shelf w) (ledger w') b)"
proof -
  obtain x where i: "import_book E base b w = (x, w')"
      and r: "r = (case x of Inr _ \<Rightarrow> Inr n | Inl e \<Rightarrow> if is_exception e then Inr (Suc n) else Inl e)"
    using assms by (auto simp: count_book_def bnd_def attempt_def ret_def raise_def split: prod.splits sum.splits if_splits)
  have "keeps_rows w w' \<and> (x = Inr () \<longrightarrow> shelved base (shelf w) (ledger w') b)"
  proof (cases "book_files base (file_path b) (shelf w)")
    case (Inl e)
    with i show ?thesis by (auto simp: import_book_def bnd_def gets_def of_result_def rows.refl)
  next
    case (Inr sources)
    then have "for_each sources (import_file E base b) () w = (x, w')"
      using i by (simp add: import_book_def bnd_def gets_def of_result_def)
    from import_files_rows [OF this] Inr show ?thesis by (simp add: shelved_def list_all_iff)
  qed
  then show "keeps_rows w w'" "r = Inr m \<Longrightarrow> n \<le> m \<and> (m = n \<longrightarrow> shelved base (shelf w) (ledger w') b)"
    using r by (auto split: sum.splits if_splits)
qed

lemma shelved_kept: "shelved base t (ledger w) b \<Longrightarrow> keeps_rows w w' \<Longrightarrow> shelved base t (ledger w') b"
  by (auto simp: shelved_def keeps_rows_def list_all_iff split: sum.splits)

lemma books_rows:
  "for_each books (count_book E base) n w = (Inr m, w') \<Longrightarrow>
     keeps_rows w w' \<and> n \<le> m \<and> (m = n \<longrightarrow> (\<forall>b \<in> set books. shelved base (shelf w) (ledger w') b))"
proof (induction books arbitrary: n w)
  case (Cons b books)
  then obtain k w1 where one: "count_book E base b n w = (Inr k, w1)"
      and rest: "for_each books (count_book E base) k w1 = (Inr m, w')" by (auto simp: bnd_Inr_iff)
  note o = count_book_rows(1) [OF one] count_book_rows(2) [OF one refl] and ih = Cons.IH [OF rest]
  have "shelf w1 = shelf w" using o(1) by (simp add: keeps_rows_def)
  then show ?case using o ih rows.trans [OF o(1)] shelved_kept [of base "shelf w" w1 b w'] by auto
qed (simp add: ret_def rows.refl)

text \<open>
  C39. A run that exits with 0 has done everything: each file of each book the query gave has
  a row, all that was committed was followed by a scan of Komga, and no scan is pending.
\<close>

theorem successful_run_is_complete:
  assumes "shelf_script E w = (Inr 0, w')" "true_receipts before w"
  shows "\<exists>books base w1. acquired_books E w = (Inr books, w1) \<and> environ E ''EBOOK_ROOT'' = Some base \<and>
    list_all (shelved (to_path base) (shelf w) (ledger w')) books \<and> unscanned w' = [] \<and> \<not> pending_scan (ledger w')"
proof -
  have m: "shelf_main E w = (Inr (), w')"
    using assms(1) by (auto simp: shelf_script_def bnd_def attempt_def ret_def raise_def split: prod.splits sum.splits if_splits)
  obtain db books w1 w2 st base n where w1: "acquired_books E w = (Inr books, w1)"
    and w2: "calibre E [''list'', ''--limit'', ''1'', ''--fields'', ''id'', ''--for-machine''] [] w1 = (Inr (), w2)"
    and base: "environ E ''EBOOK_ROOT'' = Some base" and i: "import_books E books (to_path base) w2 = (Inr n, w')" and z: "n = 0"
    using m
    by (auto simp: shelf_main_def bnd_Inr_iff of_result_def getenv_def ret_def raise_def split: option.splits if_splits)
  have a: "aside w w2" by (rule looking.trans [OF keepsD [OF aside_acquired w1] keepsD [OF aside_calibre w2]])
  obtain w3 where loop: "for_each books (count_book E (to_path base)) 0 w2 = (Inr 0, w3)"
    and fin: "(if pending_scan (ledger w3)
         then bnd (scan_komga E) (\<lambda>_. bnd (note_down (\<lambda>w. w\<lparr>ledger := (ledger w)\<lparr>pending_scan := False\<rparr>\<rparr>)) (\<lambda>_. ret 0))
         else ret 0) w3 = (Inr 0, w')"
    using i z by (auto simp: import_books_def bnd_Inr_iff gets_def ret_def split: if_splits)
  have "true_receipts before w2" using aside_true [OF a] assms(2) by (simp add: stays_true_def)
  then have "true_receipts before w3"
    using keepsD [OF staying_true.loop [OF count_book_true] loop] by (simp add: stays_true_def)
  then have p: "unscanned w3 \<noteq> [] \<longrightarrow> pending_scan (ledger w3)" by (simp add: true_receipts_def backed_def moment_def)
  have all: "list_all (shelved (to_path base) (shelf w) (ledger w3)) books"
    using books_rows [OF loop] a by (simp add: aside_iff list_all_iff)
  have "list_all (shelved (to_path base) (shelf w) (ledger w')) books \<and> unscanned w' = [] \<and> \<not> pending_scan (ledger w')"
  proof (cases "pending_scan (ledger w3)")
    case False
    with fin p all show ?thesis by (auto simp: ret_def)
  next
    case True
    then obtain w4 where s: "scan_komga E w3 = (Inr (), w4)"
      and w': "ledger w' = (ledger w4)\<lparr>pending_scan := False\<rparr>" "unscanned w' = unscanned w4"
      using fin by (auto simp: bnd_Inr_iff note_down_def ret_def Let_def)
    have "file_rows (ledger w') = file_rows (ledger w3)" using w'(1) scan_komga_ledger [OF s] by simp
    then have "has_row bs b x (ledger w') \<longleftrightarrow> has_row bs b x (ledger w3)" for bs b x by (simp add: has_row_def)
    then have "shelved bs t (ledger w') b \<longleftrightarrow> shelved bs t (ledger w3) b" for bs t b
      by (cases "book_files bs (file_path b) t") (simp_all add: shelved_def list_all_iff)
    then show ?thesis using all scan_komga_done [OF s] w' by (simp add: list_all_iff)
  qed
  with w1 base show ?thesis by blast
qed

section \<open>Witnesses\<close>

text \<open>One book of two files, of which the first is new and the second imported already\<close>

definition demo_shelf :: "unit shelf_env" where
  "demo_shelf =
     \<lparr>query_books = (\<lambda>s. (Inr [\<lparr>book_id = 1, book_title = ''Vines'', book_author = None, file_path = ''/ebooks/vines''\<rparr>], s)),
      monotonic = (\<lambda>s. (0, s)), sleep_second = (\<lambda>s. s), lstat = (\<lambda>p s. (Inr (2, 100), s)),
      open_file = (\<lambda>p s. (Inr \<lparr>is_regular = True, size_before = 2, blocks = [''h'', ''i''], size_after = 2, same_times = True\<rparr>, s)),
      sha256_of = (\<lambda>c. ''d''), calibredb = (\<lambda>args staged s. (Inr 0, s)), post = (\<lambda>u k s. (Inr 202, s)),
      read_credential = (\<lambda>p s. (Inr ''KOMGA_API_KEY=k'', s)),
      environ = (\<lambda>k. if k = ''EBOOK_ROOT'' then Some ''/books'' else Some ''/x'')\<rparr>"

definition demo_bridge :: "unit bridge" where
  "demo_bridge =
     \<lparr>others = (), shelf = [([''/'', ''books''], NDir), ([''/'', ''books'', ''vines''], NDir),
        ([''/'', ''books'', ''vines'', ''a.epub''], NFile ''hi''), ([''/'', ''books'', ''vines'', ''b.PDF''], NFile ''hi'')],
      ledger = \<lparr>imported = [(1, ''d'', ''.pdf'')], pending_scan = False, file_rows = []\<rparr>, taken = [], unscanned = [], moments = []\<rparr>"

lemma demo_true: "true_receipts {(1, ''d'', ''.pdf'')} demo_bridge"
  by (simp add: true_receipts_def backed_def moment_def demo_bridge_def)

lemma demo_run: "fst (shelf_script demo_shelf demo_bridge) = Inr 0"
  by code_simp

theorem receipts_tell_the_truth_witness:
  "backed {(1, ''d'', ''.pdf'')} (moment (snd (shelf_script demo_shelf demo_bridge)))"
proof -
  have m: "moments demo_bridge = []" by (simp add: demo_bridge_def)
  have run: "shelf_script demo_shelf demo_bridge = (fst (shelf_script demo_shelf demo_bridge), snd (shelf_script demo_shelf demo_bridge))"
    by simp
  show ?thesis using receipts_tell_the_truth [OF demo_true m disjI2 [OF refl] run] by blast
qed

theorem successful_run_is_complete_witness:
  "unscanned (snd (shelf_script demo_shelf demo_bridge)) = [] \<and> \<not> pending_scan (ledger (snd (shelf_script demo_shelf demo_bridge)))"
proof -
  have "shelf_script demo_shelf demo_bridge = (Inr 0, snd (shelf_script demo_shelf demo_bridge))"
    using demo_run by (metis prod.collapse)
  from successful_run_is_complete [OF this demo_true] show ?thesis by blast
qed

end
