(* ===== verification/Mb_Seed.thy ===== *)
theory Mb_Seed
  imports Py_Dyn Py_Float Py_Path
begin

text \<open>
  The form that seeds the MusicBrainz release editor (musicbrainz-release-seed.py): the fields
  of a release description with their checks, the track lengths from the table of contents of
  the disc, and the HTML page, which the browser of the user posts. The command line and the
  path that is printed are left out.
\<close>

section \<open>Checks\<close>

definition require_string :: "json \<Rightarrow> string \<Rightarrow> exn + string" where
  "require_string v fld =
     (case v of
        JStr s \<Rightarrow> if strip s = [] then Inl (ValueError (fld @ '' must be a non-empty string'')) else Inr (strip s)
      | _ \<Rightarrow> Inl (ValueError (fld @ '' must be a non-empty string'')))"

definition toc_values :: "string \<Rightarrow> exn + int list" where
  "toc_values toc =
     rmap (\<lambda>v. case py_int v of None \<Rightarrow> Inl (ValueError ''medium.toc must contain decimal integers'') | Some i \<Rightarrow> Inr i)
       (split_ws toc)"

text \<open>Differences of the ends of the tracks, in milliseconds: 75 sectors are a second\<close>

fun lengths_between :: "int list \<Rightarrow> int list" where
  "lengths_between (a # b # rest) = round_even (of_int ((b - a) * 1000) / 75) # lengths_between (b # rest)"
| "lengths_between _ = []"

definition toc_lengths_ms :: "string \<Rightarrow> exn + int list" where
  "toc_lengths_ms toc =
     rbnd (toc_values toc) (\<lambda>vals.
       case vals of
         first # final # leadout # offset # offsets \<Rightarrow>
           let offsets = offset # offsets; track_count = final - first + 1 in
           if first < 1 \<or> final < first \<or> int (length offsets) \<noteq> track_count
           then Inl (ValueError ''medium.toc track range and offsets disagree'')
           else if offsets \<noteq> sort offsets \<or> hd offsets < 0 \<or> leadout \<le> last offsets
           then Inl (ValueError ''medium.toc offsets/leadout are not strictly ordered'')
           else Inr (lengths_between (offsets @ [leadout]))
       | _ \<Rightarrow> Inl (ValueError ''medium.toc is too short''))"

section \<open>Fields\<close>

type_synonym seed_fields = "(string \<times> string) list"

text \<open>A field that is there when the value is true\<close>

definition when_true :: "json \<Rightarrow> string \<Rightarrow> string \<Rightarrow> exn + seed_fields" where
  "when_true v target fld = (if truthy v then rbnd (require_string v fld) (\<lambda>s. Inr [(target, s)]) else Inr [])"

definition credit_fields :: "string \<Rightarrow> nat \<times> json \<Rightarrow> exn + seed_fields" where
  "credit_fields pre ic =
     (case ic of (i, credit) \<Rightarrow>
        let base = pre @ ''.names.'' @ show_nat i in
        if \<not> is_obj credit then Inl (TypeError (pre @ ''['' @ show_nat i @ ''] must be an object''))
        else
          rbnd (py_get credit ''mbid'') (\<lambda>mbid.
          rbnd (py_get credit ''artist_name'') (\<lambda>artist_name.
          rbnd (py_get credit ''credited_name'') (\<lambda>credited_name.
          rbnd (if truthy mbid then rbnd (require_string mbid (base @ ''.mbid'')) (\<lambda>s. Inr [(base @ ''.mbid'', s)])
                else if truthy artist_name
                then rbnd (require_string artist_name (base @ ''.artist_name'')) (\<lambda>s. Inr [(base @ ''.artist.name'', s)])
                else Inl (ValueError (base @ '' needs mbid or artist_name''))) (\<lambda>who.
          rbnd (when_true credited_name (base @ ''.name'') (base @ ''.credited_name'')) (\<lambda>named.
          rbnd (py_get credit ''join_phrase'') (\<lambda>join_phrase.
            case join_phrase of
              JNull \<Rightarrow> Inr (who @ named)
            | JStr s \<Rightarrow> Inr (who @ named @ [(base @ ''.join_phrase'', s)])
            | _ \<Rightarrow> Inl (ValueError (base @ ''.join_phrase must be a string'')))))))))"

definition add_credit_fields :: "string \<Rightarrow> json \<Rightarrow> exn + seed_fields" where
  "add_credit_fields pre credits =
     (case credits of
        JArr cs \<Rightarrow>
          if cs = [] then Inl (ValueError (pre @ '' must be a non-empty list''))
          else rbnd (rmap (credit_fields pre) (enum_from 0 cs)) (\<lambda>fss. Inr (concat fss))
      | _ \<Rightarrow> Inl (ValueError (pre @ '' must be a non-empty list'')))"

definition type_fields :: "json \<Rightarrow> exn + seed_fields" where
  "type_fields release_types =
     (case release_types of
        JStr s \<Rightarrow> rbnd (require_string (JStr s) ''type'') (\<lambda>t. Inr [(''type'', t)])
      | JArr ts \<Rightarrow> rmap (\<lambda>t. rbnd (require_string t ''type'') (\<lambda>s. Inr (''type'', s))) ts
      | _ \<Rightarrow> Inl (TypeError ''type must be a string or list''))"

definition simple_field :: "json \<Rightarrow> string \<Rightarrow> exn + seed_fields" where
  "simple_field spec fld =
     rbnd (py_get spec fld) (\<lambda>v.
       if v = JNull then Inr [] else rbnd (require_string v fld) (\<lambda>s. Inr [(fld, s)]))"

definition event_fields :: "json \<Rightarrow> exn + seed_fields" where
  "event_fields event =
     (case event of
        JNull \<Rightarrow> Inr []
      | JObj d \<Rightarrow>
          Inr (concat (map (\<lambda>(source, target).
              let v = field d source in if v = JNull \<or> v = JStr [] then [] else [(target, py_str v)])
            [(''country'', ''events.0.country''), (''year'', ''events.0.date.year''),
             (''month'', ''events.0.date.month''), (''day'', ''events.0.date.day'')]))
      | _ \<Rightarrow> Inl (ValueError ''event must be an object''))"

definition label_fields :: "json \<Rightarrow> exn + seed_fields" where
  "label_fields label =
     (case label of
        JNull \<Rightarrow> Inr []
      | JObj d \<Rightarrow>
          rbnd (if truthy (field d ''mbid'') then when_true (field d ''mbid'') ''labels.0.mbid'' ''label.mbid''
                else when_true (field d ''name'') ''labels.0.name'' ''label.name'') (\<lambda>who.
          rbnd (when_true (field d ''catalog_number'') ''labels.0.catalog_number'' ''label.catalog_number'') (\<lambda>number.
            Inr (who @ number)))
      | _ \<Rightarrow> Inl (ValueError ''label must be an object''))"

definition track_fields :: "nat \<times> json \<times> int \<Rightarrow> exn + seed_fields" where
  "track_fields itl =
     (case itl of (i, track, len) \<Rightarrow>
        let base = ''mediums.0.track.'' @ show_nat i in
        if \<not> is_obj track then Inl (TypeError (''medium.tracks['' @ show_nat i @ ''] must be an object''))
        else
          rbnd (py_get_or track ''number'' (JInt (int i + 1))) (\<lambda>number.
          rbnd (rbnd (py_get track ''name'') (\<lambda>v. require_string v (base @ ''.name''))) (\<lambda>name.
          rbnd (rbnd (py_get track ''artist_credit'') (add_credit_fields (base @ ''.artist_credit''))) (\<lambda>credit.
            Inr ([(base @ ''.number'', py_str number), (base @ ''.name'', name), (base @ ''.length'', show_int len)] @ credit)))))"

definition medium_fields :: "json \<Rightarrow> exn + seed_fields \<times> int list" where
  "medium_fields medium =
     (if \<not> is_obj medium then Inl (TypeError ''medium must be an object'')
      else
        rbnd (rbnd (py_get medium ''toc'') (\<lambda>v. require_string v ''medium.toc'')) (\<lambda>toc.
        rbnd (toc_lengths_ms toc) (\<lambda>lengths.
        rbnd (py_get medium ''tracks'') (\<lambda>tracks.
          case tracks of
            JArr ts \<Rightarrow>
              if length ts \<noteq> length lengths
              then Inl (ValueError (''medium.tracks must contain exactly '' @ show_nat (length lengths) @ '' tracks''))
              else
                rbnd (rbnd (py_get_or medium ''format'' (JStr ''CD'')) (\<lambda>v. require_string v ''medium.format'')) (\<lambda>fmt.
                rbnd (rmap track_fields (enum_from 0 (zip ts lengths))) (\<lambda>fss.
                  Inr ([(''mediums.0.format'', fmt), (''mediums.0.toc'', toc)] @ concat fss, lengths)))
          | _ \<Rightarrow> Inl (ValueError (''medium.tracks must contain exactly '' @ show_nat (length lengths) @ '' tracks''))))))"

definition build_fields :: "json \<Rightarrow> exn + seed_fields \<times> int list" where
  "build_fields spec =
     rbnd (rbnd (py_get spec ''name'') (\<lambda>v. require_string v ''name'')) (\<lambda>name.
     rbnd (rbnd (py_get spec ''artist_credit'') (add_credit_fields ''artist_credit'')) (\<lambda>credit.
     rbnd (rbnd (py_get_or spec ''type'' (JArr [])) type_fields) (\<lambda>types.
     rbnd (rmap (simple_field spec) [''status'', ''language'', ''script'', ''packaging'', ''barcode'', ''comment'']) (\<lambda>simple.
     rbnd (rbnd (py_get spec ''event'') event_fields) (\<lambda>event.
     rbnd (rbnd (py_get spec ''label'') label_fields) (\<lambda>label.
     rbnd (rbnd (py_get spec ''medium'') medium_fields) (\<lambda>(medium, lengths).
     rbnd (rbnd (py_get spec ''annotation'') (\<lambda>v. when_true v ''annotation'' ''annotation'')) (\<lambda>annotation.
     rbnd (rbnd (py_get spec ''edit_note'') (\<lambda>v. when_true v ''edit_note'' ''edit_note'')) (\<lambda>edit_note.
       Inr ([(''name'', name)] @ credit @ types @ concat simple @ event @ label @ medium @ annotation @ edit_note, lengths))))))))))"

section \<open>The page\<close>

text \<open>\<open>html.escape\<close> with quotes\<close>

definition escape_char :: "char \<Rightarrow> string" where
  "escape_char c =
     (if c = CHR ''&'' then ''&amp;'' else if c = CHR ''<'' then ''&lt;'' else if c = CHR ''>'' then ''&gt;''
      else if c = CHR 0x22 then ''&quot;'' else if c = CHR 0x27 then ''&#x27;'' else [c])"

definition html_escape :: "string \<Rightarrow> string" where
  "html_escape s = concat (map escape_char s)"

definition disc_duration :: "int \<Rightarrow> string" where
  "disc_duration ms =
     (let s = round_even (of_int ms / 1000) in show_int (s div 60) @ '':'' @ zero_pad 2 (s mod 60))"

text \<open>The templates, with a backquote for each double quote\<close>

definition quoted :: "string \<Rightarrow> string" where
  "quoted s = map (\<lambda>c. if c = CHR 0x60 then CHR 0x22 else c) s"

definition page_lines :: "string list \<Rightarrow> string" where
  "page_lines ls = quoted (concat (map (\<lambda>l. l @ [CHR 0x0A]) ls))"

definition dash :: string where "dash = [CHR 0xE2, CHR 0x80, CHR 0x94]"

definition page_top :: string where
  "page_top =
     page_lines [''<!doctype html>'', ''<html lang=`en`>'', ''  <head>'', ''    <meta charset=`utf-8`>'',
       ''    <meta name=`viewport` content=`width=device-width, initial-scale=1`>''] @ ''    <title>MusicBrainz seed '' @ dash @ '' ''"

definition page_style :: string where
  "page_style =
     page_lines [''</title>'', ''    <style>'',
       ''      body { font: 16px/1.45 system-ui, sans-serif; max-width: 56rem; margin: 3rem auto; padding: 0 1rem; color: #222; }'',
       ''      table { border-collapse: collapse; width: 100%; margin: 1.5rem 0; }'',
       ''      th, td { border-bottom: 1px solid #ccc; padding: .45rem; text-align: left; }'',
       ''      button { background: #ba478f; border: 0; border-radius: .3rem; color: white; cursor: pointer; font-size: 1rem; padding: .8rem 1.1rem; }'',
       ''      .note { background: #f5f2e9; border-left: .3rem solid #ba478f; padding: .8rem 1rem; }'',
       ''      code { overflow-wrap: anywhere; }'', ''    </style>'', ''  </head>'', ''  <body>''] @
     ''    <h1>MusicBrainz release seed: ''"

definition page_note :: string where
  "page_note =
     page_lines [''</h1>'',
       ''    <p class=`note`>This prepares an edit; it does not submit it. MusicBrainz will show every field for review. Resolve any unmatched artist/label names, check the release, then enter the edit there.</p>''] @
     ''    <p><strong>Disc TOC:</strong> <code>''"

definition page_table :: string where
  "page_table =
     page_lines [''</code></p>'', ''    <table>'', ''      <thead><tr><th>#</th><th>Track</th><th>Disc duration</th></tr></thead>'',
       ''      <tbody>'']"

definition page_form :: string where
  "page_form =
     page_lines ['''', ''      </tbody>'', ''    </table>'', ''    <form action=`https://musicbrainz.org/release/add` method=`post`>'']"

definition page_end :: string where
  "page_end =
     page_lines ['''', ''      <button type=`submit`>Open pre-filled MusicBrainz release editor</button>'', ''    </form>'', ''  </body>'', ''</html>'']"

definition hidden_input :: "string \<times> string \<Rightarrow> string" where
  "hidden_input nv =
     quoted ''      <input type=`hidden` name=`'' @ html_escape (fst nv) @ quoted ''` value=`'' @ html_escape (snd nv) @ quoted ''`>''"

definition row_open :: string where "row_open = ''        <tr><td>''"
definition cell_gap :: string where "cell_gap = ''</td><td>''"
definition row_end :: string where "row_end = ''</td></tr>''"

definition table_row :: "int list \<Rightarrow> nat \<times> json \<Rightarrow> exn + string" where
  "table_row lengths it =
     (case it of (i, track) \<Rightarrow>
        rbnd (py_item track ''name'') (\<lambda>name.
          if i < length lengths
          then Inr (row_open @ show_nat (Suc i) @ cell_gap @ html_escape (py_str name) @ cell_gap @
                    html_escape (disc_duration (lengths ! i)) @ row_end)
          else Inl (IndexError ''list index out of range'')))"

definition render_page :: "json \<Rightarrow> seed_fields \<Rightarrow> int list \<Rightarrow> exn + string" where
  "render_page spec posted lengths =
     rbnd (py_item spec ''name'') (\<lambda>name.
     rbnd (py_item spec ''medium'') (\<lambda>medium.
     rbnd (py_item medium ''tracks'') (\<lambda>tracks.
     rbnd (py_iter tracks) (\<lambda>ts.
     rbnd (rmap (table_row lengths) (enum_from 0 ts)) (\<lambda>rows.
     rbnd (py_item medium ''toc'') (\<lambda>toc.
       case toc of
         JStr toc \<Rightarrow>
           let title = html_escape (py_str name) in
           Inr (page_top @ title @ page_style @ title @ page_note @ html_escape toc @ page_table @
                join [CHR 0x0A] rows @ page_form @ join [CHR 0x0A] (map hidden_input posted) @ page_end)
       | _ \<Rightarrow> Inl (no_attribute toc ''replace'')))))))"

definition seed_main :: "path \<Rightarrow> path \<Rightarrow> (fs, unit) prog" where
  "seed_main spec_path output t =
     (let r =
        (case fs_read t spec_path of
           None \<Rightarrow> Inl (OSError (path_str spec_path))
         | Some content \<Rightarrow>
             (case json_loads (universal content) of
                None \<Rightarrow> Inl JSONDecodeError
              | Some spec \<Rightarrow>
                  if \<not> is_obj spec then Inl (TypeError ''spec root must be an object'')
                  else rbnd (build_fields spec) (\<lambda>(posted, lengths). Inr (spec, posted, lengths))))
      in case r of
           Inl e \<Rightarrow> (Inl e, t)
         | Inr (spec, posted, lengths) \<Rightarrow>
             (let parent = path_parent output in
              if list_ex (fs_is_file t) (prefixes parent) then (Inl (OSError (path_str parent)), t)
              else
                (case render_page spec posted lengths of
                   Inl e \<Rightarrow> (Inl e, fs_mkdirs parent t)
                 | Inr page \<Rightarrow>
                     if fs_is_dir t output then (Inl (OSError (path_str output)), fs_mkdirs parent t)
                     else (Inr (), fs_write output page (fs_mkdirs parent t)))))"

section \<open>What the form posts\<close>

text \<open>The hidden inputs of a page, read as a browser reads them: tags, quoted values, entities\<close>

fun html_unescape :: "string \<Rightarrow> string" where
  "html_unescape [] = []"
| "html_unescape (c # s) =
     (if starts_with (c # s) ''&amp;'' then CHR ''&'' # html_unescape (drop 4 s)
      else if starts_with (c # s) ''&lt;'' then CHR ''<'' # html_unescape (drop 3 s)
      else if starts_with (c # s) ''&gt;'' then CHR ''>'' # html_unescape (drop 3 s)
      else if starts_with (c # s) ''&quot;'' then CHR 0x22 # html_unescape (drop 5 s)
      else if starts_with (c # s) ''&#x27;'' then CHR 0x27 # html_unescape (drop 5 s)
      else c # html_unescape s)"

definition input_name :: string where "input_name = quoted ''input type=`hidden` name=`''"
definition input_value :: string where "input_value = quoted ''` value=`''"

definition up_to_quote :: "string \<Rightarrow> string" where
  "up_to_quote s = takeWhile (\<lambda>c. c \<noteq> CHR 0x22) s"

definition input_of :: "string \<Rightarrow> (string \<times> string) option" where
  "input_of tag =
     (if starts_with tag input_name then
        (let r = drop (length input_name) tag; n = up_to_quote r; r = drop (length n) r in
         if starts_with r input_value
         then Some (html_unescape n, html_unescape (up_to_quote (drop (length input_value) r))) else None)
      else None)"

definition inputs_of :: "string \<Rightarrow> (string \<times> string) list" where
  "inputs_of page = List.map_filter input_of (tl (split_on (CHR ''<'') page))"

lemma unescape_char: "html_unescape (escape_char c @ t) = c # html_unescape t"
  by (auto simp: escape_char_def starts_with_def)

lemma unescape_escape [simp]: "html_unescape (html_escape s) = s"
proof -
  have "html_unescape (concat (map escape_char s) @ []) = s" by (induction s) (simp_all add: unescape_char)
  then show ?thesis by (simp add: html_escape_def)
qed

lemma escape_inert: "CHR ''<'' \<notin> set (html_escape s)" "CHR 0x22 \<notin> set (html_escape s)"
  by (induction s) (auto simp: html_escape_def escape_char_def)

lemma split_on_append:
  "split_on c (a @ b) = butlast (split_on c a) @ (last (split_on c a) @ hd (split_on c b)) # tl (split_on c b)"
proof (induction a)
  case Nil
  then show ?case by simp
next
  case (Cons x a)
  obtain y ys where y: "split_on c a = y # ys" by (cases "split_on c a") auto
  with Cons show ?case by (cases ys) (auto split: list.splits)
qed

definition settled_end :: "string \<Rightarrow> bool" where
  "settled_end s \<longleftrightarrow> CHR ''<'' \<in> set s \<and>
     (\<forall>x. input_of (last (split_on (CHR ''<'') s) @ x) = input_of (last (split_on (CHR ''<'') s)))"

lemma map_filter_append: "List.map_filter f (xs @ ys) = List.map_filter f xs @ List.map_filter f ys"
  by (simp add: List.map_filter_def)

lemma split_on_two: "c \<in> set s \<Longrightarrow> tl (split_on c s) \<noteq> []"
proof (induction s)
  case (Cons x s)
  then show ?case by (auto split: list.splits)
qed simp

lemma inputs_text: "CHR ''<'' \<notin> set s \<Longrightarrow> inputs_of (s @ b) = inputs_of b"
  by (simp add: inputs_of_def split_on_append split_on_notin)

lemma inputs_append:
  assumes "settled_end s"
  shows "inputs_of (s @ b) = inputs_of s @ inputs_of b"
proof -
  let ?S = "split_on (CHR ''<'') s" and ?T = "split_on (CHR ''<'') b"
  obtain y z where S: "?S = y # z" "z \<noteq> []"
    using split_on_two [of "CHR ''<''" s] assms by (cases ?S) (auto simp: settled_end_def)
  have "input_of (last z @ hd ?T) = input_of (last z)" using assms S by (simp add: settled_end_def)
  moreover have "List.map_filter input_of z = List.map_filter input_of (butlast z) @ List.map_filter input_of [last z]"
    using S(2) by (metis append_butlast_last_id map_filter_append)
  ultimately show ?thesis
    using S by (simp add: inputs_of_def split_on_append map_filter_append List.map_filter_def split: option.split)
qed

lemma settled_static:
  "list_ex (\<lambda>c. c = CHR ''<'') s \<Longrightarrow> (case last (split_on (CHR ''<'') s) of [] \<Rightarrow> False | c # _ \<Rightarrow> c \<noteq> CHR ''i'') \<Longrightarrow> settled_end s"
  by (auto simp: settled_end_def list_ex_iff input_of_def input_name_def quoted_def starts_with_def split: list.splits)

lemma settled_parts: "settled_end page_top" "settled_end page_style" "settled_end page_note" "settled_end page_table" "settled_end page_form"
    "settled_end page_end" "settled_end row_open" "settled_end cell_gap" "settled_end row_end"
  by (rule settled_static; code_simp)+

lemma silent_parts: "inputs_of page_top = []" "inputs_of page_style = []" "inputs_of page_note = []" "inputs_of page_table = []"
    "inputs_of page_form = []" "inputs_of page_end = []" "inputs_of row_open = []" "inputs_of cell_gap = []"
    "inputs_of row_end = []"
  by code_simp+

lemmas page_parts = inputs_append [OF settled_parts(1)] inputs_append [OF settled_parts(2)] inputs_append [OF settled_parts(3)]
  inputs_append [OF settled_parts(4)] inputs_append [OF settled_parts(5)] inputs_append [OF settled_parts(7)]
  inputs_append [OF settled_parts(8)] inputs_append [OF settled_parts(9)]

lemma digits_text: "CHR ''<'' \<notin> set (show_nat n)"
  using show_nat_digits [of "CHR ''<''" n] by (auto simp: is_digit_def)

lemma row_silent:
  assumes "table_row lengths it = Inr row"
  shows "inputs_of (row @ b) = inputs_of b"
proof -
  obtain i name d where row: "row = row_open @ show_nat i @ cell_gap @ html_escape name @ cell_gap @ html_escape d @ row_end"
    using assms by (auto simp: table_row_def rbnd_Inr_iff split: prod.splits if_splits)
  show ?thesis unfolding row append_assoc
    by (simp only: page_parts silent_parts inputs_text [OF digits_text] inputs_text [OF escape_inert(1)] append_Nil)
qed

lemma rows_silent:
  "rmap (table_row lengths) its = Inr rows \<Longrightarrow> inputs_of (join [CHR 0x0A] rows @ b) = inputs_of b"
proof (induction its arbitrary: rows)
  case (Cons it its)
  then obtain r rs where r: "table_row lengths it = Inr r" "rmap (table_row lengths) its = Inr rs" "rows = r # rs"
    by (auto simp: rbnd_Inr_iff)
  have nl: "inputs_of ([CHR 0x0A] @ x) = inputs_of x" for x by (rule inputs_text) simp
  show ?case
  proof (cases rs)
    case Nil
    with r row_silent show ?thesis by simp
  next
    case (Cons x xs)
    then have "join [CHR 0x0A] rows @ b = r @ ([CHR 0x0A] @ (join [CHR 0x0A] rs @ b))" using r(3) by simp
    then show ?thesis by (simp only: row_silent [OF r(1)] nl Cons.IH [OF r(2)])
  qed
qed simp

section \<open>The inputs\<close>

definition input_open :: string where "input_open = ''      <'' @ input_name"

lemma hidden_input_parts: "hidden_input nv =
    ''      '' @ [CHR ''<''] @ (input_name @ html_escape (fst nv) @ input_value @ html_escape (snd nv) @ [CHR 0x22, CHR ''>''])"
  by (simp add: hidden_input_def input_name_def input_value_def quoted_def)

lemma up_to_quote_text: "CHR 0x22 \<notin> set s \<Longrightarrow> up_to_quote (s @ CHR 0x22 # r) = s"
  unfolding up_to_quote_def by (induction s) auto

lemma input_of_tag:
  "input_of (input_name @ html_escape n @ input_value @ html_escape v @ CHR 0x22 # r) = Some (n, v)"
proof -
  have v0: "input_value = CHR 0x22 # tl input_value" by (simp add: input_value_def quoted_def)
  have n: "up_to_quote (html_escape n @ input_value @ x) = html_escape n" for x
    using up_to_quote_text [OF escape_inert(2)] v0 by (metis append_Cons)
  have v: "up_to_quote (html_escape v @ CHR 0x22 # r) = html_escape v" by (rule up_to_quote_text [OF escape_inert(2)])
  show ?thesis by (simp add: input_of_def n v)
qed

lemma name_value_text: "CHR ''<'' \<notin> set input_name" "CHR ''<'' \<notin> set input_value"
  by (simp_all add: input_name_def input_value_def quoted_def)

lemma hidden_input_posts: "inputs_of (hidden_input nv @ b) = nv # inputs_of b"
proof -
  let ?tag = "input_name @ html_escape (fst nv) @ input_value @ html_escape (snd nv) @ [CHR 0x22, CHR ''>'']"
  have t: "CHR ''<'' \<notin> set ?tag" by (simp add: name_value_text escape_inert)
  have s: "split_on (CHR ''<'') (CHR ''<'' # ?tag) = [[], ?tag]" by (simp add: split_on_notin [OF t])
  have i: "input_of (?tag @ x) = Some nv" for x using input_of_tag [of "fst nv" "snd nv" "CHR ''>'' # x"] by simp
  have i0: "input_of ?tag = Some nv" using i [of "[]"] by simp
  have e: "settled_end (CHR ''<'' # ?tag)" unfolding settled_end_def s using i i0 by simp
  have "inputs_of (CHR ''<'' # ?tag) = [nv]" unfolding inputs_of_def s using i0 by (simp add: List.map_filter_def)
  then have "inputs_of ((CHR ''<'' # ?tag) @ b) = nv # inputs_of b" unfolding inputs_append [OF e] by simp
  moreover have "hidden_input nv @ b = ''      '' @ ((CHR ''<'' # ?tag) @ b)" by (simp add: hidden_input_parts)
  ultimately show ?thesis using inputs_text [of "''      ''"] by simp
qed

lemma hidden_inputs_post: "inputs_of (join [CHR 0x0A] (map hidden_input nvs) @ b) = nvs @ inputs_of b"
proof (induction nvs)
  case (Cons nv nvs)
  have nl: "inputs_of (CHR 0x0A # x) = inputs_of x" for x using inputs_text [of "[CHR 0x0A]" x] by simp
  show ?case
  proof (cases nvs)
    case Nil
    then show ?thesis by (simp add: hidden_input_posts)
  next
    case (Cons x xs)
    then have "join [CHR 0x0A] (map hidden_input (nv # nvs)) @ b =
        hidden_input nv @ (CHR 0x0A # (join [CHR 0x0A] (map hidden_input nvs) @ b))" by simp
    then show ?thesis by (simp only: hidden_input_posts nl Cons.IH append_Cons)
  qed
qed simp

lemma rendered_inputs:
  "case render_page spec posted lengths of Inr page \<Rightarrow> inputs_of page = posted | Inl e \<Rightarrow> True"
proof (cases "render_page spec posted lengths")
  case (Inr page)
  then obtain title ts rows toc where rows: "rmap (table_row lengths) (enum_from 0 ts) = Inr rows"
    and page: "page = page_top @ html_escape title @ page_style @ html_escape title @ page_note @ html_escape toc @ page_table @
      join [CHR 0x0A] rows @ page_form @ join [CHR 0x0A] (map hidden_input posted) @ page_end"
  proof -
    obtain name medium ts rows j where r: "rmap (table_row lengths) (enum_from 0 ts) = Inr rows"
      and j: "(case j of JStr toc \<Rightarrow>
           let title = html_escape (py_str name) in
           Inr (page_top @ title @ page_style @ title @ page_note @ html_escape toc @ page_table @
                join [CHR 0x0A] rows @ page_form @ join [CHR 0x0A] (map hidden_input posted) @ page_end)
         | _ \<Rightarrow> Inl (no_attribute j ''replace'')) = Inr page"
      using Inr unfolding render_page_def by (auto simp: rbnd_Inr_iff)
    from j that [OF r] show thesis by (cases j) (auto simp: Let_def)
  qed
  have "inputs_of page = posted"
    unfolding page
    by (simp only: page_parts silent_parts inputs_text [OF escape_inert(1)] rows_silent [OF rows] hidden_inputs_post append_Nil append_Nil2)
  with Inr show ?thesis by simp
qed simp

lemma got_item: "py_get j k = Inr v \<Longrightarrow> v \<noteq> JNull \<Longrightarrow> py_item j k = Inr v"
  by (auto simp: py_get_def py_item_def field_def split: json.splits option.splits)

lemma required_item: "py_get j k = Inr v \<Longrightarrow> require_string v fld = Inr s \<Longrightarrow> \<exists>t. py_item j k = Inr (JStr t)"
  using got_item [of j k v] by (auto simp: require_string_def split: json.splits)

lemma rows_render:
  "rmap track_fields (enum_from i (zip ts (drop i lengths))) = Inr fss \<Longrightarrow> i + length ts = length lengths \<Longrightarrow>
     \<exists>rows. rmap (table_row lengths) (enum_from i ts) = Inr rows"
proof (induction ts arbitrary: i fss)
  case (Cons t ts)
  have "drop i lengths = lengths ! i # drop (Suc i) lengths" using Cons.prems(2) by (intro Cons_nth_drop_Suc [symmetric]) simp
  then obtain f fs where "track_fields (i, t, lengths ! i) = Inr f"
      "rmap track_fields (enum_from (Suc i) (zip ts (drop (Suc i) lengths))) = Inr fs"
    using Cons.prems(1) by (auto simp: rbnd_Inr_iff)
  moreover from this(1) obtain n where "py_item t ''name'' = Inr (JStr n)"
    by (auto simp: track_fields_def rbnd_Inr_iff Let_def split: if_splits dest: required_item)
  ultimately show ?case using Cons.IH [of "Suc i" fs] Cons.prems(2) by (auto simp: table_row_def)
qed simp

lemma built_renders:
  assumes "build_fields spec = Inr (posted, lengths)"
  shows "\<exists>page. render_page spec posted lengths = Inr page"
proof -
  obtain nm name m fs where n: "py_get spec ''name'' = Inr nm" "require_string nm ''name'' = Inr name"
    and m: "py_get spec ''medium'' = Inr m" "medium_fields m = Inr (fs, lengths)"
    using assms by (auto simp: build_fields_def rbnd_Inr_iff)
  then obtain tv toc ts fss where mo: "is_obj m" and t: "py_get m ''toc'' = Inr tv" "require_string tv ''medium.toc'' = Inr toc"
    and ts: "py_get m ''tracks'' = Inr (JArr ts)" "length ts = length lengths"
      "rmap track_fields (enum_from 0 (zip ts lengths)) = Inr fss"
  proof -
    from m(2) obtain js where js: "py_get m ''tracks'' = Inr js" by (auto simp: medium_fields_def rbnd_Inr_iff split: if_splits)
    then obtain ts where "js = JArr ts" using m(2) by (cases js) (auto simp: medium_fields_def rbnd_Inr_iff split: if_splits)
    with m(2) js that show thesis by (auto simp: medium_fields_def rbnd_Inr_iff split: if_splits)
  qed
  obtain rows where "rmap (table_row lengths) (enum_from 0 ts) = Inr rows"
    using rows_render [of 0 ts lengths fss] ts(2,3) by auto
  moreover have "py_item spec ''medium'' = Inr m" using got_item [OF m(1)] mo by (cases m) (simp_all add: is_obj_def)
  moreover have "py_item m ''tracks'' = Inr (JArr ts)" using got_item [OF ts(1)] by simp
  moreover obtain a b where "py_item spec ''name'' = Inr (JStr a)" "py_item m ''toc'' = Inr (JStr b)"
    using required_item [OF n] required_item [OF t] by blast
  ultimately show ?thesis by (simp add: render_page_def py_iter_def Let_def)
qed

text \<open>
  C40. Whatever the texts of a description are, once its fields are built the page is there and
  posts exactly these fields, in their order and with their values: no text can close a tag or
  an attribute, or add an input.
\<close>

theorem form_posts_the_fields:
  "case build_fields spec of
     Inr (posted, lengths) \<Rightarrow>
       (case render_page spec posted lengths of Inr page \<Rightarrow> inputs_of page = posted | Inl e \<Rightarrow> False)
   | Inl e \<Rightarrow> True"
proof (cases "build_fields spec")
  case (Inr pl)
  obtain posted lengths where pl: "pl = (posted, lengths)" by force
  obtain page where "render_page spec posted lengths = Inr page" using built_renders Inr pl by blast
  with Inr pl rendered_inputs [of posted spec lengths] show ?thesis by simp
qed simp

section \<open>Lengths\<close>

lemma round_even_close: "\<bar>of_int (round_even x) - x\<bar> \<le> 1 / 2"
proof -
  have "of_int \<lfloor>x\<rfloor> \<le> x" "x < of_int \<lfloor>x\<rfloor> + 1" by linarith+
  then show ?thesis by (auto simp: round_even_def Let_def)
qed

text \<open>The lengths of the tracks add up to the length of the disc, but for half a millisecond each.\<close>

lemma lengths_add_up:
  "xs \<noteq> [] \<Longrightarrow> \<bar>of_int (sum_list (lengths_between xs)) - of_int ((last xs - hd xs) * 1000) / 75\<bar>
     \<le> (of_nat (length xs - 1) / 2 :: rat)"
proof (induction xs rule: lengths_between.induct)
  case (1 a b rest)
  let ?x = "of_int ((b - a) * 1000) / 75 :: rat"
  have ih: "\<bar>of_int (sum_list (lengths_between (b # rest))) - of_int ((last (b # rest) - b) * 1000) / 75\<bar> \<le> (of_nat (length rest) / 2 :: rat)"
    using 1 by simp
  have "of_int ((last (b # rest) - a) * 1000) / 75 = ?x + (of_int ((last (b # rest) - b) * 1000) / 75 :: rat)"
    by (simp add: field_simps)
  moreover have "of_int (sum_list (lengths_between (a # b # rest))) =
      of_int (round_even ?x) + (of_int (sum_list (lengths_between (b # rest))) :: rat)" by simp
  moreover have "of_nat (length (a # b # rest) - 1) / 2 = 1 / 2 + (of_nat (length rest) / 2 :: rat)" by (simp add: field_simps)
  ultimately show ?case using ih round_even_close [of ?x] unfolding list.sel last_ConsR [OF list.discI [OF refl]] by linarith
qed simp_all

text \<open>The order of the offsets is not strict, as the message says it is: a track of no length is accepted.\<close>

lemma equal_offsets_are_accepted: "toc_lengths_ms ''1 2 300 150 150'' = Inr [0, 2000]"
proof -
  have "split_ws ''1 2 300 150 150'' = [''1'', ''2'', ''300'', ''150'', ''150'']" by code_simp
  moreover have "py_int ''1'' = Some 1" "py_int ''2'' = Some 2" "py_int ''300'' = Some 300" "py_int ''150'' = Some 150"
    by code_simp+
  ultimately show ?thesis by (simp add: toc_lengths_ms_def toc_values_def Let_def round_even_def)
qed

end
