(* ===== verification/Spec2Isabelle.thy ===== *)
theory Spec2Isabelle
  imports Agent_Config Komga_Sync Gwm_Archiver Wvj_Archive Yoto_Server Ai_Retention Rtrfm_Nowplaying Toml_Merge Voice_Diary Audio_Audit Chapter_Rebuild Marker_Epub Winery_History Marker_Batch Ai_Adapters Mail_Migrate Shelf_Bridge Mb_Seed
begin

text \<open>
  The Python programs of a NixOS configuration, modelled and verified.

  The repository is declarative configuration around a set of independent Python programs:
  activation scripts that merge managed settings into files other programs own, batch jobs
  that archive, synchronise and prune, and two small web services. They share no code; each
  is a component here, with a theory of its own. A model is a function on explicit state: a
  program of type \<open>prog\<close> takes the world, and gives a result or an exception together
  with the world it leaves, so that what happened before an exception is kept.

  Prelude.  Exceptions as values, the effect combinators, loops over lists, \<open>keeps\<close> (a
  relation between the worlds before and after that every step of a program respects, the
  form of most safety lemmas), ordered dictionaries, deduplication. The locale
  \<open>step_relation\<close> (a relation that is reflexive and transitive) gives \<open>keeps\<close> its
  rules for sequences, loops and handlers; components interpret it on their own relations.
  Py_Text, Py_Json, Json_Lines, Py_Dyn, Py_Float, Py_Path, Py_Links, Py_Regex, Py_Url, Py_Time.  The Python
  the programs use: texts, \<open>json\<close> with the round trip of its printer and parser, files
  of one document per line, operations whose types are checked when they run, floats, paths
  and file trees, symbolic links, \<open>re\<close> as a backtracking matcher, URLs, calendar dates and
  instants with the round trip of \<open>isoformat\<close> and \<open>fromisoformat\<close>.

  Agent_Config (scripts/merge-codex-notification-hooks.py, merge-claude-notification-hooks.py,
  merge-markdown-block.py).  The three merges, and the publication protocol of their
  \<open>merge_file\<close>: lock, symlink refusal, read, merge, temporary file, comparison with
  what was read, rename, clean-up; other programs may act in the windows between. The locale
  \<open>managed_file\<close> states what the protocol needs of a merge, and is interpreted on the
  two JSON merges. Shown: a second run changes nothing, handlers and settings of others are
  kept, an update by somebody else is never lost, the text outside the block is kept.

  Toml_Merge (scripts/merge-toml-settings.py).  The line editor that sets managed keys in the
  tables of the Codex configuration and removes tables, published by the protocol of
  Agent_Config. Shown: a second merge changes nothing and every managed key has its value in
  its table; on the empty file a fresh machine starts with, the merge raises.

  Komga_Sync (scripts/komga-sync.py).  Sidecars, the fields they ask for, the comparison with
  what Komga has, libraries by deepest root, the gate that scans a library and waits for new
  books, and the run over all sidecars. Shown: what was just written needs no second write,
  bounds on tags and on scan attempts, the gate returns, every sidecar is counted once, what
  a dry run does and does not write.

  Magazine_Site, Gwm_Archiver, Wvj_Archive (scripts/gwm-archiver.py, scripts/wvj-archive.py).
  The site both archivers scrape, the retry policy, downloads into a staging file, synthesis
  of an issue from its articles, processing of one issue and of the queue. Every change of
  the tree goes through \<open>change\<close>, which remembers each tree a crash could leave. Shown:
  complete responses only are published by the first archiver, no crash leaves an unfinished
  PDF under a final name, processed issues are skipped, the queue handles each issue once, page
  numbers are contiguous, retries are bounded (\<open>tries\<close> is the step relation of a retry
  loop); and where the second archiver agrees with the first and where it does not.

  Yoto_Prep, Yoto_Server (yoto-share/yoto-prep.py, yoto-share/server.py).  Names and labels,
  the cut of a book into tracks and of tracks into cards, preparation with its manifest; the
  catalogue, the plan of a book from several sources, the ZIP stream of a card, its limits
  and permits. Shown: every card respects the limits, a prepared book is skipped, labels and
  names are unique and safe, a stream is whole or cut short visibly, permits come back,
  paths stay below the library.

  Ai_Retention (scripts/ai-retention.py).  Usage rows read from transcripts, the ledger,
  removal by age, trimmed histories, the run. Shown: a removed rollout was old and its usage
  is in the ledger, whatever way the run ended; a dry run changes no file; trimming drops
  exactly what is expired.

  Rtrfm_Nowplaying (rtrfm-nowplaying/server.py).  The show on air, the tracklists, the current
  track, one round of each background thread, the requests; \<open>rt_step\<close> interleaves the
  threads between their critical sections. The locale \<open>repeat_log\<close> is the contract of
  a log that skips repeats, interpreted on the tracklist files. Shown: the files refine lists
  of entries, stay sound and only grow under every interleaving, and listed names lead back.

  Voice_Diary (scripts/voice-diary-ingest.py).  One pass over the drop directory: guards,
  transcription, repair of the text into paragraphs, the entry published by a rename, the
  archive; the recovery mode. Every tree a crash could leave is remembered. Shown: no crash
  loses or changes a file that was there and no entry appears half written
  (\<open>same_files\<close> and \<open>archives\<close> interpret \<open>step_relation\<close>), every settled recording
  ends in the archive, recovery refills the entry that was deleted, paragraphs keep all words
  within the bound; and that a second recording of the same second is lost.

  Audio_Audit (scripts/audio-silence-audit.py).  The packet timeline, the decoded windows as
  16-bit words, the report. Shown: the silences reported are exactly the maximal quiet spans
  that are long enough, and packets and gaps account for the timeline.

  Chapter_Titles, Chapter_Rebuild (scripts/audiobook-chapter-rebuild.py).  Title case and chapter
  headings; the alignment of headings with the transcript, the chapters, and the run with its
  work directory. Shown: title case changes only case, chapters start at 0, follow each other
  and carry the titles in order, a run leaves files outside its output and its work directory
  alone (\<open>keeps_outside\<close> interprets \<open>step_relation\<close>); and some flaws as theorems.

  Marker_Epub (scripts/marker-to-epub.py).  Cleaning of scanned Markdown, the anchors of the
  articles, metadata, the book. Shown: anchors are in order, one per paragraph and best of all
  candidates whatever the similarity scores; cleaning loses no text but the back matter that is
  cut on purpose; and that titles of one or two words lose their paragraph.

  Winery_History (scripts/winery-history.py).  The collector of sensor histories: requests with
  their retries, the inspection of a reply, chunks written atomically, recorded gaps and the
  cursor; the backup and its comparison by checksum; the check of the archive. Shown, at every
  tree a crash could leave: what lies before the cursor is in an inspected chunk or a recorded
  gap and finished chunks never change; a backup overwrites nothing but its own records, and a
  successful one holds every finished file (\<open>staying\<close>, \<open>quiet\<close> and \<open>carefully\<close> interpret
  \<open>step_relation\<close>).

  Marker_Batch (scripts/marker-batch.py).  The PDFs that need an EPUB, newest first, and their
  conversion; the post-processor is started as the model of Marker_Epub, with its exit status.
  Shown: a batch changes no file that was there, and after one that reports success no PDF
  needs an EPUB.

  Ai_Adapters (scripts/generate-ai-adapters.py).  The frontmatter of the Claude agents, MCP
  servers, the TOML rendered for Codex, writing and checking, with links followed as in
  Py_Links. Shown: accepted servers are well typed and rendered without loss; a check after a
  generation finds every file current and none stale.

  Mail_Migrate (tools/mailarchive-migrate/eml-to-maildir.py).  Header blocks and their byte order
  marks, the Message-ID as the email package reads it, live Maildirs, delivery through \<open>tmp\<close>.
  Shown: what is not live is delivered once, counted once, and nothing else changes
  (\<open>carrying\<close> interprets \<open>step_relation\<close>); and that a failed delivery hides later copies.

  Shelf_Bridge (scripts/shelfarr-calibre.py).  The acquired books and their files, the snapshot
  that refuses links and changes, the receipts, the scan. Shown: at every moment the receipts
  tell the truth (\<open>looking\<close>, \<open>staying_true\<close> and \<open>rows\<close> interpret \<open>step_relation\<close>), a run
  that exits with 0 is complete, the wait for the database returns.

  Mb_Seed (scripts/musicbrainz-release-seed.py).  The fields of a release with their checks, the
  lengths of the tracks, the HTML form. Shown: the page posts exactly the fields that were
  built, whatever the texts; lengths add up to the disc but for rounding.

  Parameters.  What is not Python of this repository is a field of an environment record or an
  argument: web servers, databases, clocks, file times, ffmpeg, ffprobe, songrec, qpdf,
  exiftool, pandoc, Marker, rapidfuzz, gzip, file locks, the whisper server, Audiobookshelf, FadedPage, the time zone,
  media types, the ZIP format, html.unescape, hashes, random choice, the names of temporary
  files, \<open>tomllib.loads\<close>, what other programs do to a file between two steps. A theorem that relies on one of
  them says so in a hypothesis, and its witness runs it with a concrete function.

  Bounds and fuel.  Loops over data are structural. The polling loop of the Komga gate has
  the fuel \<open>poll_fuel\<close>, enough for its deadline (\<open>poll_fuel_enough\<close>); the JSON
  parser and the regular expressions are given the length of the text, which bounds what they
  can consume. The waits of Chapter_Rebuild have the fuel \<open>wait_fuel\<close>, enough for their
  deadline (\<open>waits_return\<close>), and the query of Shelf_Bridge \<open>query_fuel\<close>
  (\<open>acquired_books_return\<close>); Mail_Migrate reads at most the four blocks the code reads. \<open>OutOfFuel\<close> is a value apart from every exception of Python.

  Simplifications.  Texts are UTF-8 bytes: lengths count bytes, case and classes are ASCII with
  bytes above 127 as letters, and the escapes \<open>json.dumps\<close> writes for non-ASCII
  characters are identified with the characters. Floats are exact rationals. Files have no
  permissions except in the publication protocol; writing never fails for want of space. Log
  output and command lines are left out. Pooled requests run one after the other, in the
  order the pool finishes them where that order shows.

  Lemmas beside the properties.  Theorems that stand without a number are as true as the
  numbered ones: the manifest lists the most telling properties of each component.

  Not modelled.  PROJECT.json lists the parts left out with the reason: one-off scripts run by hand
  with a review, reports over a database or a service, probes of the kernel, checks of the
  repository's own sources and tests, and everything that is Nix or shell.
\<close>

end
